(* ===== verification/Prelude.thy ===== *)
theory Prelude
  imports Main "HOL-Library.List_Lexorder" "HOL-Library.Char_ord" "HOL-Library.Multiset"
    "HOL-Library.AList" "HOL-Library.Sublist"
begin

text \<open>
  Shared ground of the development: the exceptions the Python code raises as values of one
  datatype, the result type of a fallible operation with its sequencing operator and its
  weakest-precondition predicate, the \<open>for\<close> loop over a list, the two dictionary
  operations that depend on insertion order, and generic facts on lists and cardinalities.

  An operation of the source that may raise has a model of type \<open>'s result\<close>; \<open>Inl e\<close>
  is the raised exception class, \<open>Inr s\<close> the state (or value) after a normal return.
  Exception messages are not modelled.
\<close>

section \<open>Exceptions and fallible results\<close>

datatype py_error =
    ValueError | TypeError | KeyError | IndexError | RuntimeError | AssertionError
  | PaxosError | PaxosProposalActive | PaxosSafetyViolation
  | ElectionSafetyViolation | LogMatchingViolation
  | StateMachineSafetyViolation | InvalidKVCommand | ClientRequestConflict
  | InvalidHistory | LinearizabilitySearchExhausted
  | MembershipChangeError | NonVoterElectionError | CommitRecoveryError
  | LeaderAppendOnlyViolation | LeaderCompletenessViolation
  | ReplicationError | ReplicationResponseMissing

type_synonym 'a result = "py_error + 'a"

definition and_then :: "'a result \<Rightarrow> ('a \<Rightarrow> 'b result) \<Rightarrow> 'b result" where
  "and_then m f = (case m of Inl e \<Rightarrow> Inl e | Inr x \<Rightarrow> f x)"

lemma and_then_simps [simp]:
  "and_then (Inl e) f = Inl e"
  "and_then (Inr x) f = f x"
  by (simp_all add: and_then_def)

lemma and_then_assoc: "and_then (and_then m f) g = and_then m (\<lambda>x. and_then (f x) g)"
  by (cases m) simp_all

lemma and_then_eq_Inr: "and_then m f = Inr y \<longleftrightarrow> (\<exists>x. m = Inr x \<and> f x = Inr y)"
  by (cases m) auto

lemma and_then_eq_Inl:
  "and_then m f = Inl e \<longleftrightarrow> m = Inl e \<or> (\<exists>x. m = Inr x \<and> f x = Inl e)"
  by (cases m) auto

text \<open>Congruences under which the simplifier runs a program call-by-value: the bound term first,
  the rest of the program only once it is a value.\<close>

lemma let_weak: "x = y \<Longrightarrow> Let x f = Let y f"
  by simp

lemma and_then_weak: "m = m' \<Longrightarrow> and_then m f = and_then m' f"
  by simp

lemmas eval_congs = let_weak and_then_weak

text \<open>
  \<open>outcome E P m\<close>: the operation either returns normally in a state satisfying \<open>P\<close>, or
  raises an exception that belongs to \<open>E\<close>. With \<open>E = {}\<close> it is total correctness.
\<close>

definition outcome :: "py_error set \<Rightarrow> ('a \<Rightarrow> bool) \<Rightarrow> 'a result \<Rightarrow> bool" where
  "outcome E P m = (case m of Inl e \<Rightarrow> e \<in> E | Inr x \<Rightarrow> P x)"

lemma outcome_simps [simp]:
  "outcome E P (Inl e) \<longleftrightarrow> e \<in> E"
  "outcome E P (Inr x) \<longleftrightarrow> P x"
  by (simp_all add: outcome_def)

lemma outcome_and_then [simp]:
  "outcome E P (and_then m f) \<longleftrightarrow> outcome E (\<lambda>x. outcome E P (f x)) m"
  by (cases m) simp_all

lemma outcome_mono:
  assumes "outcome E P m" and "\<And>x. P x \<Longrightarrow> Q x" and "E \<subseteq> F"
  shows "outcome F Q m"
  using assms by (cases m) auto

lemma outcome_weaken: "outcome E P m \<Longrightarrow> (\<And>x. P x \<Longrightarrow> Q x) \<Longrightarrow> outcome E Q m"
  by (cases m) auto

lemma outcome_allow: "outcome {} P m \<Longrightarrow> outcome E P m"
  by (cases m) auto

lemma outcome_insert: "outcome E P m \<Longrightarrow> outcome (insert e E) P m"
  by (cases m) auto

lemma outcome_conj: "outcome E P m \<Longrightarrow> outcome E Q m \<Longrightarrow> outcome E (\<lambda>x. P x \<and> Q x) m"
  by (cases m) auto

lemma outcome_Inr_iff: "outcome {} P m \<longleftrightarrow> (\<exists>x. m = Inr x \<and> P x)"
  by (cases m) auto

lemma outcomeD: "outcome E P m \<Longrightarrow> m = Inr x \<Longrightarrow> P x"
  by simp

lemma outcome_never: "outcome E P m \<Longrightarrow> e \<notin> E \<Longrightarrow> m \<noteq> Inl e"
  by auto

section \<open>Loops over lists\<close>

primrec for_each :: "('a \<Rightarrow> 's \<Rightarrow> 's result) \<Rightarrow> 'a list \<Rightarrow> 's \<Rightarrow> 's result" where
  "for_each f [] s = Inr s"
| "for_each f (x # xs) s = and_then (f x s) (for_each f xs)"

lemma outcome_for_each:
  assumes "P s" and "\<And>x s. x \<in> set xs \<Longrightarrow> P s \<Longrightarrow> outcome E P (f x s)"
  shows "outcome E P (for_each f xs s)"
  using assms
proof (induction xs arbitrary: s)
  case (Cons x xs)
  then have "outcome E P (f x s)" by simp
  then show ?case
    by (auto intro!: Cons.IH Cons.prems(2) elim: outcome_weaken)
qed simp

lemma for_each_append:
  "for_each f (xs @ ys) s = and_then (for_each f xs s) (for_each f ys)"
  by (induction xs arbitrary: s) (auto simp: and_then_def split: sum.split)

section \<open>Insertion-ordered dictionaries\<close>

text \<open>
  \<open>dict.setdefault(k, v)\<close> appends a missing key and leaves a present one alone. Assignment
  \<open>d[k] = v\<close> is \<^const>\<open>AList.update\<close>, which also keeps Python's insertion order.
\<close>

definition setdefault :: "'k \<Rightarrow> 'v \<Rightarrow> ('k \<times> 'v) list \<Rightarrow> ('k \<times> 'v) list" where
  "setdefault k v d = (if k \<in> fst ` set d then d else d @ [(k, v)])"

lemma keys_setdefault [simp]: "fst ` set (setdefault k v d) = insert k (fst ` set d)"
  by (auto simp: setdefault_def)

lemma map_of_setdefault:
  "map_of (setdefault k v d) x =
     (if x = k \<and> map_of d k = None then Some v else map_of d x)"
proof (cases "k \<in> fst ` set d")
  case True
  then have "map_of d k \<noteq> None" by (simp add: map_of_eq_None_iff)
  with True show ?thesis by (simp add: setdefault_def)
next
  case False
  then have "map_of d k = None" by (simp add: map_of_eq_None_iff)
  with False show ?thesis by (auto simp: setdefault_def map_add_def split: option.split)
qed

lemma distinct_setdefault:
  "distinct (map fst d) \<Longrightarrow> distinct (map fst (setdefault k v d))"
  by (auto simp: setdefault_def)

lemma set_setdefault_cases:
  "e \<in> set (setdefault k v d) \<Longrightarrow> e \<in> set d \<or> e = (k, v)"
  by (auto simp: setdefault_def split: if_splits)

section \<open>Counting\<close>

lemma length_distinct_keys: "distinct (map fst d) \<Longrightarrow> length d = card (fst ` set d)"
  by (metis distinct_card length_map list.set_map)

lemma card_overlap:
  assumes "finite E" and "S \<subseteq> E" and "T \<subseteq> E" and "card E < card S + card T"
  shows "S \<inter> T \<noteq> {}"
proof
  assume "S \<inter> T = {}"
  moreover have "finite S" "finite T" using assms finite_subset by blast+
  ultimately have "card (S \<union> T) = card S + card T" by (simp add: card_Un_disjoint)
  moreover have "card (S \<union> T) \<le> card E" using assms by (simp add: card_mono)
  ultimately show False using assms(4) by simp
qed

end
