(* ===== verification/Simulator.thy ===== *)
theory Simulator
  imports Prelude
begin

text \<open>
  The deterministic event simulator of \<^verbatim>\<open>src/src/distlab/simulator.py\<close>: fault rules and
  plans, the event queue, \<open>send\<close> with its fault, partition and latency semantics, the
  crash/restart boundary, link control, the delivery loops and scenario execution.

  The simulator is polymorphic: \<open>'p\<close> is the payload type of a protocol, \<open>'e\<close> the type of
  the trace records the protocol adds, \<open>'d\<close> and \<open>'v\<close> the contents of one node's entry of
  \<open>persistent_state\<close> and \<open>volatile_state\<close> (\<open>None\<close> is the cleared dictionary). Protocols
  extend the record with the attributes of their cluster objects. The dictionaries of
  callbacks hold functions on the extended state, so they are an argument (\<open>callbacks\<close>) of
  the operations that call them, and the record keeps the registered names.

  \<open>heapq\<close> is modelled by its contract: the queue is kept as the list in (time, sequence)
  order; \<open>heappush\<close> inserts, \<open>heappop\<close> takes the head.
\<close>

section \<open>Faults and messages\<close>

datatype fault_action = DELIVER | DROP | DELAY | DUPLICATE

record fault_rule =
  fr_action :: fault_action
  fr_src :: "string option"
  fr_dst :: "string option"
  fr_ordinal :: "int option"
  fr_payload_type :: "string option"
  fr_extra_delay :: int

definition FaultRule :: "fault_rule \<Rightarrow> fault_rule result" where
  "FaultRule r =
     (if fr_extra_delay r < 0 then Inl ValueError
      else if (case fr_ordinal r of None \<Rightarrow> False | Some n \<Rightarrow> n \<le> 0) then Inl ValueError
      else if fr_payload_type r = Some [] then Inl ValueError
      else Inr r)"

record 'p message =
  msg_src :: string
  msg_dst :: string
  msg_payload :: 'p
  msg_ordinal :: int
  msg_delivery_dst :: "string option"

definition rule_matches :: "('p \<Rightarrow> string) \<Rightarrow> fault_rule \<Rightarrow> 'p message \<Rightarrow> bool" where
  "rule_matches type_name r m \<longleftrightarrow>
     (fr_src r = None \<or> fr_src r = Some (msg_src m)) \<and>
     (fr_dst r = None \<or> fr_dst r = Some (msg_dst m)) \<and>
     (fr_ordinal r = None \<or> fr_ordinal r = Some (msg_ordinal m)) \<and>
     (fr_payload_type r = None \<or> fr_payload_type r = Some (type_name (msg_payload m)))"

definition deliver_rule :: fault_rule where
  "deliver_rule = \<lparr>fr_action = DELIVER, fr_src = None, fr_dst = None, fr_ordinal = None,
     fr_payload_type = None, fr_extra_delay = 0\<rparr>"

fun action_for :: "('p \<Rightarrow> string) \<Rightarrow> fault_rule list \<Rightarrow> 'p message \<Rightarrow> fault_rule" where
  "action_for type_name [] m = deliver_rule"
| "action_for type_name (r # rs) m =
     (if rule_matches type_name r m then r else action_for type_name rs m)"

record 'p scheduled_delivery =
  sd_time :: int
  sd_sequence :: int
  sd_message :: "'p message"

section \<open>Trace and state\<close>

text \<open>One constructor per trace kind of the simulator; \<open>TApp\<close> carries a protocol's record.\<close>

datatype ('p, 'e) trace_event =
    TSend string string int 'p string
  | TPartitionDrop string string int 'p
  | TDrop string string int 'p
  | TDuplicate string string int 'p int
  | TSchedule string string int 'p int int
  | TDiscardCrashed string string int 'p
  | TDeliver string string int 'p
  | TCrash string
  | TRestart string
  | TPartition "string list" "string list"
  | THealPartition "string list" "string list"
  | TBlockLink string string
  | THealLink string string
  | TSetLinkDelay string string int
  | TClearLinkDelay string string
  | TApp 'e

type_synonym ('p, 'e) trace_record = "int \<times> ('p, 'e) trace_event"

record ('p, 'e, 'd, 'v) simulator =
  sim_time :: int
  sim_sequence :: int
  sim_queue :: "'p scheduled_delivery list"
  sim_handlers :: "string list"
  sim_alive :: "string \<Rightarrow> bool"
  send_ordinals :: "string \<times> string \<Rightarrow> int"
  blocked_links :: "(string \<times> string) set"
  link_delays :: "string \<times> string \<Rightarrow> int option"
  fault_plan :: "fault_rule list"
  sim_trace :: "('p, 'e) trace_record list"
  persistent_state :: "string \<Rightarrow> 'd"
  volatile_state :: "string \<Rightarrow> 'v option"
  type_name :: "'p \<Rightarrow> string"

definition sim_init :: "fault_rule list \<Rightarrow> ('p \<Rightarrow> string) \<Rightarrow> (string \<Rightarrow> 'd) \<Rightarrow> ('p, 'e, 'd, 'v) simulator" where
  "sim_init plan names durable =
     \<lparr>sim_time = 0, sim_sequence = 0, sim_queue = [], sim_handlers = [],
      sim_alive = (\<lambda>_. True), send_ordinals = (\<lambda>_. 0), blocked_links = {},
      link_delays = Map.empty, fault_plan = plan, sim_trace = [],
      persistent_state = durable, volatile_state = Map.empty, type_name = names\<rparr>"

definition record_event ::
  "('p, 'e) trace_event \<Rightarrow> ('p, 'e, 'd, 'v, 'z) simulator_scheme \<Rightarrow> ('p, 'e, 'd, 'v, 'z) simulator_scheme" where
  "record_event ev s = s\<lparr>sim_trace := sim_trace s @ [(sim_time s, ev)]\<rparr>"

abbreviation record_app ::
  "'e \<Rightarrow> ('p, 'e, 'd, 'v, 'z) simulator_scheme \<Rightarrow> ('p, 'e, 'd, 'v, 'z) simulator_scheme" where
  "record_app e \<equiv> record_event (TApp e)"

definition is_alive :: "('p, 'e, 'd, 'v, 'z) simulator_scheme \<Rightarrow> string \<Rightarrow> bool" where
  "is_alive s n = sim_alive s n"

text \<open>\<open>persistent_state[n]\<close> updated by \<open>f\<close>.\<close>

definition set_durable ::
  "string \<Rightarrow> ('d \<Rightarrow> 'd) \<Rightarrow> ('p, 'e, 'd, 'v, 'z) simulator_scheme \<Rightarrow> ('p, 'e, 'd, 'v, 'z) simulator_scheme" where
  "set_durable n f s = s\<lparr>persistent_state := (persistent_state s)(n := f (persistent_state s n))\<rparr>"

section \<open>The event queue\<close>

definition sd_before :: "'p scheduled_delivery \<Rightarrow> 'p scheduled_delivery \<Rightarrow> bool" where
  "sd_before a b \<longleftrightarrow>
     sd_time a < sd_time b \<or> (sd_time a = sd_time b \<and> sd_sequence a < sd_sequence b)"

fun heappush :: "'p scheduled_delivery \<Rightarrow> 'p scheduled_delivery list \<Rightarrow> 'p scheduled_delivery list" where
  "heappush x [] = [x]"
| "heappush x (y # ys) = (if sd_before x y then x # y # ys else y # heappush x ys)"

fun heappop :: "'p scheduled_delivery list \<Rightarrow> ('p scheduled_delivery \<times> 'p scheduled_delivery list) option" where
  "heappop [] = None"
| "heappop (x # xs) = Some (x, xs)"

definition sim_schedule ::
  "'p message \<Rightarrow> int \<Rightarrow> ('p, 'e, 'd, 'v, 'z) simulator_scheme \<Rightarrow> ('p, 'e, 'd, 'v, 'z) simulator_scheme" where
  "sim_schedule m delay s =
     (let sq = sim_sequence s + 1;
          t = sim_time s + delay;
          s1 = s\<lparr>sim_sequence := sq,
                 sim_queue := heappush \<lparr>sd_time = t, sd_sequence = sq, sd_message = m\<rparr> (sim_queue s)\<rparr>
      in record_event
           (TSchedule (msg_src m) (msg_dst m) (msg_ordinal m) (msg_payload m) t sq) s1)"

section \<open>Sending\<close>

fun action_value :: "fault_action \<Rightarrow> string" where
  "action_value DELIVER = ''deliver''"
| "action_value DROP = ''drop''"
| "action_value DELAY = ''delay''"
| "action_value DUPLICATE = ''duplicate''"

definition sim_send ::
  "string \<Rightarrow> string \<Rightarrow> 'p \<Rightarrow> int \<Rightarrow> string option \<Rightarrow>
   ('p, 'e, 'd, 'v, 'z) simulator_scheme \<Rightarrow> ('p, 'e, 'd, 'v, 'z) simulator_scheme result" where
  "sim_send src dst payload delay delivery_dst s =
     (if delay < 0 then Inl ValueError
      else if (case delivery_dst of None \<Rightarrow> False | Some d \<Rightarrow> d \<notin> set (sim_handlers s)) then Inl ValueError
      else
        (let ord = send_ordinals s (src, dst) + 1;
             s1 = s\<lparr>send_ordinals := (send_ordinals s)((src, dst) := ord)\<rparr>;
             m = \<lparr>msg_src = src, msg_dst = dst, msg_payload = payload, msg_ordinal = ord,
                  msg_delivery_dst = delivery_dst\<rparr>
         in if (src, dst) \<in> blocked_links s1 then
              Inr (record_event (TPartitionDrop src dst ord payload)
                    (record_event (TSend src dst ord payload ''partition-drop'') s1))
            else
              (let rule = action_for (type_name s1) (fault_plan s1) m;
                   s2 = record_event (TSend src dst ord payload (action_value (fr_action rule))) s1
               in if fr_action rule = DROP then
                    Inr (record_event (TDrop src dst ord payload) s2)
                  else
                    (let link_delay = (case link_delays s2 (src, dst) of None \<Rightarrow> 0 | Some d \<Rightarrow> d);
                         fault_delay = (if fr_action rule = DELAY then fr_extra_delay rule else 0);
                         effective_delay = delay + link_delay + fault_delay;
                         s3 = sim_schedule m effective_delay s2
                     in if fr_action rule = DUPLICATE then
                          Inr (record_event (TDuplicate src dst ord payload (fr_extra_delay rule))
                                (sim_schedule m (effective_delay + fr_extra_delay rule) s3))
                        else Inr s3))))"

text \<open>\<open>sim.send(src, dst, payload)\<close> with its default arguments.\<close>

abbreviation send_msg ::
  "string \<Rightarrow> string \<Rightarrow> 'p \<Rightarrow> ('p, 'e, 'd, 'v, 'z) simulator_scheme \<Rightarrow> ('p, 'e, 'd, 'v, 'z) simulator_scheme result" where
  "send_msg src dst payload \<equiv> sim_send src dst payload 1 None"

section \<open>Registration, crash and restart\<close>

record ('p, 's) callbacks =
  on_message :: "string \<Rightarrow> 's \<Rightarrow> 'p message \<Rightarrow> 's result"
  on_crash :: "string \<Rightarrow> ('s \<Rightarrow> 's result) option"
  on_restart :: "string \<Rightarrow> ('s \<Rightarrow> 's result) option"

definition sim_register ::
  "string \<Rightarrow> ('p, 'e, 'd, 'v, 'z) simulator_scheme \<Rightarrow> ('p, 'e, 'd, 'v, 'z) simulator_scheme result" where
  "sim_register node s =
     (if node \<in> set (sim_handlers s) then Inl ValueError
      else Inr (s\<lparr>sim_handlers := sim_handlers s @ [node],
                  sim_alive := (sim_alive s)(node := True)\<rparr>))"

definition validate_node :: "('p, 'e, 'd, 'v, 'z) simulator_scheme \<Rightarrow> string \<Rightarrow> unit result" where
  "validate_node s node = (if node \<notin> set (sim_handlers s) then Inl ValueError else Inr ())"

definition call_optional :: "('s \<Rightarrow> 's result) option \<Rightarrow> 's \<Rightarrow> 's result" where
  "call_optional h s = (case h of None \<Rightarrow> Inr s | Some f \<Rightarrow> f s)"

definition sim_crash ::
  "('p, ('p, 'e, 'd, 'v, 'z) simulator_scheme) callbacks \<Rightarrow> string \<Rightarrow>
   ('p, 'e, 'd, 'v, 'z) simulator_scheme \<Rightarrow> ('p, 'e, 'd, 'v, 'z) simulator_scheme result" where
  "sim_crash cb node s =
     and_then (validate_node s node) (\<lambda>_.
       and_then (call_optional (on_crash cb node)
                  (record_event (TCrash node) (s\<lparr>sim_alive := (sim_alive s)(node := False)\<rparr>)))
         (\<lambda>s. Inr (s\<lparr>volatile_state := (volatile_state s)(node := None)\<rparr>)))"

definition sim_restart ::
  "('p, ('p, 'e, 'd, 'v, 'z) simulator_scheme) callbacks \<Rightarrow> string \<Rightarrow>
   ('p, 'e, 'd, 'v, 'z) simulator_scheme \<Rightarrow> ('p, 'e, 'd, 'v, 'z) simulator_scheme result" where
  "sim_restart cb node s =
     and_then (validate_node s node) (\<lambda>_.
       call_optional (on_restart cb node)
         (record_event (TRestart node)
           (s\<lparr>sim_alive := (sim_alive s)(node := True),
              volatile_state := (volatile_state s)(node := None)\<rparr>)))"

section \<open>Partitions, links and latency\<close>

definition validate_partition_groups ::
  "('p, 'e, 'd, 'v, 'z) simulator_scheme \<Rightarrow> string list \<Rightarrow> string list \<Rightarrow> (string list \<times> string list) result" where
  "validate_partition_groups s left right =
     (if left = [] \<or> right = [] then Inl ValueError
      else if card (set left) \<noteq> length left \<or> card (set right) \<noteq> length right then Inl ValueError
      else if set left \<inter> set right \<noteq> {} then Inl ValueError
      else if \<not> set left \<union> set right \<subseteq> set (sim_handlers s) then Inl ValueError
      else Inr (sort left, sort right))"

definition cross_links :: "string list \<Rightarrow> string list \<Rightarrow> (string \<times> string) set" where
  "cross_links left right = set left \<times> set right \<union> set right \<times> set left"

definition sim_partition ::
  "string list \<Rightarrow> string list \<Rightarrow> ('p, 'e, 'd, 'v, 'z) simulator_scheme \<Rightarrow> ('p, 'e, 'd, 'v, 'z) simulator_scheme result" where
  "sim_partition left right s =
     and_then (validate_partition_groups s left right) (\<lambda>(l, r).
       Inr (record_event (TPartition l r)
             (s\<lparr>blocked_links := blocked_links s \<union> cross_links l r\<rparr>)))"

definition sim_heal_partition ::
  "string list \<Rightarrow> string list \<Rightarrow> ('p, 'e, 'd, 'v, 'z) simulator_scheme \<Rightarrow> ('p, 'e, 'd, 'v, 'z) simulator_scheme result" where
  "sim_heal_partition left right s =
     and_then (validate_partition_groups s left right) (\<lambda>(l, r).
       Inr (record_event (THealPartition l r)
             (s\<lparr>blocked_links := blocked_links s - cross_links l r\<rparr>)))"

definition validate_link :: "('p, 'e, 'd, 'v, 'z) simulator_scheme \<Rightarrow> string \<Rightarrow> string \<Rightarrow> unit result" where
  "validate_link s src dst =
     (if src = dst then Inl ValueError
      else if \<not> {src, dst} \<subseteq> set (sim_handlers s) then Inl ValueError
      else Inr ())"

definition sim_block_link ::
  "string \<Rightarrow> string \<Rightarrow> ('p, 'e, 'd, 'v, 'z) simulator_scheme \<Rightarrow> ('p, 'e, 'd, 'v, 'z) simulator_scheme result" where
  "sim_block_link src dst s =
     and_then (validate_link s src dst) (\<lambda>_.
       Inr (record_event (TBlockLink src dst)
             (s\<lparr>blocked_links := insert (src, dst) (blocked_links s)\<rparr>)))"

definition sim_heal_link ::
  "string \<Rightarrow> string \<Rightarrow> ('p, 'e, 'd, 'v, 'z) simulator_scheme \<Rightarrow> ('p, 'e, 'd, 'v, 'z) simulator_scheme result" where
  "sim_heal_link src dst s =
     and_then (validate_link s src dst) (\<lambda>_.
       Inr (record_event (THealLink src dst)
             (s\<lparr>blocked_links := blocked_links s - {(src, dst)}\<rparr>)))"

definition sim_set_link_delay ::
  "string \<Rightarrow> string \<Rightarrow> int \<Rightarrow> ('p, 'e, 'd, 'v, 'z) simulator_scheme \<Rightarrow> ('p, 'e, 'd, 'v, 'z) simulator_scheme result" where
  "sim_set_link_delay src dst extra_delay s =
     and_then (validate_link s src dst) (\<lambda>_.
       if extra_delay \<le> 0 then Inl ValueError
       else Inr (record_event (TSetLinkDelay src dst extra_delay)
                  (s\<lparr>link_delays := (link_delays s)((src, dst) \<mapsto> extra_delay)\<rparr>)))"

definition sim_clear_link_delay ::
  "string \<Rightarrow> string \<Rightarrow> ('p, 'e, 'd, 'v, 'z) simulator_scheme \<Rightarrow> ('p, 'e, 'd, 'v, 'z) simulator_scheme result" where
  "sim_clear_link_delay src dst s =
     and_then (validate_link s src dst) (\<lambda>_.
       Inr (record_event (TClearLinkDelay src dst)
             (s\<lparr>link_delays := (link_delays s)((src, dst) := None)\<rparr>)))"

section \<open>The delivery loops\<close>

definition effective_dst :: "'p message \<Rightarrow> string" where
  "effective_dst m =
     (case msg_delivery_dst m of None \<Rightarrow> msg_dst m
      | Some d \<Rightarrow> if d = [] then msg_dst m else d)"

text \<open>The shared body of the loops of \<open>run\<close> and \<open>run_until_time\<close>: deliver the event \<open>d\<close>
  that was popped, leaving the queue \<open>q\<close>.\<close>

definition deliver_event ::
  "('p, ('p, 'e, 'd, 'v, 'z) simulator_scheme) callbacks \<Rightarrow> 'p scheduled_delivery \<Rightarrow>
   'p scheduled_delivery list \<Rightarrow>
   ('p, 'e, 'd, 'v, 'z) simulator_scheme \<Rightarrow> ('p, 'e, 'd, 'v, 'z) simulator_scheme result" where
  "deliver_event cb d q s =
     (let m = sd_message d;
          s1 = s\<lparr>sim_queue := q, sim_time := sd_time d\<rparr>
      in if \<not> sim_alive s1 (msg_dst m) then
           Inr (record_event
                 (TDiscardCrashed (msg_src m) (msg_dst m) (msg_ordinal m) (msg_payload m)) s1)
         else if effective_dst m \<notin> set (sim_handlers s1) then Inl KeyError
         else on_message cb (effective_dst m)
                (record_event
                  (TDeliver (msg_src m) (msg_dst m) (msg_ordinal m) (msg_payload m)) s1) m)"

partial_function (option) run_loop ::
  "('p, ('p, 'e, 'd, 'v, 'z) simulator_scheme) callbacks \<Rightarrow> int option \<Rightarrow> int \<Rightarrow>
   ('p, 'e, 'd, 'v, 'z) simulator_scheme \<Rightarrow> (int \<times> ('p, 'e, 'd, 'v, 'z) simulator_scheme) result option" where
  "run_loop cb max_events delivered s =
     (case heappop (sim_queue s) of
        None \<Rightarrow> Some (Inr (delivered, s))
      | Some (d, q) \<Rightarrow>
          (if (case max_events of None \<Rightarrow> False | Some k \<Rightarrow> k \<le> delivered) then Some (Inr (delivered, s))
           else (case deliver_event cb d q s of
                   Inl e \<Rightarrow> Some (Inl e)
                 | Inr s' \<Rightarrow> run_loop cb max_events (delivered + 1) s')))"

definition sim_run ::
  "('p, ('p, 'e, 'd, 'v, 'z) simulator_scheme) callbacks \<Rightarrow> int option \<Rightarrow>
   ('p, 'e, 'd, 'v, 'z) simulator_scheme \<Rightarrow> (int \<times> ('p, 'e, 'd, 'v, 'z) simulator_scheme) result option" where
  "sim_run cb max_events s =
     (if (case max_events of None \<Rightarrow> False | Some k \<Rightarrow> k < 0) then Some (Inl ValueError)
      else run_loop cb max_events 0 s)"

partial_function (option) run_until_loop ::
  "('p, ('p, 'e, 'd, 'v, 'z) simulator_scheme) callbacks \<Rightarrow> int \<Rightarrow> int \<Rightarrow>
   ('p, 'e, 'd, 'v, 'z) simulator_scheme \<Rightarrow> (int \<times> ('p, 'e, 'd, 'v, 'z) simulator_scheme) result option" where
  "run_until_loop cb deadline delivered s =
     (case heappop (sim_queue s) of
        None \<Rightarrow> Some (Inr (delivered, s\<lparr>sim_time := deadline\<rparr>))
      | Some (d, q) \<Rightarrow>
          (if sd_time d \<le> deadline then
             (case deliver_event cb d q s of
                Inl e \<Rightarrow> Some (Inl e)
              | Inr s' \<Rightarrow> run_until_loop cb deadline (delivered + 1) s')
           else Some (Inr (delivered, s\<lparr>sim_time := deadline\<rparr>))))"

definition sim_run_until_time ::
  "('p, ('p, 'e, 'd, 'v, 'z) simulator_scheme) callbacks \<Rightarrow> int \<Rightarrow>
   ('p, 'e, 'd, 'v, 'z) simulator_scheme \<Rightarrow> (int \<times> ('p, 'e, 'd, 'v, 'z) simulator_scheme) result option" where
  "sim_run_until_time cb deadline s =
     (if deadline < sim_time s then Some (Inl ValueError) else run_until_loop cb deadline 0 s)"

section \<open>Scenarios\<close>

text \<open>
  One constructor per action kind, with the optional fields the dispatcher checks;
  \<open>AUnknown\<close> is an action whose kind string the dispatcher does not know.
\<close>

datatype 'p scenario_action =
    ASend "string option" "string option" 'p int
  | ACrash "string option"
  | ARestart "string option"
  | APartition "string list" "string list"
  | AHealPartition "string list" "string list"
  | ABlockLink "string option" "string option"
  | AHealLink "string option" "string option"
  | ASetLinkDelay "string option" "string option" int
  | AClearLinkDelay "string option" "string option"
  | ARun "int option"
  | AUnknown string

definition with_link ::
  "string option \<Rightarrow> string option \<Rightarrow> (string \<Rightarrow> string \<Rightarrow> 's result) \<Rightarrow> 's result" where
  "with_link src dst f =
     (case (src, dst) of (Some a, Some b) \<Rightarrow> f a b | _ \<Rightarrow> Inl ValueError)"

definition with_node :: "string option \<Rightarrow> (string \<Rightarrow> 's result) \<Rightarrow> 's result" where
  "with_node node f = (case node of Some n \<Rightarrow> f n | None \<Rightarrow> Inl ValueError)"

fun scenario_step ::
  "('p, ('p, 'e, 'd, 'v, 'z) simulator_scheme) callbacks \<Rightarrow> 'p scenario_action \<Rightarrow>
   ('p, 'e, 'd, 'v, 'z) simulator_scheme \<Rightarrow> ('p, 'e, 'd, 'v, 'z) simulator_scheme result option" where
  "scenario_step cb (ASend src dst payload delay) s =
     Some (with_link src dst (\<lambda>a b. sim_send a b payload delay None s))"
| "scenario_step cb (ACrash node) s = Some (with_node node (\<lambda>n. sim_crash cb n s))"
| "scenario_step cb (ARestart node) s = Some (with_node node (\<lambda>n. sim_restart cb n s))"
| "scenario_step cb (APartition left right) s = Some (sim_partition left right s)"
| "scenario_step cb (AHealPartition left right) s = Some (sim_heal_partition left right s)"
| "scenario_step cb (ABlockLink src dst) s = Some (with_link src dst (\<lambda>a b. sim_block_link a b s))"
| "scenario_step cb (AHealLink src dst) s = Some (with_link src dst (\<lambda>a b. sim_heal_link a b s))"
| "scenario_step cb (ASetLinkDelay src dst d) s =
     Some (with_link src dst (\<lambda>a b. sim_set_link_delay a b d s))"
| "scenario_step cb (AClearLinkDelay src dst) s =
     Some (with_link src dst (\<lambda>a b. sim_clear_link_delay a b s))"
| "scenario_step cb (ARun max_events) s =
     map_option (map_sum id snd) (sim_run cb max_events s)"
| "scenario_step cb (AUnknown kind) s = Some (Inl ValueError)"

fun run_scenario ::
  "('p, ('p, 'e, 'd, 'v, 'z) simulator_scheme) callbacks \<Rightarrow> 'p scenario_action list \<Rightarrow>
   ('p, 'e, 'd, 'v, 'z) simulator_scheme \<Rightarrow> ('p, 'e, 'd, 'v, 'z) simulator_scheme result option" where
  "run_scenario cb [] s = map_option (map_sum id snd) (sim_run cb None s)"
| "run_scenario cb (a # as) s =
     (case scenario_step cb a s of
        None \<Rightarrow> None
      | Some (Inl e) \<Rightarrow> Some (Inl e)
      | Some (Inr s') \<Rightarrow> run_scenario cb as s')"

section \<open>The step relation of the simulated network\<close>

text \<open>
  Everything the simulator can do to a state between two protocol calls: deliver the next
  event, crash or restart a node, change partitions, links and latencies, or let logical
  time pass up to the next event (the last action of \<open>run_until_time\<close>).
\<close>

inductive sim_step ::
  "('p, ('p, 'e, 'd, 'v, 'z) simulator_scheme) callbacks \<Rightarrow>
   ('p, 'e, 'd, 'v, 'z) simulator_scheme \<Rightarrow> ('p, 'e, 'd, 'v, 'z) simulator_scheme \<Rightarrow> bool"
  for cb where
  step_deliver: "sim_queue s = d # q \<Longrightarrow> deliver_event cb d q s = Inr s' \<Longrightarrow> sim_step cb s s'"
| step_crash: "sim_crash cb n s = Inr s' \<Longrightarrow> sim_step cb s s'"
| step_restart: "sim_restart cb n s = Inr s' \<Longrightarrow> sim_step cb s s'"
| step_partition: "sim_partition l r s = Inr s' \<Longrightarrow> sim_step cb s s'"
| step_heal_partition: "sim_heal_partition l r s = Inr s' \<Longrightarrow> sim_step cb s s'"
| step_block: "sim_block_link a b s = Inr s' \<Longrightarrow> sim_step cb s s'"
| step_heal: "sim_heal_link a b s = Inr s' \<Longrightarrow> sim_step cb s s'"
| step_set_delay: "sim_set_link_delay a b d s = Inr s' \<Longrightarrow> sim_step cb s s'"
| step_clear_delay: "sim_clear_link_delay a b s = Inr s' \<Longrightarrow> sim_step cb s s'"
| step_wait: "sim_time s \<le> t \<Longrightarrow> (\<And>d q. sim_queue s = d # q \<Longrightarrow> t \<le> sd_time d) \<Longrightarrow>
     sim_step cb s (s\<lparr>sim_time := t\<rparr>)"

text \<open>Well-formed simulator states: the queue is in strict (time, sequence) order, holds no
  event from the past and no sequence number that was not issued, and no configured delay is
  negative.\<close>

definition sim_wf :: "('p, 'e, 'd, 'v, 'z) simulator_scheme \<Rightarrow> bool" where
  "sim_wf s \<longleftrightarrow>
     sorted_wrt sd_before (sim_queue s) \<and>
     (\<forall>d \<in> set (sim_queue s). sim_time s \<le> sd_time d \<and> sd_sequence d \<le> sim_sequence s) \<and>
     (\<forall>r \<in> set (fault_plan s). 0 \<le> fr_extra_delay r) \<and>
     (\<forall>l d. link_delays s l = Some d \<longrightarrow> 0 < d)"

text \<open>A send touches sequence numbers, queue, ordinals and trace only, and adds only records of
  the simulator itself to the trace.\<close>

definition core_frame ::
  "('p, 'e, 'd, 'v, 'z) simulator_scheme \<Rightarrow> ('p, 'e, 'd, 'v, 'z) simulator_scheme \<Rightarrow> bool" where
  "core_frame s s' \<longleftrightarrow>
     s' = s\<lparr>sim_sequence := sim_sequence s', sim_queue := sim_queue s',
            send_ordinals := send_ordinals s', sim_trace := sim_trace s'\<rparr> \<and>
     (\<exists>tr. sim_trace s' = sim_trace s @ tr \<and> (\<forall>x \<in> set tr. \<forall>e. snd x \<noteq> TApp e))"

definition sent ::
  "string \<Rightarrow> string \<Rightarrow> 'p \<Rightarrow> ('p, 'e, 'd, 'v, 'z) simulator_scheme \<Rightarrow>
   ('p, 'e, 'd, 'v, 'z) simulator_scheme \<Rightarrow> bool" where
  "sent src dst p s s' \<longleftrightarrow> core_frame s s' \<and>
     (\<forall>d \<in> set (sim_queue s'). d \<in> set (sim_queue s) \<or>
        (msg_src (sd_message d) = src \<and> msg_dst (sd_message d) = dst \<and>
         msg_payload (sd_message d) = p \<and> msg_delivery_dst (sd_message d) = None))"

section \<open>Queue facts\<close>

lemma sd_before_trans: "sd_before a b \<Longrightarrow> sd_before b c \<Longrightarrow> sd_before a c"
  by (auto simp: sd_before_def)

lemma sd_before_total:
  "sd_sequence a \<noteq> sd_sequence b \<Longrightarrow> \<not> sd_before a b \<Longrightarrow> sd_before b a"
  by (auto simp: sd_before_def)

lemma set_heappush [simp]: "set (heappush x q) = insert x (set q)"
  by (induction q) auto

lemma mset_heappush [simp]: "mset (heappush x q) = add_mset x (mset q)"
  by (induction q) auto

lemma sorted_heappush:
  assumes "sorted_wrt sd_before q" and "\<forall>d \<in> set q. sd_sequence d \<noteq> sd_sequence x"
  shows "sorted_wrt sd_before (heappush x q)"
  using assms
proof (induction q)
  case (Cons y ys)
  then show ?case
    by (auto dest: sd_before_total sd_before_trans)
qed simp

text \<open>
  The contract of \<open>heapq\<close> the simulator relies on, as an interface: pushing adds one
  element, popping takes a least one, and both keep the representation invariant.
\<close>

locale event_queue =
  fixes push :: "'a \<Rightarrow> 'q \<Rightarrow> 'q"
    and pop :: "'q \<Rightarrow> ('a \<times> 'q) option"
    and contents :: "'q \<Rightarrow> 'a multiset"
    and before :: "'a \<Rightarrow> 'a \<Rightarrow> bool"
    and admissible :: "'a \<Rightarrow> 'q \<Rightarrow> bool"
    and queue_inv :: "'q \<Rightarrow> bool"
  assumes contents_push: "contents (push x q) = add_mset x (contents q)"
    and queue_inv_push: "queue_inv q \<Longrightarrow> admissible x q \<Longrightarrow> queue_inv (push x q)"
    and pop_None: "pop q = None \<longleftrightarrow> contents q = {#}"
    and pop_Some: "pop q = Some (x, q') \<Longrightarrow> contents q = add_mset x (contents q')"
    and pop_least: "queue_inv q \<Longrightarrow> pop q = Some (x, q') \<Longrightarrow> y \<in># contents q' \<Longrightarrow> before x y"
    and queue_inv_pop: "queue_inv q \<Longrightarrow> pop q = Some (x, q') \<Longrightarrow> queue_inv q'"
begin

lemma pop_push_nonempty: "\<exists>y q'. pop (push x q) = Some (y, q')"
  using pop_None[of "push x q"] contents_push[of x q] by (cases "pop (push x q)") auto

lemma pop_push_least:
  assumes "queue_inv q" and "admissible x q" and "pop (push x q) = Some (y, q')"
  shows "y = x \<or> before y x"
proof -
  have "add_mset y (contents q') = add_mset x (contents q)"
    using pop_Some[OF assms(3)] contents_push[of x q] by simp
  then have "y = x \<or> x \<in># contents q'"
    by (metis insert_iff set_mset_add_mset_insert)
  then show ?thesis
    using pop_least[OF queue_inv_push[OF assms(1,2)] assms(3)] by blast
qed

end

interpretation heap: event_queue heappush heappop mset sd_before
  "\<lambda>x q. \<forall>d \<in> set q. sd_sequence d \<noteq> sd_sequence x" "sorted_wrt sd_before"
proof (unfold_locales, goal_cases)
  case (2 q x) then show ?case by (rule sorted_heappush)
next
  case (3 q) show ?case by (cases q) auto
next
  case (4 q x q') then show ?case by (cases q) auto
next
  case (5 q x q' y) then show ?case by (cases q) auto
next
  case (6 q x q') then show ?case by (cases q) auto
qed simp

section \<open>What the core operations change\<close>

lemma record_event_simps [simp]:
  "sim_time (record_event ev s) = sim_time s"
  "sim_sequence (record_event ev s) = sim_sequence s"
  "sim_queue (record_event ev s) = sim_queue s"
  "sim_handlers (record_event ev s) = sim_handlers s"
  "sim_alive (record_event ev s) = sim_alive s"
  "send_ordinals (record_event ev s) = send_ordinals s"
  "blocked_links (record_event ev s) = blocked_links s"
  "link_delays (record_event ev s) = link_delays s"
  "fault_plan (record_event ev s) = fault_plan s"
  "sim_trace (record_event ev s) = sim_trace s @ [(sim_time s, ev)]"
  "persistent_state (record_event ev s) = persistent_state s"
  "volatile_state (record_event ev s) = volatile_state s"
  "type_name (record_event ev s) = type_name s"
  by (simp_all add: record_event_def)

lemma core_frame_refl [simp]: "core_frame s s"
  by (simp add: core_frame_def)

lemma core_frame_trans:
  assumes "core_frame s t" and "core_frame t u"
  shows "core_frame s u"
proof -
  obtain tr tr' where "sim_trace t = sim_trace s @ tr" "\<forall>x \<in> set tr. \<forall>e. snd x \<noteq> TApp e"
    "sim_trace u = sim_trace t @ tr'" "\<forall>x \<in> set tr'. \<forall>e. snd x \<noteq> TApp e"
    using assms unfolding core_frame_def by blast
  then have "sim_trace u = sim_trace s @ (tr @ tr') \<and> (\<forall>x \<in> set (tr @ tr'). \<forall>e. snd x \<noteq> TApp e)"
    by auto
  moreover have "u = s\<lparr>sim_sequence := sim_sequence u, sim_queue := sim_queue u,
      send_ordinals := send_ordinals u, sim_trace := sim_trace u\<rparr>"
    using assms unfolding core_frame_def by (cases s, cases t, cases u) simp
  ultimately show ?thesis unfolding core_frame_def by blast
qed

lemma core_frame_record [intro!]:
  "core_frame s t \<Longrightarrow> (\<And>e. ev \<noteq> TApp e) \<Longrightarrow> core_frame s (record_event ev t)"
  by (rule core_frame_trans, assumption, cases t) (simp add: core_frame_def record_event_def)

lemma core_frame_schedule [intro!]: "core_frame s t \<Longrightarrow> core_frame s (sim_schedule m d t)"
  by (rule core_frame_trans, assumption, cases t)
    (simp add: core_frame_def sim_schedule_def record_event_def Let_def)

lemma core_frame_ordinals [simp]: "core_frame s (s\<lparr>send_ordinals := x\<rparr>)"
  by (cases s) (simp add: core_frame_def)

lemma core_frameE:
  assumes "core_frame s s'"
  obtains sq q os tr where
    "s' = s\<lparr>sim_sequence := sq, sim_queue := q, send_ordinals := os, sim_trace := sim_trace s @ tr\<rparr>"
    and "\<And>x e. x \<in> set tr \<Longrightarrow> snd x \<noteq> TApp e"
proof -
  from assms obtain tr where "sim_trace s' = sim_trace s @ tr" "\<forall>x \<in> set tr. \<forall>e. snd x \<noteq> TApp e"
    and s': "s' = s\<lparr>sim_sequence := sim_sequence s', sim_queue := sim_queue s',
      send_ordinals := send_ordinals s', sim_trace := sim_trace s'\<rparr>"
    unfolding core_frame_def by blast
  then have "s' = s\<lparr>sim_sequence := sim_sequence s', sim_queue := sim_queue s',
      send_ordinals := send_ordinals s', sim_trace := sim_trace s @ tr\<rparr>" by simp
  then show ?thesis by (rule that) (use \<open>\<forall>x \<in> set tr. \<forall>e. snd x \<noteq> TApp e\<close> in blast)
qed

lemma sim_queue_schedule:
  "d \<in> set (sim_queue (sim_schedule m dl s)) \<Longrightarrow> d \<in> set (sim_queue s) \<or> sd_message d = m"
  by (auto simp: sim_schedule_def Let_def)

lemma sent_outcome: "outcome {} (sent src dst p s) (send_msg src dst p s)"
  by (auto simp: sim_send_def Let_def sent_def split: option.split dest!: sim_queue_schedule)

lemma set_durable_simps [simp]:
  "sim_time (set_durable n f s) = sim_time s"
  "sim_sequence (set_durable n f s) = sim_sequence s"
  "sim_queue (set_durable n f s) = sim_queue s"
  "sim_handlers (set_durable n f s) = sim_handlers s"
  "sim_alive (set_durable n f s) = sim_alive s"
  "blocked_links (set_durable n f s) = blocked_links s"
  "link_delays (set_durable n f s) = link_delays s"
  "fault_plan (set_durable n f s) = fault_plan s"
  "sim_trace (set_durable n f s) = sim_trace s"
  "volatile_state (set_durable n f s) = volatile_state s"
  "persistent_state (set_durable n f s) = (persistent_state s)(n := f (persistent_state s n))"
  by (simp_all add: set_durable_def)

lemma sim_schedule_wf:
  assumes "sim_wf s" and "0 \<le> delay"
  shows "sim_wf (sim_schedule m delay s)"
proof -
  have "sorted_wrt sd_before
    (heappush \<lparr>sd_time = sim_time s + delay, sd_sequence = sim_sequence s + 1, sd_message = m\<rparr> (sim_queue s))"
    using assms by (intro sorted_heappush) (force simp: sim_wf_def)+
  then show ?thesis
    using assms by (force simp: sim_schedule_def sim_wf_def Let_def)
qed

lemma sim_wf_record [simp]: "sim_wf (record_event ev s) = sim_wf s"
  by (simp add: sim_wf_def)

lemma sim_wf_ordinals [simp]: "sim_wf (s\<lparr>send_ordinals := x\<rparr>) = sim_wf s"
  by (simp add: sim_wf_def)

lemma sim_schedule_simps [simp]:
  "link_delays (sim_schedule m d s) = link_delays s"
  "fault_plan (sim_schedule m d s) = fault_plan s"
  "blocked_links (sim_schedule m d s) = blocked_links s"
  "sim_time (sim_schedule m d s) = sim_time s"
  "persistent_state (sim_schedule m d s) = persistent_state s"
  "volatile_state (sim_schedule m d s) = volatile_state s"
  by (simp_all add: sim_schedule_def Let_def)

lemma action_for_cases:
  "action_for tn plan m = deliver_rule \<or> action_for tn plan m \<in> set plan"
  by (induction plan) auto

lemma action_for_delay_nonneg:
  "\<forall>r \<in> set plan. 0 \<le> fr_extra_delay r \<Longrightarrow> 0 \<le> fr_extra_delay (action_for tn plan m)"
  using action_for_cases[of tn plan m] by (auto simp: deliver_rule_def)

lemma link_delay_nonneg:
  "sim_wf s \<Longrightarrow> 0 \<le> (case link_delays s l of None \<Rightarrow> 0 | Some d \<Rightarrow> d)"
  by (cases l) (auto simp: sim_wf_def split: option.split dest!: spec intro: less_imp_le)

lemma sim_send_wf:
  assumes "sim_wf s" and "sim_send src dst p delay dd s = Inr s'"
  shows "sim_wf s'"
proof -
  define m where "m = \<lparr>msg_src = src, msg_dst = dst, msg_payload = p,
    msg_ordinal = send_ordinals s (src, dst) + 1, msg_delivery_dst = dd\<rparr>"
  define rule where "rule = action_for (type_name s) (fault_plan s) m"
  have rd: "0 \<le> fr_extra_delay rule"
    using assms(1) by (simp add: rule_def sim_wf_def action_for_delay_nonneg)
  have ld: "0 \<le> (case link_delays s (src, dst) of None \<Rightarrow> 0 | Some d \<Rightarrow> d)"
    using assms(1) by (rule link_delay_nonneg)
  show ?thesis
    using assms rd ld
    by (auto simp: sim_send_def Let_def m_def[symmetric] rule_def[symmetric]
        split: if_splits option.splits intro!: sim_schedule_wf)
qed

section \<open>Loops as sequences of steps\<close>

lemma run_loop_steps:
  assumes "run_loop cb k n s = Some (Inr (n', s'))"
  shows "(sim_step cb)\<^sup>*\<^sup>* s s'"
proof -
  have "\<forall>n' s'. r = Inr (n', s') \<longrightarrow> (sim_step cb)\<^sup>*\<^sup>* s s'" if "run_loop cb k n s = Some r" for r
  proof (rule run_loop.raw_induct
      [where P = "\<lambda>cb k n s r. \<forall>n' s'. r = Inr (n', s') \<longrightarrow> (sim_step cb)\<^sup>*\<^sup>* s s'", OF _ that])
    fix loop and cb :: "('a, ('a, 'b, 'c, 'd, 'e) simulator_scheme) callbacks" and k n s r
    assume IH: "\<And>cb k n s r. loop cb k n s = Some r \<Longrightarrow>
        \<forall>n' s'. r = Inr (n', s') \<longrightarrow> (sim_step cb)\<^sup>*\<^sup>* s s'"
      and eq: "(case heappop (sim_queue s) of None \<Rightarrow> Some (Inr (n, s))
        | Some (d, q) \<Rightarrow>
          if (case k of None \<Rightarrow> False | Some k \<Rightarrow> k \<le> n) then Some (Inr (n, s))
          else (case deliver_event cb d q s of Inl e \<Rightarrow> Some (Inl e)
                | Inr s' \<Rightarrow> loop cb k (n + 1) s')) = Some r"
    show "\<forall>n' s'. r = Inr (n', s') \<longrightarrow> (sim_step cb)\<^sup>*\<^sup>* s s'"
    proof (cases "sim_queue s")
      case Nil
      then show ?thesis using eq by auto
    next
      case (Cons d q)
      show ?thesis
      proof (cases "deliver_event cb d q s")
        case (Inl e)
        then show ?thesis using eq Cons by (auto split: if_splits)
      next
        case (Inr s1)
        then have "sim_step cb s s1" using Cons by (rule_tac sim_step.step_deliver)
        moreover have "\<forall>n' s'. r = Inr (n', s') \<longrightarrow> s' = s \<or> (sim_step cb)\<^sup>*\<^sup>* s1 s'"
          using eq Cons Inr IH[of cb k "n + 1" s1] by (auto split: if_splits)
        ultimately show ?thesis
          by (blast intro: converse_rtranclp_into_rtranclp)
      qed
    qed
  qed
  then show ?thesis using assms by blast
qed

lemma deliver_event_time:
  assumes "\<And>n s m s'. on_message cb n s m = Inr s' \<Longrightarrow> sim_time s' = sim_time s"
    and "deliver_event cb d q s = Inr s'"
  shows "sim_time s' = sd_time d"
  using assms(2) by (auto simp: deliver_event_def Let_def split: if_splits dest!: assms(1))

lemma run_until_loop_steps:
  assumes time: "\<And>n s m s'. on_message cb n s m = Inr s' \<Longrightarrow> sim_time s' = sim_time s"
    and "run_until_loop cb t n s = Some (Inr (n', s'))" and "sim_time s \<le> t"
  shows "(sim_step cb)\<^sup>*\<^sup>* s s' \<and> sim_time s' = t"
proof -
  let ?P = "\<lambda>c t n s r. \<forall>n' s'. c = cb \<longrightarrow> r = Inr (n', s') \<longrightarrow> sim_time s \<le> t \<longrightarrow>
    (sim_step cb)\<^sup>*\<^sup>* s s' \<and> sim_time s' = t"
  have "?P cb t n s r" if "run_until_loop cb t n s = Some r" for r
  proof (rule run_until_loop.raw_induct [where P = ?P, OF _ that])
    fix loop c t n s r
    assume IH: "\<And>c t n s r. loop c t n s = Some r \<Longrightarrow> ?P c t n s r"
      and eq: "(case heappop (sim_queue s) of None \<Rightarrow> Some (Inr (n, s\<lparr>sim_time := t\<rparr>))
        | Some (d, q) \<Rightarrow>
          if sd_time d \<le> t
          then (case deliver_event c d q s of Inl e \<Rightarrow> Some (Inl e)
                | Inr s' \<Rightarrow> loop c t (n + 1) s')
          else Some (Inr (n, s\<lparr>sim_time := t\<rparr>))) = Some r"
    show "?P c t n s r"
    proof (cases "sim_queue s")
      case Nil
      then have "sim_time s \<le> t \<Longrightarrow> sim_step cb s (s\<lparr>sim_time := t\<rparr>)"
        by (auto intro: sim_step.step_wait)
      with Nil show ?thesis using eq by auto
    next
      case (Cons d q)
      show ?thesis
      proof (cases "sd_time d \<le> t")
        case False
        with Cons have "sim_time s \<le> t \<Longrightarrow> sim_step cb s (s\<lparr>sim_time := t\<rparr>)"
          by (intro sim_step.step_wait) auto
        with False Cons show ?thesis using eq by auto
      next
        case True
        show ?thesis
        proof (cases "deliver_event c d q s")
          case (Inl e)
          then show ?thesis using eq Cons True by auto
        next
          case (Inr s1)
          have "sim_step cb s s1" if "c = cb"
            using Cons Inr that by (auto intro: sim_step.step_deliver)
          moreover have "sim_time s1 = sd_time d" if "c = cb"
            using deliver_event_time[of cb d q s s1, OF time] Inr that by simp
          moreover have "?P c t (n + 1) s1 r"
            using eq Cons True Inr by (intro IH) simp
          ultimately have "c = cb \<longrightarrow> r = Inr (n', s') \<longrightarrow> sim_time s \<le> t \<longrightarrow>
              (sim_step cb)\<^sup>*\<^sup>* s s' \<and> sim_time s' = t" for n' s'
            using True converse_rtranclp_into_rtranclp[of "sim_step cb" s s1 s'] by simp
          then show ?thesis by blast
        qed
      qed
    qed
  qed
  then show ?thesis using assms by blast
qed

section \<open>Protocols over the simulator\<close>

text \<open>
  The interface between the simulator and a protocol. A protocol supplies its callbacks, a
  state invariant and a predicate on messages; it promises that queued messages satisfy the
  predicate, that the invariant does not depend on time, trace, links or liveness, and that
  its callbacks keep the invariant or raise an exception of a given set \<open>E\<close>. The simulator
  gives back that every delivery, crash, restart and link operation keeps the invariant and
  that a delivery loop raises nothing outside \<open>E\<close>.
\<close>

locale protocol =
  fixes cb :: "('p, ('p, 'e, 'd, 'v, 'z) simulator_scheme) callbacks"
    and E :: "py_error set"
    and inv :: "('p, 'e, 'd, 'v, 'z) simulator_scheme \<Rightarrow> bool"
    and ok :: "('p, 'e, 'd, 'v, 'z) simulator_scheme \<Rightarrow> 'p message \<Rightarrow> bool"
  assumes inv_pop: "inv s \<Longrightarrow> sim_queue s = d # q \<Longrightarrow> inv (s\<lparr>sim_queue := q, sim_time := t\<rparr>)"
    and ok_pop: "inv s \<Longrightarrow> sim_queue s = d # q \<Longrightarrow>
      ok (s\<lparr>sim_queue := q, sim_time := t\<rparr>) (sd_message d)"
    and inv_record: "inv s \<Longrightarrow> (\<And>e. ev \<noteq> TApp e) \<Longrightarrow> inv (record_event ev s)"
    and ok_record: "ok s m \<Longrightarrow> (\<And>e. ev \<noteq> TApp e) \<Longrightarrow> ok (record_event ev s) m"
    and inv_alive: "inv s \<Longrightarrow> inv (s\<lparr>sim_alive := a\<rparr>)"
    and inv_links: "inv s \<Longrightarrow> inv (s\<lparr>blocked_links := b\<rparr>)"
    and inv_delays: "inv s \<Longrightarrow> inv (s\<lparr>link_delays := l\<rparr>)"
    and inv_time: "inv s \<Longrightarrow> inv (s\<lparr>sim_time := t\<rparr>)"
    and handler_known: "inv s \<Longrightarrow> ok s m \<Longrightarrow> effective_dst m \<in> set (sim_handlers s)"
    and message_inv: "inv s \<Longrightarrow> ok s m \<Longrightarrow> sim_alive s (msg_dst m) \<Longrightarrow>
      outcome E inv (on_message cb (effective_dst m) s m)"
    and crash_inv: "inv s \<Longrightarrow>
      outcome E (\<lambda>s. inv (s\<lparr>volatile_state := (volatile_state s)(n := None)\<rparr>))
        (call_optional (on_crash cb n) s)"
    and restart_inv: "inv s \<Longrightarrow>
      outcome E inv (call_optional (on_restart cb n)
        (record_event (TRestart n) (s\<lparr>volatile_state := (volatile_state s)(n := None)\<rparr>)))"
begin

lemma deliver_inv:
  assumes "inv s" and "sim_queue s = d # q"
  shows "outcome E inv (deliver_event cb d q s)"
proof -
  let ?s1 = "s\<lparr>sim_queue := q, sim_time := sd_time d\<rparr>"
  have "inv ?s1" and "ok ?s1 (sd_message d)"
    using assms by (auto intro: inv_pop ok_pop)
  then show ?thesis
    using handler_known[of ?s1 "sd_message d"]
    by (auto simp: deliver_event_def Let_def intro!: message_inv inv_record ok_record)
qed

lemma crash_outcome:
  assumes "inv s"
  shows "outcome (insert ValueError E) inv (sim_crash cb n s)"
proof -
  have "inv (record_event (TCrash n) (s\<lparr>sim_alive := (sim_alive s)(n := False)\<rparr>))"
    using assms by (intro inv_record inv_alive) auto
  from outcome_insert[OF crash_inv[OF this, of n]] show ?thesis
    by (simp add: sim_crash_def validate_node_def)
qed

lemma restart_outcome:
  assumes "inv s"
  shows "outcome (insert ValueError E) inv (sim_restart cb n s)"
proof -
  have "inv (s\<lparr>sim_alive := (sim_alive s)(n := True)\<rparr>)"
    using assms by (rule inv_alive)
  from outcome_insert[OF restart_inv[OF this, of n]] show ?thesis
    by (simp add: sim_restart_def validate_node_def)
qed

lemma step_inv: "sim_step cb s s' \<Longrightarrow> inv s \<Longrightarrow> inv s'"
proof (induction rule: sim_step.induct)
  case (step_deliver s d q s')
  then show ?case using deliver_inv[of s d q] by simp
next
  case (step_crash n s s')
  then show ?case using crash_outcome[of s n] by simp
next
  case (step_restart n s s')
  then show ?case using restart_outcome[of s n] by simp
qed (auto simp: sim_partition_def sim_heal_partition_def sim_block_link_def sim_heal_link_def
    sim_set_link_delay_def sim_clear_link_delay_def and_then_eq_Inr
    intro!: inv_record inv_links inv_delays inv_time split: if_splits)

lemma steps_inv: "(sim_step cb)\<^sup>*\<^sup>* s s' \<Longrightarrow> inv s \<Longrightarrow> inv s'"
  by (induction rule: rtranclp_induct) (auto intro: step_inv)

lemma run_loop_outcome:
  assumes "run_loop cb k n s = Some r" and "inv s"
  shows "outcome E (\<lambda>(n, s). inv s) r"
proof -
  have "\<forall>_::unit. c = cb \<longrightarrow> inv s \<longrightarrow> outcome E (\<lambda>(n, s). inv s) r"
    if "run_loop c k n s = Some r" for c k n s r
  proof (rule run_loop.raw_induct
      [where P = "\<lambda>c k n s r. \<forall>_::unit. c = cb \<longrightarrow> inv s \<longrightarrow> outcome E (\<lambda>(n, s). inv s) r", OF _ that])
    fix loop c k n s r
    assume IH: "\<And>c k n s r. loop c k n s = Some r \<Longrightarrow>
        \<forall>_::unit. c = cb \<longrightarrow> inv s \<longrightarrow> outcome E (\<lambda>(n, s). inv s) r"
      and eq: "(case heappop (sim_queue s) of None \<Rightarrow> Some (Inr (n, s))
        | Some (d, q) \<Rightarrow>
          if (case k of None \<Rightarrow> False | Some k \<Rightarrow> k \<le> n) then Some (Inr (n, s))
          else (case deliver_event c d q s of Inl e \<Rightarrow> Some (Inl e)
                | Inr s' \<Rightarrow> loop c k (n + 1) s')) = Some r"
    have "outcome E (\<lambda>(n, s). inv s) r" if c: "c = cb" and i: "inv s"
    proof (cases "sim_queue s")
      case Nil
      then show ?thesis using eq i by auto
    next
      case (Cons d q)
      show ?thesis
      proof (cases "deliver_event cb d q s")
        case (Inl e)
        then show ?thesis using eq Cons i c deliver_inv[OF i Cons] by (auto split: if_splits)
      next
        case (Inr s1)
        then have "inv s1" using deliver_inv[OF i Cons] by simp
        then show ?thesis using eq Cons Inr i c IH[of cb k "n + 1" s1 r] by (auto split: if_splits)
      qed
    qed
    then show "\<forall>_::unit. c = cb \<longrightarrow> inv s \<longrightarrow> outcome E (\<lambda>(n, s). inv s) r" by blast
  qed
  then show ?thesis using assms by blast
qed

end

end
