(* ===== verification/Quorums.thy ===== *)
theory Quorums
  imports Prelude
begin

text \<open>
  The mathematics the consensus protocols of the laboratory share: majorities, and the
  specification of ballot voting that every Paxos variant refines. \<open>votes a\<close> is the set of
  (ballot, value) pairs acceptor \<open>a\<close> has ever accepted (the code keeps it durably as
  \<open>accept_history\<close>), \<open>promised a\<close> the highest ballot it has promised. The interface
  \<open>quorum_system\<close> asks of a quorum predicate only that two quorums meet; agreement, the
  stability of safe ballots and the correctness of the Phase-1 value choice are proved
  inside it once and used by each protocol through its interpretation.
\<close>

section \<open>Majorities\<close>

definition quorum_size :: "'a list \<Rightarrow> nat" where
  "quorum_size ids = length ids div 2 + 1"

definition majority :: "'a list \<Rightarrow> 'a set \<Rightarrow> bool" where
  "majority ids Q \<longleftrightarrow> Q \<subseteq> set ids \<and> quorum_size ids \<le> card Q"

section \<open>Ballot voting\<close>

definition beyond :: "'b option \<Rightarrow> 'b::linorder \<Rightarrow> bool" where
  "beyond p c = (case p of None \<Rightarrow> False | Some m \<Rightarrow> c < m)"

definition safe_at ::
  "('a set \<Rightarrow> bool) \<Rightarrow> ('a \<Rightarrow> ('b \<times> 'v) set) \<Rightarrow> ('a \<Rightarrow> 'b option) \<Rightarrow> 'b::linorder \<Rightarrow> 'v \<Rightarrow> bool" where
  "safe_at quorum votes promised b v \<longleftrightarrow>
     (\<forall>c < b. \<exists>Q. quorum Q \<and> (\<forall>a \<in> Q.
        (\<forall>w. (c, w) \<in> votes a \<longrightarrow> w = v) \<and> ((c, v) \<in> votes a \<or> beyond (promised a) c)))"

definition chosen_at :: "('a set \<Rightarrow> bool) \<Rightarrow> ('a \<Rightarrow> ('b \<times> 'v) set) \<Rightarrow> 'b \<Rightarrow> 'v \<Rightarrow> bool" where
  "chosen_at quorum votes b v \<longleftrightarrow> (\<exists>Q. quorum Q \<and> (\<forall>a \<in> Q. (b, v) \<in> votes a))"

text \<open>No acceptor votes for two values at one ballot.\<close>

definition one_vote :: "('a \<Rightarrow> ('b \<times> 'v) set) \<Rightarrow> bool" where
  "one_vote votes \<longleftrightarrow> (\<forall>a b v w. (b, v) \<in> votes a \<longrightarrow> (b, w) \<in> votes a \<longrightarrow> v = w)"

definition all_safe ::
  "('a set \<Rightarrow> bool) \<Rightarrow> ('a \<Rightarrow> ('b \<times> 'v) set) \<Rightarrow> ('a \<Rightarrow> 'b::linorder option) \<Rightarrow> bool" where
  "all_safe quorum votes promised \<longleftrightarrow>
     (\<forall>a b v. (b, v) \<in> votes a \<longrightarrow> safe_at quorum votes promised b v)"

text \<open>How acceptors may evolve: votes are never withdrawn, promises never lowered, and a vote
  is only cast at a ballot that the acceptor has not promised beyond.\<close>

definition acceptors_grow ::
  "('a \<Rightarrow> ('b \<times> 'v) set) \<Rightarrow> ('a \<Rightarrow> 'b::linorder option) \<Rightarrow>
   ('a \<Rightarrow> ('b \<times> 'v) set) \<Rightarrow> ('a \<Rightarrow> 'b option) \<Rightarrow> bool" where
  "acceptors_grow votes promised votes' promised' \<longleftrightarrow>
     (\<forall>a. votes a \<subseteq> votes' a) \<and>
     (\<forall>a c w. (c, w) \<in> votes' a \<longrightarrow> (c, w) \<in> votes a \<or> \<not> beyond (promised a) c) \<and>
     (\<forall>a c. beyond (promised a) c \<longrightarrow> beyond (promised' a) c)"

lemma beyond_simps [simp]: "beyond None c = False" "beyond (Some m) c = (c < m)"
  by (auto simp: beyond_def)

lemma acceptors_grow_refl [simp]: "acceptors_grow votes promised votes promised"
  by (simp add: acceptors_grow_def)

lemma acceptors_grow_trans:
  assumes "acceptors_grow v p v' p'" and "acceptors_grow v' p' v'' p''"
  shows "acceptors_grow v p v'' p''"
  using assms unfolding acceptors_grow_def by (metis subset_trans)

lemma safe_at_stable:
  assumes "acceptors_grow votes promised votes' promised'" and "one_vote votes'"
    and "safe_at quorum votes promised b v"
  shows "safe_at quorum votes' promised' b v"
  unfolding safe_at_def
proof (intro allI impI)
  fix c assume "c < b"
  then obtain Q where Q: "quorum Q"
    and old: "\<And>a. a \<in> Q \<Longrightarrow> (\<forall>w. (c, w) \<in> votes a \<longrightarrow> w = v) \<and> ((c, v) \<in> votes a \<or> beyond (promised a) c)"
    using assms(3) unfolding safe_at_def by blast
  have "(\<forall>w. (c, w) \<in> votes' a \<longrightarrow> w = v) \<and> ((c, v) \<in> votes' a \<or> beyond (promised' a) c)"
    if "a \<in> Q" for a
    using old[OF that] assms(1,2) unfolding acceptors_grow_def one_vote_def by blast
  with Q show "\<exists>Q. quorum Q \<and> (\<forall>a \<in> Q.
      (\<forall>w. (c, w) \<in> votes' a \<longrightarrow> w = v) \<and> ((c, v) \<in> votes' a \<or> beyond (promised' a) c))" by blast
qed

lemma chosen_at_stable:
  "acceptors_grow votes promised votes' promised' \<Longrightarrow> chosen_at quorum votes b v \<Longrightarrow>
   chosen_at quorum votes' b v"
  unfolding chosen_at_def acceptors_grow_def by (meson subsetD)

section \<open>The quorum interface\<close>

locale quorum_system =
  fixes quorum :: "'a set \<Rightarrow> bool"
  assumes quorum_meet: "quorum P \<Longrightarrow> quorum Q \<Longrightarrow> P \<inter> Q \<noteq> {}"
begin

lemma quorum_nonempty: "quorum Q \<Longrightarrow> Q \<noteq> {}"
  using quorum_meet by blast

lemma chosen_voted: "chosen_at quorum votes b v \<Longrightarrow> \<exists>a. (b, v) \<in> votes a"
  unfolding chosen_at_def using quorum_nonempty by blast

lemma agreement:
  assumes safe: "all_safe quorum votes promised" and one: "one_vote votes"
    and b: "chosen_at quorum votes b v" and c: "chosen_at quorum votes c w"
  shows "v = w"
proof -
  have lower: "x = y" if xy: "chosen_at quorum votes d x" "chosen_at quorum votes e y" "d < e"
    for d e x y
  proof -
    obtain Q Q' where Q: "quorum Q" "\<And>a. a \<in> Q \<Longrightarrow> (d, x) \<in> votes a"
      and Q': "quorum Q'" "\<And>a. a \<in> Q' \<Longrightarrow> (e, y) \<in> votes a"
      using xy unfolding chosen_at_def by blast
    obtain a where "(e, y) \<in> votes a" using Q' quorum_nonempty by blast
    then have "safe_at quorum votes promised e y" using safe unfolding all_safe_def by blast
    then obtain P where "quorum P" "\<And>a z. a \<in> P \<Longrightarrow> (d, z) \<in> votes a \<Longrightarrow> z = y"
      using \<open>d < e\<close> unfolding safe_at_def by blast
    then show ?thesis using quorum_meet[OF Q(1)] Q(2) by blast
  qed
  have same: "v = w" if eq: "b = c"
  proof -
    obtain Q Q' where Q: "quorum Q" "\<And>a. a \<in> Q \<Longrightarrow> (b, v) \<in> votes a"
      and Q': "quorum Q'" "\<And>a. a \<in> Q' \<Longrightarrow> (b, w) \<in> votes a"
      using b c eq unfolding chosen_at_def by blast
    then show ?thesis using quorum_meet[OF Q(1) Q'(1)] one unfolding one_vote_def by blast
  qed
  show ?thesis
  proof (cases b c rule: linorder_cases)
    case less
    with b c show ?thesis by (rule lower)
  next
    case equal
    then show ?thesis by (rule same)
  next
    case greater
    with c b have "w = v" by (rule lower)
    then show ?thesis ..
  qed
qed

text \<open>Phase 1: a quorum has promised \<open>b\<close> and each member reported its highest vote below
  \<open>b\<close>; the value of the highest report (any value when there is none) is safe at \<open>b\<close>.\<close>

lemma phase1_safe:
  assumes safe: "all_safe quorum votes promised" and one: "one_vote votes"
    and Q: "quorum Q"
    and prom: "\<And>a c. a \<in> Q \<Longrightarrow> c < b \<Longrightarrow> beyond (promised a) c"
    and none: "\<And>a c w. a \<in> Q \<Longrightarrow> report a = None \<Longrightarrow> c < b \<Longrightarrow> (c, w) \<notin> votes a"
    and some: "\<And>a m w. a \<in> Q \<Longrightarrow> report a = Some (m, w) \<Longrightarrow> m < b \<and> (m, w) \<in> votes a"
    and high: "\<And>a m w c u. a \<in> Q \<Longrightarrow> report a = Some (m, w) \<Longrightarrow> c < b \<Longrightarrow> (c, u) \<in> votes a \<Longrightarrow> c \<le> m"
    and pick: "(\<forall>a \<in> Q. report a = None) \<or>
      (\<exists>a \<in> Q. \<exists>m. report a = Some (m, v) \<and>
        (\<forall>a' \<in> Q. \<forall>m' w. report a' = Some (m', w) \<longrightarrow> m' < m \<or> m' = m \<and> w = v))"
  shows "safe_at quorum votes promised b v"
  unfolding safe_at_def
proof (intro allI impI)
  fix c assume c: "c < b"
  let ?goal = "\<exists>Q. quorum Q \<and> (\<forall>a \<in> Q.
    (\<forall>w. (c, w) \<in> votes a \<longrightarrow> w = v) \<and> ((c, v) \<in> votes a \<or> beyond (promised a) c))"
  from pick show ?goal
  proof
    assume "\<forall>a \<in> Q. report a = None"
    then show ?goal using Q c none prom by blast
  next
    assume "\<exists>a \<in> Q. \<exists>m. report a = Some (m, v) \<and>
      (\<forall>a' \<in> Q. \<forall>m' w. report a' = Some (m', w) \<longrightarrow> m' < m \<or> m' = m \<and> w = v)"
    then obtain a m where a: "a \<in> Q" "report a = Some (m, v)"
      and top: "\<And>a' m' w. a' \<in> Q \<Longrightarrow> report a' = Some (m', w) \<Longrightarrow> m' < m \<or> m' = m \<and> w = v" by blast
    have mv: "m < b" "(m, v) \<in> votes a" using some a by blast+
    have below: "x < m \<or> x = m \<and> u = v" if "a' \<in> Q" "x < b" "(x, u) \<in> votes a'" for a' x u
    proof (cases "report a'")
      case None
      then show ?thesis using none[of a' x u] that by blast
    next
      case (Some r)
      obtain m' w where r: "report a' = Some (m', w)" using Some by (cases r) simp
      show ?thesis
        using top[OF that(1) r] high[OF that(1) r that(2,3)] some[OF that(1) r] that(3) one
        unfolding one_vote_def by (metis le_neq_trans order.strict_trans)
    qed
    show ?goal
    proof (cases "c < m")
      case True
      have "safe_at quorum votes promised m v" using safe mv unfolding all_safe_def by blast
      with True show ?goal unfolding safe_at_def by blast
    next
      case False
      have "w = v" if "a' \<in> Q" "(c, w) \<in> votes a'" for a' w
        using below[OF that(1) c that(2)] False by blast
      with Q c prom show ?goal by blast
    qed
  qed
qed

end

section \<open>Majorities are quorums\<close>

lemma quorum_size_half: "quorum_size ids \<le> c \<longleftrightarrow> length ids < 2 * c"
  unfolding quorum_size_def by presburger

lemma majority_meet: "majority ids P \<Longrightarrow> majority ids Q \<Longrightarrow> P \<inter> Q \<noteq> {}"
proof -
  assume P: "majority ids P" and Q: "majority ids Q"
  have "card (set ids) \<le> length ids" by (rule card_length)
  then show "P \<inter> Q \<noteq> {}"
    using P Q by (intro card_overlap[of "set ids"]) (auto simp: majority_def quorum_size_def)
qed

interpretation maj: quorum_system "majority ids" for ids
  by unfold_locales (rule majority_meet)

end
