(* ===== verification/Paxos.thy ===== *)
theory Paxos
  imports Simulator Quorums
begin

text \<open>
  Single-decree Paxos, \<^verbatim>\<open>src/src/distlab/paxos.py\<close>: proposal numbers, messages, the
  proposer/acceptor/learner node with its durable and volatile state, the cluster's record of
  the chosen value, and the safety harness. The direct calls a node makes to its own handlers
  (a proposer is its own acceptor and learner) are nested calls here too.

  The values being agreed on are an arbitrary type \<open>'v\<close>. Python's dynamic type checks on
  durable state are discharged by the types; every other check is a branch.
\<close>

section \<open>Proposal numbers\<close>

datatype proposal_number = PN (pn_round: int) (pn_proposer: string)

instantiation proposal_number :: linorder
begin

definition less_eq_proposal_number :: "proposal_number \<Rightarrow> proposal_number \<Rightarrow> bool" where
  "a \<le> b \<longleftrightarrow> pn_round a < pn_round b \<or> (pn_round a = pn_round b \<and> pn_proposer a \<le> pn_proposer b)"

definition less_proposal_number :: "proposal_number \<Rightarrow> proposal_number \<Rightarrow> bool" where
  "a < b \<longleftrightarrow> pn_round a < pn_round b \<or> (pn_round a = pn_round b \<and> pn_proposer a < pn_proposer b)"

instance
proof (standard, goal_cases)
  case (1 x y)
  then show ?case by (auto simp: less_eq_proposal_number_def less_proposal_number_def)
next
  case (2 x)
  then show ?case by (simp add: less_eq_proposal_number_def)
next
  case (3 x y z)
  then show ?case by (auto simp: less_eq_proposal_number_def)
next
  case (4 x y)
  then show ?case by (cases x, cases y) (auto simp: less_eq_proposal_number_def)
next
  case (5 x y)
  then show ?case by (auto simp: less_eq_proposal_number_def)
qed

end

definition ProposalNumber :: "int \<Rightarrow> string \<Rightarrow> proposal_number result" where
  "ProposalNumber rnd proposer =
     (if rnd \<le> 0 then Inl ValueError
      else if proposer = [] then Inl ValueError
      else Inr (PN rnd proposer))"

section \<open>Values, messages and state\<close>

datatype 'v accepted_value = AcceptedValue (av_proposal: proposal_number) (av_value: 'v)

datatype 'v learned_decision = LearnedDecision (ld_proposal: proposal_number) (ld_value: 'v)

datatype 'v promise =
  Promise (pr_proposal: proposal_number) (pr_acceptor: string) (pr_accepted: "'v accepted_value option")

text \<open>The payloads of the protocol; \<open>Foreign\<close> is a payload of any other Python type.\<close>

datatype 'v paxos_msg =
    Prepare proposal_number string
  | PromiseMsg "'v promise"
  | AcceptRequest proposal_number string 'v
  | Accepted proposal_number string 'v
  | Learn proposal_number string 'v
  | Foreign string

fun paxos_type_name :: "'v paxos_msg \<Rightarrow> string" where
  "paxos_type_name (Prepare _ _) = ''Prepare''"
| "paxos_type_name (PromiseMsg _) = ''Promise''"
| "paxos_type_name (AcceptRequest _ _ _) = ''AcceptRequest''"
| "paxos_type_name (Accepted _ _ _) = ''Accepted''"
| "paxos_type_name (Learn _ _ _) = ''Learn''"
| "paxos_type_name (Foreign name) = name"

definition make_prepare :: "proposal_number \<Rightarrow> string \<Rightarrow> 'v paxos_msg result" where
  "make_prepare p proposer =
     (if proposer \<noteq> pn_proposer p then Inl ValueError else Inr (Prepare p proposer))"

definition make_accept_request :: "proposal_number \<Rightarrow> string \<Rightarrow> 'v \<Rightarrow> 'v paxos_msg result" where
  "make_accept_request p proposer v =
     (if proposer \<noteq> pn_proposer p then Inl ValueError else Inr (AcceptRequest p proposer v))"

record 'v proposal_state =
  ps_proposal :: proposal_number
  ps_original :: 'v
  ps_promises :: "(string \<times> 'v promise) list"
  ps_accepted_by :: "string set"
  ps_chosen_value :: "'v option"
  ps_started :: bool

record 'v paxos_durable =
  px_promised :: "proposal_number option"
  px_accepted :: "'v accepted_value option"
  px_history :: "'v accepted_value list"
  px_learned :: "'v learned_decision option"
  px_last_round :: int

definition fresh_durable :: "'v paxos_durable" where
  "fresh_durable = \<lparr>px_promised = None, px_accepted = None, px_history = [], px_learned = None,
     px_last_round = 0\<rparr>"

datatype 'v paxos_event =
    EvProposalStart string proposal_number 'v
  | EvPrepareRejected string proposal_number proposal_number
  | EvPromise string string proposal_number "'v accepted_value option"
  | EvStalePromise string string proposal_number
  | EvAcceptPhaseStart string proposal_number 'v "string list"
  | EvAcceptRejected string proposal_number proposal_number
  | EvAccepted string string proposal_number 'v
  | EvStaleAccepted string string proposal_number
  | EvChosen proposal_number 'v "string list"
  | EvLearned string proposal_number 'v
  | EvEnvelopeRejected string string string "string option" string "'v paxos_msg"
  | EvNodeCrash string "proposal_number option"
  | EvNodeRestart string "proposal_number option" "'v accepted_value option" "'v learned_decision option"

record 'v paxos = "('v paxos_msg, 'v paxos_event, 'v paxos_durable, unit) simulator" +
  px_node_ids :: "string list"
  px_proposal :: "string \<Rightarrow> 'v proposal_state option"
  px_chosen :: "'v learned_decision option"
  px_chosen_acceptors :: "string list"

definition px_peers :: "'v paxos \<Rightarrow> string \<Rightarrow> string list" where
  "px_peers s n = filter (\<lambda>peer. peer \<noteq> n) (px_node_ids s)"

definition px_quorum :: "'v paxos \<Rightarrow> nat" where
  "px_quorum s = quorum_size (px_node_ids s)"

definition set_proposal :: "string \<Rightarrow> 'v proposal_state option \<Rightarrow> 'v paxos \<Rightarrow> 'v paxos" where
  "set_proposal n st s = s\<lparr>px_proposal := (px_proposal s)(n := st)\<rparr>"

abbreviation px_broadcast :: "string \<Rightarrow> 'v paxos_msg \<Rightarrow> 'v paxos \<Rightarrow> 'v paxos result" where
  "px_broadcast n m s \<equiv> for_each (\<lambda>peer. send_msg n peer m) (px_peers s n) s"

section \<open>Durable-state validation\<close>

fun check_history :: "(proposal_number \<times> 'v) list \<Rightarrow> 'v accepted_value list \<Rightarrow> unit result" where
  "check_history seen [] = Inr ()"
| "check_history seen (item # items) =
     (case map_of seen (av_proposal item) of
        Some v \<Rightarrow> if v \<noteq> av_value item then Inl PaxosSafetyViolation
                  else check_history (AList.update (av_proposal item) (av_value item) seen) items
      | None \<Rightarrow> check_history (AList.update (av_proposal item) (av_value item) seen) items)"

definition validate_durable :: "'v paxos_durable \<Rightarrow> unit result" where
  "validate_durable d =
     (if px_last_round d < 0 then Inl TypeError
      else if (case (px_accepted d, px_promised d) of
                 (Some a, Some p) \<Rightarrow> av_proposal a > p | _ \<Rightarrow> False) then Inl PaxosSafetyViolation
      else and_then (check_history [] (px_history d)) (\<lambda>_.
        if (case px_accepted d of Some a \<Rightarrow> a \<notin> set (px_history d) | None \<Rightarrow> False)
        then Inl PaxosSafetyViolation else Inr ()))"

section \<open>Learning and deciding\<close>

definition record_chosen ::
  "proposal_number \<Rightarrow> 'v \<Rightarrow> string set \<Rightarrow> 'v paxos \<Rightarrow> 'v paxos result" where
  "record_chosen p v acceptors s =
     (if card acceptors < px_quorum s then Inl PaxosSafetyViolation
      else case px_chosen s of
        Some current \<Rightarrow> if ld_value current \<noteq> v then Inl PaxosSafetyViolation else Inr s
      | None \<Rightarrow>
          (let names = sorted_list_of_set acceptors
           in Inr (record_app (EvChosen p v names)
                (s\<lparr>px_chosen := Some (LearnedDecision p v), px_chosen_acceptors := names\<rparr>))))"

definition receive_learn :: "string \<Rightarrow> proposal_number \<Rightarrow> 'v \<Rightarrow> 'v paxos \<Rightarrow> 'v paxos result" where
  "receive_learn n p v s =
     (case px_learned (persistent_state s n) of
        Some current \<Rightarrow> if ld_value current \<noteq> v then Inl PaxosSafetyViolation else Inr s
      | None \<Rightarrow> Inr (record_app (EvLearned n p v)
                  (set_durable n (\<lambda>d. d\<lparr>px_learned := Some (LearnedDecision p v)\<rparr>) s)))"

section \<open>Phase 2\<close>

definition receive_accepted ::
  "string \<Rightarrow> proposal_number \<Rightarrow> string \<Rightarrow> 'v \<Rightarrow> 'v paxos \<Rightarrow> 'v paxos result" where
  "receive_accepted n p acceptor v s =
     (let stale = Inr (record_app (EvStaleAccepted n acceptor p) s)
      in case px_proposal s n of
        None \<Rightarrow> stale
      | Some st \<Rightarrow>
          if p \<noteq> ps_proposal st \<or> \<not> ps_started st then stale
          else case ps_chosen_value st of
            None \<Rightarrow> Inl PaxosSafetyViolation
          | Some value \<Rightarrow>
              if v \<noteq> value then Inl PaxosSafetyViolation
              else
                (let st' = st\<lparr>ps_accepted_by := insert acceptor (ps_accepted_by st)\<rparr>;
                     s1 = set_proposal n (Some st') s
                 in if card (ps_accepted_by st') < px_quorum s1 then Inr s1
                    else
                      and_then (record_chosen (ps_proposal st') value (ps_accepted_by st') s1) (\<lambda>s2.
                      and_then (receive_learn n (ps_proposal st') value s2) (\<lambda>s3.
                      and_then (px_broadcast n (Learn (ps_proposal st') n value) s3) (\<lambda>s4.
                        Inr (set_proposal n None s4))))))"

definition receive_accept_request ::
  "string \<Rightarrow> proposal_number \<Rightarrow> string \<Rightarrow> 'v \<Rightarrow> 'v paxos \<Rightarrow> 'v paxos result" where
  "receive_accept_request n p proposer v s =
     (let d = persistent_state s n
      in if beyond (px_promised d) p then
           Inr (record_app (EvAcceptRejected n p (the (px_promised d))) s)
         else if (case px_accepted d of
                    Some a \<Rightarrow> av_proposal a = p \<and> av_value a \<noteq> v | None \<Rightarrow> False)
         then Inl PaxosSafetyViolation
         else
           (let accepted = AcceptedValue p v;
                s1 = set_durable n (\<lambda>d. d\<lparr>px_promised := Some p, px_accepted := Some accepted,
                       px_history := (if accepted \<in> set (px_history d) then px_history d
                                      else px_history d @ [accepted])\<rparr>) s;
                s2 = record_app (EvAccepted n proposer p v) s1
            in if proposer = n then receive_accepted n p n v s2
               else send_msg n proposer (Accepted p n v) s2))"

section \<open>Phase 1\<close>

text \<open>The value a proposer with a Phase-1 quorum must propose: that of the highest accepted
  proposal reported, its own if none was reported.\<close>

definition select_value :: "'v \<Rightarrow> 'v accepted_value list \<Rightarrow> 'v result" where
  "select_value original accepted =
     (if accepted = [] then Inr original
      else
        (let highest = Max (set (map av_proposal accepted));
             values = map av_value (filter (\<lambda>a. av_proposal a = highest) accepted);
             first = hd values
         in if (\<exists>v \<in> set (tl values). v \<noteq> first) then Inl PaxosSafetyViolation
            else Inr first))"

definition receive_promise :: "string \<Rightarrow> 'v promise \<Rightarrow> 'v paxos \<Rightarrow> 'v paxos result" where
  "receive_promise n response s =
     (let stale = Inr (record_app (EvStalePromise n (pr_acceptor response) (pr_proposal response)) s)
      in case px_proposal s n of
        None \<Rightarrow> stale
      | Some st \<Rightarrow>
          if pr_proposal response \<noteq> ps_proposal st then stale
          else if pr_acceptor response \<notin> set (px_node_ids s) then Inl PaxosSafetyViolation
          else
            (let st1 = st\<lparr>ps_promises := setdefault (pr_acceptor response) response (ps_promises st)\<rparr>;
                 s1 = set_proposal n (Some st1) s
             in if ps_started st1 \<or> length (ps_promises st1) < px_quorum s1 then Inr s1
                else
                  and_then (select_value (ps_original st1)
                             (List.map_filter (\<lambda>(_, p). pr_accepted p) (ps_promises st1))) (\<lambda>value.
                    let st2 = st1\<lparr>ps_chosen_value := Some value, ps_started := True\<rparr>;
                        s2 = record_app (EvAcceptPhaseStart n (ps_proposal st2) value
                               (sort (map fst (ps_promises st2)))) (set_proposal n (Some st2) s1)
                    in and_then (make_accept_request (ps_proposal st2) n value) (\<lambda>request.
                       and_then (receive_accept_request n (ps_proposal st2) n value s2)
                         (px_broadcast n request)))))"

definition receive_prepare ::
  "string \<Rightarrow> proposal_number \<Rightarrow> string \<Rightarrow> 'v paxos \<Rightarrow> 'v paxos result" where
  "receive_prepare n p proposer s =
     (let promised = px_promised (persistent_state s n)
      in if beyond promised p then
           Inr (record_app (EvPrepareRejected n p (the promised)) s)
         else
           (let s1 = (if promised = None \<or> p > the promised
                      then set_durable n (\<lambda>d. d\<lparr>px_promised := Some p\<rparr>) s else s);
                promise = Promise p n (px_accepted (persistent_state s1 n));
                s2 = record_app (EvPromise n proposer p (pr_accepted promise)) s1
            in if proposer = n then receive_promise n promise s2
               else send_msg n proposer (PromiseMsg promise) s2))"

definition start_proposal ::
  "string \<Rightarrow> 'v \<Rightarrow> int option \<Rightarrow> 'v paxos \<Rightarrow> (proposal_number \<times> 'v paxos) result" where
  "start_proposal n value round_number s =
     (if \<not> is_alive s n then Inl PaxosError
      else if px_proposal s n \<noteq> None then Inl PaxosProposalActive
      else
        (let d = persistent_state s n;
             last_round = px_last_round d;
             known_rounds = last_round
               # (case px_promised d of None \<Rightarrow> [] | Some p \<Rightarrow> [pn_round p])
               @ (case px_accepted d of None \<Rightarrow> [] | Some a \<Rightarrow> [pn_round (av_proposal a)])
               @ (case px_learned d of None \<Rightarrow> [] | Some l \<Rightarrow> [pn_round (ld_proposal l)]);
             rnd = (case round_number of Some r \<Rightarrow> r | None \<Rightarrow> Max (set known_rounds) + 1)
         in if rnd \<le> last_round then Inl ValueError
            else and_then (ProposalNumber rnd n) (\<lambda>proposal.
              let s1 = set_durable n (\<lambda>d. d\<lparr>px_last_round := rnd\<rparr>) s;
                  s2 = set_proposal n (Some \<lparr>ps_proposal = proposal, ps_original = value,
                         ps_promises = [], ps_accepted_by = {}, ps_chosen_value = None,
                         ps_started = False\<rparr>) s1;
                  s3 = record_app (EvProposalStart n proposal value) s2
              in and_then (make_prepare proposal n) (\<lambda>prepare.
                 and_then (receive_prepare n proposal n s3) (\<lambda>s4.
                 and_then (px_broadcast n prepare s4) (\<lambda>s5. Inr (proposal, s5)))))))"

section \<open>Message dispatch and lifecycle\<close>

definition reject_source :: "string \<Rightarrow> 'v paxos_msg message \<Rightarrow> string \<Rightarrow> 'v paxos \<Rightarrow> 'v paxos" where
  "reject_source n m expected s =
     record_app (EvEnvelopeRejected n (msg_src m) (msg_dst m) (Some expected)
       ''source-identity-mismatch'' (msg_payload m)) s"

definition px_handle_message ::
  "string \<Rightarrow> 'v paxos \<Rightarrow> 'v paxos_msg message \<Rightarrow> 'v paxos result" where
  "px_handle_message n s m =
     (if msg_dst m \<noteq> n then
        Inr (record_app (EvEnvelopeRejected n (msg_src m) (msg_dst m) None
          ''destination-identity-mismatch'' (msg_payload m)) s)
      else case msg_payload m of
        Prepare p proposer \<Rightarrow>
          if msg_src m \<noteq> proposer then Inr (reject_source n m proposer s)
          else receive_prepare n p proposer s
      | PromiseMsg pr \<Rightarrow>
          if msg_src m \<noteq> pr_acceptor pr then Inr (reject_source n m (pr_acceptor pr) s)
          else receive_promise n pr s
      | AcceptRequest p proposer v \<Rightarrow>
          if msg_src m \<noteq> proposer then Inr (reject_source n m proposer s)
          else receive_accept_request n p proposer v s
      | Accepted p acceptor v \<Rightarrow>
          if msg_src m \<noteq> acceptor then Inr (reject_source n m acceptor s)
          else receive_accepted n p acceptor v s
      | Learn p proposer v \<Rightarrow>
          if msg_src m \<noteq> proposer then Inr (reject_source n m proposer s)
          else receive_learn n p v s
      | Foreign name \<Rightarrow> Inl TypeError)"

definition px_handle_crash :: "string \<Rightarrow> 'v paxos \<Rightarrow> 'v paxos result" where
  "px_handle_crash n s =
     (let active = map_option ps_proposal (px_proposal s n)
      in Inr (record_app (EvNodeCrash n active) (set_proposal n None s)))"

definition px_handle_restart :: "string \<Rightarrow> 'v paxos \<Rightarrow> 'v paxos result" where
  "px_handle_restart n s =
     (let s1 = set_proposal n None s; d = persistent_state s1 n
      in and_then (validate_durable d) (\<lambda>_.
         Inr (record_app (EvNodeRestart n (px_promised d) (px_accepted d) (px_learned d)) s1)))"

definition paxos_callbacks :: "('v paxos_msg, 'v paxos) callbacks" where
  "paxos_callbacks = \<lparr>on_message = px_handle_message,
     on_crash = (\<lambda>n. Some (px_handle_crash n)), on_restart = (\<lambda>n. Some (px_handle_restart n))\<rparr>"

definition PaxosCluster ::
  "('v paxos_msg, 'v paxos_event, 'v paxos_durable, unit) simulator \<Rightarrow> string list \<Rightarrow> 'v paxos result" where
  "PaxosCluster sim node_ids =
     (if node_ids = [] then Inl ValueError
      else if card (set node_ids) \<noteq> length node_ids then Inl ValueError
      else
        (let s = simulator.extend sim (paxos.fields node_ids (\<lambda>_. None) None [])
         in and_then (for_each (\<lambda>n s. and_then (validate_durable (persistent_state s n)) (\<lambda>_. Inr s))
                        node_ids s)
              (for_each sim_register node_ids)))"

section \<open>The safety harness\<close>

type_synonym 'v evidence = "proposal_number \<times> 'v \<times> string set"

fun add_evidence :: "string \<Rightarrow> 'v accepted_value \<Rightarrow> 'v evidence list \<Rightarrow> 'v evidence list" where
  "add_evidence n a [] = [(av_proposal a, av_value a, {n})]"
| "add_evidence n a ((p, v, acceptors) # es) =
     (if p = av_proposal a \<and> v = av_value a then (p, v, insert n acceptors) # es
      else (p, v, acceptors) # add_evidence n a es)"

definition gather_evidence :: "'v paxos \<Rightarrow> 'v evidence list result" where
  "gather_evidence s =
     for_each (\<lambda>n es. and_then (validate_durable (persistent_state s n)) (\<lambda>_.
       Inr (fold (add_evidence n) (px_history (persistent_state s n)) es))) (px_node_ids s) []"

fun check_values :: "(proposal_number \<times> 'v) list \<Rightarrow> 'v evidence list \<Rightarrow> unit result" where
  "check_values seen [] = Inr ()"
| "check_values seen ((p, v, acceptors) # es) =
     (case filter (\<lambda>item. fst item = p) seen of
        [] \<Rightarrow> check_values (seen @ [(p, v)]) es
      | item # _ \<Rightarrow> if snd item \<noteq> v then Inl PaxosSafetyViolation else check_values seen es)"

definition all_equal_to_head :: "'v list \<Rightarrow> bool" where
  "all_equal_to_head vs = (case vs of [] \<Rightarrow> True | v # ws \<Rightarrow> (\<forall>w \<in> set ws. w = v))"

definition px_checkpoint :: "'v paxos \<Rightarrow> unit result" where
  "px_checkpoint s =
     and_then (gather_evidence s) (\<lambda>evidence.
     and_then (check_values [] evidence) (\<lambda>_.
       let chosen = map (\<lambda>(p, v, acceptors). v)
             (filter (\<lambda>(p, v, acceptors). px_quorum s \<le> card acceptors) evidence);
           learned = map ld_value
             (List.map_filter (\<lambda>n. px_learned (persistent_state s n)) (px_node_ids s))
       in if \<not> all_equal_to_head chosen then Inl PaxosSafetyViolation
          else if \<not> all_equal_to_head learned then Inl PaxosSafetyViolation
          else if learned \<noteq> [] \<and> (chosen = [] \<or> hd chosen \<noteq> hd learned) then Inl PaxosSafetyViolation
          else case px_chosen s of
            None \<Rightarrow> Inr ()
          | Some objective \<Rightarrow>
              if chosen = [] \<or> hd chosen \<noteq> ld_value objective then Inl PaxosSafetyViolation
              else if learned \<noteq> [] \<and> hd learned \<noteq> ld_value objective then Inl PaxosSafetyViolation
              else Inr ()))"

end
