(* ===== verification/Paxos_Log.thy ===== *)
theory Paxos_Log
  imports Paxos
begin

text \<open>
  The replicated log of independent Paxos decrees, \<^verbatim>\<open>src/src/distlab/paxos_log.py\<close>: one promise, one
  accepted value and one decision per slot, a shared durable proposer round, the ordered prefix a
  learner exposes, and the safety harness. Dictionaries are association lists.
\<close>

section \<open>Values, messages and state\<close>

datatype 'v slot_accepted = SlotAcceptedValue (sa_slot: int) (sa_proposal: proposal_number) (sa_value: 'v)

datatype 'v slot_learned = SlotLearnedDecision (sl_slot: int) (sl_proposal: proposal_number) (sl_value: 'v)

datatype 'v slot_promise =
  SlotPromise (sp_slot: int) (sp_proposal: proposal_number) (sp_acceptor: string) (sp_accepted: "'v slot_accepted option")

datatype 'v log_msg =
    SlotPrepare int proposal_number string
  | SlotPromiseMsg "'v slot_promise"
  | SlotAcceptRequest int proposal_number string 'v
  | SlotAccepted int proposal_number string 'v
  | SlotLearn int proposal_number string 'v
  | ForeignLog string

definition make_slot_accepted :: "int \<Rightarrow> proposal_number \<Rightarrow> 'v \<Rightarrow> 'v slot_accepted result" where
  "make_slot_accepted slot p v = (if slot \<le> 0 then Inl ValueError else Inr (SlotAcceptedValue slot p v))"

definition make_slot_learned :: "int \<Rightarrow> proposal_number \<Rightarrow> 'v \<Rightarrow> 'v slot_learned result" where
  "make_slot_learned slot p v = (if slot \<le> 0 then Inl ValueError else Inr (SlotLearnedDecision slot p v))"

definition make_slot_prepare :: "int \<Rightarrow> proposal_number \<Rightarrow> string \<Rightarrow> 'v log_msg result" where
  "make_slot_prepare slot p proposer =
     (if slot \<le> 0 then Inl ValueError
      else if proposer \<noteq> pn_proposer p then Inl ValueError
      else Inr (SlotPrepare slot p proposer))"

definition make_slot_accept_request :: "int \<Rightarrow> proposal_number \<Rightarrow> string \<Rightarrow> 'v \<Rightarrow> 'v log_msg result" where
  "make_slot_accept_request slot p proposer v =
     (if slot \<le> 0 then Inl ValueError
      else if proposer \<noteq> pn_proposer p then Inl ValueError
      else Inr (SlotAcceptRequest slot p proposer v))"

record 'v slot_state =
  st_slot :: int
  st_proposal :: proposal_number
  st_original :: 'v
  st_promises :: "(string \<times> 'v slot_promise) list"
  st_accepted_by :: "string set"
  st_chosen_value :: "'v option"
  st_started :: bool

record 'v log_durable =
  pl_promised :: "(int \<times> proposal_number) list"
  pl_accepted :: "(int \<times> 'v slot_accepted) list"
  pl_history :: "'v slot_accepted list"
  pl_learned :: "(int \<times> 'v slot_learned) list"
  pl_last_round :: int

definition fresh_log :: "'v log_durable" where
  "fresh_log = \<lparr>pl_promised = [], pl_accepted = [], pl_history = [], pl_learned = [], pl_last_round = 0\<rparr>"

datatype 'v log_event =
    EvLogProposalStart int string proposal_number 'v
  | EvLogPrepareRejected int string proposal_number proposal_number
  | EvLogPromise int string string proposal_number "'v slot_accepted option"
  | EvLogStalePromise int string string proposal_number
  | EvLogAcceptPhaseStart int string proposal_number 'v "string list"
  | EvLogAcceptRejected int string proposal_number proposal_number
  | EvLogAccepted int string string proposal_number 'v
  | EvLogStaleAccepted int string string proposal_number
  | EvLogChosen int proposal_number 'v "string list"
  | EvLogLearned int string proposal_number 'v nat
  | EvLogEnvelopeRejected string string string "string option" string "'v log_msg"
  | EvLogCrash string "(int \<times> proposal_number) list"
  | EvLogRestart string "'v slot_learned list"
  | EvLogChosenRecovered int proposal_number 'v "string list"

record 'v paxos_log = "('v log_msg, 'v log_event, 'v log_durable, unit) simulator" +
  pl_node_ids :: "string list"
  pl_proposals :: "string \<Rightarrow> (int \<times> 'v slot_state) list"
  pl_chosen :: "(int \<times> 'v slot_learned) list"
  pl_chosen_acceptors :: "(int \<times> string list) list"

definition pl_quorum :: "'v paxos_log \<Rightarrow> nat" where
  "pl_quorum s = quorum_size (pl_node_ids s)"

definition pl_peers :: "'v paxos_log \<Rightarrow> string \<Rightarrow> string list" where
  "pl_peers s n = filter (\<lambda>peer. peer \<noteq> n) (pl_node_ids s)"

definition set_slot_state :: "string \<Rightarrow> int \<Rightarrow> 'v slot_state \<Rightarrow> 'v paxos_log \<Rightarrow> 'v paxos_log" where
  "set_slot_state n slot st s = s\<lparr>pl_proposals := (pl_proposals s)(n := AList.update slot st (pl_proposals s n))\<rparr>"

definition pop_slot_state :: "string \<Rightarrow> int \<Rightarrow> 'v paxos_log \<Rightarrow> 'v paxos_log" where
  "pop_slot_state n slot s = s\<lparr>pl_proposals := (pl_proposals s)(n := AList.delete slot (pl_proposals s n))\<rparr>"

definition clear_slot_states :: "string \<Rightarrow> 'v paxos_log \<Rightarrow> 'v paxos_log" where
  "clear_slot_states n s = s\<lparr>pl_proposals := (pl_proposals s)(n := [])\<rparr>"

abbreviation pl_broadcast :: "string \<Rightarrow> 'v log_msg \<Rightarrow> 'v paxos_log \<Rightarrow> 'v paxos_log result" where
  "pl_broadcast n m s \<equiv> for_each (\<lambda>peer. send_msg n peer m) (pl_peers s n) s"

section \<open>Reading\<close>

definition require_slot :: "int \<Rightarrow> unit result" where
  "require_slot slot = (if slot \<le> 0 then Inl ValueError else Inr ())"

definition promised_proposal :: "string \<Rightarrow> int \<Rightarrow> 'v paxos_log \<Rightarrow> proposal_number option result" where
  "promised_proposal n slot s =
     and_then (require_slot slot) (\<lambda>_. Inr (map_of (pl_promised (persistent_state s n)) slot))"

definition slot_accepted_value :: "string \<Rightarrow> int \<Rightarrow> 'v paxos_log \<Rightarrow> 'v slot_accepted option result" where
  "slot_accepted_value n slot s =
     and_then (require_slot slot) (\<lambda>_. Inr (map_of (pl_accepted (persistent_state s n)) slot))"

definition slot_learned_decision :: "string \<Rightarrow> int \<Rightarrow> 'v paxos_log \<Rightarrow> 'v slot_learned option result" where
  "slot_learned_decision n slot s =
     and_then (require_slot slot) (\<lambda>_. Inr (map_of (pl_learned (persistent_state s n)) slot))"

text \<open>The \<open>while\<close> loop of \<open>chosen_prefix\<close> and \<open>learned_prefix\<close> over a dictionary, from \<open>slot\<close> on.\<close>

function prefix_from :: "(int \<times> 'a) list \<Rightarrow> int \<Rightarrow> 'a list" where
  "prefix_from d slot =
     (case map_of d slot of
        None \<Rightarrow> []
      | Some decision \<Rightarrow> decision # prefix_from d (slot + 1))"
  by pat_completeness auto
termination
proof (relation "measure (\<lambda>(d, slot). card {k \<in> fst ` set d. slot \<le> k})", goal_cases)
  case (2 d slot decision)
  have "slot \<in> fst ` set d" using 2 map_of_SomeD[of d slot decision] by force
  then have "slot \<in> {k \<in> fst ` set d. slot \<le> k}" "slot \<notin> {k \<in> fst ` set d. slot + 1 \<le> k}" by simp_all
  moreover have "{k \<in> fst ` set d. slot + 1 \<le> k} \<subseteq> {k \<in> fst ` set d. slot \<le> k}" by auto
  ultimately have "{k \<in> fst ` set d. slot + 1 \<le> k} \<subset> {k \<in> fst ` set d. slot \<le> k}" by blast
  then show ?case by (simp add: psubset_card_mono)
qed simp

declare prefix_from.simps [simp del]

definition learned_prefix :: "string \<Rightarrow> 'v paxos_log \<Rightarrow> 'v slot_learned list" where
  "learned_prefix n s = prefix_from (pl_learned (persistent_state s n)) 1"

definition chosen_prefix :: "'v paxos_log \<Rightarrow> 'v slot_learned list" where
  "chosen_prefix s = prefix_from (pl_chosen s) 1"

section \<open>Durable-state validation\<close>

fun check_slot_history :: "((int \<times> proposal_number) \<times> 'v) list \<Rightarrow> 'v slot_accepted list \<Rightarrow> unit result" where
  "check_slot_history seen [] = Inr ()"
| "check_slot_history seen (item # items) =
     (let key = (sa_slot item, sa_proposal item)
      in case map_of seen key of
           Some v \<Rightarrow> if v \<noteq> sa_value item then Inl PaxosSafetyViolation
                     else check_slot_history (AList.update key (sa_value item) seen) items
         | None \<Rightarrow> check_slot_history (AList.update key (sa_value item) seen) items)"

definition validate_log_durable :: "'v log_durable \<Rightarrow> unit result" where
  "validate_log_durable d =
     (if \<not> list_all (\<lambda>(slot, _). slot > 0) (pl_promised d) then Inl TypeError
      else if \<not> list_all (\<lambda>(slot, a). slot > 0 \<and> sa_slot a = slot) (pl_accepted d) then Inl TypeError
      else if \<not> list_all (\<lambda>(slot, l). slot > 0 \<and> sl_slot l = slot) (pl_learned d) then Inl TypeError
      else if pl_last_round d < 0 then Inl TypeError
      else and_then (check_slot_history [] (pl_history d)) (\<lambda>_.
        for_each (\<lambda>(slot, current) _.
          if current \<notin> set (pl_history d) then Inl PaxosSafetyViolation
          else case map_of (pl_promised d) slot of
                 Some promised \<Rightarrow> if sa_proposal current > promised then Inl PaxosSafetyViolation else Inr ()
               | None \<Rightarrow> Inr ()) (pl_accepted d) ()))"

section \<open>Learning and deciding\<close>

definition log_record_chosen ::
  "int \<Rightarrow> proposal_number \<Rightarrow> 'v \<Rightarrow> string set \<Rightarrow> 'v paxos_log \<Rightarrow> 'v paxos_log result" where
  "log_record_chosen slot p v acceptors s =
     (if card acceptors < pl_quorum s then Inl PaxosSafetyViolation
      else case map_of (pl_chosen s) slot of
        Some current \<Rightarrow> if sl_value current \<noteq> v then Inl PaxosSafetyViolation else Inr s
      | None \<Rightarrow>
          and_then (make_slot_learned slot p v) (\<lambda>decision.
            (let names = sorted_list_of_set acceptors
             in Inr (record_app (EvLogChosen slot p v names)
                  (s\<lparr>pl_chosen := AList.update slot decision (pl_chosen s),
                     pl_chosen_acceptors := AList.update slot names (pl_chosen_acceptors s)\<rparr>)))))"

definition log_receive_learn ::
  "string \<Rightarrow> int \<Rightarrow> proposal_number \<Rightarrow> 'v \<Rightarrow> 'v paxos_log \<Rightarrow> 'v paxos_log result" where
  "log_receive_learn n slot p v s =
     and_then (slot_learned_decision n slot s) (\<lambda>current.
       case current of
         Some l \<Rightarrow> if sl_value l \<noteq> v then Inl PaxosSafetyViolation else Inr s
       | None \<Rightarrow>
           and_then (make_slot_learned slot p v) (\<lambda>decision.
             (let s1 = set_durable n (\<lambda>d. d\<lparr>pl_learned := AList.update slot decision (pl_learned d)\<rparr>) s
              in Inr (record_app (EvLogLearned slot n p v (length (learned_prefix n s1))) s1))))"

section \<open>Phase 2\<close>

definition log_receive_accepted ::
  "string \<Rightarrow> int \<Rightarrow> proposal_number \<Rightarrow> string \<Rightarrow> 'v \<Rightarrow> 'v paxos_log \<Rightarrow> 'v paxos_log result" where
  "log_receive_accepted n slot p acceptor v s =
     (let stale = Inr (record_app (EvLogStaleAccepted slot n acceptor p) s)
      in case map_of (pl_proposals s n) slot of
        None \<Rightarrow> stale
      | Some st \<Rightarrow>
          if p \<noteq> st_proposal st \<or> \<not> st_started st then stale
          else case st_chosen_value st of
            None \<Rightarrow> Inl PaxosSafetyViolation
          | Some value \<Rightarrow>
              if v \<noteq> value then Inl PaxosSafetyViolation
              else
                (let st' = st\<lparr>st_accepted_by := insert acceptor (st_accepted_by st)\<rparr>;
                     s1 = set_slot_state n slot st' s
                 in if card (st_accepted_by st') < pl_quorum s1 then Inr s1
                    else
                      and_then (log_record_chosen (st_slot st') (st_proposal st') value (st_accepted_by st') s1) (\<lambda>s2.
                      and_then (log_receive_learn n (st_slot st') (st_proposal st') value s2) (\<lambda>s3.
                      and_then (pl_broadcast n (SlotLearn (st_slot st') (st_proposal st') n value) s3) (\<lambda>s4.
                        Inr (pop_slot_state n (st_slot st') s4))))))"

definition log_receive_accept_request ::
  "string \<Rightarrow> int \<Rightarrow> proposal_number \<Rightarrow> string \<Rightarrow> 'v \<Rightarrow> 'v paxos_log \<Rightarrow> 'v paxos_log result" where
  "log_receive_accept_request n slot p proposer v s =
     and_then (promised_proposal n slot s) (\<lambda>promised.
       if beyond promised p then Inr (record_app (EvLogAcceptRejected slot n p (the promised)) s)
       else
         and_then (slot_accepted_value n slot s) (\<lambda>current.
           if (case current of Some a \<Rightarrow> sa_proposal a = p \<and> sa_value a \<noteq> v | None \<Rightarrow> False)
           then Inl PaxosSafetyViolation
           else
             and_then (make_slot_accepted slot p v) (\<lambda>accepted.
               (let s1 = set_durable n (\<lambda>d. d\<lparr>pl_promised := AList.update slot p (pl_promised d),
                           pl_accepted := AList.update slot accepted (pl_accepted d),
                           pl_history := (if accepted \<in> set (pl_history d) then pl_history d
                                          else pl_history d @ [accepted])\<rparr>) s;
                    s2 = record_app (EvLogAccepted slot n proposer p v) s1
                in if proposer = n then log_receive_accepted n slot p n v s2
                   else send_msg n proposer (SlotAccepted slot p n v) s2))))"

section \<open>Phase 1\<close>

definition select_slot_value :: "'v \<Rightarrow> 'v slot_accepted list \<Rightarrow> 'v result" where
  "select_slot_value original accepted =
     (if accepted = [] then Inr original
      else
        (let highest = Max (set (map sa_proposal accepted));
             values = map sa_value (filter (\<lambda>a. sa_proposal a = highest) accepted);
             first = hd values
         in if (\<exists>v \<in> set (tl values). v \<noteq> first) then Inl PaxosSafetyViolation
            else Inr first))"

definition log_receive_promise :: "string \<Rightarrow> 'v slot_promise \<Rightarrow> 'v paxos_log \<Rightarrow> 'v paxos_log result" where
  "log_receive_promise n response s =
     (let stale = Inr (record_app (EvLogStalePromise (sp_slot response) n (sp_acceptor response) (sp_proposal response)) s)
      in case map_of (pl_proposals s n) (sp_slot response) of
        None \<Rightarrow> stale
      | Some st \<Rightarrow>
          if sp_proposal response \<noteq> st_proposal st then stale
          else if sp_acceptor response \<notin> set (pl_node_ids s) then Inl PaxosSafetyViolation
          else
            (let st1 = st\<lparr>st_promises := setdefault (sp_acceptor response) response (st_promises st)\<rparr>;
                 s1 = set_slot_state n (sp_slot response) st1 s
             in if st_started st1 \<or> length (st_promises st1) < pl_quorum s1 then Inr s1
                else
                  and_then (select_slot_value (st_original st1)
                             (List.map_filter (\<lambda>(_, p). sp_accepted p) (st_promises st1))) (\<lambda>value.
                    let st2 = st1\<lparr>st_chosen_value := Some value, st_started := True\<rparr>;
                        s2 = record_app (EvLogAcceptPhaseStart (st_slot st2) n (st_proposal st2) value
                               (sort (map fst (st_promises st2)))) (set_slot_state n (sp_slot response) st2 s1)
                    in and_then (make_slot_accept_request (st_slot st2) (st_proposal st2) n value) (\<lambda>request.
                       and_then (log_receive_accept_request n (st_slot st2) (st_proposal st2) n value s2)
                         (pl_broadcast n request)))))"

definition log_receive_prepare ::
  "string \<Rightarrow> int \<Rightarrow> proposal_number \<Rightarrow> string \<Rightarrow> 'v paxos_log \<Rightarrow> 'v paxos_log result" where
  "log_receive_prepare n slot p proposer s =
     and_then (promised_proposal n slot s) (\<lambda>promised.
       if beyond promised p then Inr (record_app (EvLogPrepareRejected slot n p (the promised)) s)
       else
         (let s1 = (if promised = None \<or> p > the promised
                    then set_durable n (\<lambda>d. d\<lparr>pl_promised := AList.update slot p (pl_promised d)\<rparr>) s else s)
          in and_then (slot_accepted_value n slot s1) (\<lambda>accepted.
            (let promise = SlotPromise slot p n accepted;
                 s2 = record_app (EvLogPromise slot n proposer p (sp_accepted promise)) s1
             in if proposer = n then log_receive_promise n promise s2
                else send_msg n proposer (SlotPromiseMsg promise) s2))))"

definition known_rounds :: "'v log_durable \<Rightarrow> int list" where
  "known_rounds d = pl_last_round d # map (\<lambda>(_, p). pn_round p) (pl_promised d)
     @ map (\<lambda>(_, a). pn_round (sa_proposal a)) (pl_accepted d)
     @ map (\<lambda>(_, l). pn_round (sl_proposal l)) (pl_learned d)"

definition log_start_proposal ::
  "string \<Rightarrow> int \<Rightarrow> 'v \<Rightarrow> int option \<Rightarrow> 'v paxos_log \<Rightarrow> (proposal_number \<times> 'v paxos_log) result" where
  "log_start_proposal n slot value round_number s =
     and_then (require_slot slot) (\<lambda>_.
       if \<not> is_alive s n then Inl PaxosError
       else if map_of (pl_proposals s n) slot \<noteq> None then Inl PaxosProposalActive
       else
         (let d = persistent_state s n;
              last_round = pl_last_round d;
              rnd = (case round_number of Some r \<Rightarrow> r | None \<Rightarrow> Max (set (known_rounds d)) + 1)
          in if rnd \<le> last_round then Inl ValueError
             else and_then (ProposalNumber rnd n) (\<lambda>proposal.
               let s1 = set_durable n (\<lambda>d. d\<lparr>pl_last_round := rnd\<rparr>) s;
                   s2 = set_slot_state n slot \<lparr>st_slot = slot, st_proposal = proposal, st_original = value,
                          st_promises = [], st_accepted_by = {}, st_chosen_value = None, st_started = False\<rparr> s1;
                   s3 = record_app (EvLogProposalStart slot n proposal value) s2
               in and_then (make_slot_prepare slot proposal n) (\<lambda>prepare.
                  and_then (log_receive_prepare n slot proposal n s3) (\<lambda>s4.
                  and_then (pl_broadcast n prepare s4) (\<lambda>s5. Inr (proposal, s5)))))))"

section \<open>Message dispatch and lifecycle\<close>

definition log_reject :: "string \<Rightarrow> 'v log_msg message \<Rightarrow> string option \<Rightarrow> string \<Rightarrow> 'v paxos_log \<Rightarrow> 'v paxos_log" where
  "log_reject n m expected reason s =
     record_app (EvLogEnvelopeRejected n (msg_src m) (msg_dst m) expected reason (msg_payload m)) s"

text \<open>The envelope checks that every branch of \<open>handle_message\<close> makes before it acts.\<close>

definition checked_source ::
  "string \<Rightarrow> 'v log_msg message \<Rightarrow> string \<Rightarrow> string \<Rightarrow> ('v paxos_log \<Rightarrow> 'v paxos_log result) \<Rightarrow> 'v paxos_log \<Rightarrow> 'v paxos_log result" where
  "checked_source n m expected unknown act s =
     (if expected \<notin> set (pl_node_ids s) then Inr (log_reject n m (Some expected) unknown s)
      else if msg_src m \<noteq> expected then Inr (log_reject n m (Some expected) ''source-identity-mismatch'' s)
      else act s)"

definition pl_handle_message :: "string \<Rightarrow> 'v paxos_log \<Rightarrow> 'v log_msg message \<Rightarrow> 'v paxos_log result" where
  "pl_handle_message n s m =
     (if msg_dst m \<noteq> n then Inr (log_reject n m None ''destination-identity-mismatch'' s)
      else case msg_payload m of
        SlotPrepare slot p proposer \<Rightarrow>
          checked_source n m proposer ''unknown-proposer'' (log_receive_prepare n slot p proposer) s
      | SlotPromiseMsg pr \<Rightarrow>
          checked_source n m (sp_acceptor pr) ''unknown-acceptor'' (log_receive_promise n pr) s
      | SlotAcceptRequest slot p proposer v \<Rightarrow>
          checked_source n m proposer ''unknown-proposer'' (log_receive_accept_request n slot p proposer v) s
      | SlotAccepted slot p acceptor v \<Rightarrow>
          checked_source n m acceptor ''unknown-acceptor'' (log_receive_accepted n slot p acceptor v) s
      | SlotLearn slot p proposer v \<Rightarrow>
          checked_source n m proposer ''unknown-proposer'' (log_receive_learn n slot p v) s
      | ForeignLog name \<Rightarrow> Inl TypeError)"

definition pl_handle_crash :: "string \<Rightarrow> 'v paxos_log \<Rightarrow> 'v paxos_log result" where
  "pl_handle_crash n s =
     (let active = map (\<lambda>(slot, st). (slot, st_proposal st)) (sort_key fst (pl_proposals s n))
      in Inr (record_app (EvLogCrash n active) (clear_slot_states n s)))"

definition pl_handle_restart :: "string \<Rightarrow> 'v paxos_log \<Rightarrow> 'v paxos_log result" where
  "pl_handle_restart n s =
     (let s1 = clear_slot_states n s
      in and_then (validate_log_durable (persistent_state s1 n)) (\<lambda>_.
         Inr (record_app (EvLogRestart n (learned_prefix n s1)) s1)))"

definition paxos_log_callbacks :: "('v log_msg, 'v paxos_log) callbacks" where
  "paxos_log_callbacks = \<lparr>on_message = pl_handle_message,
     on_crash = (\<lambda>n. Some (pl_handle_crash n)), on_restart = (\<lambda>n. Some (pl_handle_restart n))\<rparr>"

definition PaxosLogCluster ::
  "('v log_msg, 'v log_event, 'v log_durable, unit) simulator \<Rightarrow> string list \<Rightarrow> 'v paxos_log result" where
  "PaxosLogCluster sim node_ids =
     (if node_ids = [] then Inl ValueError
      else if card (set node_ids) \<noteq> length node_ids then Inl ValueError
      else
        (let s = simulator.extend sim (paxos_log.fields node_ids (\<lambda>_. []) [] [])
         in and_then (for_each (\<lambda>n s. and_then (validate_log_durable (persistent_state s n)) (\<lambda>_. Inr s))
                        node_ids s)
              (for_each sim_register node_ids)))"

section \<open>The safety harness\<close>

type_synonym 'v log_evidence = "int \<times> proposal_number \<times> 'v \<times> string set"

fun add_log_evidence :: "string \<Rightarrow> 'v slot_accepted \<Rightarrow> 'v log_evidence list \<Rightarrow> 'v log_evidence list" where
  "add_log_evidence n a [] = [(sa_slot a, sa_proposal a, sa_value a, {n})]"
| "add_log_evidence n a ((slot, p, v, acceptors) # es) =
     (if slot = sa_slot a \<and> p = sa_proposal a \<and> v = sa_value a then (slot, p, v, insert n acceptors) # es
      else (slot, p, v, acceptors) # add_log_evidence n a es)"

type_synonym 'v log_gathered = "'v log_evidence list \<times> (int \<times> proposal_number \<times> 'v) list"

definition gather_accepted :: "string \<Rightarrow> 'v slot_accepted \<Rightarrow> 'v log_gathered \<Rightarrow> 'v log_gathered result" where
  "gather_accepted n a = (\<lambda>(evidence, proposal_values).
     (let matching = List.map_filter (\<lambda>(slot, p, v). if slot = sa_slot a \<and> p = sa_proposal a then Some v else None) proposal_values
      in if matching \<noteq> [] \<and> hd matching \<noteq> sa_value a then Inl PaxosSafetyViolation
         else Inr (add_log_evidence n a evidence,
           if matching = [] then proposal_values @ [(sa_slot a, sa_proposal a, sa_value a)] else proposal_values)))"

definition gather_node :: "'v paxos_log \<Rightarrow> string \<Rightarrow> 'v log_gathered \<Rightarrow> 'v log_gathered result" where
  "gather_node s n g =
     and_then (validate_log_durable (persistent_state s n)) (\<lambda>_.
       for_each (gather_accepted n) (pl_history (persistent_state s n)) g)"

definition chosen_values :: "nat \<Rightarrow> 'v log_evidence list \<Rightarrow> int \<Rightarrow> 'v list" where
  "chosen_values quorum evidence slot =
     map (\<lambda>(_, _, v, _). v) (filter (\<lambda>(k, _, _, acceptors). k = slot \<and> card acceptors \<ge> quorum) evidence)"

definition require_chosen :: "nat \<Rightarrow> 'v log_evidence list \<Rightarrow> int \<times> 'v slot_learned \<Rightarrow> unit \<Rightarrow> unit result" where
  "require_chosen quorum evidence = (\<lambda>(slot, decision) _.
     (let chosen = chosen_values quorum evidence slot
      in if chosen = [] \<or> hd chosen \<noteq> sl_value decision then Inl PaxosSafetyViolation else Inr ()))"

definition prefix_values :: "string \<Rightarrow> 'v paxos_log \<Rightarrow> 'v list" where
  "prefix_values n s = map sl_value (learned_prefix n s)"

definition pl_checkpoint :: "'v paxos_log \<Rightarrow> unit result" where
  "pl_checkpoint s =
     and_then (for_each (gather_node s) (pl_node_ids s) ([], [])) (\<lambda>(evidence, _).
     and_then (for_each (\<lambda>slot _. if \<not> all_equal_to_head (chosen_values (pl_quorum s) evidence slot)
                  then Inl PaxosSafetyViolation else Inr ())
                (remdups (map fst (filter (\<lambda>(_, _, _, acceptors). card acceptors \<ge> pl_quorum s) evidence))) ()) (\<lambda>_.
     and_then (for_each (\<lambda>n _. for_each (require_chosen (pl_quorum s) evidence) (pl_learned (persistent_state s n)) ())
                (pl_node_ids s) ()) (\<lambda>_.
     and_then (for_each (require_chosen (pl_quorum s) evidence) (pl_chosen s) ()) (\<lambda>_.
       for_each (\<lambda>left _. for_each (\<lambda>right _.
         (let l = prefix_values left s; r = prefix_values right s; common = min (length l) (length r)
          in if take common l \<noteq> take common r then Inl PaxosSafetyViolation else Inr ()))
         (pl_node_ids s) ()) (pl_node_ids s) ()))))"

end
