(* ===== verification/MultiPaxos.thy ===== *)
theory MultiPaxos
  imports Paxos_Log
begin

text \<open>
  Stable-leader Multi-Paxos, \<^verbatim>\<open>src/src/distlab/multipaxos.py\<close>: one durable Phase-1 promise per ballot
  for all slots, Phase 2 per slot, durable learned decisions, bounded catch-up of missing
  decisions, recovery of the chosen record from durable accept histories and the safety check.
\<close>

section \<open>Messages and state\<close>

datatype 'v leader_promise =
  LeaderPromise (lp_ballot: proposal_number) (lp_acceptor: string) (lp_accepted: "'v slot_accepted list")

datatype 'v multi_msg =
    LeaderPrepare proposal_number
  | LeaderPromiseMsg "'v leader_promise"
  | LeaderAccept int proposal_number 'v
  | LeaderAccepted int proposal_number string 'v
  | LeaderDecision int proposal_number 'v
  | DecisionRecoveryRequest int
  | DecisionRecoveryResponse int "'v slot_learned list"
  | DecisionRecoveryRetry int int
  | ForeignMulti string

definition RECOVERY_WINDOW :: int where
  "RECOVERY_WINDOW = 16"

definition RECOVERY_ATTEMPTS :: int where
  "RECOVERY_ATTEMPTS = 3"

definition RECOVERY_RETRY_DELAY :: int where
  "RECOVERY_RETRY_DELAY = 4"

record 'v multi_durable =
  mp_promised :: "proposal_number option"
  mp_accepted :: "(int \<times> 'v slot_accepted) list"
  mp_history :: "'v slot_accepted list"
  mp_last_round :: int
  mp_learned :: "(int \<times> 'v slot_learned) list option"

definition fresh_multi :: "'v multi_durable" where
  "fresh_multi = \<lparr>mp_promised = None, mp_accepted = [], mp_history = [], mp_last_round = 0, mp_learned = None\<rparr>"

record 'v multi_node =
  mn_ballot :: "proposal_number option"
  mn_promises :: "(string \<times> 'v leader_promise) list"
  mn_pending :: "(int \<times> 'v) list"
  mn_accepted_by :: "(int \<times> string set) list"
  mn_recovery :: "int option"
  mn_generation :: int
  mn_attempt :: int

definition fresh_node :: "'v multi_node" where
  "fresh_node = \<lparr>mn_ballot = None, mn_promises = [], mn_pending = [], mn_accepted_by = [], mn_recovery = None,
     mn_generation = 0, mn_attempt = 0\<rparr>"

datatype 'v multi_event =
    EvMultiChosenRecovered int proposal_number 'v
  | EvMultiChosen int proposal_number 'v
  | EvRecoveryExhausted string int int bool
  | EvPhase1Start string proposal_number
  | EvPhase2Start int string proposal_number 'v
  | EvPromiseInvalid string string proposal_number "'v slot_accepted"
  | EvPhase1Complete string proposal_number "string list"
  | EvAcceptInvalidSlot int string proposal_number
  | EvMultiAcceptRejected int string proposal_number proposal_number
  | EvDecisionIgnored string int proposal_number
  | EvDecisionDuplicate string int proposal_number
  | EvMultiLearned string int proposal_number 'v
  | EvMultiRestart string
  | EvMultiApply string int proposal_number 'v
  | EvMultiApplyGap string int "int list"
  | EvMultiMachineLoad string int
  | EvMultiClientResult string string string int string "int option" "proposal_number option" "proposal_number option" "string option"

record 'v multipaxos = "('v multi_msg, 'v multi_event, 'v multi_durable, unit) simulator" +
  mp_node_ids :: "string list"
  mp_learn_decisions :: bool
  mp_nodes :: "string \<Rightarrow> 'v multi_node"
  mp_chosen :: "(int \<times> 'v slot_learned) list"

definition mp_quorum :: "'v multipaxos \<Rightarrow> nat" where
  "mp_quorum s = quorum_size (mp_node_ids s)"

definition mp_peers :: "'v multipaxos \<Rightarrow> string \<Rightarrow> string list" where
  "mp_peers s n = filter (\<lambda>peer. peer \<noteq> n) (mp_node_ids s)"

definition update_node :: "string \<Rightarrow> ('v multi_node \<Rightarrow> 'v multi_node) \<Rightarrow> 'v multipaxos \<Rightarrow> 'v multipaxos" where
  "update_node n f s = s\<lparr>mp_nodes := (mp_nodes s)(n := f (mp_nodes s n))\<rparr>"

abbreviation mp_broadcast :: "string \<Rightarrow> 'v multi_msg \<Rightarrow> 'v multipaxos \<Rightarrow> 'v multipaxos result" where
  "mp_broadcast n m s \<equiv> for_each (\<lambda>peer. send_msg n peer m) (mp_peers s n) s"

section \<open>Reading\<close>

definition promised_ballot :: "string \<Rightarrow> 'v multipaxos \<Rightarrow> proposal_number option result" where
  "promised_ballot n s =
     (case mp_promised (persistent_state s n) of
        None \<Rightarrow> Inr None
      | Some b \<Rightarrow> if pn_proposer b \<notin> set (mp_node_ids s) then Inl PaxosSafetyViolation else Inr (Some b))"

definition multi_learned_decision :: "string \<Rightarrow> int \<Rightarrow> 'v multipaxos \<Rightarrow> 'v slot_learned option" where
  "multi_learned_decision n slot s =
     (case mp_learned (persistent_state s n) of None \<Rightarrow> None | Some learned \<Rightarrow> map_of learned slot)"

definition multi_learned_decisions :: "string \<Rightarrow> 'v multipaxos \<Rightarrow> 'v slot_learned list" where
  "multi_learned_decisions n s =
     (case mp_learned (persistent_state s n) of
        None \<Rightarrow> []
      | Some learned \<Rightarrow> List.map_filter (map_of learned) (sort (map fst learned)))"

definition has_leader_authority :: "string \<Rightarrow> 'v multipaxos \<Rightarrow> bool" where
  "has_leader_authority n s \<longleftrightarrow>
     mn_ballot (mp_nodes s n) \<noteq> None \<and> mp_quorum s \<le> length (mn_promises (mp_nodes s n))"

definition leadership_accepted :: "string \<Rightarrow> 'v multipaxos \<Rightarrow> 'v slot_accepted list" where
  "leadership_accepted n s =
     concat (map (\<lambda>peer. case map_of (mn_promises (mp_nodes s n)) peer of None \<Rightarrow> [] | Some p \<Rightarrow> lp_accepted p)
       (sort (map fst (mn_promises (mp_nodes s n)))))"

text \<open>A pending proposal is its slot, ballot and value.\<close>

definition pending_proposals :: "string \<Rightarrow> 'v multipaxos \<Rightarrow> (int \<times> proposal_number \<times> 'v) list" where
  "pending_proposals n s =
     (case mn_ballot (mp_nodes s n) of
        None \<Rightarrow> []
      | Some b \<Rightarrow> List.map_filter (\<lambda>slot. case map_of (mn_pending (mp_nodes s n)) slot of None \<Rightarrow> None | Some v \<Rightarrow> Some (slot, b, v))
          (sort (map fst (mn_pending (mp_nodes s n)))))"

section \<open>Evidence\<close>

definition validate_ballot :: "'v multipaxos \<Rightarrow> proposal_number \<Rightarrow> unit result" where
  "validate_ballot s b =
     (if pn_round b \<le> 0 then Inl PaxosSafetyViolation
      else if pn_proposer b \<notin> set (mp_node_ids s) then Inl PaxosSafetyViolation
      else Inr ())"

definition validate_durable_accepted :: "'v multipaxos \<Rightarrow> string \<Rightarrow> 'v slot_accepted \<Rightarrow> unit result" where
  "validate_durable_accepted s n a =
     (if sa_slot a \<le> 0 then Inl PaxosSafetyViolation
      else and_then (validate_ballot s (sa_proposal a)) (\<lambda>_.
        and_then (promised_ballot n s) (\<lambda>promised.
          case promised of
            None \<Rightarrow> Inl PaxosSafetyViolation
          | Some b \<Rightarrow> if sa_proposal a > b then Inl PaxosSafetyViolation else Inr ())))"

definition count_evidence :: "'v multipaxos \<Rightarrow> 'v slot_learned \<Rightarrow> string \<Rightarrow> string set \<Rightarrow> string set result" where
  "count_evidence s d n acceptors =
     (case filter (\<lambda>a. sa_slot a = sl_slot d \<and> sa_proposal a = sl_proposal d \<and> sa_value a = sl_value d)
             (mp_history (persistent_state s n)) of
        [] \<Rightarrow> Inr acceptors
      | a # _ \<Rightarrow> and_then (validate_durable_accepted s n a) (\<lambda>_. Inr (insert n acceptors)))"

definition require_decision_evidence :: "'v multipaxos \<Rightarrow> 'v slot_learned \<Rightarrow> unit result" where
  "require_decision_evidence s d =
     (if sl_slot d \<le> 0 then Inl PaxosSafetyViolation
      else and_then (validate_ballot s (sl_proposal d)) (\<lambda>_.
        and_then (for_each (count_evidence s d) (mp_node_ids s) {}) (\<lambda>acceptors.
          if card acceptors < mp_quorum s then Inl PaxosSafetyViolation else Inr ())))"

definition validate_durable_learned :: "'v multipaxos \<Rightarrow> string \<Rightarrow> unit result" where
  "validate_durable_learned s n =
     (case mp_learned (persistent_state s n) of
        None \<Rightarrow> Inr ()
      | Some learned \<Rightarrow>
          for_each (\<lambda>(slot, d) _.
            if slot \<le> 0 \<or> sl_slot d \<le> 0 \<or> sl_slot d \<noteq> slot then Inl PaxosSafetyViolation
            else validate_ballot s (sl_proposal d)) learned ())"

fun validate_history ::
  "'v multipaxos \<Rightarrow> string \<Rightarrow> ((int \<times> proposal_number) \<times> 'v) list \<Rightarrow> 'v slot_accepted list \<Rightarrow> unit result" where
  "validate_history s n seen [] = Inr ()"
| "validate_history s n seen (a # as) =
     and_then (validate_durable_accepted s n a) (\<lambda>_.
       (let key = (sa_slot a, sa_proposal a)
        in case map_of seen key of
             Some v \<Rightarrow> if v \<noteq> sa_value a then Inl PaxosSafetyViolation
                       else validate_history s n (AList.update key (sa_value a) seen) as
           | None \<Rightarrow> validate_history s n (AList.update key (sa_value a) seen) as))"

definition validate_durable_history :: "'v multipaxos \<Rightarrow> string \<Rightarrow> unit result" where
  "validate_durable_history s n =
     and_then (validate_durable_learned s n) (\<lambda>_.
       validate_history s n [] (mp_history (persistent_state s n)))"

text \<open>The records \<open>(ballot, value, node)\<close> of one slot, in the order \<open>by_slot\<close> collects them.\<close>

definition slot_records :: "'v multipaxos \<Rightarrow> int \<Rightarrow> (proposal_number \<times> 'v \<times> string) list" where
  "slot_records s slot = concat (map (\<lambda>n. map (\<lambda>a. (sa_proposal a, sa_value a, n))
     (filter (\<lambda>a. sa_slot a = slot) (mp_history (persistent_state s n)))) (mp_node_ids s))"

definition recorded_slots :: "'v multipaxos \<Rightarrow> int list" where
  "recorded_slots s =
     rev (remdups (rev (concat (map (\<lambda>n. map sa_slot (mp_history (persistent_state s n))) (mp_node_ids s)))))"

definition quorum_records :: "'v multipaxos \<Rightarrow> int \<Rightarrow> (proposal_number \<times> 'v) list" where
  "quorum_records s slot =
     (let records = slot_records s slot
      in List.map_filter (\<lambda>(b, v, _).
           if mp_quorum s \<le> card ((\<lambda>(_, _, n). n) ` set (filter (\<lambda>(b', v', _). b' = b \<and> v' = v) records))
           then Some (b, v) else None) records)"

section \<open>Recovery of the chosen record and the safety check\<close>

definition recover_multi_slot :: "int \<Rightarrow> 'v multipaxos \<Rightarrow> 'v multipaxos result" where
  "recover_multi_slot slot s =
     (case quorum_records s slot of
        [] \<Rightarrow> Inr s
      | (b0, first) # rest \<Rightarrow>
          if (\<exists>r \<in> set rest. snd r \<noteq> first) then Inl PaxosSafetyViolation
          else
            (let ballot = Max (set (b0 # map fst rest))
             in and_then (make_slot_learned slot ballot first) (\<lambda>decision.
                  Inr (record_app (EvMultiChosenRecovered slot ballot first)
                    (s\<lparr>mp_chosen := AList.update slot decision (mp_chosen s)\<rparr>)))))"

definition check_slot_quorums :: "'v multipaxos \<Rightarrow> int \<Rightarrow> unit \<Rightarrow> unit result" where
  "check_slot_quorums s slot _ =
     (let candidates = map snd (quorum_records s slot)
      in if \<not> all_equal_to_head candidates then Inl PaxosSafetyViolation
         else case map_of (mp_chosen s) slot of
                Some chosen \<Rightarrow>
                  if candidates \<noteq> [] \<and> sl_value chosen \<noteq> hd candidates then Inl PaxosSafetyViolation else Inr ()
              | None \<Rightarrow> Inr ())"

definition check_learned :: "'v multipaxos \<Rightarrow> 'v slot_learned \<Rightarrow> unit \<Rightarrow> unit result" where
  "check_learned s d _ =
     (let candidates = map snd (quorum_records s (sl_slot d))
      in if candidates = [] \<or> hd candidates \<noteq> sl_value d then Inl PaxosSafetyViolation
         else require_decision_evidence s d)"

definition multi_assert_safety :: "'v multipaxos \<Rightarrow> unit result" where
  "multi_assert_safety s =
     and_then (for_each (\<lambda>n _. validate_durable_history s n) (mp_node_ids s) ()) (\<lambda>_.
     and_then (for_each (check_slot_quorums s) (recorded_slots s) ()) (\<lambda>_.
       for_each (\<lambda>n. for_each (check_learned s) (multi_learned_decisions n s)) (mp_node_ids s) ()))"

definition multi_recover_chosen :: "'v multipaxos \<Rightarrow> 'v multipaxos result" where
  "multi_recover_chosen s =
     and_then (for_each (\<lambda>n _. validate_durable_history s n) (mp_node_ids s) ()) (\<lambda>_.
     and_then (for_each recover_multi_slot (recorded_slots s) s) (\<lambda>s1.
     and_then (multi_assert_safety s1) (\<lambda>_. Inr s1)))"

section \<open>Learning\<close>

definition multi_record_chosen :: "int \<Rightarrow> proposal_number \<Rightarrow> 'v \<Rightarrow> 'v multipaxos \<Rightarrow> 'v multipaxos result" where
  "multi_record_chosen slot b v s =
     (case map_of (mp_chosen s) slot of
        Some current \<Rightarrow> if sl_value current \<noteq> v then Inl PaxosSafetyViolation else Inr s
      | None \<Rightarrow>
          and_then (make_slot_learned slot b v) (\<lambda>decision.
            Inr (record_app (EvMultiChosen slot b v) (s\<lparr>mp_chosen := AList.update slot decision (mp_chosen s)\<rparr>))))"

definition receive_decision ::
  "string \<Rightarrow> int \<Rightarrow> proposal_number \<Rightarrow> 'v \<Rightarrow> 'v multipaxos \<Rightarrow> 'v multipaxos result" where
  "receive_decision n slot b v s =
     (let ignored = Inr (record_app (EvDecisionIgnored n slot b) s)
      in case mp_learned (persistent_state s n) of
        None \<Rightarrow> ignored
      | Some learned \<Rightarrow>
          if slot \<le> 0 then ignored
          else
            (let current = map_of learned slot
             in if (case current of Some l \<Rightarrow> sl_value l \<noteq> v | None \<Rightarrow> False) then Inl PaxosSafetyViolation
                else
                  and_then (make_slot_learned slot b v) (\<lambda>decision.
                  and_then (require_decision_evidence s decision) (\<lambda>_.
                    if current \<noteq> None then Inr (record_app (EvDecisionDuplicate n slot b) s)
                    else Inr (record_app (EvMultiLearned n slot b v)
                           (set_durable n (\<lambda>d. d\<lparr>mp_learned := Some (AList.update slot decision learned)\<rparr>) s))))))"

section \<open>Phase 2\<close>

definition multi_receive_accepted ::
  "string \<Rightarrow> int \<Rightarrow> proposal_number \<Rightarrow> string \<Rightarrow> 'v \<Rightarrow> 'v multipaxos \<Rightarrow> 'v multipaxos result" where
  "multi_receive_accepted n slot b acceptor v s =
     (let node = mp_nodes s n
      in if slot \<le> 0 then Inr s
         else case map_of (mn_pending node) slot of
           None \<Rightarrow> Inr s
         | Some value \<Rightarrow>
             if mn_ballot node \<noteq> Some b \<or> acceptor \<notin> set (mp_node_ids s) then Inr s
             else if v \<noteq> value then Inl PaxosSafetyViolation
             else case map_of (mn_accepted_by node) slot of
               None \<Rightarrow> Inl KeyError
             | Some acceptors \<Rightarrow>
                 (let acceptors' = insert acceptor acceptors;
                      s1 = update_node n (\<lambda>nd. nd\<lparr>mn_accepted_by := AList.update slot acceptors' (mn_accepted_by nd)\<rparr>) s
                  in if card acceptors' < mp_quorum s1 then Inr s1
                     else
                       and_then (multi_record_chosen slot b v s1) (\<lambda>s2.
                         (let s3 = update_node n (\<lambda>nd. nd\<lparr>mn_pending := AList.delete slot (mn_pending nd),
                                     mn_accepted_by := AList.delete slot (mn_accepted_by nd)\<rparr>) s2
                          in if \<not> mp_learn_decisions s3 then Inr s3
                             else and_then (receive_decision n slot b v s3)
                                    (mp_broadcast n (LeaderDecision slot b v))))))"

definition receive_accept ::
  "string \<Rightarrow> int \<Rightarrow> proposal_number \<Rightarrow> 'v \<Rightarrow> 'v multipaxos \<Rightarrow> 'v multipaxos result" where
  "receive_accept n slot b v s =
     (if slot \<le> 0 then Inr (record_app (EvAcceptInvalidSlot slot n b) s)
      else
        and_then (promised_ballot n s) (\<lambda>promised.
          if beyond promised b then Inr (record_app (EvMultiAcceptRejected slot n b (the promised)) s)
          else
            (let s1 = set_durable n (\<lambda>d. d\<lparr>mp_promised := Some b\<rparr>) s
             in if (case map_of (mp_accepted (persistent_state s1 n)) slot of
                      Some a \<Rightarrow> sa_proposal a = b \<and> sa_value a \<noteq> v | None \<Rightarrow> False)
                then Inl PaxosSafetyViolation
                else
                  and_then (make_slot_accepted slot b v) (\<lambda>accepted.
                    (let s2 = set_durable n (\<lambda>d. d\<lparr>mp_accepted := AList.update slot accepted (mp_accepted d),
                                mp_history := (if accepted \<in> set (mp_history d) then mp_history d
                                               else mp_history d @ [accepted])\<rparr>) s1
                     in if pn_proposer b = n then multi_receive_accepted n slot b n v s2
                        else send_msg n (pn_proposer b) (LeaderAccepted slot b n v) s2)))))"

definition promised_accepted :: "'v multi_node \<Rightarrow> int \<Rightarrow> 'v slot_accepted list" where
  "promised_accepted node slot =
     filter (\<lambda>a. sa_slot a = slot) (concat (map (\<lambda>(_, p). lp_accepted p) (mn_promises node)))"

definition adopted_value :: "'v multi_node \<Rightarrow> int \<Rightarrow> 'v slot_accepted option result" where
  "adopted_value node slot =
     (let accepted = promised_accepted node slot
      in if accepted = [] then Inr None
         else
           (let highest = Max (set (map sa_proposal accepted));
                top = filter (\<lambda>a. sa_proposal a = highest) accepted;
                first = sa_value (hd top)
            in if (\<exists>a \<in> set (tl top). sa_value a \<noteq> first) then Inl PaxosSafetyViolation
               else Inr (Some (hd top))))"

definition propose :: "string \<Rightarrow> int \<Rightarrow> 'v \<Rightarrow> 'v multipaxos \<Rightarrow> 'v multipaxos result" where
  "propose n slot value s =
     (if slot \<le> 0 then Inl ValueError
      else case mn_ballot (mp_nodes s n) of
        None \<Rightarrow> Inl PaxosError
      | Some b \<Rightarrow>
          if \<not> has_leader_authority n s then Inl PaxosError
          else if map_of (mn_pending (mp_nodes s n)) slot \<noteq> None then Inl PaxosError
          else
            and_then (adopted_value (mp_nodes s n) slot) (\<lambda>adopted.
              (let v = (case adopted of None \<Rightarrow> value | Some a \<Rightarrow> sa_value a);
                   s1 = update_node n (\<lambda>nd. nd\<lparr>mn_pending := AList.update slot v (mn_pending nd),
                          mn_accepted_by := AList.update slot {} (mn_accepted_by nd)\<rparr>) s
               in and_then (receive_accept n slot b v s1) (\<lambda>s2.
                  and_then (mp_broadcast n (LeaderAccept slot b v) s2) (\<lambda>s3.
                    Inr (record_app (EvPhase2Start slot n b v) s3))))))"

definition retry_proposal :: "string \<Rightarrow> int \<Rightarrow> 'v multipaxos \<Rightarrow> 'v multipaxos result" where
  "retry_proposal n slot s =
     (if \<not> is_alive s n \<or> \<not> has_leader_authority n s then Inl PaxosError
      else
        and_then (promised_ballot n s) (\<lambda>promised.
          if mn_ballot (mp_nodes s n) \<noteq> promised then Inl PaxosError
          else case map_of (mn_pending (mp_nodes s n)) slot of
            None \<Rightarrow> Inl PaxosError
          | Some v \<Rightarrow>
              (let b = the (mn_ballot (mp_nodes s n))
               in and_then (receive_accept n slot b v s) (mp_broadcast n (LeaderAccept slot b v)))))"

section \<open>Phase 1\<close>

definition invalid_evidence :: "'v multipaxos \<Rightarrow> proposal_number \<Rightarrow> 'v slot_accepted \<Rightarrow> bool" where
  "invalid_evidence s b a \<longleftrightarrow> sa_slot a \<le> 0 \<or> pn_proposer (sa_proposal a) \<notin> set (mp_node_ids s) \<or> sa_proposal a > b"

definition multi_receive_promise :: "string \<Rightarrow> 'v leader_promise \<Rightarrow> 'v multipaxos \<Rightarrow> 'v multipaxos result" where
  "multi_receive_promise n response s =
     (if mn_ballot (mp_nodes s n) \<noteq> Some (lp_ballot response) \<or> lp_acceptor response \<notin> set (mp_node_ids s) then Inr s
      else case filter (invalid_evidence s (lp_ballot response)) (lp_accepted response) of
        bad # _ \<Rightarrow> Inr (record_app (EvPromiseInvalid n (lp_acceptor response) (lp_ballot response) bad) s)
      | [] \<Rightarrow>
          (let s1 = update_node n (\<lambda>nd. nd\<lparr>mn_promises := setdefault (lp_acceptor response) response (mn_promises nd)\<rparr>) s;
               promises = mn_promises (mp_nodes s1 n)
           in Inr (if length promises = mp_quorum s1
                   then record_app (EvPhase1Complete n (lp_ballot response) (sort (map fst promises))) s1 else s1)))"

definition multi_receive_prepare :: "string \<Rightarrow> proposal_number \<Rightarrow> 'v multipaxos \<Rightarrow> 'v multipaxos result" where
  "multi_receive_prepare n b s =
     and_then (promised_ballot n s) (\<lambda>promised.
       if beyond promised b then Inr s
       else
         (let s1 = set_durable n (\<lambda>d. d\<lparr>mp_promised := Some b\<rparr>) s;
              promise = LeaderPromise b n (map snd (mp_accepted (persistent_state s1 n)))
          in if pn_proposer b = n then multi_receive_promise n promise s1
             else send_msg n (pn_proposer b) (LeaderPromiseMsg promise) s1))"

definition prepare_leadership ::
  "string \<Rightarrow> int option \<Rightarrow> 'v multipaxos \<Rightarrow> (proposal_number \<times> 'v multipaxos) result" where
  "prepare_leadership n round_number s =
     (if \<not> is_alive s n then Inl PaxosError
      else
        (let lst = mp_last_round (persistent_state s n)
         in and_then (promised_ballot n s) (\<lambda>promised.
            (let rnd = (case round_number of
                          Some r \<Rightarrow> r
                        | None \<Rightarrow> max lst (case promised of Some p \<Rightarrow> pn_round p | None \<Rightarrow> 0) + 1)
             in if rnd \<le> lst then Inl ValueError
                else and_then (ProposalNumber rnd n) (\<lambda>b.
                  (let s1 = set_durable n (\<lambda>d. d\<lparr>mp_last_round := rnd\<rparr>) s;
                       s2 = update_node n (\<lambda>nd. nd\<lparr>mn_ballot := Some b, mn_promises := [], mn_pending := [], mn_accepted_by := []\<rparr>) s1
                   in and_then (multi_receive_prepare n b s2) (\<lambda>s3.
                      and_then (mp_broadcast n (LeaderPrepare b) s3) (\<lambda>s4.
                        Inr (b, record_app (EvPhase1Start n b) s4)))))))))"

section \<open>Catching up on decisions\<close>

definition retry_recovery :: "string \<Rightarrow> 'v multipaxos \<Rightarrow> 'v multipaxos result" where
  "retry_recovery n s =
     (case mn_recovery (mp_nodes s n) of
        None \<Rightarrow> Inr s
      | Some start \<Rightarrow>
          if multi_learned_decision n start s \<noteq> None then Inr (update_node n (\<lambda>nd. nd\<lparr>mn_recovery := None\<rparr>) s)
          else if mn_attempt (mp_nodes s n) = RECOVERY_ATTEMPTS then
            Inr (record_app (EvRecoveryExhausted n start (mn_attempt (mp_nodes s n))
                   (\<exists>d \<in> set (multi_learned_decisions n s). sl_slot d > start))
                 (update_node n (\<lambda>nd. nd\<lparr>mn_recovery := None\<rparr>) s))
          else
            (let s1 = update_node n (\<lambda>nd. nd\<lparr>mn_attempt := mn_attempt nd + 1\<rparr>) s
             in and_then (for_each (\<lambda>peer. send_msg n peer (DecisionRecoveryRequest start)) (sort (mp_peers s1 n)) s1) (\<lambda>s2.
                  Inr (sim_schedule \<lparr>msg_src = n, msg_dst = n,
                         msg_payload = DecisionRecoveryRetry (mn_generation (mp_nodes s2 n)) (mn_attempt (mp_nodes s2 n)),
                         msg_ordinal = 0, msg_delivery_dst = None\<rparr> RECOVERY_RETRY_DELAY s2))))"

definition recover_decisions :: "string \<Rightarrow> int \<Rightarrow> 'v multipaxos \<Rightarrow> 'v multipaxos result" where
  "recover_decisions n start s =
     (if start \<le> 0 then Inl ValueError
      else if \<not> mp_learn_decisions s \<or> mp_peers s n = [] then Inr s
      else if \<not> is_alive s n then Inl PaxosError
      else if mn_recovery (mp_nodes s n) = Some start then Inr s
      else retry_recovery n (update_node n (\<lambda>nd. nd\<lparr>mn_generation := mn_generation nd + 1, mn_attempt := 0,
             mn_recovery := Some start\<rparr>) s))"

definition receive_recovery_request :: "string \<Rightarrow> string \<Rightarrow> int \<Rightarrow> 'v multipaxos \<Rightarrow> 'v multipaxos result" where
  "receive_recovery_request n requester start s =
     (if start \<le> 0 then Inr s
      else
        (let decisions = List.map_filter (\<lambda>slot. multi_learned_decision n slot s) [start..start + RECOVERY_WINDOW - 1]
         in and_then (for_each (\<lambda>d _. require_decision_evidence s d) decisions ()) (\<lambda>_.
              send_msg n requester (DecisionRecoveryResponse start decisions) s)))"

fun window_ok :: "string list \<Rightarrow> int \<Rightarrow> int \<Rightarrow> 'v slot_learned list \<Rightarrow> bool" where
  "window_ok members previous limit [] = True"
| "window_ok members previous limit (d # ds) =
     (sl_slot d > 0 \<and> previous < sl_slot d \<and> sl_slot d < limit \<and> pn_round (sl_proposal d) > 0 \<and>
      pn_proposer (sl_proposal d) \<in> set members \<and> window_ok members (sl_slot d) limit ds)"

definition receive_recovery_response :: "string \<Rightarrow> int \<Rightarrow> 'v slot_learned list \<Rightarrow> 'v multipaxos \<Rightarrow> 'v multipaxos result" where
  "receive_recovery_response n start decisions s =
     (if start \<le> 0 \<or> int (length decisions) > RECOVERY_WINDOW then Inr s
      else if \<not> window_ok (mp_peers s n @ [n]) (start - 1) (start + RECOVERY_WINDOW) decisions then Inr s
      else
        and_then (for_each (\<lambda>d _.
            if (case multi_learned_decision n (sl_slot d) s of Some l \<Rightarrow> sl_value l \<noteq> sl_value d | None \<Rightarrow> False)
            then Inl PaxosSafetyViolation else require_decision_evidence s d) decisions ()) (\<lambda>_.
          for_each (\<lambda>d. receive_decision n (sl_slot d) (sl_proposal d) (sl_value d)) decisions s))"

section \<open>Message dispatch and lifecycle\<close>

definition mp_handle_message :: "string \<Rightarrow> 'v multipaxos \<Rightarrow> 'v multi_msg message \<Rightarrow> 'v multipaxos result" where
  "mp_handle_message n s m =
     (if msg_dst m \<noteq> n then Inl ValueError
      else case msg_payload m of
        LeaderPrepare b \<Rightarrow>
          if msg_src m \<noteq> pn_proposer b \<or> pn_proposer b \<notin> set (mp_node_ids s) then Inr s
          else multi_receive_prepare n b s
      | LeaderPromiseMsg pr \<Rightarrow>
          if msg_src m \<noteq> lp_acceptor pr then Inr s else multi_receive_promise n pr s
      | LeaderAccept slot b v \<Rightarrow>
          if msg_src m \<noteq> pn_proposer b \<or> pn_proposer b \<notin> set (mp_node_ids s) then Inr s
          else receive_accept n slot b v s
      | LeaderAccepted slot b acceptor v \<Rightarrow>
          if msg_src m \<noteq> acceptor then Inr s else multi_receive_accepted n slot b acceptor v s
      | LeaderDecision slot b v \<Rightarrow>
          if msg_src m \<noteq> pn_proposer b \<or> pn_proposer b \<notin> set (mp_node_ids s) then Inr s
          else receive_decision n slot b v s
      | DecisionRecoveryRequest start \<Rightarrow>
          if \<not> mp_learn_decisions s \<or> msg_src m \<notin> set (mp_peers s n) then Inr s
          else receive_recovery_request n (msg_src m) start s
      | DecisionRecoveryResponse start decisions \<Rightarrow>
          if \<not> mp_learn_decisions s \<or> msg_src m \<notin> set (mp_peers s n) then Inr s
          else receive_recovery_response n start decisions s
      | DecisionRecoveryRetry generation attempt \<Rightarrow>
          if msg_src m = n \<and> generation = mn_generation (mp_nodes s n) \<and> attempt = mn_attempt (mp_nodes s n)
          then retry_recovery n s else Inr s
      | ForeignMulti name \<Rightarrow> Inl TypeError)"

definition forget_leadership :: "string \<Rightarrow> 'v multipaxos \<Rightarrow> 'v multipaxos" where
  "forget_leadership n = update_node n (\<lambda>nd. nd\<lparr>mn_ballot := None, mn_promises := [], mn_pending := [],
     mn_accepted_by := [], mn_recovery := None, mn_generation := mn_generation nd + 1, mn_attempt := 0\<rparr>)"

definition mp_handle_crash :: "string \<Rightarrow> 'v multipaxos \<Rightarrow> 'v multipaxos result" where
  "mp_handle_crash n s = Inr (forget_leadership n s)"

definition mp_handle_restart :: "string \<Rightarrow> 'v multipaxos \<Rightarrow> 'v multipaxos result" where
  "mp_handle_restart n s = Inr (record_app (EvMultiRestart n) (forget_leadership n s))"

definition multipaxos_callbacks :: "('v multi_msg, 'v multipaxos) callbacks" where
  "multipaxos_callbacks = \<lparr>on_message = mp_handle_message,
     on_crash = (\<lambda>n. Some (mp_handle_crash n)), on_restart = (\<lambda>n. Some (mp_handle_restart n))\<rparr>"

definition init_learned :: "bool \<Rightarrow> 'v multi_durable \<Rightarrow> 'v multi_durable" where
  "init_learned learn d = (if learn \<and> mp_learned d = None then d\<lparr>mp_learned := Some []\<rparr> else d)"

definition MultiPaxosCluster ::
  "('v multi_msg, 'v multi_event, 'v multi_durable, unit) simulator \<Rightarrow> string list \<Rightarrow> bool \<Rightarrow> 'v multipaxos result" where
  "MultiPaxosCluster sim node_ids learn =
     (if node_ids = [] \<or> card (set node_ids) \<noteq> length node_ids then Inl ValueError
      else
        (let s = simulator.extend sim (multipaxos.fields node_ids learn (\<lambda>_. fresh_node) []);
             s1 = fold (\<lambda>n. set_durable n (init_learned learn)) node_ids s
         in and_then (multi_recover_chosen s1) (for_each sim_register node_ids)))"

end
