(* ===== verification/KV_Commands.thy ===== *)
theory KV_Commands
  imports Prelude
begin

text \<open>
  The commands a replicated key/value log can hold, \<^verbatim>\<open>src/src/distlab/kv.py\<close>: \<open>Put\<close> and
  \<open>Delete\<close>, the client request that carries one of them under a stable identity, and the
  internal commands of the Raft layer (the commit-recovery barrier of \<^verbatim>\<open>commit_recovery.py\<close> and
  the membership control entries of \<^verbatim>\<open>membership_log.py\<close>, which the KV layer only recognises by
  type). \<open>ForeignCommand\<close> is any other Python object.

  The Python classes check their fields in \<open>__post_init__\<close>; the \<open>make_\<close> functions are those
  constructors.
\<close>

datatype kv_operation = Put (op_key: string) string | Delete (op_key: string)

definition make_put :: "string \<Rightarrow> string \<Rightarrow> kv_operation result" where
  "make_put key v = (if key = [] then Inl ValueError else Inr (Put key v))"

definition make_delete :: "string \<Rightarrow> kv_operation result" where
  "make_delete key = (if key = [] then Inl ValueError else Inr (Delete key))"

record client_request =
  cr_client :: string
  cr_request :: int
  cr_operation :: kv_operation

definition make_client_request :: "string \<Rightarrow> int \<Rightarrow> kv_operation \<Rightarrow> client_request result" where
  "make_client_request client request_id operation =
     (if client = [] then Inl ValueError
      else if request_id < 0 then Inl ValueError
      else Inr \<lparr>cr_client = client, cr_request = request_id, cr_operation = operation\<rparr>)"

datatype kv_command =
    Operation kv_operation
  | Request client_request
  | CommitRecoveryBarrier
  | MembershipControl string
  | ForeignCommand string

end
