(* ===== verification/History.thy ===== *)
theory History
  imports KV_Commands
begin

text \<open>
  Client-visible histories, \<^verbatim>\<open>src/src/distlab/linearizability.py\<close>: invocations and completions
  stamped with one local sequence counter, abandoned reads, and the retry identities attached to
  unresolved writes. \<open>wf_history\<close> is the invariant every operation keeps; the last section is
  the replay of a sub-history, which the history minimizer and the multi-key checker share.

  Python dictionaries that are read in insertion order are association lists, the others are
  maps. The type checks of the source on values whose type the model fixes (the operation of an
  invocation, the result of a \<open>Get\<close>) have no counterpart.
\<close>

section \<open>Operations and records\<close>

datatype history_operation = Write kv_operation | Get string

fun ho_key :: "history_operation \<Rightarrow> string" where
  "ho_key (Write w) = op_key w"
| "ho_key (Get k) = k"

fun is_write :: "history_operation \<Rightarrow> bool" where
  "is_write (Write _) = True"
| "is_write (Get _) = False"

definition make_get :: "string \<Rightarrow> history_operation result" where
  "make_get key = (if key = [] then Inl ValueError else Inr (Get key))"

record invocation =
  inv_id :: string
  inv_client :: string
  inv_op :: history_operation
  inv_seq :: int

record completion =
  cp_id :: string
  cp_result :: "string option"
  cp_seq :: int

record completed_operation =
  co_inv :: invocation
  co_comp :: completion

definition co_id :: "completed_operation \<Rightarrow> string" where
  "co_id item = inv_id (co_inv item)"

record history =
  h_sequence :: int
  h_invocations :: "(string \<times> invocation) list"
  h_completions :: "(string \<times> completion) list"
  h_abandoned :: "string set"
  h_request_ids :: "string \<Rightarrow> int option"
  h_active :: "string \<times> int \<Rightarrow> string option"

definition OperationHistory :: history where
  "OperationHistory = \<lparr>h_sequence = 0, h_invocations = [], h_completions = [], h_abandoned = {},
     h_request_ids = Map.empty, h_active = Map.empty\<rparr>"

section \<open>The operations\<close>

definition next_sequence :: "history \<Rightarrow> int \<times> history" where
  "next_sequence h = (h_sequence h, h\<lparr>h_sequence := h_sequence h + 1\<rparr>)"

definition invoke :: "string \<Rightarrow> string \<Rightarrow> history_operation \<Rightarrow> history \<Rightarrow> (invocation \<times> history) result" where
  "invoke i client operation h =
     (if i = [] then Inl ValueError
      else if client = [] then Inl ValueError
      else if map_of (h_invocations h) i \<noteq> None then Inl InvalidHistory
      else
        (let (sq, h1) = next_sequence h;
             v = \<lparr>inv_id = i, inv_client = client, inv_op = operation, inv_seq = sq\<rparr>
         in Inr (v, h1\<lparr>h_invocations := h_invocations h1 @ [(i, v)]\<rparr>)))"

definition respond :: "string \<Rightarrow> string option \<Rightarrow> history \<Rightarrow> (completion \<times> history) result" where
  "respond i res h =
     (case map_of (h_invocations h) i of
        None \<Rightarrow> Inl InvalidHistory
      | Some v \<Rightarrow>
          if map_of (h_completions h) i \<noteq> None then Inl InvalidHistory
          else if i \<in> h_abandoned h then Inl InvalidHistory
          else if is_write (inv_op v) \<and> res \<noteq> None then Inl InvalidHistory
          else
            (let (sq, h1) = next_sequence h;
                 c = \<lparr>cp_id = i, cp_result = res, cp_seq = sq\<rparr>
             in Inr (c, h1\<lparr>h_completions := h_completions h1 @ [(i, c)]\<rparr>)))"

definition abandon :: "string \<Rightarrow> history \<Rightarrow> (invocation \<times> history) result" where
  "abandon i h =
     (case map_of (h_invocations h) i of
        None \<Rightarrow> Inl InvalidHistory
      | Some v \<Rightarrow>
          if map_of (h_completions h) i \<noteq> None then Inl InvalidHistory
          else if is_write (inv_op v) then Inl InvalidHistory
          else if i \<in> h_abandoned h then Inl InvalidHistory
          else Inr (v, h\<lparr>h_abandoned := insert i (h_abandoned h)\<rparr>))"

definition attach_client_request_id :: "string \<Rightarrow> int \<Rightarrow> history \<Rightarrow> history result" where
  "attach_client_request_id i request_id h =
     (case map_of (h_invocations h) i of
        None \<Rightarrow> Inl InvalidHistory
      | Some v \<Rightarrow>
          if \<not> is_write (inv_op v) then Inl InvalidHistory
          else if map_of (h_completions h) i \<noteq> None then Inl InvalidHistory
          else if request_id < 0 then Inl ValueError
          else if h_request_ids h i \<noteq> None then Inl InvalidHistory
          else if h_active h (inv_client v, request_id) \<noteq> None then Inl InvalidHistory
          else Inr (h\<lparr>h_request_ids := (h_request_ids h)(i \<mapsto> request_id),
                      h_active := (h_active h)((inv_client v, request_id) \<mapsto> i)\<rparr>))"

definition client_request_id :: "string \<Rightarrow> history \<Rightarrow> int option" where
  "client_request_id i h = h_request_ids h i"

text \<open>An owner mismatch puts the popped identity back before it raises.\<close>

definition retire_client_request_id :: "string \<Rightarrow> history \<Rightarrow> (int \<times> history) result" where
  "retire_client_request_id i h =
     (if map_of (h_completions h) i = None then Inl InvalidHistory
      else case map_of (h_invocations h) i of
        None \<Rightarrow> Inl KeyError
      | Some v \<Rightarrow>
          (case h_request_ids h i of
             None \<Rightarrow> Inl InvalidHistory
           | Some request_id \<Rightarrow>
               if h_active h (inv_client v, request_id) \<noteq> Some i then Inl InvalidHistory
               else Inr (request_id, h\<lparr>h_request_ids := (h_request_ids h)(i := None),
                   h_active := (h_active h)((inv_client v, request_id) := None)\<rparr>)))"

definition is_abandoned :: "string \<Rightarrow> history \<Rightarrow> bool" where
  "is_abandoned i h \<longleftrightarrow> i \<in> h_abandoned h"

definition invocations :: "history \<Rightarrow> invocation list" where
  "invocations h = sort_key inv_seq (map snd (h_invocations h))"

definition abandoned :: "history \<Rightarrow> invocation list" where
  "abandoned h = filter (\<lambda>v. inv_id v \<in> h_abandoned h) (invocations h)"

definition completed :: "history \<Rightarrow> completed_operation list" where
  "completed h = sort_key (\<lambda>item. inv_seq (co_inv item))
     (List.map_filter (\<lambda>(i, v). map_option (\<lambda>c. \<lparr>co_inv = v, co_comp = c\<rparr>) (map_of (h_completions h) i))
       (h_invocations h))"

definition pending :: "history \<Rightarrow> invocation list" where
  "pending h = filter (\<lambda>v. map_of (h_completions h) (inv_id v) = None) (invocations h)"

section \<open>Well-formed histories\<close>

definition wf_invocations :: "history \<Rightarrow> bool" where
  "wf_invocations h \<longleftrightarrow> distinct (map fst (h_invocations h)) \<and>
     sorted_wrt (<) (map (inv_seq \<circ> snd) (h_invocations h)) \<and>
     (\<forall>(i, v) \<in> set (h_invocations h). inv_id v = i \<and> i \<noteq> [] \<and> inv_client v \<noteq> [] \<and>
        0 \<le> inv_seq v \<and> inv_seq v < h_sequence h)"

definition wf_completions :: "history \<Rightarrow> bool" where
  "wf_completions h \<longleftrightarrow> distinct (map fst (h_completions h)) \<and>
     sorted_wrt (<) (map (cp_seq \<circ> snd) (h_completions h)) \<and>
     (\<forall>(i, c) \<in> set (h_completions h). cp_id c = i \<and> cp_seq c < h_sequence h \<and>
        cp_seq c \<notin> (inv_seq \<circ> snd) ` set (h_invocations h) \<and>
        (\<exists>v. map_of (h_invocations h) i = Some v \<and> inv_seq v < cp_seq c \<and>
           (is_write (inv_op v) \<longrightarrow> cp_result c = None)))"

definition wf_abandoned :: "history \<Rightarrow> bool" where
  "wf_abandoned h \<longleftrightarrow> (\<forall>i \<in> h_abandoned h. map_of (h_completions h) i = None \<and>
     (\<exists>v. map_of (h_invocations h) i = Some v \<and> \<not> is_write (inv_op v)))"

definition wf_requests :: "history \<Rightarrow> bool" where
  "wf_requests h \<longleftrightarrow>
     (\<forall>i r. h_request_ids h i = Some r \<longrightarrow>
        (\<exists>v. map_of (h_invocations h) i = Some v \<and> is_write (inv_op v) \<and> 0 \<le> r \<and>
           h_active h (inv_client v, r) = Some i)) \<and>
     (\<forall>client r i. h_active h (client, r) = Some i \<longrightarrow>
        (\<exists>v. map_of (h_invocations h) i = Some v \<and> inv_client v = client \<and> h_request_ids h i = Some r))"

definition wf_history :: "history \<Rightarrow> bool" where
  "wf_history h \<longleftrightarrow> 0 \<le> h_sequence h \<and> wf_invocations h \<and> wf_completions h \<and> wf_abandoned h \<and> wf_requests h"

lemmas wf_history_parts = wf_history_def wf_invocations_def wf_completions_def wf_abandoned_def wf_requests_def

lemma wf_empty: "wf_history OperationHistory"
  by (simp add: wf_history_parts OperationHistory_def)

lemma map_of_snoc: "map_of (d @ [(k, v)]) x = (case map_of d x of None \<Rightarrow> if x = k then Some v else None | Some y \<Rightarrow> Some y)"
  by (simp add: map_add_def split: option.split)

lemma map_of_snoc_keep: "map_of d x = Some y \<Longrightarrow> map_of (d @ [(k, v)]) x = Some y"
  by (simp add: map_of_snoc)

lemma notin_keys: "map_of d k = None \<Longrightarrow> k \<notin> fst ` set d"
  by (simp add: map_of_eq_None_iff)

lemma wf_frame [simp]:
  "wf_invocations (h\<lparr>h_abandoned := a\<rparr>) = wf_invocations h"
  "wf_completions (h\<lparr>h_abandoned := a\<rparr>) = wf_completions h"
  "wf_requests (h\<lparr>h_abandoned := a\<rparr>) = wf_requests h"
  "wf_invocations (h\<lparr>h_request_ids := r, h_active := t\<rparr>) = wf_invocations h"
  "wf_completions (h\<lparr>h_request_ids := r, h_active := t\<rparr>) = wf_completions h"
  "wf_abandoned (h\<lparr>h_request_ids := r, h_active := t\<rparr>) = wf_abandoned h"
  by (simp_all add: wf_invocations_def wf_completions_def wf_requests_def wf_abandoned_def)

lemma completed_invoked:
  assumes "wf_history h" and "map_of (h_completions h) i = Some c"
  shows "\<exists>v. map_of (h_invocations h) i = Some v \<and> inv_seq v < cp_seq c"
  using assms map_of_SomeD[OF assms(2)] by (fastforce simp: wf_history_def wf_completions_def)

lemma wf_invoke:
  assumes wf: "wf_history h" and ok: "invoke i client operation h = Inr (v, h')"
  shows "wf_history h'"
proof -
  have new: "map_of (h_invocations h) i = None" "i \<noteq> []" "client \<noteq> []"
    and v: "v = \<lparr>inv_id = i, inv_client = client, inv_op = operation, inv_seq = h_sequence h\<rparr>"
    and h': "h' = h\<lparr>h_sequence := h_sequence h + 1, h_invocations := h_invocations h @ [(i, v)]\<rparr>"
    using ok by (auto simp: invoke_def next_sequence_def Let_def split: if_splits)
  have a: "wf_invocations h'"
    using wf new v notin_keys[OF new(1)] unfolding wf_history_def wf_invocations_def h'
    by (auto simp: sorted_wrt_append)
  have b: "wf_completions h'"
    using wf v unfolding wf_history_def wf_completions_def h'
    by (auto simp: map_of_snoc split: option.splits)
  have c: "wf_abandoned h'" "wf_requests h'"
    using wf new unfolding wf_history_def wf_abandoned_def wf_requests_def h'
    by (auto simp: map_of_snoc split: option.splits) fastforce+
  show ?thesis using a b c wf by (simp add: wf_history_def h')
qed

lemma wf_respond:
  assumes wf: "wf_history h" and ok: "respond i res h = Inr (c, h')"
  shows "wf_history h'"
proof -
  obtain v where v: "map_of (h_invocations h) i = Some v" "is_write (inv_op v) \<longrightarrow> res = None"
    and new: "map_of (h_completions h) i = None" "i \<notin> h_abandoned h"
    and c: "c = \<lparr>cp_id = i, cp_result = res, cp_seq = h_sequence h\<rparr>"
    and h': "h' = h\<lparr>h_sequence := h_sequence h + 1, h_completions := h_completions h @ [(i, c)]\<rparr>"
    using ok by (auto simp: respond_def next_sequence_def Let_def split: if_splits option.splits)
  have seqs: "\<forall>(j, w) \<in> set (h_invocations h). inv_seq w < h_sequence h"
    using wf by (auto simp: wf_history_def wf_invocations_def)
  have a: "wf_invocations h'" using wf unfolding wf_history_def wf_invocations_def h' by auto
  have b: "wf_completions h'"
    using wf c v seqs new notin_keys[OF new(1)] map_of_SomeD[OF v(1)]
    unfolding wf_history_def wf_completions_def h' by (auto simp: sorted_wrt_append)
  have d: "wf_abandoned h'" "wf_requests h'"
    using wf new unfolding wf_history_def wf_abandoned_def wf_requests_def h' by (auto simp: map_of_snoc)
  show ?thesis using a b d wf by (simp add: wf_history_def h')
qed

lemma wf_abandon:
  assumes "wf_history h" and "abandon i h = Inr (v, h')"
  shows "wf_history h'"
proof -
  have h': "h' = h\<lparr>h_abandoned := insert i (h_abandoned h)\<rparr>" and "wf_abandoned h'"
    using assms by (auto simp: wf_history_def wf_abandoned_def abandon_def split: if_splits option.splits)
  then show ?thesis using assms(1) by (simp add: wf_history_def)
qed

lemma wf_attach:
  assumes wf: "wf_history h" and ok: "attach_client_request_id i r h = Inr h'"
  shows "wf_history h'"
proof -
  obtain v where v: "map_of (h_invocations h) i = Some v" "is_write (inv_op v)" "0 \<le> r"
      "h_request_ids h i = None" "h_active h (inv_client v, r) = None"
    and h': "h' = h\<lparr>h_request_ids := (h_request_ids h)(i \<mapsto> r), h_active := (h_active h)((inv_client v, r) \<mapsto> i)\<rparr>"
    using ok by (auto simp: attach_client_request_id_def split: if_splits option.splits)
  have "wf_requests h'"
    using wf v unfolding wf_history_def wf_requests_def h' by auto (metis option.distinct(1))+
  then show ?thesis using wf by (simp add: wf_history_def h')
qed

lemma wf_retire:
  assumes wf: "wf_history h" and ok: "retire_client_request_id i h = Inr (r, h')"
  shows "wf_history h'"
proof -
  obtain v where v: "map_of (h_invocations h) i = Some v" "h_request_ids h i = Some r"
      "h_active h (inv_client v, r) = Some i"
    and h': "h' = h\<lparr>h_request_ids := (h_request_ids h)(i := None), h_active := (h_active h)((inv_client v, r) := None)\<rparr>"
    using ok by (auto simp: retire_client_request_id_def split: if_splits option.splits)
  have "wf_requests h'"
    using wf v unfolding wf_history_def wf_requests_def h' by auto (metis option.inject)+
  then show ?thesis using wf by (simp add: wf_history_def h')
qed

text \<open>Every operation in one place: a client of the class can only perform these.\<close>

datatype history_call =
    CallInvoke string string history_operation
  | CallRespond string "string option"
  | CallAbandon string
  | CallAttach string int
  | CallRetire string

fun perform :: "history_call \<Rightarrow> history \<Rightarrow> history result" where
  "perform (CallInvoke i client operation) h = and_then (invoke i client operation h) (\<lambda>(v, h'). Inr h')"
| "perform (CallRespond i res) h = and_then (respond i res h) (\<lambda>(c, h'). Inr h')"
| "perform (CallAbandon i) h = and_then (abandon i h) (\<lambda>(v, h'). Inr h')"
| "perform (CallAttach i r) h = attach_client_request_id i r h"
| "perform (CallRetire i) h = and_then (retire_client_request_id i h) (\<lambda>(r, h'). Inr h')"

lemma perform_wf:
  assumes wf: "wf_history h"
  shows "outcome {ValueError, InvalidHistory} wf_history (perform call h)"
proof (cases "perform call h")
  case (Inl e)
  have "retire_client_request_id i h \<noteq> Inl KeyError" for i
    using completed_invoked[OF wf, of i]
    by (cases "map_of (h_completions h) i") (auto simp: retire_client_request_id_def split: if_splits option.splits)
  then have "e \<noteq> KeyError" using Inl
    by (cases call) (auto simp: and_then_eq_Inl invoke_def respond_def abandon_def attach_client_request_id_def
        next_sequence_def Let_def split: if_splits option.splits)
  then show ?thesis using Inl
    by (cases call) (auto simp: and_then_eq_Inl invoke_def respond_def abandon_def attach_client_request_id_def
        retire_client_request_id_def next_sequence_def Let_def split: if_splits option.splits)
next
  case (Inr h')
  then have "wf_history h'"
    by (cases call) (auto simp: and_then_eq_Inr intro: wf_invoke[OF wf] wf_respond[OF wf] wf_abandon[OF wf]
        wf_attach[OF wf] wf_retire[OF wf])
  then show ?thesis using Inr by simp
qed

section \<open>Reading a well-formed history\<close>

lemma strict_sorted_map: "sorted_wrt (<) (map f xs) \<Longrightarrow> sorted (map f xs) \<and> distinct (map f xs)" for f :: "'a \<Rightarrow> int"
  by (metis strict_sorted_iff)

lemma invocations_wf: "wf_history h \<Longrightarrow> invocations h = map snd (h_invocations h)"
  unfolding invocations_def wf_history_def wf_invocations_def
  by (auto dest!: strict_sorted_map intro!: sort_key_id_if_sorted)

definition complete_with :: "history \<Rightarrow> invocation \<Rightarrow> completed_operation option" where
  "complete_with h v = map_option (\<lambda>c. \<lparr>co_inv = v, co_comp = c\<rparr>) (map_of (h_completions h) (inv_id v))"

lemma complete_with_Some [simp]:
  "complete_with h v = Some item \<longleftrightarrow> co_inv item = v \<and> map_of (h_completions h) (inv_id v) = Some (co_comp item)"
  by (cases item) (auto simp: complete_with_def)

lemma set_map_filter: "set (List.map_filter f xs) = {y. \<exists>x \<in> set xs. f x = Some y}"
  by (force simp: List.map_filter_def)

lemma sorted_complete: "sorted (map inv_seq vs) \<Longrightarrow>
    sorted (map (\<lambda>item. inv_seq (co_inv item)) (List.map_filter (complete_with h) vs))"
  by (induction vs) (auto simp: set_map_filter split: option.splits)

lemma completed_wf: "wf_history h \<Longrightarrow> completed h = List.map_filter (complete_with h) (invocations h)"
proof -
  assume wf: "wf_history h"
  have "List.map_filter (\<lambda>(i, v). map_option (\<lambda>c. \<lparr>co_inv = v, co_comp = c\<rparr>) (map_of (h_completions h) i)) xs =
      List.map_filter (complete_with h) (map snd xs)" if "\<forall>(i, v) \<in> set xs. inv_id v = i" for xs
    using that by (induction xs) (auto simp: complete_with_def split: option.split)
  moreover have "\<forall>(i, v) \<in> set (h_invocations h). inv_id v = i"
    using wf by (auto simp: wf_history_def wf_invocations_def)
  moreover have "sorted (map inv_seq (map snd (h_invocations h)))"
    using wf strict_sorted_map[of "inv_seq \<circ> snd"] by (auto simp: wf_history_def wf_invocations_def)
  ultimately show ?thesis
    unfolding completed_def invocations_wf[OF wf] by (simp add: sort_key_id_if_sorted sorted_complete)
qed

lemma set_completed:
  assumes "wf_history h"
  shows "item \<in> set (completed h) \<longleftrightarrow>
    co_inv item \<in> set (invocations h) \<and> map_of (h_completions h) (co_id item) = Some (co_comp item)"
  by (auto simp: completed_wf[OF assms] set_map_filter co_id_def)

lemma invocation_facts:
  assumes "wf_history h"
  shows "distinct (map inv_id (invocations h))" "sorted_wrt (<) (map inv_seq (invocations h))"
    "distinct (invocations h)"
    "v \<in> set (invocations h) \<longleftrightarrow> map_of (h_invocations h) (inv_id v) = Some v"
proof -
  have i: "map inv_id (invocations h) = map fst (h_invocations h)"
    using assms by (auto simp: invocations_wf wf_history_def wf_invocations_def)
  show "distinct (map inv_id (invocations h))" using assms i by (simp add: wf_history_def wf_invocations_def)
  then show "distinct (invocations h)" by (simp add: distinct_map)
  show "sorted_wrt (<) (map inv_seq (invocations h))"
    using assms by (simp add: invocations_wf wf_history_def wf_invocations_def)
  have d: "distinct (map fst (h_invocations h))" and k: "\<forall>(i, v) \<in> set (h_invocations h). inv_id v = i"
    using assms by (auto simp: wf_history_def wf_invocations_def)
  show "v \<in> set (invocations h) \<longleftrightarrow> map_of (h_invocations h) (inv_id v) = Some v"
    using k by (force simp: invocations_wf[OF assms] map_of_eq_Some_iff[OF d])
qed

lemma completed_facts:
  assumes wf: "wf_history h"
  shows "distinct (map co_id (completed h))" "distinct (completed h)"
    "\<And>item. item \<in> set (completed h) \<Longrightarrow> inv_seq (co_inv item) < cp_seq (co_comp item)"
    "\<And>item. item \<in> set (completed h) \<Longrightarrow> cp_id (co_comp item) = co_id item"
    "\<And>item. item \<in> set (completed h) \<Longrightarrow> is_write (inv_op (co_inv item)) \<Longrightarrow> cp_result (co_comp item) = None"
proof -
  have "distinct (map co_id (List.map_filter (complete_with h) vs)) \<and>
      set (map co_id (List.map_filter (complete_with h) vs)) \<subseteq> set (map inv_id vs)"
    if "distinct (map inv_id vs)" for vs
    using that by (induction vs) (auto simp: co_id_def set_map_filter split: option.splits)
  from this[OF invocation_facts(1)[OF wf]] show "distinct (map co_id (completed h))"
    by (simp add: completed_wf[OF wf])
  then show "distinct (completed h)" by (simp add: distinct_map)
  fix item assume "item \<in> set (completed h)"
  then have v: "map_of (h_invocations h) (co_id item) = Some (co_inv item)"
    and c: "(co_id item, co_comp item) \<in> set (h_completions h)"
    using invocation_facts(4)[OF wf] by (auto simp: set_completed[OF wf] co_id_def dest: map_of_SomeD)
  show "inv_seq (co_inv item) < cp_seq (co_comp item)" "cp_id (co_comp item) = co_id item"
    "is_write (inv_op (co_inv item)) \<Longrightarrow> cp_result (co_comp item) = None"
    using wf v c by (auto simp: wf_history_def wf_completions_def)
qed

lemma performed_wf: "for_each perform calls OperationHistory = Inr h \<Longrightarrow> wf_history h"
  using outcome_for_each[where P = wf_history and f = perform, OF wf_empty perform_wf, of calls] by simp

lemma performed_projr: "\<not> isl (for_each perform calls OperationHistory) \<Longrightarrow>
    wf_history (projr (for_each perform calls OperationHistory))"
  by (metis performed_wf sum.collapse(2))

text \<open>C32. The history invariant. Whatever sequence of calls a client makes, the history stays
  well-formed (sequence numbers increase, every response follows its own invocation, responses
  of writes carry no value, abandoned operations are unanswered reads), a further call raises
  only \<open>ValueError\<close> or \<open>InvalidHistory\<close>, every invocation is either completed or pending, and
  two writes of one client that hold the same retry identity are the same operation.\<close>

theorem history_invariant:
  assumes "for_each perform calls OperationHistory = Inr h"
  shows "wf_history h \<and> outcome {ValueError, InvalidHistory} wf_history (perform call h) \<and>
    set (invocations h) = co_inv ` set (completed h) \<union> set (pending h) \<and>
    co_inv ` set (completed h) \<inter> set (pending h) = {} \<and>
    (\<forall>i j v w r. map_of (h_invocations h) i = Some v \<longrightarrow> map_of (h_invocations h) j = Some w \<longrightarrow>
       inv_client v = inv_client w \<longrightarrow> client_request_id i h = Some r \<longrightarrow> client_request_id j h = Some r \<longrightarrow> i = j)"
proof (intro conjI allI impI)
  show wf: "wf_history h" by (rule performed_wf[OF assms])
  show "outcome {ValueError, InvalidHistory} wf_history (perform call h)" by (rule perform_wf[OF wf])
  have c: "co_inv ` set (completed h) = {v \<in> set (invocations h). map_of (h_completions h) (inv_id v) \<noteq> None}"
    (is "_ = ?C")
  proof (intro set_eqI iffI)
    fix v assume "v \<in> ?C"
    then obtain c where "map_of (h_completions h) (inv_id v) = Some c" "v \<in> set (invocations h)" by auto
    then have "\<lparr>co_inv = v, co_comp = c\<rparr> \<in> set (completed h)" by (simp add: set_completed[OF wf] co_id_def)
    from imageI[OF this, of co_inv] show "v \<in> co_inv ` set (completed h)" by simp
  qed (auto simp: set_completed[OF wf] co_id_def)
  show "set (invocations h) = co_inv ` set (completed h) \<union> set (pending h)"
    "co_inv ` set (completed h) \<inter> set (pending h) = {}"
    unfolding c pending_def by auto
  fix i j v w r
  assume "map_of (h_invocations h) i = Some v" "map_of (h_invocations h) j = Some w" "inv_client v = inv_client w"
    "client_request_id i h = Some r" "client_request_id j h = Some r"
  then show "i = j" using wf unfolding wf_history_def wf_requests_def client_request_id_def by (metis option.inject)
qed

theorem history_invariant_witness:
  "let h = projr (for_each perform [CallInvoke ''w'' ''c'' (Write (Put ''k'' ''x'')), CallAttach ''w'' 7] OperationHistory)
   in wf_history h \<and> client_request_id ''w'' h = Some 7"
proof -
  let ?run = "for_each perform [CallInvoke ''w'' ''c'' (Write (Put ''k'' ''x'')), CallAttach ''w'' 7] OperationHistory"
  have "\<not> isl ?run" by code_simp
  then have "?run = Inr (projr ?run)" by (simp add: sum.collapse(2))
  from history_invariant[OF this, of "CallAbandon ''w''"] have "wf_history (projr ?run)" by blast
  moreover have "client_request_id ''w'' (projr ?run) = Some 7" by code_simp
  ultimately show ?thesis by (simp only: Let_def)
qed

end
