(* ===== verification/MultiPaxos_Machine.thy ===== *)
theory MultiPaxos_Machine
  imports MultiPaxos History
begin

text \<open>
  The replicated key/value machine over Multi-Paxos, \<^verbatim>\<open>src/src/distlab/multipaxos_state_machine.py\<close>:
  learned decisions are applied in contiguous slot order, exactly once per client identity; the
  applied prefix is durable and the key/value state and the request table are volatile, rebuilt by
  replay.

  The cluster is a component of the state. The machine's durable key \<open>multipaxos_applied\<close> and its
  volatile entry \<open>multipaxos_state_machine\<close> are fields beside it; the volatile entry exists exactly
  when the simulator's volatile state of the node does, so crash and restart of the simulator drop
  it. Dictionaries are association lists.
\<close>

section \<open>Commands and requests\<close>

datatype multi_operation = Op history_operation | Append string string

fun mo_key :: "multi_operation \<Rightarrow> string" where
  "mo_key (Op operation) = ho_key operation"
| "mo_key (Append key sfx) = key"

definition make_append :: "string \<Rightarrow> string \<Rightarrow> multi_operation result" where
  "make_append key sfx = (if key = [] then Inl ValueError else Inr (Append key sfx))"

record multi_request =
  mr_client :: string
  mr_id :: int
  mr_operation_id :: string
  mr_operation :: multi_operation

definition MultiPaxosRequest :: "string \<Rightarrow> int \<Rightarrow> string \<Rightarrow> multi_operation \<Rightarrow> multi_request result" where
  "MultiPaxosRequest client_id request_id operation_id operation =
     (if client_id = [] then Inl ValueError
      else if operation_id = [] then Inl ValueError
      else if request_id < 0 then Inl ValueError
      else if mo_key operation = [] then Inl ValueError
      else Inr \<lparr>mr_client = client_id, mr_id = request_id, mr_operation_id = operation_id, mr_operation = operation\<rparr>)"

definition identity :: "multi_request \<Rightarrow> string \<times> int" where
  "identity r = (mr_client r, mr_id r)"

text \<open>A slot may hold a request, a bare operation, the no-op \<open>None\<close> or any other value.\<close>

datatype multi_command = ClientCommand multi_request | Bare multi_operation | NoOp | OtherValue string

record applied_request =
  ar_request :: multi_request
  ar_slot :: int
  ar_result :: "string option"

record machine_image =
  mi_kv :: "(string \<times> string) list"
  mi_requests :: "((string \<times> int) \<times> applied_request) list"

definition empty_machine :: machine_image where
  "empty_machine = \<lparr>mi_kv = [], mi_requests = []\<rparr>"

fun apply_operation :: "multi_operation \<Rightarrow> (string \<times> string) list \<Rightarrow> (string \<times> string) list" where
  "apply_operation (Op (Write (Put key v))) kv = AList.update key v kv"
| "apply_operation (Op (Write (Delete key))) kv = AList.delete key kv"
| "apply_operation (Append key sfx) kv = AList.update key ((case map_of kv key of None \<Rightarrow> [] | Some v \<Rightarrow> v) @ sfx) kv"
| "apply_operation (Op (Get key)) kv = kv"

fun apply_multipaxos_command :: "multi_command \<Rightarrow> (string \<times> string) list \<Rightarrow> (string \<times> string) list" where
  "apply_multipaxos_command (Bare operation) kv = apply_operation operation kv"
| "apply_multipaxos_command _ kv = kv"

definition operation_result :: "multi_operation \<Rightarrow> (string \<times> string) list \<Rightarrow> string option" where
  "operation_result operation kv = (case operation of Op (Get key) \<Rightarrow> map_of kv key | _ \<Rightarrow> None)"

definition apply_decision :: "multi_command slot_learned \<Rightarrow> machine_image \<Rightarrow> machine_image result" where
  "apply_decision decision im =
     (case sl_value decision of
        ClientCommand command \<Rightarrow>
          (case map_of (mi_requests im) (identity command) of
             Some previous \<Rightarrow> if ar_request previous \<noteq> command then Inl ClientRequestConflict else Inr im
           | None \<Rightarrow>
               if (\<exists>(_, r) \<in> set (mi_requests im). mr_operation_id (ar_request r) = mr_operation_id command)
               then Inl ClientRequestConflict
               else Inr \<lparr>mi_kv = apply_operation (mr_operation command) (mi_kv im),
                 mi_requests = mi_requests im @ [(identity command, \<lparr>ar_request = command, ar_slot = sl_slot decision,
                   ar_result = operation_result (mr_operation command) (mi_kv im)\<rparr>)]\<rparr>)
      | command \<Rightarrow> Inr (im\<lparr>mi_kv := apply_multipaxos_command command (mi_kv im)\<rparr>))"

definition multi_replay :: "multi_command slot_learned list \<Rightarrow> machine_image result" where
  "multi_replay applied = for_each apply_decision applied empty_machine"

section \<open>State\<close>

record multi_machine =
  mm_cluster :: "multi_command multipaxos"
  mm_applied :: "string \<Rightarrow> multi_command slot_learned list"
  mm_image :: "string \<Rightarrow> machine_image"
  mm_through :: "string \<Rightarrow> int"

abbreviation mm_nodes :: "multi_machine \<Rightarrow> string list" where
  "mm_nodes s \<equiv> mp_node_ids (mm_cluster s)"

definition mm_loaded :: "string \<Rightarrow> multi_machine \<Rightarrow> bool" where
  "mm_loaded n s \<longleftrightarrow> volatile_state (mm_cluster s) n \<noteq> None"

definition mm_record :: "multi_command multi_event \<Rightarrow> multi_machine \<Rightarrow> multi_machine" where
  "mm_record ev s = s\<lparr>mm_cluster := record_app ev (mm_cluster s)\<rparr>"

section \<open>Validation\<close>

fun check_applied :: "int \<Rightarrow> 'v slot_learned list \<Rightarrow> unit result" where
  "check_applied expected [] = Inr ()"
| "check_applied expected (item # items) =
     (if sl_slot item \<le> 0 then Inl PaxosSafetyViolation
      else if sl_slot item < expected then Inl PaxosSafetyViolation
      else if sl_slot item > expected then Inl PaxosSafetyViolation
      else check_applied (expected + 1) items)"

definition durable_applied :: "string \<Rightarrow> multi_machine \<Rightarrow> multi_command slot_learned list result" where
  "durable_applied n s = and_then (check_applied 1 (mm_applied s n)) (\<lambda>_. Inr (mm_applied s n))"

definition mm_require_node :: "string \<Rightarrow> multi_machine \<Rightarrow> unit result" where
  "mm_require_node n s = (if n \<notin> set (mm_nodes s) then Inl ValueError else Inr ())"

definition mm_require_alive :: "string \<Rightarrow> multi_machine \<Rightarrow> unit result" where
  "mm_require_alive n s =
     and_then (mm_require_node n s) (\<lambda>_. if \<not> is_alive (mm_cluster s) n then Inl PaxosError else Inr ())"

definition mm_require_chosen :: "string \<Rightarrow> multi_command slot_learned \<Rightarrow> multi_machine \<Rightarrow> unit result" where
  "mm_require_chosen n decision s =
     (if multi_learned_decision n (sl_slot decision) (mm_cluster s) \<noteq> Some decision then Inl PaxosSafetyViolation
      else case map_of (mp_chosen (mm_cluster s)) (sl_slot decision) of
        None \<Rightarrow> Inl PaxosSafetyViolation
      | Some chosen \<Rightarrow>
          if sl_value chosen \<noteq> sl_value decision then Inl PaxosSafetyViolation
          else require_decision_evidence (mm_cluster s) decision)"

section \<open>Reading\<close>

definition mm_applied_of :: "string \<Rightarrow> multi_machine \<Rightarrow> multi_command slot_learned list result" where
  "mm_applied_of n s = and_then (mm_require_node n s) (\<lambda>_. durable_applied n s)"

definition mm_last_applied :: "string \<Rightarrow> multi_machine \<Rightarrow> int result" where
  "mm_last_applied n s = and_then (mm_applied_of n s) (\<lambda>applied. Inr (int (length applied)))"

definition blocked_on :: "string \<Rightarrow> multi_machine \<Rightarrow> int option result" where
  "blocked_on n s =
     and_then (mm_last_applied n s) (\<lambda>last_slot.
       (let next_slot = last_slot + 1
        in if multi_learned_decision n next_slot (mm_cluster s) \<noteq> None then Inr None
           else if (\<exists>d \<in> set (multi_learned_decisions n (mm_cluster s)). sl_slot d > next_slot) then Inr (Some next_slot)
           else Inr None))"

definition machine :: "string \<Rightarrow> multi_machine \<Rightarrow> multi_machine result" where
  "machine n s =
     and_then (durable_applied n s) (\<lambda>applied.
     and_then (for_each (\<lambda>d _. mm_require_chosen n d s) applied ()) (\<lambda>_.
       if \<not> mm_loaded n s then
         and_then (multi_replay applied) (\<lambda>im.
           Inr (mm_record (EvMultiMachineLoad n (int (length applied)))
             (s\<lparr>mm_cluster := (mm_cluster s)\<lparr>volatile_state := (volatile_state (mm_cluster s))(n := Some ())\<rparr>,
                mm_image := (mm_image s)(n := im), mm_through := (mm_through s)(n := int (length applied))\<rparr>)))
       else if mm_through s n \<noteq> int (length applied) then Inl PaxosSafetyViolation
       else Inr s))"

definition mm_state :: "string \<Rightarrow> multi_machine \<Rightarrow> ((string \<times> string) list \<times> multi_machine) result" where
  "mm_state n s =
     and_then (mm_require_alive n s) (\<lambda>_. and_then (machine n s) (\<lambda>s1. Inr (mi_kv (mm_image s1 n), s1)))"

definition mm_client_requests ::
  "string \<Rightarrow> multi_machine \<Rightarrow> (((string \<times> int) \<times> applied_request) list \<times> multi_machine) result" where
  "mm_client_requests n s =
     and_then (mm_require_alive n s) (\<lambda>_. and_then (machine n s) (\<lambda>s1. Inr (mi_requests (mm_image s1 n), s1)))"

section \<open>Application\<close>

text \<open>The body of the loop of \<open>apply_ready\<close> for the next learned decision.\<close>

definition apply_slot :: "string \<Rightarrow> multi_command slot_learned \<Rightarrow> multi_machine \<Rightarrow> multi_machine result" where
  "apply_slot n decision s =
     and_then (mm_require_chosen n decision s) (\<lambda>_.
     and_then (apply_decision decision (mm_image s n)) (\<lambda>im.
       Inr (mm_record (EvMultiApply n (sl_slot decision) (sl_proposal decision) (sl_value decision))
         (s\<lparr>mm_image := (mm_image s)(n := im), mm_applied := (mm_applied s)(n := mm_applied s n @ [decision]),
            mm_through := (mm_through s)(n := sl_slot decision)\<rparr>))))"

text \<open>The loop visits the learned decisions from the first slot that is not applied up to the
  first gap; applying a slot does not change what is learned.\<close>

definition ready_decisions :: "string \<Rightarrow> multi_machine \<Rightarrow> multi_command slot_learned list" where
  "ready_decisions n s =
     prefix_from (case mp_learned (persistent_state (mm_cluster s) n) of None \<Rightarrow> [] | Some learned \<Rightarrow> learned)
       (int (length (mm_applied s n)) + 1)"

definition record_gap :: "string \<Rightarrow> int option \<Rightarrow> multi_machine \<Rightarrow> multi_machine" where
  "record_gap n gap s =
     (case gap of
        None \<Rightarrow> s
      | Some missing \<Rightarrow> mm_record (EvMultiApplyGap n missing
          (filter (\<lambda>k. k > missing) (map sl_slot (multi_learned_decisions n (mm_cluster s))))) s)"

definition apply_ready :: "string \<Rightarrow> multi_machine \<Rightarrow> (multi_command slot_learned list \<times> multi_machine) result" where
  "apply_ready n s =
     and_then (mm_require_alive n s) (\<lambda>_.
     and_then (machine n s) (\<lambda>s1.
     and_then (durable_applied n s1) (\<lambda>_.
       (let ready = ready_decisions n s1
        in and_then (for_each (apply_slot n) ready s1) (\<lambda>s2.
           and_then (blocked_on n s2) (\<lambda>gap.
             (let s3 = record_gap n gap s2
              in and_then (recover_decisions n (int (length (mm_applied s3 n)) + 1) (mm_cluster s3)) (\<lambda>c.
                   Inr (ready, s3\<lparr>mm_cluster := c\<rparr>)))))))))"

section \<open>The safety check\<close>

definition dict_same :: "('k \<times> 'v) list \<Rightarrow> ('k \<times> 'v) list \<Rightarrow> bool" where
  "dict_same a b \<longleftrightarrow> set a = set b"

definition check_reference ::
  "string \<Rightarrow> multi_machine \<Rightarrow> multi_command slot_learned \<Rightarrow> (int \<times> multi_command) list \<Rightarrow> (int \<times> multi_command) list result" where
  "check_reference n s decision reference =
     and_then (mm_require_chosen n decision s) (\<lambda>_.
       case map_of reference (sl_slot decision) of
         Some canonical \<Rightarrow> if canonical \<noteq> sl_value decision then Inl PaxosSafetyViolation else Inr reference
       | None \<Rightarrow> Inr (setdefault (sl_slot decision) (sl_value decision) reference))"

definition check_machine :: "multi_machine \<Rightarrow> string \<Rightarrow> (int \<times> multi_command) list \<Rightarrow> (int \<times> multi_command) list result" where
  "check_machine s n reference =
     and_then (durable_applied n s) (\<lambda>applied.
     and_then (for_each (check_reference n s) applied reference) (\<lambda>reference1.
     and_then (multi_replay applied) (\<lambda>expected.
       if mm_loaded n s \<and> (mm_through s n \<noteq> int (length applied) \<or>
            \<not> dict_same (mi_kv (mm_image s n)) (mi_kv expected) \<or>
            \<not> dict_same (mi_requests (mm_image s n)) (mi_requests expected))
       then Inl PaxosSafetyViolation else Inr reference1)))"

definition mm_assert_safety :: "multi_machine \<Rightarrow> unit result" where
  "mm_assert_safety s =
     and_then (multi_assert_safety (mm_cluster s)) (\<lambda>_.
     and_then (for_each (check_machine s) (mm_nodes s) []) (\<lambda>_. Inr ()))"

text \<open>The constructor over a simulator state; \<open>setdefault\<close> of the durable key is its default \<open>[]\<close>.\<close>

definition MultiPaxosStateMachine :: "multi_machine \<Rightarrow> multi_machine result" where
  "MultiPaxosStateMachine s =
     (if \<not> mp_learn_decisions (mm_cluster s) then Inl ValueError
      else and_then (mm_assert_safety s) (\<lambda>_. Inr s))"

end
