(* ===== verification/MultiPaxos_Client.thy ===== *)
theory MultiPaxos_Client
  imports MultiPaxos_Machine
begin

text \<open>
  The client adapter over Multi-Paxos, \<^verbatim>\<open>src/src/distlab/multipaxos_client.py\<close>: \<open>submit\<close> and \<open>poll\<close>
  expose the asynchronous states of one request, \<open>execute\<close> pumps the simulator a bounded number of
  rounds. The journal is the client's own retry state and its operation history.
\<close>

section \<open>State\<close>

datatype client_status =
  SUBMITTED | PENDING | CHOSEN | APPLIED | COMPLETED | CONFLICT | LEADERSHIP_UNAVAILABLE | QUORUM_UNAVAILABLE

fun status_value :: "client_status \<Rightarrow> string" where
  "status_value SUBMITTED = ''submitted''"
| "status_value PENDING = ''pending''"
| "status_value CHOSEN = ''chosen_not_applied''"
| "status_value APPLIED = ''applied_not_acknowledged''"
| "status_value COMPLETED = ''completed''"
| "status_value CONFLICT = ''conflict''"
| "status_value LEADERSHIP_UNAVAILABLE = ''leadership_unavailable''"
| "status_value QUORUM_UNAVAILABLE = ''quorum_unavailable''"

record client_result =
  cr_status :: client_status
  cr_multi_request :: multi_request
  cr_node :: string
  cr_slot :: "int option"
  cr_ballot :: "proposal_number option"
  cr_value :: "string option"
  cr_authority :: "proposal_number option"

record client_journal =
  cj_history :: history
  cj_requests :: "(string \<times> multi_request) list"

definition ClientJournal :: client_journal where
  "ClientJournal = \<lparr>cj_history = OperationHistory, cj_requests = []\<rparr>"

record multi_client =
  mc_machine :: multi_machine
  mc_journal :: client_journal

abbreviation mc_cluster :: "multi_client \<Rightarrow> multi_command multipaxos" where
  "mc_cluster s \<equiv> mm_cluster (mc_machine s)"

definition set_cluster :: "multi_command multipaxos \<Rightarrow> multi_client \<Rightarrow> multi_client" where
  "set_cluster c s = s\<lparr>mc_machine := (mc_machine s)\<lparr>mm_cluster := c\<rparr>\<rparr>"

section \<open>The journal\<close>

definition journal_register :: "multi_request \<Rightarrow> client_journal \<Rightarrow> client_journal result" where
  "journal_register request j =
     (case filter (\<lambda>previous. identity previous = identity request \<or> mr_operation_id previous = mr_operation_id request)
             (map snd (cj_requests j)) of
        previous # _ \<Rightarrow> if previous \<noteq> request then Inl ClientRequestConflict else Inr j
      | [] \<Rightarrow>
          and_then (case mr_operation request of
                      Append _ _ \<Rightarrow> Inr (cj_history j)
                    | Op operation \<Rightarrow>
                        and_then (invoke (mr_operation_id request) (mr_client request) operation (cj_history j)) (\<lambda>(_, h). Inr h))
            (\<lambda>h. Inr (j\<lparr>cj_history := h, cj_requests := AList.update (mr_operation_id request) request (cj_requests j)\<rparr>)))"

section \<open>Local evidence\<close>

definition authorized :: "string \<Rightarrow> proposal_number option \<Rightarrow> multi_command multipaxos \<Rightarrow> bool result" where
  "authorized n expected c =
     (if \<not> is_alive c n \<or> \<not> has_leader_authority n c then Inr False
      else and_then (promised_ballot n c) (\<lambda>promised.
        Inr (mn_ballot (mp_nodes c n) = promised \<and>
             (case expected of None \<Rightarrow> True | Some b \<Rightarrow> mn_ballot (mp_nodes c n) = Some b))))"

text \<open>The slots and values of \<open>accept_history\<close>, \<open>leadership_accepted\<close> and \<open>learned_decisions\<close>.\<close>

definition local_records :: "string \<Rightarrow> 'v multipaxos \<Rightarrow> (int \<times> 'v) list" where
  "local_records n c =
     map (\<lambda>a. (sa_slot a, sa_value a)) (mp_history (persistent_state c n) @ leadership_accepted n c) @
     map (\<lambda>d. (sl_slot d, sl_value d)) (multi_learned_decisions n c)"

definition high_water :: "string \<Rightarrow> 'v multipaxos \<Rightarrow> int" where
  "high_water n c = (if local_records n c = [] then 0 else Max (set (map fst (local_records n c))))"

definition conflicts :: "multi_request \<Rightarrow> multi_command \<Rightarrow> bool" where
  "conflicts request command =
     (case command of
        ClientCommand r \<Rightarrow> (identity r = identity request \<or> mr_operation_id r = mr_operation_id request) \<and> r \<noteq> request
      | _ \<Rightarrow> False)"

definition check_local_identity :: "string \<Rightarrow> multi_request \<Rightarrow> multi_command multipaxos \<Rightarrow> unit result" where
  "check_local_identity n request c =
     (if (\<exists>(_, v) \<in> set (local_records n c). conflicts request v) then Inl ClientRequestConflict else Inr ())"

definition client_outcome ::
  "client_status \<Rightarrow> string \<Rightarrow> multi_request \<Rightarrow> int option \<Rightarrow> string option \<Rightarrow> proposal_number option \<Rightarrow>
   multi_client \<Rightarrow> (client_result \<times> multi_client) result" where
  "client_outcome status n request slot v ballot s =
     and_then (authorized n None (mc_cluster s)) (\<lambda>live.
       (let leader = mn_ballot (mp_nodes (mc_cluster s) n);
            b = (if ballot = None then leader else ballot);
            authority = (if live then leader else None)
        in Inr (\<lparr>cr_status = status, cr_multi_request = request, cr_node = n, cr_slot = slot, cr_ballot = b, cr_value = v,
                  cr_authority = authority\<rparr>,
                set_cluster (record_app (EvMultiClientResult (status_value status) n (mr_client request) (mr_id request)
                  (mr_operation_id request) slot b authority v) (mc_cluster s)) s)))"

section \<open>Polling\<close>

text \<open>Indexing a tuple: a negative index counts from the end.\<close>

definition item_at :: "'a list \<Rightarrow> int \<Rightarrow> 'a result" where
  "item_at xs i =
     (let j = (if i < 0 then i + int (length xs) else i)
      in if j < 0 \<or> int (length xs) \<le> j then Inl IndexError else Inr (xs ! nat j))"

text \<open>\<open>history.respond\<close> for the first acknowledgement, otherwise the check that the result is the same.\<close>

definition acknowledge_request :: "multi_request \<Rightarrow> string option \<Rightarrow> client_journal \<Rightarrow> client_journal result" where
  "acknowledge_request request v j =
     (case mr_operation request of
        Append _ _ \<Rightarrow> Inr j
      | Op _ \<Rightarrow>
          (case filter (\<lambda>c. co_id c = mr_operation_id request) (completed (cj_history j)) of
             [] \<Rightarrow> and_then (respond (mr_operation_id request) v (cj_history j)) (\<lambda>(_, h). Inr (j\<lparr>cj_history := h\<rparr>))
           | c # _ \<Rightarrow> if cp_result (co_comp c) \<noteq> v then Inl AssertionError else Inr j))"

definition observe_request ::
  "string \<Rightarrow> multi_request \<Rightarrow> bool \<Rightarrow> multi_client \<Rightarrow> (client_result \<times> multi_client) result" where
  "observe_request n request acknowledge s =
     and_then (mm_client_requests n (mc_machine s)) (\<lambda>(requests, m).
       (let s1 = s\<lparr>mc_machine := m\<rparr>
        in case map_of requests (identity request) of
             Some record \<Rightarrow>
               if ar_request record \<noteq> request then client_outcome CONFLICT n request None None None s1
               else
                 and_then (mm_applied_of n m) (\<lambda>applied.
                   and_then (item_at applied (ar_slot record - 1)) (\<lambda>decision.
                         if sl_value decision \<noteq> ClientCommand request then Inl AssertionError
                         else
                           and_then (if acknowledge then acknowledge_request request (ar_result record) (mc_journal s1)
                                     else Inr (mc_journal s1)) (\<lambda>j.
                             client_outcome (if acknowledge then COMPLETED else APPLIED) n request (Some (ar_slot record))
                               (ar_result record) (Some (sl_proposal decision)) (s1\<lparr>mc_journal := j\<rparr>))))
           | None \<Rightarrow>
               (case filter (\<lambda>d. sl_value d = ClientCommand request) (multi_learned_decisions n (mm_cluster m)) of
                  d # _ \<Rightarrow> client_outcome CHOSEN n request (Some (sl_slot d)) None (Some (sl_proposal d)) s1
                | [] \<Rightarrow> client_outcome PENDING n request None None None s1)))"

definition poll ::
  "string \<Rightarrow> multi_request \<Rightarrow> proposal_number option \<Rightarrow> bool \<Rightarrow> bool \<Rightarrow> multi_client \<Rightarrow> (client_result \<times> multi_client) result" where
  "poll n request expected apply_first acknowledge s =
     (if map_of (cj_requests (mc_journal s)) (mr_operation_id request) \<noteq> Some request then Inl ValueError
      else if n \<notin> set (mp_node_ids (mc_cluster s)) then Inl KeyError
      else
        and_then (authorized n expected (mc_cluster s)) (\<lambda>ok.
          if \<not> ok then client_outcome LEADERSHIP_UNAVAILABLE n request None None None s
          else case check_local_identity n request (mc_cluster s) of
            Inl _ \<Rightarrow> client_outcome CONFLICT n request None None None s
          | Inr _ \<Rightarrow>
              and_then (if apply_first then and_then (apply_ready n (mc_machine s)) (\<lambda>(_, m). Inr (s\<lparr>mc_machine := m\<rparr>)) else Inr s)
                (observe_request n request acknowledge)))"

section \<open>Submitting\<close>

definition propose_request ::
  "string \<Rightarrow> multi_request \<Rightarrow> int option \<Rightarrow> multi_client \<Rightarrow> (client_result \<times> multi_client) result" where
  "propose_request n request slot s =
     (case filter (\<lambda>(_, _, v). v = ClientCommand request) (pending_proposals n (mc_cluster s)) of
        (k, _, _) # _ \<Rightarrow>
          and_then (retry_proposal n k (mc_cluster s)) (\<lambda>c.
            client_outcome PENDING n request (Some k) None None (set_cluster c s))
      | [] \<Rightarrow>
          (let proposed = (case slot of Some k \<Rightarrow> k | None \<Rightarrow> high_water n (mc_cluster s) + 1)
           in if (\<exists>(k, _, _) \<in> set (pending_proposals n (mc_cluster s)). k = proposed)
              then client_outcome PENDING n request (Some proposed) None None s
              else
                and_then (propose n proposed (ClientCommand request) (mc_cluster s)) (\<lambda>c.
                  client_outcome SUBMITTED n request (Some proposed) None None (set_cluster c s))))"

definition submit :: "string \<Rightarrow> multi_request \<Rightarrow> int option \<Rightarrow> multi_client \<Rightarrow> (client_result \<times> multi_client) result" where
  "submit n request slot s =
     (if (case slot of None \<Rightarrow> False | Some k \<Rightarrow> k \<le> 0) then Inl ValueError
      else if n \<notin> set (mp_node_ids (mc_cluster s)) then Inl KeyError
      else case journal_register request (mc_journal s) of
        Inl e \<Rightarrow> if e = ClientRequestConflict then client_outcome CONFLICT n request None None None s else Inl e
      | Inr j \<Rightarrow>
          (let s1 = s\<lparr>mc_journal := j\<rparr>
           in case check_local_identity n request (mc_cluster s1) of
             Inl _ \<Rightarrow> client_outcome CONFLICT n request None None None s1
           | Inr _ \<Rightarrow>
               and_then (authorized n None (mc_cluster s1)) (\<lambda>ok.
                 if \<not> ok then client_outcome LEADERSHIP_UNAVAILABLE n request None None None s1
                 else
                   and_then (poll n request None False False s1) (\<lambda>(observed, s2).
                     if cr_status observed = APPLIED \<or> cr_status observed = CHOSEN then Inr (observed, s2)
                     else propose_request n request slot s2))))"

section \<open>Pumping\<close>

definition repair_slot :: "string \<Rightarrow> int set \<Rightarrow> int \<Rightarrow> multi_command multipaxos \<Rightarrow> multi_command multipaxos result" where
  "repair_slot n open_slots k c =
     (if multi_learned_decision n k c \<noteq> None then Inr c
      else if k \<in> open_slots then retry_proposal n k c
      else propose n k NoOp c)"

definition repair_prefix :: "string \<Rightarrow> multi_client \<Rightarrow> multi_client result" where
  "repair_prefix n s =
     and_then (authorized n None (mc_cluster s)) (\<lambda>ok.
       if \<not> ok then Inr s
       else
         and_then (mm_last_applied n (mc_machine s)) (\<lambda>last_slot.
           (let start = last_slot + 1;
                stop = min (high_water n (mc_cluster s) + 1) (start + 16);
                open_slots = fst ` set (pending_proposals n (mc_cluster s))
            in and_then (for_each (repair_slot n open_slots) [start..stop - 1] (mc_cluster s)) (\<lambda>c.
                 Inr (set_cluster c s)))))"

definition apply_everywhere :: "multi_client \<Rightarrow> multi_client result" where
  "apply_everywhere s =
     for_each (\<lambda>peer s. if is_alive (mc_cluster s) peer
         then and_then (apply_ready peer (mc_machine s)) (\<lambda>(_, m). Inr (s\<lparr>mc_machine := m\<rparr>)) else Inr s)
       (mp_node_ids (mc_cluster s)) s"

text \<open>One round of \<open>execute\<close> up to its \<open>poll\<close>; \<open>None\<close> would be a simulator run that does not return.\<close>

definition pump_round :: "string \<Rightarrow> multi_request \<Rightarrow> int \<Rightarrow> multi_client \<Rightarrow> (client_result \<times> multi_client) result option" where
  "pump_round n request events s =
     (case repair_prefix n s of
        Inl e \<Rightarrow> Some (Inl e)
      | Inr s1 \<Rightarrow>
          (case sim_run multipaxos_callbacks (Some events) (mc_cluster s1) of
             None \<Rightarrow> None
           | Some (Inl e) \<Rightarrow> Some (Inl e)
           | Some (Inr (_, c)) \<Rightarrow>
               Some (and_then (apply_everywhere (set_cluster c s1)) (poll n request None True True))))"

fun execute_rounds ::
  "nat \<Rightarrow> string \<Rightarrow> multi_request \<Rightarrow> int \<Rightarrow> client_result \<times> multi_client \<Rightarrow> (client_result \<times> multi_client) result option" where
  "execute_rounds 0 n request events (result, s) =
     Some (if cr_status result = SUBMITTED \<or> cr_status result = PENDING
           then client_outcome QUORUM_UNAVAILABLE n request (cr_slot result) None None s
           else Inr (result, s))"
| "execute_rounds (Suc rounds) n request events (result, s) =
     (if cr_status result = LEADERSHIP_UNAVAILABLE \<or> cr_status result = CONFLICT then Some (Inr (result, s))
      else case pump_round n request events s of
        None \<Rightarrow> None
      | Some (Inl e) \<Rightarrow> Some (Inl e)
      | Some (Inr (polled, s1)) \<Rightarrow>
          if cr_status polled = COMPLETED \<or> cr_status polled = CONFLICT \<or> cr_status polled = LEADERSHIP_UNAVAILABLE
          then Some (Inr (polled, s1))
          else (case submit n request None s1 of
                  Inl e \<Rightarrow> Some (Inl e)
                | Inr next \<Rightarrow> execute_rounds rounds n request events next))"

definition execute :: "string \<Rightarrow> multi_request \<Rightarrow> int \<Rightarrow> int \<Rightarrow> multi_client \<Rightarrow> (client_result \<times> multi_client) result option" where
  "execute n request max_rounds events s =
     (if max_rounds \<le> 0 \<or> events \<le> 0 then Some (Inl ValueError)
      else case submit n request None s of
        Inl e \<Rightarrow> Some (Inl e)
      | Inr start \<Rightarrow> execute_rounds (nat max_rounds) n request events start)"

end
