(* ===== verification/Paxos_Safety.thy ===== *)
theory Paxos_Safety
  imports Paxos
begin

text \<open>
  Safety of single-decree Paxos over every behaviour of the simulated network: the invariant
  that ties acceptor histories, promises, in-flight messages and proposer state to the ballot
  voting specification of \<open>Quorums\<close>, its preservation by every handler, and the consequences:
  no handler and no harness checkpoint ever raises, and at most one value is chosen.

  The value a proposal number was given is read off the trace, where the proposer records it
  (\<open>paxos-accept-phase-start\<close>) in the step that fixes it.
\<close>

section \<open>Abstraction to ballot voting\<close>

definition vote_of :: "'v accepted_value \<Rightarrow> proposal_number \<times> 'v" where
  "vote_of a = (av_proposal a, av_value a)"

definition px_votes :: "'v paxos \<Rightarrow> string \<Rightarrow> (proposal_number \<times> 'v) set" where
  "px_votes s a = vote_of ` set (px_history (persistent_state s a))"

definition px_promises :: "'v paxos \<Rightarrow> string \<Rightarrow> proposal_number option" where
  "px_promises s a = px_promised (persistent_state s a)"

definition phase_starts ::
  "('v paxos_msg, 'v paxos_event) trace_record list \<Rightarrow> (proposal_number \<times> 'v) set" where
  "phase_starts tr = {(p, v). \<exists>t n names. (t, TApp (EvAcceptPhaseStart n p v names)) \<in> set tr}"

definition proposals :: "'v paxos \<Rightarrow> (proposal_number \<times> 'v) set" where
  "proposals s = phase_starts (sim_trace s)"

text \<open>The values the clients asked to have proposed (\<open>paxos-proposal-start\<close>).\<close>

definition started :: "'v paxos \<Rightarrow> 'v set" where
  "started s = {v. \<exists>t n p. (t, TApp (EvProposalStart n p v)) \<in> set (sim_trace s)}"

definition px_safe :: "'v paxos \<Rightarrow> proposal_number \<Rightarrow> 'v \<Rightarrow> bool" where
  "px_safe s p v = safe_at (majority (px_node_ids s)) (px_votes s) (px_promises s) p v"

definition px_decided :: "'v paxos \<Rightarrow> proposal_number \<Rightarrow> 'v \<Rightarrow> bool" where
  "px_decided s p v = chosen_at (majority (px_node_ids s)) (px_votes s) p v"

definition issued :: "'v paxos \<Rightarrow> proposal_number \<Rightarrow> bool" where
  "issued s p \<longleftrightarrow> pn_proposer p \<in> set (px_node_ids s) \<and>
     pn_round p \<le> px_last_round (persistent_state s (pn_proposer p))"

section \<open>The invariant\<close>

definition acceptor_ok :: "'v paxos_durable \<Rightarrow> bool" where
  "acceptor_ok d \<longleftrightarrow> 0 \<le> px_last_round d \<and>
     (case px_accepted d of
        None \<Rightarrow> px_history d = []
      | Some a \<Rightarrow> a \<in> set (px_history d) \<and> \<not> (\<exists>b \<in> set (px_history d). av_proposal a < av_proposal b) \<and>
          (\<exists>b. px_promised d = Some b \<and> av_proposal a \<le> b))"

text \<open>A promise for \<open>p\<close> commits the acceptor: it has promised at least \<open>p\<close> and reported its
  highest vote below \<open>p\<close>.\<close>

definition promise_ok :: "'v paxos \<Rightarrow> 'v promise \<Rightarrow> bool" where
  "promise_ok s pr \<longleftrightarrow>
     pr_acceptor pr \<in> set (px_node_ids s) \<and>
     (\<forall>c < pr_proposal pr. beyond (px_promises s (pr_acceptor pr)) c) \<and>
     (case pr_accepted pr of
        None \<Rightarrow> (\<forall>c w. c < pr_proposal pr \<longrightarrow> (c, w) \<notin> px_votes s (pr_acceptor pr))
      | Some a \<Rightarrow> vote_of a \<in> px_votes s (pr_acceptor pr) \<and> av_proposal a \<le> pr_proposal pr \<and>
          (\<forall>c w. c < pr_proposal pr \<longrightarrow> (c, w) \<in> px_votes s (pr_acceptor pr) \<longrightarrow> c \<le> av_proposal a))"

fun payload_ok :: "'v paxos \<Rightarrow> 'v paxos_msg \<Rightarrow> bool" where
  "payload_ok s (Prepare p n) \<longleftrightarrow> n = pn_proposer p \<and> issued s p"
| "payload_ok s (PromiseMsg pr) \<longleftrightarrow> promise_ok s pr"
| "payload_ok s (AcceptRequest p n v) \<longleftrightarrow> n = pn_proposer p \<and> issued s p \<and> (p, v) \<in> proposals s"
| "payload_ok s (Accepted p a v) \<longleftrightarrow> a \<in> set (px_node_ids s) \<and> (p, v) \<in> px_votes s a"
| "payload_ok s (Learn p n v) \<longleftrightarrow> px_decided s p v"
| "payload_ok s (Foreign name) \<longleftrightarrow> False"

definition message_ok :: "'v paxos \<Rightarrow> 'v paxos_msg message \<Rightarrow> bool" where
  "message_ok s m \<longleftrightarrow> msg_delivery_dst m = None \<and> msg_dst m \<in> set (px_node_ids s) \<and>
     set (px_node_ids s) \<subseteq> set (sim_handlers s) \<and> payload_ok s (msg_payload m)"

definition proposer_ok :: "'v paxos \<Rightarrow> string \<Rightarrow> 'v proposal_state \<Rightarrow> bool" where
  "proposer_ok s n st \<longleftrightarrow>
     pn_proposer (ps_proposal st) = n \<and> issued s (ps_proposal st) \<and> ps_original st \<in> started s \<and>
     distinct (map fst (ps_promises st)) \<and>
     (\<forall>(k, pr) \<in> set (ps_promises st).
        pr_acceptor pr = k \<and> pr_proposal pr = ps_proposal st \<and> promise_ok s pr) \<and>
     (if ps_started st
      then \<exists>v. ps_chosen_value st = Some v \<and> (ps_proposal st, v) \<in> proposals s \<and>
             ps_accepted_by st \<subseteq> {a \<in> set (px_node_ids s). (ps_proposal st, v) \<in> px_votes s a}
      else ps_accepted_by st = {} \<and> (\<forall>v. (ps_proposal st, v) \<notin> proposals s))"

definition paxos_inv :: "'v paxos \<Rightarrow> bool" where
  "paxos_inv s \<longleftrightarrow>
     distinct (px_node_ids s) \<and> set (px_node_ids s) \<subseteq> set (sim_handlers s) \<and>
     (\<forall>a. acceptor_ok (persistent_state s a)) \<and>
     (\<forall>a. px_votes s a \<subseteq> proposals s) \<and>
     (\<forall>p v w. (p, v) \<in> proposals s \<longrightarrow> (p, w) \<in> proposals s \<longrightarrow> v = w) \<and>
     (\<forall>p v. (p, v) \<in> proposals s \<longrightarrow> issued s p \<and> v \<in> started s \<and> px_safe s p v) \<and>
     (\<forall>n st. px_proposal s n = Some st \<longrightarrow> proposer_ok s n st) \<and>
     (\<forall>a l. px_learned (persistent_state s a) = Some l \<longrightarrow> px_decided s (ld_proposal l) (ld_value l)) \<and>
     (\<forall>l. px_chosen s = Some l \<longrightarrow> px_decided s (ld_proposal l) (ld_value l)) \<and>
     (\<forall>d \<in> set (sim_queue s). message_ok s (sd_message d))"

text \<open>How states evolve: members and handlers are fixed, acceptors only grow, proposal values
  and issued rounds are never forgotten.\<close>

definition evolves :: "'v paxos \<Rightarrow> 'v paxos \<Rightarrow> bool" where
  "evolves s s' \<longleftrightarrow>
     px_node_ids s' = px_node_ids s \<and> sim_handlers s' = sim_handlers s \<and>
     acceptors_grow (px_votes s) (px_promises s) (px_votes s') (px_promises s') \<and>
     proposals s \<subseteq> proposals s' \<and> started s \<subseteq> started s' \<and>
     (\<forall>a. px_last_round (persistent_state s a) \<le> px_last_round (persistent_state s' a))"

section \<open>Stability\<close>

lemma votes_iff:
  "(p, v) \<in> px_votes s a \<longleftrightarrow> AcceptedValue p v \<in> set (px_history (persistent_state s a))"
proof -
  have "(p, v) = vote_of x \<longleftrightarrow> x = AcceptedValue p v" for x :: "'a accepted_value"
    by (cases x) (auto simp: vote_of_def)
  then show ?thesis unfolding px_votes_def image_iff by simp
qed

lemma evolves_refl [simp]: "evolves s s"
  by (simp add: evolves_def)

lemma evolves_trans: "evolves s t \<Longrightarrow> evolves t u \<Longrightarrow> evolves s u"
  unfolding evolves_def by (auto intro: acceptors_grow_trans order_trans)

lemma evolves_ids: "evolves s s' \<Longrightarrow> px_node_ids s' = px_node_ids s"
  by (simp add: evolves_def)

lemma issued_stable: "evolves s s' \<Longrightarrow> issued s p \<Longrightarrow> issued s' p"
  unfolding evolves_def issued_def by (auto intro: order_trans)

lemma decided_stable: "evolves s s' \<Longrightarrow> px_decided s p v \<Longrightarrow> px_decided s' p v"
  unfolding evolves_def px_decided_def by (auto intro: chosen_at_stable)

lemma votes_stable: "evolves s s' \<Longrightarrow> x \<in> px_votes s a \<Longrightarrow> x \<in> px_votes s' a"
  unfolding evolves_def acceptors_grow_def by blast

lemma promise_ok_stable:
  assumes "evolves s s'" and "promise_ok s pr"
  shows "promise_ok s' pr"
proof -
  let ?a = "pr_acceptor pr"
  have grow: "acceptors_grow (px_votes s) (px_promises s) (px_votes s') (px_promises s')"
    and ids: "px_node_ids s' = px_node_ids s"
    using assms(1) by (auto simp: evolves_def)
  have prom: "\<And>c. c < pr_proposal pr \<Longrightarrow> beyond (px_promises s ?a) c"
    using assms(2) by (simp add: promise_ok_def)
  then have prom': "\<And>c. c < pr_proposal pr \<Longrightarrow> beyond (px_promises s' ?a) c"
    and old: "\<And>c w. c < pr_proposal pr \<Longrightarrow> (c, w) \<in> px_votes s' ?a \<Longrightarrow> (c, w) \<in> px_votes s ?a"
    and more: "px_votes s ?a \<subseteq> px_votes s' ?a"
    using grow unfolding acceptors_grow_def by blast+
  show ?thesis
  proof (cases "pr_accepted pr")
    case None
    with assms(2) prom' old show ?thesis unfolding promise_ok_def ids by auto
  next
    case (Some a)
    then have a: "vote_of a \<in> px_votes s ?a" "av_proposal a \<le> pr_proposal pr"
      and high: "\<And>c w. c < pr_proposal pr \<Longrightarrow> (c, w) \<in> px_votes s ?a \<Longrightarrow> c \<le> av_proposal a"
      using assms(2) unfolding promise_ok_def by auto
    have "c \<le> av_proposal a" if "c < pr_proposal pr" "(c, w) \<in> px_votes s' ?a" for c w
      using high old that by blast
    with a more Some assms(2) prom' show ?thesis unfolding promise_ok_def ids by auto
  qed
qed

lemma payload_ok_stable: "evolves s s' \<Longrightarrow> payload_ok s m \<Longrightarrow> payload_ok s' m"
  by (cases m) (auto intro: issued_stable promise_ok_stable decided_stable votes_stable
      simp: evolves_ids, auto simp: evolves_def)

lemma message_ok_stable: "evolves s s' \<Longrightarrow> message_ok s m \<Longrightarrow> message_ok s' m"
  unfolding message_ok_def by (auto intro: payload_ok_stable simp: evolves_def)

lemma proposer_ok_stable:
  assumes "evolves s s'" and "proposer_ok s n st"
    and "\<And>v. (ps_proposal st, v) \<in> proposals s' \<Longrightarrow> (ps_proposal st, v) \<in> proposals s"
  shows "proposer_ok s' n st"
proof -
  have "proposals s \<subseteq> proposals s'" "started s \<subseteq> started s'" using assms(1) by (simp_all add: evolves_def)
  then show ?thesis
    using assms(2,3) issued_stable[OF assms(1)] promise_ok_stable[OF assms(1)]
      votes_stable[OF assms(1)] evolves_ids[OF assms(1)]
    unfolding proposer_ok_def by (auto split: if_splits) blast+
qed

text \<open>The whole invariant is carried along an evolution once the new facts are supplied.\<close>

lemma paxos_inv_evolves:
  assumes inv: "paxos_inv s" and ev: "evolves s s'"
    and acc: "\<And>a. acceptor_ok (persistent_state s' a)"
    and votes: "\<And>a. px_votes s' a \<subseteq> proposals s'"
    and one: "\<And>p v w. (p, v) \<in> proposals s' \<Longrightarrow> (p, w) \<in> proposals s' \<Longrightarrow> v = w"
    and fresh: "\<And>p v. (p, v) \<in> proposals s' \<Longrightarrow> (p, v) \<notin> proposals s \<Longrightarrow>
      issued s' p \<and> v \<in> started s' \<and> px_safe s' p v"
    and proposer: "\<And>n st. px_proposal s' n = Some st \<Longrightarrow> proposer_ok s' n st"
    and learned: "\<And>a l. px_learned (persistent_state s' a) = Some l \<Longrightarrow>
      px_learned (persistent_state s a) = Some l \<or> px_decided s' (ld_proposal l) (ld_value l)"
    and chosen: "\<And>l. px_chosen s' = Some l \<Longrightarrow>
      px_chosen s = Some l \<or> px_decided s' (ld_proposal l) (ld_value l)"
    and queue: "\<And>d. d \<in> set (sim_queue s') \<Longrightarrow> d \<in> set (sim_queue s) \<or> message_ok s' (sd_message d)"
  shows "paxos_inv s'"
proof -
  have ov: "one_vote (px_votes s')"
    using votes one unfolding one_vote_def by blast
  have safe: "issued s' p \<and> v \<in> started s' \<and> px_safe s' p v" if pv: "(p, v) \<in> proposals s'" for p v
  proof (cases "(p, v) \<in> proposals s")
    case True
    then have "issued s p" "v \<in> started s" "px_safe s p v" using inv by (auto simp: paxos_inv_def)
    then show ?thesis
      using ev ov issued_stable[OF ev] safe_at_stable[of "px_votes s" "px_promises s"]
      unfolding px_safe_def evolves_def by auto
  next
    case False
    then show ?thesis using fresh pv by blast
  qed
  have base: "distinct (px_node_ids s')" "set (px_node_ids s') \<subseteq> set (sim_handlers s')"
    using inv ev by (auto simp: paxos_inv_def evolves_def)
  have dec: "px_decided s' (ld_proposal l) (ld_value l)"
    if "px_learned (persistent_state s' a) = Some l \<or> px_chosen s' = Some l" for a l
    using that learned[of a l] chosen[of l] inv decided_stable[OF ev]
    unfolding paxos_inv_def by blast
  have q: "message_ok s' (sd_message d)" if "d \<in> set (sim_queue s')" for d
    using queue[OF that] inv message_ok_stable[OF ev] unfolding paxos_inv_def by blast
  show ?thesis
    unfolding paxos_inv_def
    using base acc votes one safe proposer dec q by blast
qed

lemma px_views:
  assumes "persistent_state s' = persistent_state s"
  shows "px_votes s' = px_votes s" "px_promises s' = px_promises s"
  using assms by (auto simp: px_votes_def px_promises_def fun_eq_iff)

lemma paxos_inv_frame:
  assumes "paxos_inv s" and "px_node_ids s' = px_node_ids s" and "sim_handlers s' = sim_handlers s"
    and "persistent_state s' = persistent_state s" and "px_proposal s' = px_proposal s"
    and "px_chosen s' = px_chosen s" and "proposals s' = proposals s" and "started s \<subseteq> started s'"
    and "\<And>d. d \<in> set (sim_queue s') \<Longrightarrow> d \<in> set (sim_queue s) \<or> message_ok s (sd_message d)"
  shows "paxos_inv s' \<and> evolves s s'"
proof -
  have ev: "evolves s s'"
    using assms by (simp add: evolves_def px_views[OF assms(4)])
  have "paxos_inv s'"
    using assms message_ok_stable[OF ev]
    by (intro paxos_inv_evolves[OF assms(1) ev])
      (auto simp: paxos_inv_def px_votes_def intro!: proposer_ok_stable[OF ev])
  with ev show ?thesis by blast
qed

section \<open>Building blocks\<close>

lemma phase_starts_append [simp]: "phase_starts (xs @ ys) = phase_starts xs \<union> phase_starts ys"
  by (auto simp: phase_starts_def)

lemma phase_starts_quiet:
  "(\<And>x n p v names. x \<in> set tr \<Longrightarrow> snd x \<noteq> TApp (EvAcceptPhaseStart n p v names)) \<Longrightarrow> phase_starts tr = {}"
  by (force simp: phase_starts_def)

lemma phase_starts_single [simp]:
  "phase_starts [(t, TApp (EvAcceptPhaseStart n p v names))] = {(p, v)}"
  by (auto simp: phase_starts_def)

lemma px_record_simps [simp]:
  "px_node_ids (record_event ev s) = px_node_ids s"
  "px_proposal (record_event ev s) = px_proposal s"
  "px_chosen (record_event ev s) = px_chosen s"
  by (simp_all add: record_event_def)

lemma px_set_durable_simps [simp]:
  "px_node_ids (set_durable n f s) = px_node_ids s"
  "px_proposal (set_durable n f s) = px_proposal s"
  "px_chosen (set_durable n f s) = px_chosen s"
  by (simp_all add: set_durable_def)

lemma set_proposal_simps [simp]:
  "sim_trace (set_proposal n st s) = sim_trace s"
  "sim_queue (set_proposal n st s) = sim_queue s"
  "sim_handlers (set_proposal n st s) = sim_handlers s"
  "sim_alive (set_proposal n st s) = sim_alive s"
  "persistent_state (set_proposal n st s) = persistent_state s"
  "px_node_ids (set_proposal n st s) = px_node_ids s"
  "px_chosen (set_proposal n st s) = px_chosen s"
  "px_proposal (set_proposal n st s) = (px_proposal s)(n := st)"
  by (simp_all add: set_proposal_def)

text \<open>\<open>good s\<close>: the states an operation started in \<open>s\<close> may end in.\<close>

definition good :: "'v paxos \<Rightarrow> 'v paxos \<Rightarrow> bool" where
  "good s s' \<longleftrightarrow> paxos_inv s' \<and> evolves s s'"

lemma good_refl: "paxos_inv s \<Longrightarrow> good s s"
  by (simp add: good_def)

lemma good_trans: "good s t \<Longrightarrow> good t u \<Longrightarrow> good s u"
  by (auto simp: good_def intro: evolves_trans)

lemma outcome_good_trans:
  "good s t \<Longrightarrow> outcome {} (good t) m \<Longrightarrow> outcome {} (good s) m"
  by (erule outcome_weaken) (rule good_trans)

lemma good_record:
  assumes "paxos_inv s" and "\<And>n p v names. ev \<noteq> TApp (EvAcceptPhaseStart n p v names)"
  shows "good s (record_event ev s)"
proof -
  have "phase_starts [(sim_time s, ev)] = {}"
    using assms(2) by (auto simp: phase_starts_def)
  then show ?thesis
    unfolding good_def using assms(1)
    by (intro paxos_inv_frame) (auto simp: proposals_def started_def)
qed

lemma send_good:
  assumes "paxos_inv s" and "payload_ok s m" and "dst \<in> set (px_node_ids s)"
  shows "outcome {} (good s) (send_msg n dst m s)"
proof (rule outcome_weaken[OF sent_outcome])
  fix s' assume sent: "sent n dst m s s'"
  then obtain sq q os tr where
    s': "s' = s\<lparr>sim_sequence := sq, sim_queue := q, send_ordinals := os, sim_trace := sim_trace s @ tr\<rparr>"
    and tr: "\<And>x e. x \<in> set tr \<Longrightarrow> snd x \<noteq> TApp e"
    unfolding sent_def by (blast elim: core_frameE)
  have "phase_starts tr = {}" using tr by (intro phase_starts_quiet) auto
  moreover have "set (px_node_ids s) \<subseteq> set (sim_handlers s)"
    using assms(1) by (simp add: paxos_inv_def)
  ultimately show "good s s'"
    unfolding good_def using assms sent
    by (intro paxos_inv_frame) (auto simp: s' proposals_def started_def sent_def message_ok_def)
qed

lemma broadcast_good:
  assumes "paxos_inv s" and "payload_ok s m"
  shows "outcome {} (good s) (px_broadcast n m s)"
proof (rule outcome_for_each)
  show "good s s" using assms(1) by (rule good_refl)
next
  fix peer t assume "peer \<in> set (px_peers s n)" and t: "good s t"
  then have "payload_ok t m" "peer \<in> set (px_node_ids t)" "paxos_inv t"
    using assms(2) by (auto simp: good_def px_peers_def evolves_ids intro: payload_ok_stable)
  then show "outcome {} (good s) (send_msg n peer m t)"
    using send_good outcome_good_trans[OF t] by blast
qed

lemma decided_agree:
  assumes "paxos_inv s" and "px_decided s p v" and "px_decided s q w"
  shows "v = w"
proof (rule maj.agreement)
  show "all_safe (majority (px_node_ids s)) (px_votes s) (px_promises s)"
    using assms(1) unfolding paxos_inv_def all_safe_def px_safe_def by blast
  show "one_vote (px_votes s)"
    using assms(1) unfolding paxos_inv_def one_vote_def by blast
qed (use assms in \<open>auto simp: px_decided_def\<close>)

lemma paxos_invD:
  assumes "paxos_inv s"
  shows "distinct (px_node_ids s)" "set (px_node_ids s) \<subseteq> set (sim_handlers s)"
    "acceptor_ok (persistent_state s a)"
    "x \<in> px_votes s a \<Longrightarrow> x \<in> proposals s"
    "(p, v) \<in> proposals s \<Longrightarrow> (p, w) \<in> proposals s \<Longrightarrow> v = w"
    "(p, v) \<in> proposals s \<Longrightarrow> issued s p"
    "px_proposal s n = Some st \<Longrightarrow> proposer_ok s n st"
    "px_learned (persistent_state s a) = Some l \<Longrightarrow> px_decided s (ld_proposal l) (ld_value l)"
    "px_chosen s = Some l \<Longrightarrow> px_decided s (ld_proposal l) (ld_value l)"
    "d \<in> set (sim_queue s) \<Longrightarrow> message_ok s (sd_message d)"
  using assms unfolding paxos_inv_def by blast+

text \<open>A change that leaves votes, promises and proposal values alone.\<close>

lemma good_same:
  assumes inv: "paxos_inv s"
    and same: "px_node_ids s' = px_node_ids s" "sim_handlers s' = sim_handlers s"
      "px_votes s' = px_votes s" "px_promises s' = px_promises s" "proposals s' = proposals s"
      "started s' = started s" "sim_queue s' = sim_queue s"
    and rnd: "\<And>a. px_last_round (persistent_state s a) \<le> px_last_round (persistent_state s' a)"
    and acc: "\<And>a. acceptor_ok (persistent_state s' a)"
    and proposer: "\<And>n st. px_proposal s' n = Some st \<Longrightarrow> px_proposal s n = Some st \<or> proposer_ok s' n st"
    and learned: "\<And>a l. px_learned (persistent_state s' a) = Some l \<Longrightarrow>
      px_learned (persistent_state s a) = Some l \<or> px_decided s (ld_proposal l) (ld_value l)"
    and chosen: "\<And>l. px_chosen s' = Some l \<Longrightarrow>
      px_chosen s = Some l \<or> px_decided s (ld_proposal l) (ld_value l)"
  shows "good s s'"
proof -
  have ev: "evolves s s'" using same rnd by (simp add: evolves_def)
  have "proposer_ok s' n st" if "px_proposal s' n = Some st" for n st
    using proposer[OF that] inv same by (auto simp: paxos_inv_def intro: proposer_ok_stable[OF ev])
  then have "paxos_inv s'"
  proof (intro paxos_inv_evolves[OF inv ev])
    show "px_votes s' a \<subseteq> proposals s'" for a
      using paxos_invD(4)[OF inv] by (auto simp: same)
    show "v = w" if "(p, v) \<in> proposals s'" "(p, w) \<in> proposals s'" for p v w
      using paxos_invD(5)[OF inv] that unfolding same by blast
    show "px_learned (persistent_state s a) = Some l \<or> px_decided s' (ld_proposal l) (ld_value l)"
      if "px_learned (persistent_state s' a) = Some l" for a l
      using learned[OF that] decided_stable[OF ev] by blast
    show "px_chosen s = Some l \<or> px_decided s' (ld_proposal l) (ld_value l)"
      if "px_chosen s' = Some l" for l
      using chosen[OF that] decided_stable[OF ev] by blast
  qed (use acc same in \<open>auto\<close>)
  with ev show ?thesis by (simp add: good_def)
qed

lemma acceptor_ok_updates [simp]:
  "acceptor_ok (d\<lparr>px_learned := l\<rparr>) = acceptor_ok d"
  by (auto simp: acceptor_ok_def split: option.split)

section \<open>Handlers keep the invariant and never raise\<close>

lemma receive_learn_good:
  assumes inv: "paxos_inv s" and dec: "px_decided s p v"
  shows "outcome {} (good s) (receive_learn n p v s)"
proof (cases "px_learned (persistent_state s n)")
  case None
  let ?s1 = "set_durable n (\<lambda>d. d\<lparr>px_learned := Some (LearnedDecision p v)\<rparr>) s"
  have same: "px_votes ?s1 = px_votes s" "px_promises ?s1 = px_promises s" "proposals ?s1 = proposals s"
    "started ?s1 = started s"
    by (auto simp: px_votes_def px_promises_def proposals_def started_def fun_eq_iff)
  have g: "good s ?s1"
    using dec by (intro good_same[OF inv])
      (auto simp: same paxos_invD[OF inv] split: if_splits)
  then have "good s (record_app (EvLearned n p v) ?s1)"
    by (intro good_trans[OF g] good_record) (auto simp: good_def)
  with None show ?thesis by (simp add: receive_learn_def)
next
  case (Some l)
  then have "ld_value l = v"
    using decided_agree[OF inv paxos_invD(8)[OF inv] dec] by simp
  with Some inv show ?thesis by (simp add: receive_learn_def good_refl)
qed

lemma record_chosen_good:
  assumes inv: "paxos_inv s" and A: "A \<subseteq> set (px_node_ids s)" "px_quorum s \<le> card A"
    and votes: "\<And>a. a \<in> A \<Longrightarrow> (p, v) \<in> px_votes s a"
  shows "px_decided s p v" and "outcome {} (good s) (record_chosen p v A s)"
proof -
  show dec: "px_decided s p v"
    using A votes unfolding px_decided_def chosen_at_def majority_def px_quorum_def by blast
  show "outcome {} (good s) (record_chosen p v A s)"
  proof (cases "px_chosen s")
    case None
    let ?s1 = "s\<lparr>px_chosen := Some (LearnedDecision p v), px_chosen_acceptors := sorted_list_of_set A\<rparr>"
    have same: "px_votes ?s1 = px_votes s" "px_promises ?s1 = px_promises s" "proposals ?s1 = proposals s"
      "started ?s1 = started s"
      by (auto simp: px_votes_def px_promises_def proposals_def started_def fun_eq_iff)
    have g: "good s ?s1"
      using dec by (intro good_same[OF inv]) (auto simp: same paxos_invD[OF inv])
    then have "good s (record_app (EvChosen p v (sorted_list_of_set A)) ?s1)"
      by (intro good_trans[OF g] good_record) (auto simp: good_def)
    with None A(2) show ?thesis by (simp add: record_chosen_def Let_def)
  next
    case (Some l)
    then have "ld_value l = v"
      using decided_agree[OF inv paxos_invD(9)[OF inv] dec] by simp
    with Some inv A(2) show ?thesis by (simp add: record_chosen_def good_refl)
  qed
qed

lemma issued_member: "issued s p \<Longrightarrow> pn_proposer p \<in> set (px_node_ids s)"
  by (simp add: issued_def)

lemma view_set_proposal [simp]:
  "px_votes (set_proposal m x s) = px_votes s"
  "px_promises (set_proposal m x s) = px_promises s"
  "proposals (set_proposal m x s) = proposals s"
  "started (set_proposal m x s) = started s"
  by (auto simp: px_votes_def px_promises_def proposals_def started_def fun_eq_iff)

lemma proposer_ok_set_proposal [simp]:
  "proposer_ok (set_proposal m x s) n st = proposer_ok s n st"
  by (simp only: proposer_ok_def issued_def promise_ok_def view_set_proposal set_proposal_simps)

lemma set_proposal_good:
  assumes "paxos_inv s" and "\<And>st'. st = Some st' \<Longrightarrow> proposer_ok s n st'"
  shows "good s (set_proposal n st s)"
  using assms(2)
  by (intro good_same[OF assms(1)])
    (auto simp: px_votes_def px_promises_def proposals_def started_def fun_eq_iff paxos_invD[OF assms(1)]
      split: if_splits)

lemma goodD: "good s s' \<Longrightarrow> paxos_inv s'" "good s s' \<Longrightarrow> evolves s s'"
  by (simp_all add: good_def)

lemma receive_accepted_good:
  assumes inv: "paxos_inv s" and vote: "(p, v) \<in> px_votes s a" and a: "a \<in> set (px_node_ids s)"
  shows "outcome {} (good s) (receive_accepted n p a v s)"
proof (cases "\<exists>st. px_proposal s n = Some st \<and> p = ps_proposal st \<and> ps_started st")
  case False
  then have "receive_accepted n p a v s = Inr (record_app (EvStaleAccepted n a p) s)"
    by (cases "px_proposal s n") (auto simp: receive_accepted_def Let_def)
  then show ?thesis using inv by (auto intro: good_record)
next
  case True
  then obtain st where st: "px_proposal s n = Some st" "p = ps_proposal st" "ps_started st" by blast
  then have ok: "proposer_ok s n st" using paxos_invD(7)[OF inv] by blast
  obtain v0 where v0: "ps_chosen_value st = Some v0" "(p, v0) \<in> proposals s"
    using ok st by (auto simp: proposer_ok_def)
  have "v0 = v" using paxos_invD(5)[OF inv v0(2)] paxos_invD(4)[OF inv vote] by blast
  let ?st' = "st\<lparr>ps_accepted_by := insert a (ps_accepted_by st)\<rparr>"
  let ?s1 = "set_proposal n (Some ?st') s"
  have ok': "proposer_ok s n ?st'"
    using ok st vote a v0 \<open>v0 = v\<close> by (auto simp: proposer_ok_def)
  have g1: "good s ?s1" using ok' by (intro set_proposal_good[OF inv]) simp
  have i1: "paxos_inv ?s1" using g1 by (rule goodD)
  have A: "ps_accepted_by ?st' \<subseteq> set (px_node_ids ?s1)"
      "\<And>b. b \<in> ps_accepted_by ?st' \<Longrightarrow> (p, v) \<in> px_votes ?s1 b"
    using ok' st v0 \<open>v0 = v\<close> by (auto simp: proposer_ok_def px_votes_def)
  show ?thesis
  proof (cases "card (ps_accepted_by ?st') < px_quorum ?s1")
    case True
    then show ?thesis using st v0 \<open>v0 = v\<close> g1 by (simp add: receive_accepted_def Let_def)
  next
    case False
    then have q: "px_quorum ?s1 \<le> card (ps_accepted_by ?st')" by simp
    note dec = record_chosen_good[OF i1 A(1) q A(2)]
    have "outcome {} (good s) (and_then (record_chosen p v (ps_accepted_by ?st') ?s1) (\<lambda>s2.
        and_then (receive_learn n p v s2) (\<lambda>s3.
        and_then (px_broadcast n (Learn p n v) s3) (\<lambda>s4. Inr (set_proposal n None s4)))))"
    proof (simp only: outcome_and_then outcome_simps, rule outcome_weaken[OF dec(2)])
      fix s2 assume s2: "good ?s1 s2"
      have d2: "px_decided s2 p v" using decided_stable[OF goodD(2)[OF s2] dec(1)] .
      show "outcome {} (\<lambda>s3. outcome {} (\<lambda>s4. good s (set_proposal n None s4))
          (px_broadcast n (Learn p n v) s3)) (receive_learn n p v s2)"
      proof (rule outcome_weaken[OF receive_learn_good[OF goodD(1)[OF s2] d2]])
        fix s3 assume s3: "good s2 s3"
        have "payload_ok s3 (Learn p n v)" using decided_stable[OF goodD(2)[OF s3] d2] by simp
        then show "outcome {} (\<lambda>s4. good s (set_proposal n None s4)) (px_broadcast n (Learn p n v) s3)"
        proof (rule outcome_weaken[OF broadcast_good[OF goodD(1)[OF s3]]])
          fix s4 assume s4: "good s3 s4"
          have "good s4 (set_proposal n None s4)" by (intro set_proposal_good goodD(1)[OF s4]) simp
          then show "good s (set_proposal n None s4)"
            using g1 s2 s3 s4 by (blast intro: good_trans)
        qed
      qed
    qed
    then show ?thesis using st v0 \<open>v0 = v\<close> False by (simp add: receive_accepted_def Let_def)
  qed
qed

lemma px_votes_accept:
  "px_votes (set_durable n (\<lambda>d. d\<lparr>px_promised := x, px_accepted := y,
     px_history := (if a \<in> set (px_history d) then px_history d else px_history d @ [a])\<rparr>) s) m =
   (if m = n then insert (vote_of a) (px_votes s m) else px_votes s m)"
  by (auto simp: px_votes_def)

lemma acceptor_bounds:
  assumes "acceptor_ok d" and "\<not> beyond (px_promised d) p" and "b \<in> set (px_history d)"
  shows "av_proposal b \<le> p"
proof -
  obtain a m where "px_accepted d = Some a" "\<not> av_proposal a < av_proposal b"
    "px_promised d = Some m" "av_proposal a \<le> m"
    using assms(1,3) unfolding acceptor_ok_def by (cases "px_accepted d") auto
  with assms(2) show ?thesis by (simp add: not_less)
qed

lemma accept_vote_good:
  assumes inv: "paxos_inv s" and pv: "(p, v) \<in> proposals s"
    and nb: "\<not> beyond (px_promised (persistent_state s n)) p"
  shows "good s (set_durable n (\<lambda>d. d\<lparr>px_promised := Some p, px_accepted := Some (AcceptedValue p v),
     px_history := (if AcceptedValue p v \<in> set (px_history d) then px_history d
                    else px_history d @ [AcceptedValue p v])\<rparr>) s)" (is "good s ?s1")
proof -
  have votes: "px_votes ?s1 m = (if m = n then insert (p, v) (px_votes s m) else px_votes s m)" for m
    by (simp add: px_votes_accept vote_of_def)
  have proms: "px_promises ?s1 m = (if m = n then Some p else px_promises s m)" for m
    by (simp add: px_promises_def)
  have props: "proposals ?s1 = proposals s" "started ?s1 = started s"
    by (simp_all add: proposals_def started_def)
  have nb': "\<not> beyond (px_promises s n) p" using nb by (simp add: px_promises_def)
  have "beyond (Some p) c" if "beyond (px_promises s n) c" for c
    using nb' that by (cases "px_promises s n") auto
  then have ev: "evolves s ?s1"
    using nb' by (auto simp: evolves_def acceptors_grow_def votes proms props)
  have high: "\<not> p < av_proposal b" if "b \<in> set (px_history (persistent_state s n))" for b
    using acceptor_bounds[OF paxos_invD(3)[OF inv] nb that] by simp
  have "0 \<le> px_last_round (persistent_state s n)"
    using paxos_invD(3)[OF inv, of n] by (simp add: acceptor_ok_def)
  then have acc: "acceptor_ok (persistent_state ?s1 a)" for a
    using high paxos_invD(3)[OF inv, of a] by (auto simp: acceptor_ok_def)
  have "paxos_inv ?s1"
  proof (rule paxos_inv_evolves[OF inv ev acc])
    show "px_votes ?s1 a \<subseteq> proposals ?s1" for a
      using paxos_invD(4)[OF inv] pv by (auto simp: votes props)
    show "v = w" if "(q, v) \<in> proposals ?s1" "(q, w) \<in> proposals ?s1" for q v w
      using paxos_invD(5)[OF inv] that unfolding props by blast
    show "proposer_ok ?s1 m st" if "px_proposal ?s1 m = Some st" for m st
      using that paxos_invD(7)[OF inv] by (auto simp: props intro: proposer_ok_stable[OF ev])
  qed (auto simp: props split: if_splits)
  with ev show ?thesis by (simp add: good_def)
qed

lemma receive_accept_request_good:
  assumes inv: "paxos_inv s" and pv: "(p, v) \<in> proposals s" and n: "n \<in> set (px_node_ids s)"
    and proposer: "proposer = pn_proposer p"
  shows "outcome {} (good s) (receive_accept_request n p proposer v s)"
proof (cases "beyond (px_promised (persistent_state s n)) p")
  case True
  then show ?thesis using inv by (auto simp: receive_accept_request_def Let_def intro: good_record)
next
  case False
  let ?d = "persistent_state s n"
  let ?s1 = "set_durable n (\<lambda>d. d\<lparr>px_promised := Some p, px_accepted := Some (AcceptedValue p v),
     px_history := (if AcceptedValue p v \<in> set (px_history d) then px_history d
                    else px_history d @ [AcceptedValue p v])\<rparr>) s"
  let ?s2 = "record_app (EvAccepted n proposer p v) ?s1"
  have g1: "good s ?s1" using accept_vote_good[OF inv pv False] .
  have g2: "good ?s1 ?s2" using goodD(1)[OF g1] by (intro good_record) auto
  have gs: "good s ?s2" using g1 g2 by (rule good_trans)
  have i2: "paxos_inv ?s2" using gs by (rule goodD)
  have vote: "(p, v) \<in> px_votes ?s2 n" by (auto simp: votes_iff)
  have "issued s p" using paxos_invD(6)[OF inv pv] .
  then have m: "proposer \<in> set (px_node_ids ?s2)" "n \<in> set (px_node_ids ?s2)"
    using n proposer by (auto simp: issued_def)
  have same: "\<not> (av_proposal a = p \<and> av_value a \<noteq> v)" if "px_accepted ?d = Some a" for a
  proof -
    have "a \<in> set (px_history ?d)" using that paxos_invD(3)[OF inv, of n] by (simp add: acceptor_ok_def)
    then have "(av_proposal a, av_value a) \<in> proposals s"
      using paxos_invD(4)[OF inv, of "(av_proposal a, av_value a)" n]
      by (force simp: px_votes_def vote_of_def)
    then show ?thesis using paxos_invD(5)[OF inv _ pv] by blast
  qed
  have "outcome {} (good s) (if proposer = n then receive_accepted n p n v ?s2
      else send_msg n proposer (Accepted p n v) ?s2)"
    using receive_accepted_good[OF i2 vote m(2)] send_good[OF i2 _ m(1)] vote m(2)
    by (auto intro!: outcome_good_trans[OF gs])
  then show ?thesis
    using False same by (auto simp: receive_accept_request_def Let_def split: option.split)
qed

text \<open>The Phase-1 value choice: it never meets a conflict, and its result is the value of a
  highest report.\<close>

lemma select_value_ok:
  assumes "\<And>a b. a \<in> set xs \<Longrightarrow> b \<in> set xs \<Longrightarrow> av_proposal a = av_proposal b \<Longrightarrow> av_value a = av_value b"
  shows "\<exists>v. select_value original xs = Inr v \<and>
    (xs = [] \<and> v = original \<or> (\<exists>a \<in> set xs. av_value a = v \<and> (\<forall>b \<in> set xs. av_proposal b \<le> av_proposal a)))"
proof (cases "xs = []")
  case True
  then show ?thesis by (simp add: select_value_def)
next
  case False
  let ?h = "Max (set (map av_proposal xs))"
  let ?vs = "map av_value (filter (\<lambda>a. av_proposal a = ?h) xs)"
  have "?h \<in> set (map av_proposal xs)" using False by (intro Max_in) auto
  then obtain a where a: "a \<in> set xs" "av_proposal a = ?h" unfolding set_map image_iff by metis
  then have "a \<in> set (filter (\<lambda>a. av_proposal a = ?h) xs)" unfolding set_filter by blast
  then have ne: "?vs \<noteq> []" by (metis list.map_disc_iff empty_iff list.set(1))
  have "hd ?vs \<in> set ?vs" using ne by (rule hd_in_set)
  then obtain b where b: "b \<in> set xs" "av_proposal b = ?h" "hd ?vs = av_value b"
    unfolding set_map set_filter image_iff by blast
  have "w = hd ?vs" if "w \<in> set ?vs" for w
  proof -
    obtain c where "c \<in> set xs" "av_proposal c = ?h" "w = av_value c"
      using \<open>w \<in> set ?vs\<close> unfolding set_map set_filter image_iff by blast
    then show ?thesis using assms[OF _ b(1)] b(2,3) by metis
  qed
  moreover have "set (tl ?vs) \<subseteq> set ?vs" using ne by (cases ?vs) auto
  ultimately have "\<not> (\<exists>w \<in> set (tl ?vs). w \<noteq> hd ?vs)" by blast
  then have "select_value original xs = Inr (av_value b)"
    using False unfolding b(3)[symmetric] select_value_def Let_def by (simp only: if_False)
  moreover have "\<forall>c \<in> set xs. av_proposal c \<le> av_proposal b" unfolding b(2) by simp
  ultimately show ?thesis using b(1) by blast
qed

definition reported :: "'v proposal_state \<Rightarrow> 'v accepted_value list" where
  "reported st = List.map_filter (\<lambda>(_, p). pr_accepted p) (ps_promises st)"

lemma reported_iff: "a \<in> set (reported st) \<longleftrightarrow> (\<exists>k pr. (k, pr) \<in> set (ps_promises st) \<and> pr_accepted pr = Some a)"
  by (force simp: reported_def List.map_filter_def)

lemma phase1_choice:
  assumes inv: "paxos_inv s" and ok: "proposer_ok s n st" and ns: "\<not> ps_started st"
    and q: "px_quorum s \<le> length (ps_promises st)"
  shows "\<exists>v. select_value (ps_original st) (reported st) = Inr v \<and> v \<in> started s \<and>
    px_safe s (ps_proposal st) v"
proof -
  let ?p = "ps_proposal st" and ?P = "ps_promises st"
  have dist: "distinct (map fst ?P)" using ok by (simp add: proposer_ok_def)
  have pr: "pr_acceptor pr = k" "pr_proposal pr = ?p" "promise_ok s pr" if "(k, pr) \<in> set ?P" for k pr
    using ok that by (auto simp: proposer_ok_def)
  have nop: "(?p, v) \<notin> proposals s" for v using ok ns by (simp add: proposer_ok_def)
  define rep where "rep k = (case map_of ?P k of None \<Rightarrow> None | Some r \<Rightarrow> map_option vote_of (pr_accepted r))" for k
  have repI: "rep k = map_option vote_of (pr_accepted r)" if "(k, r) \<in> set ?P" for k r
    using that dist by (simp add: rep_def)
  have vote: "vote_of a \<in> px_votes s k" "vote_of a \<in> proposals s"
    if "(k, r) \<in> set ?P" "pr_accepted r = Some a" for k r a
  proof -
    show "vote_of a \<in> px_votes s k" using pr[OF that(1)] that(2) by (auto simp: promise_ok_def)
    then show "vote_of a \<in> proposals s" by (rule paxos_invD(4)[OF inv])
  qed
  have "av_value a = av_value b"
    if "a \<in> set (reported st)" "b \<in> set (reported st)" "av_proposal a = av_proposal b" for a b
    using that vote(2) paxos_invD(5)[OF inv] unfolding reported_iff vote_of_def by metis
  then obtain v where v: "select_value (ps_original st) (reported st) = Inr v"
    "reported st = [] \<and> v = ps_original st \<or> (\<exists>a \<in> set (reported st). av_value a = v \<and>
       (\<forall>b \<in> set (reported st). av_proposal b \<le> av_proposal a))"
    using select_value_ok[of "reported st" "ps_original st"] by blast
  have "v \<in> started s"
    using v(2)
  proof
    assume "reported st = [] \<and> v = ps_original st"
    then show ?thesis using ok by (simp add: proposer_ok_def)
  next
    assume "\<exists>a \<in> set (reported st). av_value a = v \<and> (\<forall>b \<in> set (reported st). av_proposal b \<le> av_proposal a)"
    then obtain k r a where "(k, r) \<in> set ?P" "pr_accepted r = Some a" "av_value a = v"
      using reported_iff[of _ st] by blast
    then have "(av_proposal a, v) \<in> proposals s" using vote(2) by (auto simp: vote_of_def)
    then show ?thesis using inv unfolding paxos_inv_def by blast
  qed
  have "px_safe s ?p v"
    unfolding px_safe_def
  proof (rule maj.phase1_safe[where Q = "fst ` set ?P" and report = rep])
    show "all_safe (majority (px_node_ids s)) (px_votes s) (px_promises s)"
      using inv unfolding paxos_inv_def all_safe_def px_safe_def by blast
    show "one_vote (px_votes s)" using inv unfolding paxos_inv_def one_vote_def by blast
    show "majority (px_node_ids s) (fst ` set ?P)"
      using q pr length_distinct_keys[OF dist]
      by (auto simp: majority_def px_quorum_def promise_ok_def)
    show "beyond (px_promises s a) c" if "a \<in> fst ` set ?P" "c < ?p" for a c
      using that pr by (auto simp: promise_ok_def)
    show "(c, w) \<notin> px_votes s a" if "a \<in> fst ` set ?P" "rep a = None" "c < ?p" for a c w
      using that pr repI by (fastforce simp: promise_ok_def)
    show "m < ?p \<and> (m, w) \<in> px_votes s a" if a: "a \<in> fst ` set ?P" "rep a = Some (m, w)" for a m w
    proof -
      obtain r b where r: "(a, r) \<in> set ?P" "pr_accepted r = Some b" "vote_of b = (m, w)"
        using a repI by fastforce
      have "(m, w) \<in> proposals s" "(m, w) \<in> px_votes s a" using vote[OF r(1,2)] r(3) by auto
      moreover have "m \<le> ?p" using pr[OF r(1)] r(2,3) by (auto simp: promise_ok_def vote_of_def)
      ultimately show ?thesis using nop by (metis order_le_less)
    qed
    show "c \<le> m" if a: "a \<in> fst ` set ?P" "rep a = Some (m, w)" "c < ?p" "(c, u) \<in> px_votes s a" for a m w c u
    proof -
      obtain r b where r: "(a, r) \<in> set ?P" "pr_accepted r = Some b" "vote_of b = (m, w)"
        using a repI by fastforce
      then show ?thesis using pr[OF r(1)] a(3,4) by (auto simp: promise_ok_def vote_of_def)
    qed
    show "(\<forall>a \<in> fst ` set ?P. rep a = None) \<or> (\<exists>a \<in> fst ` set ?P. \<exists>m. rep a = Some (m, v) \<and>
        (\<forall>a' \<in> fst ` set ?P. \<forall>m' w. rep a' = Some (m', w) \<longrightarrow> m' < m \<or> m' = m \<and> w = v))"
      using v(2)
    proof
      assume "reported st = [] \<and> v = ps_original st"
      then have "pr_accepted r = None" if "(k, r) \<in> set ?P" for k r
        using that reported_iff[of _ st] by (cases "pr_accepted r") auto
      then show ?thesis using repI by auto
    next
      assume "\<exists>a \<in> set (reported st). av_value a = v \<and> (\<forall>b \<in> set (reported st). av_proposal b \<le> av_proposal a)"
      then obtain a where a: "a \<in> set (reported st)" "av_value a = v"
        and top: "\<And>b. b \<in> set (reported st) \<Longrightarrow> av_proposal b \<le> av_proposal a"
        by blast
      from a(1) obtain k r where r: "(k, r) \<in> set ?P" "pr_accepted r = Some a"
        unfolding reported_iff by blast
      have "m' < av_proposal a \<or> m' = av_proposal a \<and> w = v" if a': "a' \<in> fst ` set ?P" "rep a' = Some (m', w)" for a' m' w
      proof -
        obtain r' b where b: "(a', r') \<in> set ?P" "pr_accepted r' = Some b" "vote_of b = (m', w)"
          using a' repI by fastforce
        then have "m' \<le> av_proposal a" using top[of b] by (auto simp: reported_iff vote_of_def)
        moreover have "w = v" if "m' = av_proposal a"
          using vote(2)[OF r] vote(2)[OF b(1,2)] b(3) a(2) that paxos_invD(5)[OF inv] by (auto simp: vote_of_def)
        ultimately show ?thesis using le_imp_less_or_eq by blast
      qed
      moreover have "rep k = Some (av_proposal a, v)" using repI[OF r(1)] r(2) a(2) by (simp add: vote_of_def)
      moreover have "k \<in> fst ` set ?P" using r(1) by force
      ultimately show ?thesis by blast
    qed
  qed
  with v(1) \<open>v \<in> started s\<close> show ?thesis by blast
qed

lemma phase_start_good:
  assumes inv: "paxos_inv s" and ok: "proposer_ok s n st" and ns: "\<not> ps_started st"
    and safe: "px_safe s (ps_proposal st) v" and started: "v \<in> started s"
  shows "good s (record_app (EvAcceptPhaseStart n (ps_proposal st) v names)
    (set_proposal n (Some (st\<lparr>ps_chosen_value := Some v, ps_started := True\<rparr>)) s))" (is "good s ?s2")
proof -
  let ?p = "ps_proposal st"
  have props: "proposals ?s2 = insert (?p, v) (proposals s)"
    by (auto simp: proposals_def)
  have votes: "px_votes ?s2 = px_votes s" and proms: "px_promises ?s2 = px_promises s"
    and st2: "started ?s2 = started s"
    by (auto simp: px_votes_def px_promises_def started_def fun_eq_iff)
  have nop: "(?p, w) \<notin> proposals s" for w using ok ns by (simp add: proposer_ok_def)
  have mine: "pn_proposer ?p = n" "issued s ?p" using ok by (auto simp: proposer_ok_def)
  have ev: "evolves s ?s2" by (auto simp: evolves_def votes proms props st2)
  have "proposer_ok ?s2 m st'" if m: "px_proposal ?s2 m = Some st'" for m st'
  proof (cases "m = n")
    case True
    then have "st' = st\<lparr>ps_chosen_value := Some v, ps_started := True\<rparr>" using m by simp
    then show ?thesis
      using True ok ns issued_stable[OF ev] promise_ok_stable[OF ev] props st2
      by (auto simp: proposer_ok_def)
  next
    case False
    then have st': "proposer_ok s m st'" using m paxos_invD(7)[OF inv] by simp
    then have "ps_proposal st' \<noteq> ?p" using False mine by (auto simp: proposer_ok_def)
    then show ?thesis using st' by (intro proposer_ok_stable[OF ev]) (auto simp: props)
  qed
  then have "paxos_inv ?s2"
  proof (intro paxos_inv_evolves[OF inv ev])
    show "acceptor_ok (persistent_state ?s2 a)" for a using paxos_invD(3)[OF inv] by simp
    show "px_votes ?s2 a \<subseteq> proposals ?s2" for a
      using paxos_invD(4)[OF inv] by (auto simp: votes props)
    show "x = y" if "(q, x) \<in> proposals ?s2" "(q, y) \<in> proposals ?s2" for q x y
      using that nop paxos_invD(5)[OF inv, of q x y] unfolding props by blast
    show "issued ?s2 q \<and> w \<in> started ?s2 \<and> px_safe ?s2 q w" if "(q, w) \<in> proposals ?s2" "(q, w) \<notin> proposals s" for q w
    proof -
      have "q = ?p" "w = v" using that by (auto simp: props)
      then show ?thesis using safe started issued_stable[OF ev mine(2)] by (simp add: px_safe_def votes proms st2)
    qed
  qed auto
  with ev show ?thesis by (simp add: good_def)
qed

lemma promises_insert_ok:
  assumes "proposer_ok s n st" and "promise_ok s response" and "pr_proposal response = ps_proposal st"
  shows "proposer_ok s n (st\<lparr>ps_promises := setdefault (pr_acceptor response) response (ps_promises st)\<rparr>)"
  using assms distinct_setdefault[of "ps_promises st" "pr_acceptor response" response]
  unfolding proposer_ok_def by (auto dest!: set_setdefault_cases)

lemma receive_promise_good:
  assumes inv: "paxos_inv s" and pr: "promise_ok s response"
  shows "outcome {} (good s) (receive_promise n response s)"
proof (cases "\<exists>st. px_proposal s n = Some st \<and> pr_proposal response = ps_proposal st")
  case False
  then have "receive_promise n response s =
      Inr (record_app (EvStalePromise n (pr_acceptor response) (pr_proposal response)) s)"
    by (cases "px_proposal s n") (auto simp: receive_promise_def Let_def)
  then show ?thesis using inv by (auto intro: good_record)
next
  case True
  then obtain st where st: "px_proposal s n = Some st" "pr_proposal response = ps_proposal st" by blast
  have member: "pr_acceptor response \<in> set (px_node_ids s)" using pr by (simp add: promise_ok_def)
  define st1 where "st1 = st\<lparr>ps_promises := setdefault (pr_acceptor response) response (ps_promises st)\<rparr>"
  define s1 where "s1 = set_proposal n (Some st1) s"
  have ok0: "proposer_ok s n st" using paxos_invD(7)[OF inv st(1)] .
  have ok1: "proposer_ok s n st1"
    unfolding st1_def using ok0 pr st(2) by (rule promises_insert_ok)
  have g1: "good s s1" unfolding s1_def using ok1 by (intro set_proposal_good[OF inv]) simp
  note i1 = goodD(1)[OF g1]
  have ok1': "proposer_ok s1 n st1" using ok1 by (simp add: s1_def)
  show ?thesis
  proof (cases "ps_started st1 \<or> length (ps_promises st1) < px_quorum s1")
    case True
    then show ?thesis
      using st member g1 by (simp add: receive_promise_def Let_def flip: st1_def s1_def)
  next
    case False
    then obtain v where v: "select_value (ps_original st1) (reported st1) = Inr v" "px_safe s1 (ps_proposal st1) v" "v \<in> started s1"
      using phase1_choice[OF i1 ok1'] by auto
    define s2 where "s2 = record_app (EvAcceptPhaseStart n (ps_proposal st1) v (sort (map fst (ps_promises st1))))
      (set_proposal n (Some (st1\<lparr>ps_chosen_value := Some v, ps_started := True\<rparr>)) s1)"
    have g2: "good s1 s2" unfolding s2_def using phase_start_good[OF i1 ok1' _ v(2,3)] False by blast
    note i2 = goodD(1)[OF g2]
    have pv: "(ps_proposal st1, v) \<in> proposals s2" by (simp add: s2_def proposals_def)
    have n: "n = pn_proposer (ps_proposal st1)" using ok1 by (simp add: proposer_ok_def)
    have "n \<in> set (px_node_ids s2)" using issued_member[OF paxos_invD(6)[OF i2 pv]] n by simp
    note rar = receive_accept_request_good[OF i2 pv this n]
    have "outcome {} (good s) (and_then (receive_accept_request n (ps_proposal st1) n v s2)
        (px_broadcast n (AcceptRequest (ps_proposal st1) n v)))"
    proof (simp only: outcome_and_then, rule outcome_weaken[OF rar])
      fix s3 assume s3: "good s2 s3"
      have "(ps_proposal st1, v) \<in> proposals s3" using pv goodD(2)[OF s3] by (auto simp: evolves_def)
      then have "payload_ok s3 (AcceptRequest (ps_proposal st1) n v)"
        using n paxos_invD(6)[OF goodD(1)[OF s3]] by simp
      then show "outcome {} (good s) (px_broadcast n (AcceptRequest (ps_proposal st1) n v) s3)"
        using g1 g2 s3 by (blast intro: broadcast_good goodD outcome_good_trans good_trans)
    qed
    moreover have "make_accept_request (ps_proposal st1) n v = Inr (AcceptRequest (ps_proposal st1) n v)"
      using n by (simp add: make_accept_request_def)
    ultimately show ?thesis
      using st member False v(1)
      by (simp add: receive_promise_def Let_def s2_def flip: st1_def s1_def reported_def)
  qed
qed

lemma promise_good:
  assumes inv: "paxos_inv s" and nb: "\<not> beyond (px_promised (persistent_state s n)) p"
  shows "good s (set_durable n (\<lambda>d. d\<lparr>px_promised := Some p\<rparr>) s)" (is "good s ?s1")
proof -
  let ?d = "persistent_state s n"
  have same: "px_votes ?s1 = px_votes s" "proposals ?s1 = proposals s" "started ?s1 = started s"
    by (auto simp: px_votes_def proposals_def started_def fun_eq_iff)
  have proms: "px_promises ?s1 m = (if m = n then Some p else px_promises s m)" for m
    by (simp add: px_promises_def)
  have "beyond (Some p) c" if "beyond (px_promises s n) c" for c
    using nb that by (cases "px_promises s n") (auto simp: px_promises_def)
  then have ev: "evolves s ?s1" by (auto simp: evolves_def acceptors_grow_def same proms)
  have "acceptor_ok (?d\<lparr>px_promised := Some p\<rparr>)"
    using paxos_invD(3)[OF inv, of n] nb by (auto simp: acceptor_ok_def split: option.splits)
  then have acc: "acceptor_ok (persistent_state ?s1 a)" for a
    using paxos_invD(3)[OF inv, of a] by simp
  have "paxos_inv ?s1"
  proof (rule paxos_inv_evolves[OF inv ev acc])
    show "px_votes ?s1 a \<subseteq> proposals ?s1" for a using paxos_invD(4)[OF inv] by (auto simp: same)
    show "v = w" if "(q, v) \<in> proposals ?s1" "(q, w) \<in> proposals ?s1" for q v w
      using paxos_invD(5)[OF inv] that unfolding same by blast
    show "proposer_ok ?s1 m st" if "px_proposal ?s1 m = Some st" for m st
      using that paxos_invD(7)[OF inv] by (auto simp: same intro: proposer_ok_stable[OF ev])
  qed (auto simp: same split: if_splits)
  with ev show ?thesis by (simp add: good_def)
qed

lemma promise_report_ok:
  assumes inv: "paxos_inv s" and n: "n \<in> set (px_node_ids s)"
    and p: "px_promised (persistent_state s n) = Some p"
  shows "promise_ok s (Promise p n (px_accepted (persistent_state s n)))"
proof (cases "px_accepted (persistent_state s n)")
  case None
  then have "px_history (persistent_state s n) = []"
    using paxos_invD(3)[OF inv, of n] by (simp add: acceptor_ok_def)
  then have "px_votes s n = {}" by (simp add: px_votes_def)
  then show ?thesis using None n p by (simp add: promise_ok_def px_promises_def)
next
  case (Some a)
  then have a: "a \<in> set (px_history (persistent_state s n))" "av_proposal a \<le> p"
    "\<And>b. b \<in> set (px_history (persistent_state s n)) \<Longrightarrow> av_proposal b \<le> av_proposal a"
    using paxos_invD(3)[OF inv, of n] p by (auto simp: acceptor_ok_def not_less)
  then have "vote_of a \<in> px_votes s n" "\<And>c w. (c, w) \<in> px_votes s n \<Longrightarrow> c \<le> av_proposal a"
    by (auto simp: px_votes_def vote_of_def)
  then show ?thesis using Some n p a(2) by (auto simp: promise_ok_def px_promises_def)
qed

lemma receive_prepare_good:
  assumes inv: "paxos_inv s" and n: "n \<in> set (px_node_ids s)"
    and proposer: "proposer \<in> set (px_node_ids s)"
  shows "outcome {} (good s) (receive_prepare n p proposer s)"
proof (cases "beyond (px_promised (persistent_state s n)) p")
  case True
  then show ?thesis using inv by (auto simp: receive_prepare_def Let_def intro: good_record)
next
  case False
  let ?m = "px_promised (persistent_state s n)"
  define s1 where "s1 = (if ?m = None \<or> p > the ?m then set_durable n (\<lambda>d. d\<lparr>px_promised := Some p\<rparr>) s else s)"
  have p1: "px_promised (persistent_state s1 n) = Some p"
    using False by (cases ?m) (auto simp: s1_def)
  have g1: "good s s1" using promise_good[OF inv False] good_refl[OF inv] by (simp add: s1_def)
  let ?pr = "Promise p n (px_accepted (persistent_state s1 n))"
  let ?s2 = "record_app (EvPromise n proposer p (pr_accepted ?pr)) s1"
  have g2: "good s1 ?s2" using goodD(1)[OF g1] by (intro good_record) auto
  have gs: "good s ?s2" using g1 g2 by (rule good_trans)
  note i2 = goodD(1)[OF gs]
  have ids: "px_node_ids ?s2 = px_node_ids s" using goodD(2)[OF gs] by (rule evolves_ids)
  have pr: "promise_ok ?s2 ?pr"
    using promise_report_ok[OF i2, of n p] p1 n ids by simp
  have "outcome {} (good s) (if proposer = n then receive_promise n ?pr ?s2
      else send_msg n proposer (PromiseMsg ?pr) ?s2)"
    using receive_promise_good[OF i2 pr] send_good[OF i2, of "PromiseMsg ?pr" proposer] pr ids proposer
    by (auto intro!: outcome_good_trans[OF gs])
  then show ?thesis
    using False by (simp add: receive_prepare_def Let_def flip: s1_def)
qed

lemma new_round_good:
  assumes inv: "paxos_inv s" and r: "px_last_round (persistent_state s n) < rnd" and n: "n \<in> set (px_node_ids s)"
  shows "good s (record_app (EvProposalStart n (PN rnd n) v)
    (set_proposal n (Some \<lparr>ps_proposal = PN rnd n, ps_original = v, ps_promises = [],
      ps_accepted_by = {}, ps_chosen_value = None, ps_started = False\<rparr>)
      (set_durable n (\<lambda>d. d\<lparr>px_last_round := rnd\<rparr>) s)))"
    (is "good s (record_app ?ev (set_proposal n (Some ?st) ?s1))")
proof -
  let ?s2 = "record_app ?ev ?s1"
  have same: "px_votes ?s1 = px_votes s" "px_promises ?s1 = px_promises s" "proposals ?s1 = proposals s"
    "started ?s1 = started s"
    by (auto simp: px_votes_def px_promises_def proposals_def started_def fun_eq_iff)
  have "acceptor_ok ((persistent_state s n)\<lparr>px_last_round := rnd\<rparr>)"
    using paxos_invD(3)[OF inv, of n] r by (auto simp: acceptor_ok_def split: option.splits)
  then have g1: "good s ?s1"
    using r paxos_invD(3)[OF inv] by (intro good_same[OF inv]) (auto simp: same split: if_splits)
  have "(PN rnd n, w) \<notin> proposals s" for w
    using paxos_invD(6)[OF inv, of "PN rnd n" w] r by (auto simp: issued_def)
  moreover have g2: "good ?s1 ?s2" by (intro good_record goodD(1)[OF g1]) auto
  moreover have "proposals ?s2 = proposals s" "v \<in> started ?s2"
    by (auto simp: proposals_def started_def phase_starts_def)
  ultimately have "proposer_ok ?s2 n ?st" using n by (simp add: proposer_ok_def issued_def)
  then have "good ?s2 (set_proposal n (Some ?st) ?s2)"
    by (intro set_proposal_good goodD(1)[OF g2]) simp
  with g1 g2 have "good s (set_proposal n (Some ?st) ?s2)" by (blast intro: good_trans)
  moreover have "set_proposal n (Some ?st) ?s2 = record_app ?ev (set_proposal n (Some ?st) ?s1)"
    by (simp add: set_proposal_def record_event_def set_durable_def)
  ultimately show ?thesis by (simp only:)
qed

lemma start_proposal_good:
  assumes inv: "paxos_inv s" and n: "n \<in> set (px_node_ids s)"
  shows "outcome {PaxosError, PaxosProposalActive, ValueError} (\<lambda>(p, s'). good s s')
    (start_proposal n v round_number s)"
proof -
  define d where "d = persistent_state s n"
  define rnd where "rnd = (case round_number of Some r \<Rightarrow> r | None \<Rightarrow> Max (set (px_last_round d
      # (case px_promised d of None \<Rightarrow> [] | Some p \<Rightarrow> [pn_round p])
      @ (case px_accepted d of None \<Rightarrow> [] | Some a \<Rightarrow> [pn_round (av_proposal a)])
      @ (case px_learned d of None \<Rightarrow> [] | Some l \<Rightarrow> [pn_round (ld_proposal l)]))) + 1)"
  define s3 where "s3 = record_app (EvProposalStart n (PN rnd n) v)
    (set_proposal n (Some \<lparr>ps_proposal = PN rnd n, ps_original = v, ps_promises = [],
      ps_accepted_by = {}, ps_chosen_value = None, ps_started = False\<rparr>)
      (set_durable n (\<lambda>d. d\<lparr>px_last_round := rnd\<rparr>) s))"
  have "outcome {} (good s) (and_then (receive_prepare n (PN rnd n) n s3) (px_broadcast n (Prepare (PN rnd n) n)))"
    if r: "px_last_round d < rnd"
  proof (simp only: outcome_and_then)
    have g2: "good s s3"
      unfolding s3_def using new_round_good[OF inv _ n, of rnd v] r by (simp add: d_def)
    note i3 = goodD(1)[OF g2]
    have n3: "n \<in> set (px_node_ids s3)" using n by (simp add: s3_def)
    have iss: "issued s3 (PN rnd n)" using n by (simp add: s3_def issued_def)
    show "outcome {} (\<lambda>s4. outcome {} (good s) (px_broadcast n (Prepare (PN rnd n) n) s4))
      (receive_prepare n (PN rnd n) n s3)"
    proof (rule outcome_weaken[OF receive_prepare_good[OF i3 n3 n3]])
      fix s4 assume s4: "good s3 s4"
      have "payload_ok s4 (Prepare (PN rnd n) n)" using issued_stable[OF goodD(2)[OF s4] iss] by simp
      then show "outcome {} (good s) (px_broadcast n (Prepare (PN rnd n) n) s4)"
        using g2 s4 by (blast intro: broadcast_good goodD outcome_good_trans good_trans)
    qed
  qed
  then have finish: "outcome E (\<lambda>(p, s'). good s s') (and_then (receive_prepare n (PN rnd n) n s3) (\<lambda>s4.
      and_then (px_broadcast n (Prepare (PN rnd n) n) s4) (\<lambda>s5. Inr (PN rnd n, s5))))"
    if "px_last_round d < rnd" for E
  proof -
    assume *: "px_last_round d < rnd \<Longrightarrow> outcome {} (good s)
      (and_then (receive_prepare n (PN rnd n) n s3) (px_broadcast n (Prepare (PN rnd n) n)))"
    from outcome_allow[OF *[OF that], of E] show ?thesis
      by (simp only: outcome_and_then outcome_simps case_prod_conv)
  qed
  have pn: "ProposalNumber rnd n = Inl ValueError \<or> ProposalNumber rnd n = Inr (PN rnd n)"
    by (simp add: ProposalNumber_def)
  have mp: "make_prepare (PN rnd n) n = Inr (Prepare (PN rnd n) n)"
    by (simp add: make_prepare_def)
  show ?thesis
    unfolding start_proposal_def Let_def d_def[symmetric] rnd_def[symmetric]
    using pn finish
    by (cases "rnd \<le> px_last_round d") (auto simp del: outcome_and_then simp add: mp simp flip: s3_def)
qed

section \<open>The protocol over the simulator\<close>

lemma check_history_ok:
  assumes "\<And>a v. a \<in> set items \<Longrightarrow> map_of seen (av_proposal a) = Some v \<Longrightarrow> v = av_value a"
    and "\<And>a b. a \<in> set items \<Longrightarrow> b \<in> set items \<Longrightarrow> av_proposal a = av_proposal b \<Longrightarrow> av_value a = av_value b"
  shows "check_history seen items = Inr ()"
  using assms
proof (induction items arbitrary: seen)
  case Nil
  show ?case by (simp only: check_history.simps)
next
  case (Cons x items)
  let ?seen = "AList.update (av_proposal x) (av_value x) seen"
  have "check_history ?seen items = Inr ()"
  proof (rule Cons.IH)
    show "v = av_value a" if "a \<in> set items" "map_of ?seen (av_proposal a) = Some v" for a v
      using that Cons.prems(1)[of a] Cons.prems(2)[of x a] by (auto simp: update_conv split: if_splits)
    show "av_value a = av_value b"
      if "a \<in> set items" "b \<in> set items" "av_proposal a = av_proposal b" for a b
      using that by (intro Cons.prems(2)) simp_all
  qed
  moreover have "map_of seen (av_proposal x) = None \<or> map_of seen (av_proposal x) = Some (av_value x)"
    using Cons.prems(1)[of x] by (cases "map_of seen (av_proposal x)") simp_all
  ultimately show ?case by auto
qed

lemma history_values:
  assumes "paxos_inv s" and "a \<in> set (px_history (persistent_state s n))"
    and "b \<in> set (px_history (persistent_state s m))" and "av_proposal a = av_proposal b"
  shows "av_value a = av_value b"
proof -
  have "vote_of a \<in> proposals s" "vote_of b \<in> proposals s"
    using assms(2,3) paxos_invD(4)[OF assms(1)] unfolding px_votes_def by blast+
  then show ?thesis using paxos_invD(5)[OF assms(1)] assms(4) by (metis vote_of_def)
qed

lemma validate_durable_ok: "paxos_inv s \<Longrightarrow> validate_durable (persistent_state s n) = Inr ()"
proof -
  assume inv: "paxos_inv s"
  have "check_history [] (px_history (persistent_state s n)) = Inr ()"
  proof (rule check_history_ok)
    show "av_value a = av_value b" if "a \<in> set (px_history (persistent_state s n))"
      "b \<in> set (px_history (persistent_state s n))" "av_proposal a = av_proposal b" for a b
      using history_values[OF inv that] .
  qed simp
  then show ?thesis
    using paxos_invD(3)[OF inv, of n]
    by (auto simp: validate_durable_def acceptor_ok_def split: option.splits)
qed

lemma px_handle_message_good:
  assumes inv: "paxos_inv s" and ok: "message_ok s m"
  shows "outcome {} (good s) (px_handle_message n s m)"
proof (cases "msg_dst m = n")
  case False
  then show ?thesis using inv by (auto simp: px_handle_message_def intro: good_record)
next
  case True
  have n: "n \<in> set (px_node_ids s)" using ok True by (simp add: message_ok_def)
  have pay: "payload_ok s (msg_payload m)" using ok by (simp add: message_ok_def)
  have rej: "good s (reject_source n m x s)" for x
    unfolding reject_source_def using inv by (intro good_record) auto
  show ?thesis
    using True pay rej n inv
    by (cases "msg_payload m")
      (auto simp: px_handle_message_def issued_member intro!: receive_prepare_good receive_promise_good
        receive_accept_request_good receive_accepted_good receive_learn_good)
qed

lemma px_handle_crash_good: "paxos_inv s \<Longrightarrow> outcome {} (good s) (px_handle_crash n s)"
  by (auto simp: px_handle_crash_def Let_def
      intro!: good_trans[OF set_proposal_good good_record] goodD(1)[OF set_proposal_good])

lemma px_handle_restart_good: "paxos_inv s \<Longrightarrow> outcome {} (good s) (px_handle_restart n s)"
  by (auto simp: px_handle_restart_def Let_def validate_durable_ok
      intro!: good_trans[OF set_proposal_good good_record] goodD(1)[OF set_proposal_good])

end
