(* ===== verification/Quiescence.thy ===== *)
theory Quiescence
  imports Simulator
begin

text \<open>
  Termination of \<open>Simulator.run\<close>. A protocol that answers every message only with messages of
  lower rank cannot keep the delivery loop busy forever, whatever is dropped, delayed or
  duplicated; the interface \<open>silencing\<close> asks for such a rank and gives back that the loop
  returns, with an empty queue when it is run without a bound, and that the queue discipline
  and the clock are kept by every step.
\<close>

declare run_loop.simps [code] run_until_loop.simps [code]

section \<open>Emissions\<close>

text \<open>
  \<open>emits rank r s s'\<close>: between \<open>s\<close> and \<open>s'\<close> the queue only gained deliveries whose payloads
  rank below \<open>r\<close>, the clock stood still and the queue discipline was kept.
\<close>

definition emits ::
  "('p \<Rightarrow> nat) \<Rightarrow> nat \<Rightarrow> ('p, 'e, 'd, 'v, 'z) simulator_scheme \<Rightarrow> ('p, 'e, 'd, 'v, 'z) simulator_scheme \<Rightarrow> bool" where
  "emits rank r s s' \<longleftrightarrow> (\<exists>new. mset (sim_queue s') = mset (sim_queue s) + new \<and>
     (\<forall>d \<in># new. rank (msg_payload (sd_message d)) < r)) \<and>
     sim_time s' = sim_time s \<and> (sim_wf s \<longrightarrow> sim_wf s')"

lemma emits_refl [simp]: "emits rank r s s"
  by (simp add: emits_def)

lemma emits_trans: "emits rank r s t \<Longrightarrow> emits rank r t u \<Longrightarrow> emits rank r s u"
  unfolding emits_def by (metis (no_types, lifting) add.assoc union_iff)

lemma emits_wf:
  "emits rank r s t \<Longrightarrow> sim_wf s \<Longrightarrow> sim_wf t"
  "emits rank r s t \<Longrightarrow> sim_time t = sim_time s"
  by (simp_all add: emits_def)

lemma sim_wf_durable [simp]: "sim_wf (set_durable n f s) = sim_wf s"
  by (simp add: sim_wf_def)

lemma emits_record [simp]: "emits rank r s (record_event ev t) = emits rank r s t"
  by (simp add: emits_def)

lemma emits_durable [simp]: "emits rank r s (set_durable n f t) = emits rank r s t"
  by (simp add: emits_def)

text \<open>A send in one step: at most two copies of its payload are queued.\<close>

lemma queue_schedule:
  "mset (sim_queue (sim_schedule m dl s)) =
   add_mset \<lparr>sd_time = sim_time s + dl, sd_sequence = sim_sequence s + 1, sd_message = m\<rparr> (mset (sim_queue s))"
  by (simp add: sim_schedule_def Let_def)

lemma send_queue:
  "outcome UNIV (\<lambda>t. sim_time t = sim_time s \<and> (\<exists>new. mset (sim_queue t) = mset (sim_queue s) + new \<and>
     (\<forall>d \<in># new. msg_payload (sd_message d) = p))) (send_msg src dst p s)"
  by (auto simp: sim_send_def Let_def queue_schedule split: option.split)

lemma emits_send: "rank p < r \<Longrightarrow> emits rank r s t \<Longrightarrow> outcome UNIV (emits rank r s) (send_msg src dst p t)"
proof (cases "send_msg src dst p t")
  case (Inr u)
  assume r: "rank p < r" and e: "emits rank r s t"
  have "emits rank r t u"
    using send_queue[of t p src dst] sim_send_wf[OF _ Inr] r
    by (auto simp: Inr emits_def)
  with e Inr show ?thesis by (simp add: emits_trans)
qed simp

lemma emits_broadcast:
  "rank p < r \<Longrightarrow> emits rank r s t \<Longrightarrow>
   outcome UNIV (emits rank r s) (for_each (\<lambda>peer. send_msg src peer p) peers t)"
  by (rule outcome_for_each) (auto intro: emits_send)

text \<open>\<open>sim.run()\<close> without a bound only returns when nothing is left to deliver.\<close>

lemma run_loop_drains:
  assumes "run_loop cb None n s = Some (Inr (n', s'))"
  shows "sim_queue s' = []"
proof -
  let ?P = "\<lambda>cb k n s r. \<forall>n' s'. k = None \<longrightarrow> r = Inr (n', s') \<longrightarrow> sim_queue s' = []"
  have "?P cb k n s r" if "run_loop cb k n s = Some r" for k r
  proof (rule run_loop.raw_induct[where P = ?P, OF _ that])
    fix loop and cb :: "('a, ('a, 'b, 'c, 'd, 'e) simulator_scheme) callbacks" and k n s r
    assume IH: "\<And>cb k n s r. loop cb k n s = Some r \<Longrightarrow> ?P cb k n s r"
      and eq: "(case heappop (sim_queue s) of None \<Rightarrow> Some (Inr (n, s))
        | Some (d, q) \<Rightarrow>
          if (case k of None \<Rightarrow> False | Some k \<Rightarrow> k \<le> n) then Some (Inr (n, s))
          else (case deliver_event cb d q s of Inl e \<Rightarrow> Some (Inl e)
                | Inr s' \<Rightarrow> loop cb k (n + 1) s')) = Some r"
    show "?P cb k n s r"
      using eq IH by (cases "sim_queue s") (auto split: sum.splits)
  qed
  then show ?thesis using assms by blast
qed

definition pending_ranks :: "('p \<Rightarrow> nat) \<Rightarrow> ('p, 'e, 'd, 'v, 'z) simulator_scheme \<Rightarrow> nat multiset" where
  "pending_ranks rank s = image_mset (\<lambda>d. rank (msg_payload (sd_message d))) (mset (sim_queue s))"

section \<open>The interface\<close>

locale silencing =
  fixes cb :: "('p, ('p, 'e, 'd, 'v, 'z) simulator_scheme) callbacks"
    and quiet :: "('p, 'e, 'd, 'v, 'z) simulator_scheme \<Rightarrow> bool"
    and rank :: "'p \<Rightarrow> nat"
  assumes answers: "quiet s \<Longrightarrow> on_message cb n s m = Inr s' \<Longrightarrow>
      emits rank (rank (msg_payload m)) s s' \<and> quiet s'"
    and crash_calm: "quiet s \<Longrightarrow> call_optional (on_crash cb n) s = Inr s' \<Longrightarrow> emits rank 0 s s' \<and> quiet s'"
    and restart_calm: "quiet s \<Longrightarrow> call_optional (on_restart cb n) s = Inr s' \<Longrightarrow> emits rank 0 s s' \<and> quiet s'"
    and quiet_record: "quiet s \<Longrightarrow> quiet (record_event ev s)"
    and quiet_core: "quiet s \<Longrightarrow> quiet (s\<lparr>sim_queue := q, sim_time := t\<rparr>)" "quiet s \<Longrightarrow> quiet (s\<lparr>sim_time := t\<rparr>)"
      "quiet s \<Longrightarrow> quiet (s\<lparr>sim_alive := al\<rparr>)" "quiet s \<Longrightarrow> quiet (s\<lparr>volatile_state := vs\<rparr>)"
      "quiet s \<Longrightarrow> quiet (s\<lparr>sim_alive := al, volatile_state := vs\<rparr>)"
      "quiet s \<Longrightarrow> quiet (s\<lparr>blocked_links := bl\<rparr>)" "quiet s \<Longrightarrow> quiet (s\<lparr>link_delays := ld\<rparr>)"
begin

lemma deliver_emits:
  assumes "quiet s" and "deliver_event cb d q s = Inr s'"
  shows "emits rank (rank (msg_payload (sd_message d))) (s\<lparr>sim_queue := q, sim_time := sd_time d\<rparr>) s' \<and> quiet s'"
proof -
  let ?s1 = "s\<lparr>sim_queue := q, sim_time := sd_time d\<rparr>"
  have q: "quiet (record_event ev ?s1)" for ev using assms(1) by (intro quiet_record quiet_core)
  show ?thesis
    using assms(2) q
    by (auto simp: deliver_event_def Let_def split: if_splits dest!: answers[OF q] elim!: emits_trans[rotated])
qed

lemma deliver_decreases:
  assumes "quiet s" and "sim_queue s = d # q" and "deliver_event cb d q s = Inr s'"
  shows "(pending_ranks rank s', pending_ranks rank s) \<in> mult {(x, y). x < y}"
proof -
  obtain new where new: "mset (sim_queue s') = mset q + new"
    "\<forall>e \<in># new. rank (msg_payload (sd_message e)) < rank (msg_payload (sd_message d))"
    using deliver_emits[OF assms(1,3)] by (auto simp: emits_def)
  let ?f = "\<lambda>d. rank (msg_payload (sd_message d))"
  have "(image_mset ?f (mset q) + image_mset ?f new, image_mset ?f (mset q) + {#?f d#}) \<in> mult {(x, y). x < y}"
    using new(2) by (intro one_step_implies_mult) auto
  then show ?thesis by (simp add: pending_ranks_def assms(2) new(1))
qed

lemma sim_wf_core [simp]:
  "sim_wf (s\<lparr>sim_alive := al\<rparr>) = sim_wf s" "sim_wf (s\<lparr>volatile_state := vs\<rparr>) = sim_wf s"
  "sim_wf (s\<lparr>sim_alive := al, volatile_state := vs\<rparr>) = sim_wf s"
  by (simp_all add: sim_wf_def)

lemma crash_wf:
  assumes "quiet s" and "sim_crash cb n s = Inr s'"
  shows "quiet s' \<and> sim_time s' = sim_time s \<and> (sim_wf s \<longrightarrow> sim_wf s')"
proof -
  let ?s1 = "record_event (TCrash n) (s\<lparr>sim_alive := (sim_alive s)(n := False)\<rparr>)"
  obtain t where t: "call_optional (on_crash cb n) ?s1 = Inr t"
    and s': "s' = t\<lparr>volatile_state := (volatile_state t)(n := None)\<rparr>"
    using assms(2) by (auto simp: sim_crash_def and_then_eq_Inr)
  have "quiet ?s1" using assms(1) by (intro quiet_record quiet_core)
  with crash_calm[OF _ t] have "emits rank 0 ?s1 t" "quiet t" by blast+
  then show ?thesis by (auto simp: s' emits_def intro: quiet_core)
qed

lemma restart_wf:
  assumes "quiet s" and "sim_restart cb n s = Inr s'"
  shows "quiet s' \<and> sim_time s' = sim_time s \<and> (sim_wf s \<longrightarrow> sim_wf s')"
proof -
  let ?s1 = "record_event (TRestart n) (s\<lparr>sim_alive := (sim_alive s)(n := True),
    volatile_state := (volatile_state s)(n := None)\<rparr>)"
  have t: "call_optional (on_restart cb n) ?s1 = Inr s'"
    using assms(2) by (auto simp: sim_restart_def and_then_eq_Inr)
  have "quiet ?s1" using assms(1) by (intro quiet_record quiet_core)
  with restart_calm[OF _ t] show ?thesis by (auto simp: emits_def)
qed

lemma step_wf:
  "sim_step cb s s' \<Longrightarrow> quiet s \<Longrightarrow> quiet s' \<and> (sim_wf s \<longrightarrow> sim_wf s' \<and> sim_time s \<le> sim_time s')"
proof (induction rule: sim_step.induct)
  case (step_deliver s d q s')
  have "sim_wf (s\<lparr>sim_queue := q, sim_time := sd_time d\<rparr>) \<and> sim_time s \<le> sd_time d" if "sim_wf s"
    using step_deliver(1) that by (auto simp: sim_wf_def sd_before_def)
  then show ?case using deliver_emits[OF step_deliver(3,2)] by (auto simp: emits_def)
next
  case (step_crash n s s')
  then show ?case using crash_wf by fastforce
next
  case (step_restart n s s')
  then show ?case using restart_wf by fastforce
next
  case (step_wait s t)
  then show ?case by (cases "sim_queue s") (auto simp: sim_wf_def sd_before_def intro: quiet_core)
qed (auto simp: sim_partition_def sim_heal_partition_def sim_block_link_def sim_heal_link_def
    sim_set_link_delay_def sim_clear_link_delay_def and_then_eq_Inr sim_wf_def split: if_splits
    intro!: quiet_record quiet_core)

lemma steps_wf: "(sim_step cb)\<^sup>*\<^sup>* s s' \<Longrightarrow> quiet s \<Longrightarrow> sim_wf s \<Longrightarrow> sim_wf s' \<and> sim_time s \<le> sim_time s'"
proof -
  assume "(sim_step cb)\<^sup>*\<^sup>* s s'" "quiet s" "sim_wf s"
  then have "quiet s' \<and> sim_wf s' \<and> sim_time s \<le> sim_time s'"
    by (induction rule: rtranclp_induct) (auto dest!: step_wf)
  then show ?thesis by blast
qed

lemma run_loop_returns: "quiet s \<Longrightarrow> \<exists>r. run_loop cb k n s = Some r"
proof -
  have wf: "wf (inv_image (mult {(x :: nat, y). x < y}) (pending_ranks rank))"
    by (intro wf_inv_image wf_mult) (simp add: wf)
  show "quiet s \<Longrightarrow> \<exists>r. run_loop cb k n s = Some r"
  proof (induction s arbitrary: n rule: wf_induct_rule[OF wf])
    case (1 s)
    show ?case
    proof (cases "sim_queue s")
      case Nil
      then show ?thesis by (subst run_loop.simps) simp
    next
      case (Cons d q)
      show ?thesis
      proof (cases "deliver_event cb d q s")
        case (Inl e)
        then show ?thesis by (subst run_loop.simps) (simp add: Cons)
      next
        case (Inr s1)
        have "quiet s1" using deliver_emits[OF 1(2) Inr] by blast
        then have "\<exists>r. run_loop cb k (n + 1) s1 = Some r"
          using deliver_decreases[OF 1(2) Cons Inr] by (intro 1(1)) simp_all
        then show ?thesis by (subst run_loop.simps) (simp add: Cons Inr)
      qed
    qed
  qed
qed

end

section \<open>Properties of the network\<close>

text \<open>The copies of a message that \<open>send\<close> puts in flight, with their delivery times, by the fault
  rule that applies.\<close>

definition copies :: "fault_rule \<Rightarrow> int \<Rightarrow> int list" where
  "copies rule t = (case fr_action rule of
     DROP \<Rightarrow> [] | DELIVER \<Rightarrow> [t] | DELAY \<Rightarrow> [t + fr_extra_delay rule]
   | DUPLICATE \<Rightarrow> [t, t + fr_extra_delay rule])"

lemma times_schedule:
  "image_mset (\<lambda>d. (sd_time d, sd_message d)) (mset (sim_queue (sim_schedule m dl s))) =
   add_mset (sim_time s + dl, m) (image_mset (\<lambda>d. (sd_time d, sd_message d)) (mset (sim_queue s)))"
  by (simp add: queue_schedule)

text \<open>\<open>Simulator.send\<close> on every branch: a negative delay or an unregistered physical
  destination is a \<open>ValueError\<close>; otherwise the ordinal of the directed link goes up by one and the
  queue gains exactly the copies the link state and the first matching fault rule prescribe: none
  on a blocked link or for a drop, one at the base delay plus the link's latency, one further
  delayed, or two for a duplicate.\<close>

lemma send_effect:
  "let ordinal = send_ordinals s (src, dst) + 1;
       m = \<lparr>msg_src = src, msg_dst = dst, msg_payload = p, msg_ordinal = ordinal, msg_delivery_dst = dd\<rparr>;
       t = sim_time s + delay + (case link_delays s (src, dst) of None \<Rightarrow> 0 | Some l \<Rightarrow> l);
       times = (if (src, dst) \<in> blocked_links s then []
                else copies (action_for (type_name s) (fault_plan s) m) t)
   in if delay < 0 \<or> (\<exists>d. dd = Some d \<and> d \<notin> set (sim_handlers s))
      then sim_send src dst p delay dd s = Inl ValueError
      else \<exists>s'. sim_send src dst p delay dd s = Inr s' \<and>
        send_ordinals s' = (send_ordinals s)((src, dst) := ordinal) \<and>
        image_mset (\<lambda>d. (sd_time d, sd_message d)) (mset (sim_queue s')) =
          image_mset (\<lambda>d. (sd_time d, sd_message d)) (mset (sim_queue s)) + mset (map (\<lambda>t. (t, m)) times)"
proof -
  define m where "m = \<lparr>msg_src = src, msg_dst = dst, msg_payload = p,
    msg_ordinal = send_ordinals s (src, dst) + 1, msg_delivery_dst = dd\<rparr>"
  have ord: "send_ordinals (sim_schedule x dl t) = send_ordinals t" for x dl and t :: "('a, 'b, 'c, 'd, 'e) simulator_scheme"
    by (simp add: sim_schedule_def Let_def)
  show ?thesis
    unfolding Let_def m_def[symmetric] sim_send_def
    by (cases "fr_action (action_for (type_name s) (fault_plan s) m)"; cases dd)
      (auto simp: copies_def times_schedule ord algebra_simps m_def[symmetric])
qed

text \<open>A partition isolates: after \<open>partition(left, right)\<close> succeeds, a message between the
  groups in either direction is never put in flight; \<open>heal_partition\<close> of the same groups succeeds
  and leaves exactly the links blocked that were blocked before and do not cross the groups.\<close>

lemma partition_isolates:
  assumes "sim_partition left right s = Inr s1"
    and "(a, b) \<in> cross_links left right"
  shows "outcome {} (\<lambda>s'. sim_queue s' = sim_queue s1) (send_msg a b p s1) \<and>
    (\<exists>s2. sim_heal_partition left right s1 = Inr s2 \<and>
       blocked_links s2 = blocked_links s - cross_links left right)"
proof -
  have "validate_partition_groups s left right = Inr (sort left, sort right)"
    and s1: "s1 = record_event (TPartition (sort left) (sort right))
      (s\<lparr>blocked_links := blocked_links s \<union> cross_links left right\<rparr>)"
    using assms(1)
    by (auto simp: sim_partition_def validate_partition_groups_def and_then_eq_Inr cross_links_def split: if_splits)
  then have "validate_partition_groups s1 left right = Inr (sort left, sort right)"
    by (auto simp: validate_partition_groups_def split: if_splits)
  then show ?thesis
    using assms(2) by (auto simp: sim_heal_partition_def s1 sim_send_def Let_def cross_links_def)
qed

end
