(* ===== verification/Paxos_Agreement.thy ===== *)
theory Paxos_Agreement
  imports Paxos_Safety Quiescence
begin

text \<open>
  The consequences of the invariant of \<open>Paxos_Safety\<close> for whole executions: the cluster is a
  \<open>protocol\<close> of the simulator, every reachable state satisfies the invariant, the harness
  checkpoint of \<^verbatim>\<open>src/src/distlab/paxos.py\<close> passes in every reachable state, and all chosen
  and learned values agree.
\<close>

section \<open>Paxos as a protocol of the simulator\<close>

lemma px_record_evolves: "evolves s (record_event ev s)"
  using px_views[of "record_event ev s" s] by (auto simp: evolves_def proposals_def started_def)

lemma good_frame:
  assumes "good s0 s" and "px_node_ids s' = px_node_ids s" "sim_handlers s' = sim_handlers s"
    "persistent_state s' = persistent_state s" "px_proposal s' = px_proposal s"
    "px_chosen s' = px_chosen s" "sim_trace s' = sim_trace s" "set (sim_queue s') \<subseteq> set (sim_queue s)"
  shows "good s0 s'"
proof (rule good_trans[OF assms(1)])
  show "good s s'"
    unfolding good_def using assms
    by (intro paxos_inv_frame[OF goodD(1)[OF assms(1)]]) (auto simp: proposals_def started_def)
qed

text \<open>The invariant offered to the simulator is \<open>good s0\<close>, for any state \<open>s0\<close> the execution
  started from: the Paxos invariant together with the evolution since \<open>s0\<close>.\<close>

interpretation px: protocol paxos_callbacks "{}" "good s0" message_ok for s0
proof (unfold_locales, goal_cases)
  case (1 s d q t)
  show ?case by (rule good_frame[OF 1(1)]) (auto simp: 1(2))
next
  case (2 s d q t)
  then have "message_ok s (sd_message d)" using paxos_invD(10)[of s d] goodD(1) by fastforce
  moreover have "evolves s (s\<lparr>sim_queue := q, sim_time := t\<rparr>)"
    by (simp add: evolves_def px_votes_def px_promises_def proposals_def started_def acceptors_grow_def)
  ultimately show ?case by (rule message_ok_stable[rotated])
next
  case (3 s ev)
  then show ?case by (intro good_trans[OF 3(1) good_record] goodD(1)[OF 3(1)]) auto
next
  case (4 s m ev)
  then show ?case by (auto intro: message_ok_stable[OF px_record_evolves])
next
  case (9 s m)
  then show ?case by (auto simp: message_ok_def effective_dst_def)
next
  case (10 s m)
  from px_handle_message_good[OF goodD(1)[OF 10(1)] 10(2)] show ?case
    unfolding paxos_callbacks_def callbacks.simps by (rule outcome_good_trans[OF 10(1)])
next
  case (11 s n)
  have "outcome {} (\<lambda>s. good s0 (s\<lparr>volatile_state := (volatile_state s)(n := None)\<rparr>)) (px_handle_crash n s)"
    by (rule outcome_weaken[OF outcome_good_trans[OF 11 px_handle_crash_good[OF goodD(1)[OF 11]]]])
      (erule good_frame; simp)
  then show ?case by (simp add: paxos_callbacks_def call_optional_def)
next
  case (12 s n)
  let ?t = "s\<lparr>volatile_state := (volatile_state s)(n := None)\<rparr>"
  have t: "good s0 ?t" by (rule good_frame[OF 12]) simp_all
  have "good ?t (record_event (TRestart n) ?t)" by (intro good_record goodD(1)[OF t]) auto
  with t have g: "good s0 (record_event (TRestart n) ?t)" by (rule good_trans)
  from outcome_good_trans[OF g px_handle_restart_good[OF goodD(1)[OF g]]] show ?case
    by (simp add: paxos_callbacks_def call_optional_def)
qed (erule good_frame; simp)+

section \<open>Reachable states\<close>

text \<open>Everything a test or a demo can do with a fresh cluster: build it under any fault plan, let
  the simulator take any step, start a proposal at any member.\<close>

inductive paxos_step :: "'v paxos \<Rightarrow> 'v paxos \<Rightarrow> bool" where
  network: "sim_step paxos_callbacks s s' \<Longrightarrow> paxos_step s s'"
| propose: "n \<in> set (px_node_ids s) \<Longrightarrow> start_proposal n v round_number s = Inr (p, s') \<Longrightarrow> paxos_step s s'"

definition paxos_start :: "'v paxos \<Rightarrow> bool" where
  "paxos_start s \<longleftrightarrow>
     (\<exists>plan names ids. PaxosCluster (sim_init plan names (\<lambda>_. fresh_durable)) ids = Inr s)"

definition paxos_reachable :: "'v paxos \<Rightarrow> bool" where
  "paxos_reachable s \<longleftrightarrow> (\<exists>s0. paxos_start s0 \<and> paxos_step\<^sup>*\<^sup>* s0 s)"

lemma register_all:
  assumes "for_each sim_register ids s = Inr s'"
  shows "\<exists>al. s' = s\<lparr>sim_handlers := sim_handlers s @ ids, sim_alive := al\<rparr>"
  using assms
proof (induction ids arbitrary: s)
  case Nil
  then show ?case by (auto intro: exI[of _ "sim_alive s"])
next
  case (Cons n ids)
  then obtain s1 where s1: "sim_register n s = Inr s1" "for_each sim_register ids s1 = Inr s'"
    by (auto simp: and_then_eq_Inr)
  from Cons.IH[OF s1(2)] s1(1) show ?case by (auto simp: sim_register_def split: if_splits)
qed

lemma for_each_skip:
  assumes "for_each (\<lambda>n s. and_then (f n s) (\<lambda>_. Inr s)) ids s = Inr s'"
  shows "s' = s"
  using assms by (induction ids) (auto simp: and_then_eq_Inr)

lemma cluster_inv:
  assumes "PaxosCluster (sim_init plan names (\<lambda>_. fresh_durable)) node_ids = Inr s"
  shows "paxos_inv s"
proof -
  let ?s0 = "simulator.extend (sim_init plan names (\<lambda>_. fresh_durable)) (paxos.fields node_ids (\<lambda>_. None) None [])"
  have d: "card (set node_ids) = length node_ids"
    and reg: "for_each sim_register node_ids ?s0 = Inr s"
    using assms
    by (auto simp: PaxosCluster_def Let_def and_then_eq_Inr split: if_splits dest!: for_each_skip)
  have ds: "persistent_state s = (\<lambda>_. fresh_durable)" "sim_trace s = []" "sim_queue s = []"
    "px_node_ids s = node_ids" "sim_handlers s = node_ids" "px_proposal s = (\<lambda>_. None)" "px_chosen s = None"
    using register_all[OF reg] by (auto simp: sim_init_def simulator.defs paxos.defs)
  show ?thesis
    using d card_distinct[of node_ids]
    by (auto simp: paxos_inv_def ds proposals_def phase_starts_def px_votes_def acceptor_ok_def
        fresh_durable_def)
qed

lemma step_good: "paxos_step s s' \<Longrightarrow> paxos_inv s \<Longrightarrow> good s s'"
proof (induction rule: paxos_step.induct)
  case (network s s')
  then show ?case using px.step_inv good_refl by blast
next
  case (propose n s v r p s')
  then show ?case using start_proposal_good[of s n v r] by auto
qed

lemma steps_good: "paxos_step\<^sup>*\<^sup>* s s' \<Longrightarrow> paxos_inv s \<Longrightarrow> good s s'"
  by (induction rule: rtranclp_induct) (auto intro: good_refl good_trans step_good goodD(1))

lemma reachable_inv: "paxos_reachable s \<Longrightarrow> paxos_inv s"
  unfolding paxos_reachable_def paxos_start_def
  using cluster_inv steps_good goodD(1) by blast

lemma reachable_steps: "paxos_reachable s \<Longrightarrow> paxos_step\<^sup>*\<^sup>* s s' \<Longrightarrow> paxos_reachable s'"
  unfolding paxos_reachable_def by (meson rtranclp_trans)

lemma network_steps: "(sim_step paxos_callbacks)\<^sup>*\<^sup>* s s' \<Longrightarrow> paxos_step\<^sup>*\<^sup>* s s'"
  by (induction rule: rtranclp_induct) (auto intro: rtranclp.rtrancl_into_rtrancl paxos_step.network)

section \<open>The harness checkpoint\<close>

definition evidence_set :: "'v evidence list \<Rightarrow> (proposal_number \<times> 'v \<times> string) set" where
  "evidence_set es = {(p, v, a). \<exists>A. (p, v, A) \<in> set es \<and> a \<in> A}"

definition evidence_ok :: "'v evidence list \<Rightarrow> bool" where
  "evidence_ok es \<longleftrightarrow> distinct (map (\<lambda>(p, v, A). (p, v)) es) \<and> (\<forall>(p, v, A) \<in> set es. A \<noteq> {})"

lemma evidence_set_simps [simp]:
  "evidence_set [] = {}"
  "evidence_set ((p, v, A) # es) = {p} \<times> {v} \<times> A \<union> evidence_set es"
  by (auto simp: evidence_set_def)

lemma evidence_set_add [simp]:
  "evidence_set (add_evidence n a es) = insert (av_proposal a, av_value a, n) (evidence_set es)"
  by (induction n a es rule: add_evidence.induct) auto

lemma keys_add_evidence:
  "set (map (\<lambda>(p, v, A). (p, v)) (add_evidence n a es)) = insert (vote_of a) (set (map (\<lambda>(p, v, A). (p, v)) es))"
  by (induction n a es rule: add_evidence.induct) (auto simp: vote_of_def split: if_splits)

lemma evidence_ok_add: "evidence_ok es \<Longrightarrow> evidence_ok (add_evidence n a es)"
proof (induction n a es rule: add_evidence.induct)
  case (2 n a p v A es)
  then have "evidence_ok es" by (simp add: evidence_ok_def)
  with 2 show ?case
    using keys_add_evidence[of n a es] by (auto simp: evidence_ok_def vote_of_def)
qed (simp add: evidence_ok_def)

lemma fold_add_evidence:
  "evidence_ok es \<Longrightarrow> evidence_ok (fold (add_evidence n) as es) \<and>
   evidence_set (fold (add_evidence n) as es) = evidence_set es \<union> {(p, v, m). m = n \<and> (p, v) \<in> vote_of ` set as}"
proof (induction as arbitrary: es)
  case (Cons a as)
  then show ?case using Cons.IH[OF evidence_ok_add[OF Cons.prems, of n a]] by (auto simp: vote_of_def)
qed auto

lemma gather_evidence_ok:
  assumes inv: "paxos_inv s"
  shows "\<exists>es. gather_evidence s = Inr es \<and> evidence_ok es \<and>
    evidence_set es = {(p, v, n). n \<in> set (px_node_ids s) \<and> (p, v) \<in> px_votes s n}"
proof -
  let ?step = "\<lambda>n es. and_then (validate_durable (persistent_state s n)) (\<lambda>_.
       Inr (fold (add_evidence n) (px_history (persistent_state s n)) es))"
  have "\<exists>es'. for_each ?step ns es = Inr es' \<and> evidence_ok es' \<and>
      evidence_set es' = evidence_set es \<union> {(p, v, n). n \<in> set ns \<and> (p, v) \<in> px_votes s n}"
    if "evidence_ok es" for ns es
    using that
  proof (induction ns arbitrary: es)
    case (Cons n ns)
    let ?es = "fold (add_evidence n) (px_history (persistent_state s n)) es"
    have f: "evidence_ok ?es" "evidence_set ?es = evidence_set es \<union> {(p, v, m). m = n \<and> (p, v) \<in> px_votes s n}"
      using fold_add_evidence[OF Cons.prems, of n "px_history (persistent_state s n)"]
      by (auto simp: px_votes_def)
    then show ?case using Cons.IH[OF f(1)] by (auto simp: validate_durable_ok[OF inv])
  qed auto
  from this[of "[]" "px_node_ids s"] show ?thesis
    by (auto simp: gather_evidence_def evidence_ok_def evidence_set_def)
qed

lemma check_values_ok:
  assumes "\<And>p v w. (p, v) \<in> R \<Longrightarrow> (p, w) \<in> R \<Longrightarrow> v = w" and "set seen \<subseteq> R"
    and "\<And>p v A. (p, v, A) \<in> set es \<Longrightarrow> (p, v) \<in> R"
  shows "check_values seen es = Inr ()"
  using assms(2,3)
proof (induction es arbitrary: seen)
  case (Cons e es)
  obtain p v A where e: "e = (p, v, A)" by (cases e)
  have R: "(p, v) \<in> R" using Cons.prems(2) by (auto simp: e)
  show ?case
  proof (cases "filter (\<lambda>item. fst item = p) seen")
    case Nil
    moreover have "check_values (seen @ [(p, v)]) es = Inr ()"
      using Cons.prems R by (intro Cons.IH) auto
    ultimately show ?thesis by (simp add: e)
  next
    case (Cons i rest)
    then have "i \<in> set (filter (\<lambda>item. fst item = p) seen)" by simp
    then have "i \<in> R" "fst i = p" using Cons.prems(1) by auto
    then have "snd i = v" using assms(1)[of p "snd i" v] R by (metis prod.collapse)
    moreover have "check_values seen es = Inr ()"
      using Cons.prems by (intro Cons.IH) auto
    ultimately show ?thesis using Cons by (simp add: e)
  qed
qed simp

lemma all_equal_to_headI: "(\<And>v w. v \<in> set vs \<Longrightarrow> w \<in> set vs \<Longrightarrow> v = w) \<Longrightarrow> all_equal_to_head vs"
proof (cases vs)
  case (Cons x xs)
  assume same: "\<And>v w. v \<in> set vs \<Longrightarrow> w \<in> set vs \<Longrightarrow> v = w"
  have "w = x" if "w \<in> set xs" for w using that by (intro same) (simp_all add: Cons)
  then show ?thesis by (simp add: all_equal_to_head_def Cons)
qed (simp add: all_equal_to_head_def)

lemma checkpoint_passes:
  assumes inv: "paxos_inv s"
  shows "px_checkpoint s = Inr ()"
proof -
  obtain es where es: "gather_evidence s = Inr es" "evidence_ok es"
    "evidence_set es = {(p, v, n). n \<in> set (px_node_ids s) \<and> (p, v) \<in> px_votes s n}"
    using gather_evidence_ok[OF inv] by blast
  let ?chosen = "map (\<lambda>(p, v, acceptors). v) (filter (\<lambda>(p, v, acceptors). px_quorum s \<le> card acceptors) es)"
  let ?learned = "map ld_value (List.map_filter (\<lambda>n. px_learned (persistent_state s n)) (px_node_ids s))"
  have A: "A = {n \<in> set (px_node_ids s). (p, v) \<in> px_votes s n}" if "(p, v, A) \<in> set es" for p v A
  proof -
    have "B = A" if "(p, v, B) \<in> set es" for B
    proof -
      have "inj_on (\<lambda>(p, v, A). (p, v)) (set es)"
        using es(2) unfolding evidence_ok_def distinct_map by blast
      from inj_onD[OF this _ that \<open>(p, v, A) \<in> set es\<close>] show ?thesis by simp
    qed
    then have "x \<in> A \<longleftrightarrow> (p, v, x) \<in> evidence_set es" for x
      using \<open>(p, v, A) \<in> set es\<close> unfolding evidence_set_def mem_Collect_eq prod.case by metis
    then show ?thesis unfolding es(3) by blast
  qed
  have dec: "px_decided s p v" if "(p, v, A) \<in> set es" "px_quorum s \<le> card A" for p v A
    using that(2) A[OF that(1)] by (intro record_chosen_good(1)[OF inv, of A]) blast+
  have chosen: "\<exists>p. px_decided s p v" if "v \<in> set ?chosen" for v
    using that dec by auto
  have found: "v \<in> set ?chosen" if "px_decided s p v" for p v
  proof -
    obtain Q where Q: "Q \<subseteq> set (px_node_ids s)" "px_quorum s \<le> card Q" "\<And>a. a \<in> Q \<Longrightarrow> (p, v) \<in> px_votes s a"
      using \<open>px_decided s p v\<close> unfolding px_decided_def chosen_at_def majority_def px_quorum_def by blast
    then obtain a where "a \<in> Q" using maj.quorum_nonempty[of "px_node_ids s" Q]
      by (auto simp: majority_def px_quorum_def)
    then have "(p, v, a) \<in> evidence_set es" using Q unfolding es(3) by auto
    then obtain B where B: "(p, v, B) \<in> set es" by (auto simp: evidence_set_def)
    have "Q \<subseteq> B" using A[OF B] Q by auto
    moreover have "finite B" using A[OF B] by simp
    ultimately have "px_quorum s \<le> card B" using Q(2) card_mono le_trans by blast
    with B show ?thesis by force
  qed
  have learned: "\<exists>p. px_decided s p v" if "v \<in> set ?learned" for v
    using that paxos_invD(8)[OF inv] by (force simp: List.map_filter_def)
  have one: "v = w" if "\<exists>p. px_decided s p v" "\<exists>p. px_decided s p w" for v w
    using that decided_agree[OF inv] by blast
  have "check_values [] es = Inr ()"
  proof (rule check_values_ok[of "proposals s"])
    show "(p, v) \<in> proposals s" if "(p, v, B) \<in> set es" for p v B
    proof -
      have "B \<noteq> {}" using that es(2) unfolding evidence_ok_def by fast
      then obtain x where "x \<in> B" by blast
      then show ?thesis using A[OF that] paxos_invD(4)[OF inv] by blast
    qed
    show "v = w" if "(p, v) \<in> proposals s" "(p, w) \<in> proposals s" for p v w
      using paxos_invD(5)[OF inv that] .
  qed simp
  moreover have "all_equal_to_head ?chosen" using one chosen by (intro all_equal_to_headI) blast
  moreover have "all_equal_to_head ?learned" using one learned by (intro all_equal_to_headI) blast
  moreover have head: "?chosen \<noteq> [] \<and> hd ?chosen = v" if "\<exists>p. px_decided s p v" for v
  proof -
    have "?chosen \<noteq> []" using found that by (metis empty_iff list.set(1))
    moreover from this have "hd ?chosen \<in> set ?chosen" by (rule hd_in_set)
    ultimately show ?thesis using one chosen that by blast
  qed
  moreover have l1: "?chosen \<noteq> [] \<and> hd ?chosen = hd ?learned" if "?learned \<noteq> []"
    using head learned that hd_in_set by blast
  moreover have c1: "?chosen \<noteq> [] \<and> hd ?chosen = ld_value l" if "px_chosen s = Some l" for l
    using head paxos_invD(9)[OF inv that] by blast
  moreover have "hd ?learned = ld_value l" if "px_chosen s = Some l" "?learned \<noteq> []" for l
    using l1[OF that(2)] c1[OF that(1)] by (metis (no_types))
  ultimately show ?thesis
    unfolding px_checkpoint_def Let_def es(1) and_then_simps
    by (cases "px_chosen s"; cases "?learned = []") simp_all
qed

section \<open>Paxos falls silent\<close>

text \<open>A message is only ever answered with messages of a later phase.\<close>

fun paxos_rank :: "'v paxos_msg \<Rightarrow> nat" where
  "paxos_rank (Prepare _ _) = 4"
| "paxos_rank (PromiseMsg _) = 3"
| "paxos_rank (AcceptRequest _ _ _) = 2"
| "paxos_rank (Accepted _ _ _) = 1"
| "paxos_rank (Learn _ _ _) = 0"
| "paxos_rank (Foreign _) = 0"

lemma emits_px [simp]:
  "emits rank r s (set_proposal n st t) = emits rank r s t"
  "emits rank r s (t\<lparr>px_chosen := c, px_chosen_acceptors := a\<rparr>) = emits rank r s t"
  by (simp_all add: emits_def sim_wf_def set_proposal_def)

lemma learn_emits: "emits paxos_rank r s t \<Longrightarrow> outcome UNIV (emits paxos_rank r s) (receive_learn n p v t)"
  by (auto simp: receive_learn_def split: option.split)

lemma chosen_emits: "emits paxos_rank r s t \<Longrightarrow> outcome UNIV (emits paxos_rank r s) (record_chosen p v A t)"
  by (auto simp: record_chosen_def Let_def split: option.split)

lemma accepted_emits:
  assumes "1 \<le> r" and "emits paxos_rank r s t"
  shows "outcome UNIV (emits paxos_rank r s) (receive_accepted n p a v t)"
  using assms
  by (auto simp: receive_accepted_def Let_def split: option.split
      intro!: outcome_weaken[OF chosen_emits[of r s]] outcome_weaken[OF learn_emits[of r s]]
        outcome_weaken[OF emits_broadcast[of paxos_rank _ r s]])

lemma accept_request_emits:
  assumes "2 \<le> r" and "emits paxos_rank r s t"
  shows "outcome UNIV (emits paxos_rank r s) (receive_accept_request n p proposer v t)"
  using assms
  by (auto simp: receive_accept_request_def Let_def split: option.split
      intro!: accepted_emits emits_send)

lemma promise_emits:
  assumes "3 \<le> r" and "emits paxos_rank r s t"
  shows "outcome UNIV (emits paxos_rank r s) (receive_promise n response t)"
proof -
  have sel: "outcome UNIV (\<lambda>_. True) (select_value original accepted)" for original and accepted :: "'a accepted_value list"
    by (cases "select_value original accepted") auto
  show ?thesis
    using assms
    by (auto simp: receive_promise_def Let_def make_accept_request_def split: option.split
        intro!: outcome_weaken[OF sel] outcome_weaken[OF accept_request_emits[of r s]] emits_broadcast)
qed

lemma prepare_emits:
  assumes "4 \<le> r" and "emits paxos_rank r s t"
  shows "outcome UNIV (emits paxos_rank r s) (receive_prepare n p proposer t)"
  using assms by (auto simp: receive_prepare_def Let_def intro!: promise_emits emits_send)

lemma handle_message_emits:
  "outcome UNIV (emits paxos_rank (paxos_rank (msg_payload m)) s) (px_handle_message n s m)"
  by (cases "msg_payload m")
    (auto simp: px_handle_message_def reject_source_def
      intro!: prepare_emits promise_emits accept_request_emits accepted_emits learn_emits)

interpretation px_quiet: silencing paxos_callbacks "\<lambda>_. True" paxos_rank
proof
  fix n s m s'
  assume "on_message paxos_callbacks n s m = Inr s'"
  then show "emits paxos_rank (paxos_rank (msg_payload m)) s s' \<and> True"
    using handle_message_emits[of m s n] by (simp add: paxos_callbacks_def)
qed (auto simp: paxos_callbacks_def call_optional_def px_handle_crash_def px_handle_restart_def Let_def
    and_then_eq_Inr)

section \<open>Example run\<close>

text \<open>A three-node cluster in which node \<open>a\<close> proposes 7 and the network delivers everything.\<close>

definition demo_sim :: "(int paxos_msg, int paxos_event, int paxos_durable, unit) simulator" where
  "demo_sim = sim_init [] paxos_type_name (\<lambda>_. fresh_durable)"

definition demo_start :: "int paxos" where
  "demo_start = projr (PaxosCluster demo_sim [''a'', ''b'', ''c''])"

definition demo_proposed :: "int paxos" where
  "demo_proposed = snd (projr (start_proposal ''a'' 7 None demo_start))"

definition demo_final :: "int paxos" where
  "demo_final = snd (projr (the (sim_run paxos_callbacks None demo_proposed)))"

lemma demo_start_eq: "PaxosCluster demo_sim [''a'', ''b'', ''c''] = Inr demo_start"
proof -
  have "\<not> isl (PaxosCluster demo_sim [''a'', ''b'', ''c''])" by code_simp
  then show ?thesis unfolding demo_start_def by simp
qed

lemma demo_proposed_eq: "start_proposal ''a'' 7 None demo_start = Inr (PN 1 ''a'', demo_proposed)"
proof -
  have "\<not> isl (start_proposal ''a'' 7 None demo_start) \<and>
    fst (projr (start_proposal ''a'' 7 None demo_start)) = PN 1 ''a''" by code_simp
  then show ?thesis unfolding demo_proposed_def by (metis prod.collapse sum.collapse(2))
qed

lemma demo_reachable: "paxos_reachable demo_proposed" "paxos_reachable demo_final"
    "(sim_step paxos_callbacks)\<^sup>*\<^sup>* demo_proposed demo_final"
proof -
  have start: "paxos_reachable demo_start"
    unfolding paxos_reachable_def paxos_start_def using demo_start_eq unfolding demo_sim_def by blast
  have ids: "''a'' \<in> set (px_node_ids demo_start)" by code_simp
  have "paxos_step\<^sup>*\<^sup>* demo_start demo_proposed"
    using paxos_step.propose[OF ids demo_proposed_eq] by (rule r_into_rtranclp)
  then show p: "paxos_reachable demo_proposed" using reachable_steps[OF start] by blast
  have "(case sim_run paxos_callbacks None demo_proposed of Some (Inr _) \<Rightarrow> True | _ \<Rightarrow> False)"
    by code_simp
  then obtain n where "run_loop paxos_callbacks None 0 demo_proposed = Some (Inr (n, demo_final))"
    unfolding demo_final_def
    by (cases "sim_run paxos_callbacks None demo_proposed") (auto simp: sim_run_def split: sum.splits)
  then show r: "(sim_step paxos_callbacks)\<^sup>*\<^sup>* demo_proposed demo_final" by (rule run_loop_steps)
  show "paxos_reachable demo_final" using reachable_steps[OF p network_steps[OF r]] .
qed

section \<open>Properties\<close>

text \<open>The decisions a state shows: the cluster's objective record and what nodes have learned.\<close>

definition decisions :: "'v paxos \<Rightarrow> 'v learned_decision set" where
  "decisions s = {l. px_chosen s = Some l \<or> (\<exists>n. px_learned (persistent_state s n) = Some l)}"

lemma decisions_decided: "paxos_inv s \<Longrightarrow> l \<in> decisions s \<Longrightarrow> px_decided s (ld_proposal l) (ld_value l)"
  unfolding decisions_def by (auto dest: paxos_invD(8,9))

definition demo_decision :: "int learned_decision" where
  "demo_decision = LearnedDecision (PN 1 ''a'') 7"

lemma demo_decided: "demo_decision \<in> decisions demo_final"
proof -
  have "px_chosen demo_final = Some demo_decision" by code_simp
  then show ?thesis by (simp add: decisions_def)
qed

text \<open>A value is held by a majority when more than half of the configured nodes have its
  acceptance under one proposal number in their durable accept history. This reads the acceptors'
  stores only, not the cluster's record of the choice.\<close>

definition majority_accepted :: "'v paxos \<Rightarrow> proposal_number \<Rightarrow> 'v \<Rightarrow> bool" where
  "majority_accepted s p v \<longleftrightarrow> (\<exists>Q \<subseteq> set (px_node_ids s). length (px_node_ids s) < 2 * card Q \<and>
     (\<forall>a \<in> Q. AcceptedValue p v \<in> set (px_history (persistent_state s a))))"

lemma majority_accepted_iff: "majority_accepted s p v \<longleftrightarrow> px_decided s p v"
  unfolding majority_accepted_def px_decided_def chosen_at_def majority_def votes_iff quorum_size_half
  by blast

text \<open>C1. Agreement of single-decree Paxos. Whatever the network drops, delays, duplicates or
  partitions and whichever nodes crash and restart: if more than half of the nodes durably
  accepted a value under one proposal number and, then or at any later time, more than half
  durably accepted a value under some proposal number, the two values are the same; everything the
  cluster records as chosen or a node learns is a value held by such a majority; and so all
  recorded and learned values agree over time.\<close>

theorem paxos_agreement:
  assumes "paxos_reachable s" and "paxos_step\<^sup>*\<^sup>* s s'"
  shows "(\<forall>p v p' v'. majority_accepted s p v \<and> majority_accepted s' p' v' \<longrightarrow> v = v') \<and>
    (\<forall>l \<in> decisions s. majority_accepted s (ld_proposal l) (ld_value l)) \<and>
    (\<forall>l \<in> decisions s. \<forall>l' \<in> decisions s'. ld_value l = ld_value l')"
proof -
  have inv: "paxos_inv s" using assms(1) by (rule reachable_inv)
  have g: "good s s'" using steps_good[OF assms(2) inv] .
  have unique: "\<forall>p v p' v'. majority_accepted s p v \<and> majority_accepted s' p' v' \<longrightarrow> v = v'"
    unfolding majority_accepted_iff
    using decided_agree[OF goodD(1)[OF g] decided_stable[OF goodD(2)[OF g]]] by blast
  have held: "majority_accepted t (ld_proposal l) (ld_value l)" if "paxos_inv t" "l \<in> decisions t"
    for t :: "'a paxos" and l
    using decisions_decided[OF that] by (simp add: majority_accepted_iff)
  have "\<forall>l \<in> decisions s. \<forall>l' \<in> decisions s'. ld_value l = ld_value l'"
    using unique held[OF inv] held[OF goodD(1)[OF g]] by blast
  then show ?thesis using unique held[OF inv] by blast
qed

theorem paxos_agreement_witness:
  "paxos_reachable demo_final \<and> demo_decision \<in> decisions demo_final \<and>
   majority_accepted demo_final (PN 1 ''a'') 7 \<and>
   {v. \<exists>p. majority_accepted demo_final p v} = {7} \<and> ld_value ` decisions demo_final = {7}"
proof -
  note agree = paxos_agreement[OF demo_reachable(2) rtranclp.rtrancl_refl[of paxos_step demo_final]]
  have v: "ld_proposal demo_decision = PN 1 ''a''" "ld_value demo_decision = 7" by (simp_all add: demo_decision_def)
  have m: "majority_accepted demo_final (PN 1 ''a'') 7"
    using bspec[OF conjunct1[OF conjunct2[OF agree]] demo_decided] unfolding v .
  have "\<forall>l \<in> decisions demo_final. ld_value l = 7"
    using bspec[OF conjunct2[OF conjunct2[OF agree]] demo_decided] unfolding v by metis
  moreover have "\<forall>p v. majority_accepted demo_final p v \<longrightarrow> v = 7" using conjunct1[OF agree] m by blast
  moreover have "7 \<in> ld_value ` decisions demo_final" by (rule rev_image_eqI[OF demo_decided]) (simp add: v)
  ultimately have "{v. \<exists>p. majority_accepted demo_final p v} = {7}" "ld_value ` decisions demo_final = {7}"
    using m by (fast, fast)
  then show ?thesis using m demo_decided demo_reachable(2) by blast
qed

text \<open>The harness of single-decree Paxos never reports a violation: in every reachable state
  each node's durable state validates, no proposal number carries two values, at most one value
  has a quorum of durable accepts, and learned values and the objective record are that value.\<close>

lemma paxos_checkpoint_passes:
  assumes "paxos_reachable s"
  shows "px_checkpoint s = Inr ()"
  using checkpoint_passes[OF reachable_inv[OF assms]] .

text \<open>C18. Validity and durability of decisions: a chosen or learned value was passed to
  \<open>start_proposal\<close> by a client, and a majority of nodes hold its acceptance, under the decided
  proposal number, in their durable accept history.\<close>

theorem paxos_validity:
  assumes "paxos_reachable s" and "l \<in> decisions s"
  shows "(\<exists>t n p. (t, TApp (EvProposalStart n p (ld_value l))) \<in> set (sim_trace s)) \<and>
    (\<exists>Q \<subseteq> set (px_node_ids s). px_quorum s \<le> card Q \<and>
      (\<forall>a \<in> Q. AcceptedValue (ld_proposal l) (ld_value l) \<in> set (px_history (persistent_state s a))))"
proof -
  have inv: "paxos_inv s" using assms(1) by (rule reachable_inv)
  have dec: "px_decided s (ld_proposal l) (ld_value l)" using decisions_decided[OF inv assms(2)] .
  obtain a where "(ld_proposal l, ld_value l) \<in> px_votes s a"
    using maj.chosen_voted[OF dec[unfolded px_decided_def]] by blast
  then have "(ld_proposal l, ld_value l) \<in> proposals s" by (rule paxos_invD(4)[OF inv])
  then have "ld_value l \<in> started s" using inv unfolding paxos_inv_def by blast
  then show ?thesis
    using dec unfolding px_decided_def chosen_at_def majority_def px_quorum_def votes_iff started_def by blast
qed

theorem paxos_validity_witness:
  "paxos_reachable demo_final \<and> demo_decision \<in> decisions demo_final \<and>
   (\<exists>t n p. (t, TApp (EvProposalStart n p (ld_value demo_decision))) \<in> set (sim_trace demo_final))"
  using paxos_validity[OF demo_reachable(2) demo_decided] demo_decided demo_reachable(2) by blast

text \<open>C22. Total correctness of running a cluster: from every reachable state \<open>sim.run()\<close>
  returns, no handler raises, the queue is empty afterwards and the state reached is again
  reachable (so agreement and the checkpoint hold there).\<close>

theorem paxos_run_total:
  assumes "paxos_reachable s"
  shows "\<exists>n s'. sim_run paxos_callbacks None s = Some (Inr (n, s')) \<and> paxos_reachable s' \<and> sim_queue s' = []"
proof -
  obtain r where r: "run_loop paxos_callbacks None 0 s = Some r" using px_quiet.run_loop_returns[OF TrueI] by blast
  then obtain n s' where "r = Inr (n, s')"
    using px.run_loop_outcome[OF r good_refl[OF reachable_inv[OF assms]]] by (auto simp: outcome_Inr_iff)
  with r have run: "run_loop paxos_callbacks None 0 s = Some (Inr (n, s'))" by simp
  then show ?thesis
    using run_loop_drains[OF run] reachable_steps[OF assms network_steps[OF run_loop_steps[OF run]]]
    by (simp add: sim_run_def)
qed

theorem paxos_run_total_witness:
  "paxos_reachable demo_proposed \<and> length (sim_queue demo_proposed) = 2 \<and>
   (\<exists>n s'. sim_run paxos_callbacks None demo_proposed = Some (Inr (n, s')) \<and> sim_queue s' = [])"
proof -
  have "length (sim_queue demo_proposed) = 2" by code_simp
  then show ?thesis using paxos_run_total[OF demo_reachable(1)] demo_reachable(1) by blast
qed

text \<open>\<open>start_proposal\<close> at a member never violates safety: it raises only for a crashed
  node, an active proposal or a round that is not fresh, and otherwise issues a number that no
  value has been proposed under, above every round the node knew when it picks the round itself,
  and leaves a reachable state.\<close>

lemma start_proposal_fresh:
  assumes "paxos_reachable s" and "n \<in> set (px_node_ids s)"
  shows "outcome {PaxosError, PaxosProposalActive, ValueError}
    (\<lambda>(p, s'). paxos_reachable s' \<and> pn_proposer p = n \<and>
       px_last_round (persistent_state s n) < pn_round p \<and> (\<forall>w. (p, w) \<notin> proposals s))
    (start_proposal n v r s)"
proof (cases "start_proposal n v r s")
  case (Inl e)
  then show ?thesis using start_proposal_good[OF reachable_inv[OF assms(1)] assms(2), of v r] by simp
next
  case (Inr q)
  obtain p s' where q: "q = (p, s')" by (cases q)
  have new: "pn_proposer p = n \<and> px_last_round (persistent_state s n) < pn_round p"
    using Inr unfolding q
    by (auto simp: start_proposal_def Let_def ProposalNumber_def and_then_eq_Inr split: if_splits)
  moreover have "(p, w) \<notin> proposals s" for w
    using paxos_invD(6)[OF reachable_inv[OF assms(1)], of p w] new by (auto simp: issued_def)
  moreover have "paxos_step\<^sup>*\<^sup>* s s'"
    using paxos_step.propose[OF assms(2)] Inr q by (blast intro: r_into_rtranclp)
  ultimately show ?thesis using Inr q reachable_steps[OF assms(1)] by auto
qed

text \<open>Crash recovery keeps the acceptor: crashing a member and restarting it in any
  reachable state succeeds, restores exactly the durable state (promise, accepted value,
  history, learned decision, last round) of every node, and drops only the member's volatile
  proposal, so that it may propose again.\<close>

lemma paxos_crash_restart:
  assumes "paxos_reachable s" and "n \<in> set (px_node_ids s)"
  shows "\<exists>s1 s2. sim_crash paxos_callbacks n s = Inr s1 \<and> sim_restart paxos_callbacks n s1 = Inr s2 \<and>
    persistent_state s2 = persistent_state s \<and> px_proposal s2 = (px_proposal s)(n := None) \<and>
    is_alive s2 n \<and> paxos_reachable s2"
proof -
  have n: "n \<in> set (sim_handlers s)" using paxos_invD(2)[OF reachable_inv[OF assms(1)]] assms(2) by blast
  have v: "validate_durable (persistent_state s n) = Inr ()"
    using validate_durable_ok[OF reachable_inv[OF assms(1)]] .
  obtain s1 where s1: "sim_crash paxos_callbacks n s = Inr s1" "persistent_state s1 = persistent_state s"
    "px_proposal s1 = (px_proposal s)(n := None)" "sim_handlers s1 = sim_handlers s"
    using n by (auto simp: sim_crash_def validate_node_def paxos_callbacks_def call_optional_def px_handle_crash_def Let_def)
  moreover obtain s2 where "sim_restart paxos_callbacks n s1 = Inr s2" "persistent_state s2 = persistent_state s"
    "px_proposal s2 = (px_proposal s)(n := None)" "is_alive s2 n"
    using n v s1
    by (auto simp: sim_restart_def validate_node_def paxos_callbacks_def call_optional_def
        px_handle_restart_def Let_def is_alive_def set_proposal_def)
  moreover have "paxos_step\<^sup>*\<^sup>* s s2"
    using calculation by (blast intro: rtranclp.rtrancl_into_rtrancl r_into_rtranclp paxos_step.network
        sim_step.step_crash sim_step.step_restart)
  ultimately show ?thesis using reachable_steps[OF assms(1)] by blast
qed

text \<open>Order of delivery: along every sequence of network steps of a cluster whose queue is
  in order, the queue stays strictly ordered by (time, sequence number), nothing is scheduled
  in the past, and the clock never goes back.\<close>

lemma paxos_delivery_order:
  assumes "sim_wf s" and "(sim_step paxos_callbacks)\<^sup>*\<^sup>* s s'"
  shows "sorted_wrt sd_before (sim_queue s') \<and> (\<forall>d \<in> set (sim_queue s'). sim_time s' \<le> sd_time d) \<and>
    sim_time s \<le> sim_time s'"
  using px_quiet.steps_wf[OF assms(2) TrueI assms(1)] by (simp add: sim_wf_def)

end
