(* ===== verification/Paxos_Log_Safety.thy ===== *)
theory Paxos_Log_Safety
  imports Paxos_Log Paxos_Agreement
begin

text \<open>
  Safety of the Paxos log by refinement: every slot of the log runs single-decree Paxos. The
  relation \<open>slot_sim k s t\<close> says that slot \<open>k\<close> of the log state \<open>s\<close> is the state of the single-decree
  cluster \<open>t\<close> over a network that loses nothing; each handler of the log moves its own slot in
  lock step with the handler of \<open>Paxos\<close> and leaves the other slots alone, so the invariant of
  \<open>Paxos_Safety\<close> holds at every slot and its consequences carry over.
\<close>

section \<open>The slot relation\<close>

definition accepted_at :: "'v slot_accepted \<Rightarrow> 'v accepted_value" where
  "accepted_at a = AcceptedValue (sa_proposal a) (sa_value a)"

definition decision_at :: "'v slot_learned \<Rightarrow> 'v learned_decision" where
  "decision_at l = LearnedDecision (sl_proposal l) (sl_value l)"

definition promise_at :: "'v slot_promise \<Rightarrow> 'v promise" where
  "promise_at pr = Promise (sp_proposal pr) (sp_acceptor pr) (map_option accepted_at (sp_accepted pr))"

definition state_at :: "'v slot_state \<Rightarrow> 'v proposal_state" where
  "state_at st = \<lparr>ps_proposal = st_proposal st, ps_original = st_original st,
     ps_promises = map (\<lambda>(a, pr). (a, promise_at pr)) (st_promises st), ps_accepted_by = st_accepted_by st,
     ps_chosen_value = st_chosen_value st, ps_started = st_started st\<rparr>"

definition durable_at :: "int \<Rightarrow> 'v log_durable \<Rightarrow> 'v paxos_durable" where
  "durable_at k d = \<lparr>px_promised = map_of (pl_promised d) k,
     px_accepted = map_option accepted_at (map_of (pl_accepted d) k),
     px_history = map accepted_at (filter (\<lambda>a. sa_slot a = k) (pl_history d)),
     px_learned = map_option decision_at (map_of (pl_learned d) k), px_last_round = pl_last_round d\<rparr>"

fun payload_at :: "'v log_msg \<Rightarrow> int \<times> 'v paxos_msg" where
  "payload_at (SlotPrepare slot p n) = (slot, Prepare p n)"
| "payload_at (SlotPromiseMsg pr) = (sp_slot pr, PromiseMsg (promise_at pr))"
| "payload_at (SlotAcceptRequest slot p n v) = (slot, AcceptRequest p n v)"
| "payload_at (SlotAccepted slot p n v) = (slot, Accepted p n v)"
| "payload_at (SlotLearn slot p n v) = (slot, Learn p n v)"
| "payload_at (ForeignLog name) = (1, Foreign name)"

definition carried :: "int \<Rightarrow> 'v paxos \<Rightarrow> 'v log_msg message \<Rightarrow> bool" where
  "carried k t m \<longleftrightarrow> (fst (payload_at (msg_payload m)) = k \<longrightarrow> msg_delivery_dst m = None \<and>
     (\<exists>d \<in> set (sim_queue t). msg_payload (sd_message d) = snd (payload_at (msg_payload m)) \<and>
        msg_dst (sd_message d) = msg_dst m))"

definition slot_sim :: "int \<Rightarrow> 'v paxos_log \<Rightarrow> 'v paxos \<Rightarrow> bool" where
  "slot_sim k s t \<longleftrightarrow> px_node_ids t = pl_node_ids s \<and> sim_handlers t = sim_handlers s \<and>
     (\<forall>a. persistent_state t a = durable_at k (persistent_state s a)) \<and>
     (\<forall>n. px_proposal t n = map_option state_at (map_of (pl_proposals s n) k)) \<and>
     px_chosen t = map_option decision_at (map_of (pl_chosen s) k) \<and>
     fault_plan t = [] \<and> blocked_links t = {} \<and> (\<forall>n. sim_alive t n) \<and>
     (\<forall>d \<in> set (sim_queue s). carried k t (sd_message d))"

text \<open>Both sides raise, or both return related states.\<close>

fun sim_result :: "int \<Rightarrow> 'v paxos_log result \<Rightarrow> 'v paxos result \<Rightarrow> bool" where
  "sim_result k (Inr s) (Inr t) \<longleftrightarrow> slot_sim k s t"
| "sim_result k (Inl _) (Inl _) \<longleftrightarrow> True"
| "sim_result k _ _ \<longleftrightarrow> False"

lemma sim_bind:
  assumes "sim_result k a b" and "\<And>s t. slot_sim k s t \<Longrightarrow> sim_result k (f s) (g t)"
  shows "sim_result k (and_then a f) (and_then b g)"
  using assms by (cases "(k, a, b)" rule: sim_result.cases) auto

lemma sim_result_Inr: "sim_result k a (Inr t) \<longleftrightarrow> (\<exists>s. a = Inr s \<and> slot_sim k s t)"
  by (cases a) auto

section \<open>Lock step of the primitives\<close>

lemma pl_record_simps [simp]:
  "pl_node_ids (record_event ev s) = pl_node_ids s" "pl_proposals (record_event ev s) = pl_proposals s"
  "pl_chosen (record_event ev s) = pl_chosen s"
  "pl_node_ids (set_durable n f s) = pl_node_ids s" "pl_proposals (set_durable n f s) = pl_proposals s"
  "pl_chosen (set_durable n f s) = pl_chosen s"
  by (simp_all add: record_event_def set_durable_def)

lemma slot_state_simps [simp]:
  "pl_node_ids (set_slot_state n k st s) = pl_node_ids s" "persistent_state (set_slot_state n k st s) = persistent_state s"
  "pl_chosen (set_slot_state n k st s) = pl_chosen s" "sim_queue (set_slot_state n k st s) = sim_queue s"
  "sim_handlers (set_slot_state n k st s) = sim_handlers s"
  "pl_proposals (set_slot_state n k st s) = (pl_proposals s)(n := AList.update k st (pl_proposals s n))"
  "pl_node_ids (pop_slot_state n k s) = pl_node_ids s" "persistent_state (pop_slot_state n k s) = persistent_state s"
  "pl_chosen (pop_slot_state n k s) = pl_chosen s" "sim_queue (pop_slot_state n k s) = sim_queue s"
  "sim_handlers (pop_slot_state n k s) = sim_handlers s"
  "pl_proposals (pop_slot_state n k s) = (pl_proposals s)(n := AList.delete k (pl_proposals s n))"
  "pl_node_ids (clear_slot_states n s) = pl_node_ids s" "persistent_state (clear_slot_states n s) = persistent_state s"
  "pl_chosen (clear_slot_states n s) = pl_chosen s" "sim_queue (clear_slot_states n s) = sim_queue s"
  "sim_handlers (clear_slot_states n s) = sim_handlers s" "pl_proposals (clear_slot_states n s) = (pl_proposals s)(n := [])"
  by (simp_all add: set_slot_state_def pop_slot_state_def clear_slot_states_def)

lemma sim_record [simp]:
  "slot_sim k (record_event ev s) t \<longleftrightarrow> slot_sim k s t" "slot_sim k s (record_event ev' t) \<longleftrightarrow> slot_sim k s t"
  by (simp_all add: slot_sim_def carried_def record_event_def)

lemma sim_set_state: "slot_sim k s t \<Longrightarrow> slot_sim k (set_slot_state n k st s) (set_proposal n (Some (state_at st)) t)"
  by (auto simp: slot_sim_def carried_def set_proposal_def update_conv')

lemma sim_pop_state: "slot_sim k s t \<Longrightarrow> slot_sim k (pop_slot_state n k s) (set_proposal n None t)"
  by (auto simp: slot_sim_def carried_def set_proposal_def delete_conv')

lemma sim_clear_states: "slot_sim k s t \<Longrightarrow> slot_sim k (clear_slot_states n s) (set_proposal n None t)"
  by (auto simp: slot_sim_def carried_def set_proposal_def)

lemma sim_durable:
  assumes "slot_sim k s t" and "durable_at k (f (persistent_state s n)) = g (durable_at k (persistent_state s n))"
  shows "slot_sim k (set_durable n f s) (set_durable n g t)"
  using assms by (auto simp: slot_sim_def carried_def set_durable_def)

lemma sim_reads:
  assumes "slot_sim k s t"
  shows "px_quorum t = pl_quorum s" "px_node_ids t = pl_node_ids s" "px_peers t n = pl_peers s n"
    "px_proposal t n = map_option state_at (map_of (pl_proposals s n) k)"
    "px_promised (persistent_state t n) = map_of (pl_promised (persistent_state s n)) k"
    "px_accepted (persistent_state t n) = map_option accepted_at (map_of (pl_accepted (persistent_state s n)) k)"
    "px_learned (persistent_state t n) = map_option decision_at (map_of (pl_learned (persistent_state s n)) k)"
    "px_chosen t = map_option decision_at (map_of (pl_chosen s) k)"
    "px_last_round (persistent_state t n) = pl_last_round (persistent_state s n)"
  using assms by (auto simp: slot_sim_def px_quorum_def pl_quorum_def px_peers_def pl_peers_def durable_at_def)

lemma perfect_send:
  assumes "fault_plan t = []" and "blocked_links t = {}" and "send_msg src dst p t = Inr t'"
  shows "set (sim_queue t) \<subseteq> set (sim_queue t')" "\<exists>d \<in> set (sim_queue t'). msg_payload (sd_message d) = p \<and> msg_dst (sd_message d) = dst"
  using assms by (auto simp: sim_send_def Let_def deliver_rule_def sim_schedule_def)

lemma carried_grow: "carried k t m \<Longrightarrow> set (sim_queue t) \<subseteq> set (sim_queue t') \<Longrightarrow> carried k t' m"
  unfolding carried_def by blast

lemma sim_send_step:
  assumes "slot_sim k s t" and "payload_at m = (k, p)"
  shows "sim_result k (send_msg n dst m s) (send_msg n dst p t)"
proof -
  obtain s' t' where s': "send_msg n dst m s = Inr s'" "sent n dst m s s'" and t': "send_msg n dst p t = Inr t'" "sent n dst p t t'"
    using sent_outcome[of n dst m s] sent_outcome[of n dst p t] by (auto simp: outcome_Inr_iff)
  obtain sq q os tr where f: "s' = s\<lparr>sim_sequence := sq, sim_queue := q, send_ordinals := os, sim_trace := sim_trace s @ tr\<rparr>"
    using s'(2) unfolding sent_def by (blast elim: core_frameE)
  obtain sq2 q2 os2 tr2 where g: "t' = t\<lparr>sim_sequence := sq2, sim_queue := q2, send_ordinals := os2, sim_trace := sim_trace t @ tr2\<rparr>"
    using t'(2) unfolding sent_def by (blast elim: core_frameE)
  have "fault_plan t = []" "blocked_links t = {}" using assms(1) by (simp_all add: slot_sim_def)
  note ps = perfect_send[OF this t'(1)]
  have old: "carried k t' (sd_message d)" if "d \<in> set (sim_queue s)" for d
    using assms(1) that carried_grow[OF _ ps(1)] unfolding slot_sim_def by blast
  have new: "carried k t' (sd_message d)" if "msg_dst (sd_message d) = dst" "msg_payload (sd_message d) = m" "msg_delivery_dst (sd_message d) = None" for d
    using ps(2) assms(2) unfolding carried_def that by simp
  have "carried k t' (sd_message d)" if "d \<in> set (sim_queue s')" for d
  proof -
    have "d \<in> set (sim_queue s) \<or> (msg_src (sd_message d) = n \<and> msg_dst (sd_message d) = dst \<and>
        msg_payload (sd_message d) = m \<and> msg_delivery_dst (sd_message d) = None)"
      using s'(2) that unfolding sent_def by simp
    then show ?thesis using old[of d] new[of d] by metis
  qed
  then have "slot_sim k s' t'" using assms(1) f g by (simp add: slot_sim_def)
  then show ?thesis using s'(1) t'(1) by simp
qed

lemma sim_broadcast:
  assumes "slot_sim k s t" and "payload_at m = (k, p)"
  shows "sim_result k (pl_broadcast n m s) (px_broadcast n p t)"
proof -
  have "sim_result k (for_each (\<lambda>peer. send_msg n peer m) ps s) (for_each (\<lambda>peer. send_msg n peer p) ps t)" if "slot_sim k s t" for ps s t
    using that by (induction ps arbitrary: s t) (auto intro!: sim_bind sim_send_step[OF _ assms(2)])
  then show ?thesis using assms(1) sim_reads(3)[OF assms(1), of n] by simp
qed

section \<open>Lock step of the handlers\<close>

lemma at_simps [simp]:
  "av_proposal (accepted_at a) = sa_proposal a" "av_value (accepted_at a) = sa_value a"
  "ld_proposal (decision_at l) = sl_proposal l" "ld_value (decision_at l) = sl_value l"
  "pr_proposal (promise_at pr) = sp_proposal pr" "pr_acceptor (promise_at pr) = sp_acceptor pr"
  "pr_accepted (promise_at pr) = map_option accepted_at (sp_accepted pr)"
  "ps_proposal (state_at st) = st_proposal st" "ps_original (state_at st) = st_original st"
  "ps_accepted_by (state_at st) = st_accepted_by st" "ps_chosen_value (state_at st) = st_chosen_value st"
  "ps_started (state_at st) = st_started st"
  "(state_at st)\<lparr>ps_accepted_by := A\<rparr> = state_at (st\<lparr>st_accepted_by := A\<rparr>)"
  "(state_at st)\<lparr>ps_chosen_value := x, ps_started := b\<rparr> = state_at (st\<lparr>st_chosen_value := x, st_started := b\<rparr>)"
  by (simp_all add: accepted_at_def decision_at_def promise_at_def state_at_def)

lemma px_quorum_simps [simp]:
  "px_quorum (record_event ev t) = px_quorum t" "px_quorum (set_proposal n st t) = px_quorum t"
  "pl_quorum (record_event ev' s) = pl_quorum s" "pl_quorum (set_slot_state n k st' s) = pl_quorum s"
  by (simp_all add: px_quorum_def pl_quorum_def)

lemma learn_step:
  assumes "slot_sim k s t" and "0 < k"
  shows "sim_result k (log_receive_learn n k p v s) (receive_learn n p v t)"
proof (cases "map_of (pl_learned (persistent_state s n)) k")
  case None
  have "slot_sim k (set_durable n (\<lambda>d. d\<lparr>pl_learned := AList.update k (SlotLearnedDecision k p v) (pl_learned d)\<rparr>) s)
      (set_durable n (\<lambda>d. d\<lparr>px_learned := Some (LearnedDecision p v)\<rparr>) t)"
    by (rule sim_durable[OF assms(1)]) (simp add: durable_at_def update_conv' decision_at_def)
  then show ?thesis using None sim_reads(7)[OF assms(1), of n] assms(2)
    by (simp add: log_receive_learn_def receive_learn_def slot_learned_decision_def require_slot_def make_slot_learned_def Let_def)
next
  case (Some l)
  then show ?thesis using sim_reads(7)[OF assms(1), of n] assms
    by (simp add: log_receive_learn_def receive_learn_def slot_learned_decision_def require_slot_def)
qed

lemma chosen_step:
  assumes "slot_sim k s t" and "0 < k"
  shows "sim_result k (log_record_chosen k p v A s) (record_chosen p v A t)"
proof -
  have "slot_sim k (s\<lparr>pl_chosen := AList.update k (SlotLearnedDecision k p v) (pl_chosen s), pl_chosen_acceptors := x\<rparr>)
      (t\<lparr>px_chosen := Some (LearnedDecision p v), px_chosen_acceptors := y\<rparr>)" for x y
    using assms(1) by (simp add: slot_sim_def carried_def update_conv' decision_at_def)
  then show ?thesis using sim_reads(1,8)[OF assms(1)] assms
    by (cases "map_of (pl_chosen s) k") (simp_all add: log_record_chosen_def record_chosen_def make_slot_learned_def Let_def)
qed

definition states_ok :: "'v paxos_log \<Rightarrow> bool" where
  "states_ok s \<longleftrightarrow> (\<forall>n slot st. map_of (pl_proposals s n) slot = Some st \<longrightarrow> st_slot st = slot)"

lemma states_okD: "states_ok s \<Longrightarrow> map_of (pl_proposals s n) slot = Some st \<Longrightarrow> st_slot st = slot"
  by (simp add: states_ok_def)

lemma accepted_step:
  assumes "slot_sim k s t" and "0 < k" and "states_ok s"
  shows "sim_result k (log_receive_accepted n k p a v s) (receive_accepted n p a v t)"
proof (cases "map_of (pl_proposals s n) k")
  case None
  then show ?thesis using assms(1) sim_reads(4)[OF assms(1), of n] by (simp add: log_receive_accepted_def receive_accepted_def)
next
  case (Some st)
  have slot: "st_slot st = k" by (rule states_okD[OF assms(3) Some])
  let ?st = "st\<lparr>st_accepted_by := insert a (st_accepted_by st)\<rparr>"
  note set = sim_set_state[OF assms(1), of n ?st]
  have "sim_result k
      (and_then (log_record_chosen k (st_proposal st) w (insert a (st_accepted_by st)) (set_slot_state n k ?st s)) (\<lambda>s2.
       and_then (log_receive_learn n k (st_proposal st) w s2) (\<lambda>s3.
       and_then (pl_broadcast n (SlotLearn k (st_proposal st) n w) s3) (\<lambda>s4. Inr (pop_slot_state n k s4)))))
      (and_then (record_chosen (st_proposal st) w (insert a (st_accepted_by st)) (set_proposal n (Some (state_at ?st)) t)) (\<lambda>s2.
       and_then (receive_learn n (st_proposal st) w s2) (\<lambda>s3.
       and_then (px_broadcast n (Learn (st_proposal st) n w) s3) (\<lambda>s4. Inr (set_proposal n None s4)))))" for w
    by (intro sim_bind chosen_step[OF set assms(2)] learn_step assms(2) sim_broadcast) (auto intro: sim_pop_state)
  then show ?thesis using Some slot set assms(1) sim_reads(1,4)[OF assms(1)]
    by (cases "st_chosen_value st") (simp_all add: log_receive_accepted_def receive_accepted_def Let_def)
qed

lemma history_mem: "accepted_at (SlotAcceptedValue k p v) \<in> accepted_at ` {a \<in> set h. sa_slot a = k} \<longleftrightarrow> SlotAcceptedValue k p v \<in> set h"
proof -
  have "a = SlotAcceptedValue k p v" if "accepted_at a = accepted_at (SlotAcceptedValue k p v)" "sa_slot a = k" for a :: "'a slot_accepted"
    using that by (cases a) (simp add: accepted_at_def)
  then show ?thesis by (force simp: image_iff)
qed

lemma accept_request_step:
  assumes "slot_sim k s t" and "0 < k" and "states_ok s"
  shows "sim_result k (log_receive_accept_request n k p q v s) (receive_accept_request n p q v t)"
proof -
  let ?a = "SlotAcceptedValue k p v"
  let ?f = "\<lambda>d. d\<lparr>pl_promised := AList.update k p (pl_promised d), pl_accepted := AList.update k ?a (pl_accepted d),
     pl_history := (if ?a \<in> set (pl_history d) then pl_history d else pl_history d @ [?a])\<rparr>"
  let ?g = "\<lambda>d. d\<lparr>px_promised := Some p, px_accepted := Some (AcceptedValue p v),
     px_history := (if AcceptedValue p v \<in> set (px_history d) then px_history d else px_history d @ [AcceptedValue p v])\<rparr>"
  have "accepted_at ?a = AcceptedValue p v" by (simp add: accepted_at_def)
  then have w: "slot_sim k (set_durable n ?f s) (set_durable n ?g t)"
    using history_mem[of k p v "pl_history (persistent_state s n)"]
    by (intro sim_durable[OF assms(1)]) (simp add: durable_at_def update_conv')
  have so: "states_ok (record_event ev (set_durable n ?f s))" for ev using assms(3) by (simp add: states_ok_def)
  have "sim_result k (log_receive_accepted n k p n v (record_event ev (set_durable n ?f s))) (receive_accepted n p n v (record_event ev' (set_durable n ?g t)))"
    "sim_result k (send_msg n q (SlotAccepted k p n v) (record_event ev (set_durable n ?f s))) (send_msg n q (Accepted p n v) (record_event ev' (set_durable n ?g t)))" for ev ev'
    using w so assms(2) by (auto intro!: accepted_step sim_send_step)
  moreover have "px_accepted (persistent_state t n) = map_option accepted_at (map_of (pl_accepted (persistent_state s n)) k)"
    "px_promised (persistent_state t n) = map_of (pl_promised (persistent_state s n)) k" using sim_reads[OF assms(1)] by blast+
  ultimately show ?thesis using assms(1,2)
    by (cases "map_of (pl_accepted (persistent_state s n)) k")
      (simp_all add: log_receive_accept_request_def receive_accept_request_def promised_proposal_def slot_accepted_value_def
        require_slot_def make_slot_accepted_def Let_def)
qed

lemma map_filter_map: "List.map_filter f (map g xs) = List.map_filter (\<lambda>x. f (g x)) xs"
  by (simp add: List.map_filter_def comp_def filter_map)

lemma map_map_filter: "map h (List.map_filter f xs) = List.map_filter (\<lambda>x. map_option h (f x)) xs"
proof -
  have "filter (\<lambda>x. map_option h (f x) \<noteq> None) xs = filter (\<lambda>x. f x \<noteq> None) xs" by simp
  then show ?thesis by (simp only: List.map_filter_def map_map comp_def) (rule map_cong, auto simp: option.map_sel)
qed

lemma select_at: "select_slot_value original xs = select_value original (map accepted_at xs)"
proof -
  have "map av_value (filter (\<lambda>a. av_proposal a = h) (map accepted_at xs)) = map sa_value (filter (\<lambda>a. sa_proposal a = h) xs)" for h
    by (simp add: filter_map comp_def)
  moreover have "av_proposal ` accepted_at ` set xs = sa_proposal ` set xs" by (simp add: image_image)
  ultimately show ?thesis by (simp add: select_slot_value_def select_value_def)
qed

lemma setdefault_at: "map (\<lambda>(a, pr). (a, promise_at pr)) (setdefault a pr d) = setdefault a (promise_at pr) (map (\<lambda>(a, pr). (a, promise_at pr)) d)"
proof -
  have "fst ` set (map (\<lambda>(a, pr). (a, promise_at pr)) d) = fst ` set d" by force
  then show ?thesis unfolding setdefault_def by simp
qed

lemma state_at_promises:
  "(state_at st)\<lparr>ps_promises := setdefault (sp_acceptor pr) (promise_at pr) (ps_promises (state_at st))\<rparr> =
   state_at (st\<lparr>st_promises := setdefault (sp_acceptor pr) pr (st_promises st)\<rparr>)"
  "length (ps_promises (state_at st)) = length (st_promises st)"
  "map fst (ps_promises (state_at st)) = map fst (st_promises st)"
  "List.map_filter (\<lambda>(_, p). pr_accepted p) (ps_promises (state_at st)) = map accepted_at (List.map_filter (\<lambda>(_, p). sp_accepted p) (st_promises st))"
  by (simp_all add: state_at_def setdefault_at map_filter_map map_map_filter comp_def case_prod_beta)

lemma promise_step:
  assumes "slot_sim k s t" and "0 < k" and "states_ok s" and "sp_slot pr = k"
  shows "sim_result k (log_receive_promise n pr s) (receive_promise n (promise_at pr) t)"
proof (cases "map_of (pl_proposals s n) k")
  case None
  then show ?thesis using assms(1,4) sim_reads(4)[OF assms(1), of n] by (simp add: log_receive_promise_def receive_promise_def)
next
  case (Some st)
  have slot: "st_slot st = k" by (rule states_okD[OF assms(3) Some])
  define st1 where "st1 = st\<lparr>st_promises := setdefault (sp_acceptor pr) pr (st_promises st)\<rparr>"
  have at1: "(state_at st)\<lparr>ps_promises := setdefault (sp_acceptor pr) (promise_at pr) (ps_promises (state_at st))\<rparr> = state_at st1"
    by (simp only: st1_def state_at_promises(1))
  have slot1: "st_slot st1 = k" using slot by (simp add: st1_def)
  define s1 where "s1 = set_slot_state n k st1 s"
  define t1 where "t1 = set_proposal n (Some (state_at st1)) t"
  have r1: "slot_sim k s1 t1" unfolding s1_def t1_def by (rule sim_set_state[OF assms(1)])
  have reads: "px_proposal t n = Some (state_at st)" "px_node_ids t = pl_node_ids s" "px_quorum t = pl_quorum s"
    using sim_reads[OF assms(1)] Some by simp_all
  show ?thesis
  proof (cases "sp_proposal pr = st_proposal st \<and> sp_acceptor pr \<in> set (pl_node_ids s) \<and> \<not> st_started st1 \<and> pl_quorum s \<le> length (st_promises st1)")
    case False
    then show ?thesis using Some reads assms(1,4) r1
      by (auto simp: log_receive_promise_def receive_promise_def Let_def at1 state_at_promises(2) simp flip: st1_def s1_def t1_def)
  next
    case True
    let ?xs = "List.map_filter (\<lambda>(_, p). sp_accepted p) (st_promises st1)"
    have step: "sim_result k
        (and_then (log_receive_accept_request n k (st_proposal st1) n w (record_event ev (set_slot_state n k (st1\<lparr>st_chosen_value := Some w, st_started := True\<rparr>) s1)))
          (pl_broadcast n (SlotAcceptRequest k (st_proposal st1) n w)))
        (and_then (receive_accept_request n (st_proposal st1) n w (record_event ev' (set_proposal n (Some (state_at (st1\<lparr>st_chosen_value := Some w, st_started := True\<rparr>))) t1)))
          (px_broadcast n (AcceptRequest (st_proposal st1) n w)))" for w ev ev'
    proof (intro sim_bind accept_request_step sim_broadcast assms(2))
      show "slot_sim k (record_event ev (set_slot_state n k (st1\<lparr>st_chosen_value := Some w, st_started := True\<rparr>) s1))
          (record_event ev' (set_proposal n (Some (state_at (st1\<lparr>st_chosen_value := Some w, st_started := True\<rparr>))) t1))"
        using sim_set_state[OF r1] by simp
      show "states_ok (record_event ev (set_slot_state n k (st1\<lparr>st_chosen_value := Some w, st_started := True\<rparr>) s1))"
        using assms(3) slot1 by (auto simp: states_ok_def s1_def update_conv' split: if_splits)
    qed simp_all
    show ?thesis
    proof (cases "select_value (st_original st1) (map accepted_at ?xs)")
      case (Inl e)
      then show ?thesis using True Some reads assms(4)
        by (simp add: log_receive_promise_def receive_promise_def Let_def at1 state_at_promises(2,4) select_at flip: st1_def s1_def t1_def)
    next
      case (Inr w)
      have mk: "make_slot_accept_request k (st_proposal st1) n w = Inl ValueError \<and> make_accept_request (st_proposal st1) n w = Inl ValueError \<or>
          make_slot_accept_request k (st_proposal st1) n w = Inr (SlotAcceptRequest k (st_proposal st1) n w) \<and>
          make_accept_request (st_proposal st1) n w = Inr (AcceptRequest (st_proposal st1) n w)"
        using assms(2) by (simp add: make_slot_accept_request_def make_accept_request_def)
      then show ?thesis using True Some reads assms(4) Inr step[of w] slot1
        by (elim disjE conjE) (simp_all add: log_receive_promise_def receive_promise_def Let_def at1 state_at_promises(2,3,4) select_at flip: st1_def s1_def t1_def)
    qed
  qed
qed

lemma prepare_step:
  assumes "slot_sim k s t" and "0 < k" and "states_ok s"
  shows "sim_result k (log_receive_prepare n k p q s) (receive_prepare n p q t)"
proof -
  let ?m = "map_of (pl_promised (persistent_state s n)) k"
  define s1 where "s1 = (if ?m = None \<or> p > the ?m then set_durable n (\<lambda>d. d\<lparr>pl_promised := AList.update k p (pl_promised d)\<rparr>) s else s)"
  define t1 where "t1 = (if ?m = None \<or> p > the ?m then set_durable n (\<lambda>d. d\<lparr>px_promised := Some p\<rparr>) t else t)"
  have r1: "slot_sim k s1 t1"
    unfolding s1_def t1_def using assms(1) sim_durable[OF assms(1), of "\<lambda>d. d\<lparr>pl_promised := AList.update k p (pl_promised d)\<rparr>" n "\<lambda>d. d\<lparr>px_promised := Some p\<rparr>"]
    by (simp add: durable_at_def update_conv')
  let ?pr = "SlotPromise k p n (map_of (pl_accepted (persistent_state s1 n)) k)"
  have pr: "promise_at ?pr = Promise p n (px_accepted (persistent_state t1 n))"
    using sim_reads(6)[OF r1, of n] by (simp add: promise_at_def)
  have so: "states_ok (record_event ev s1)" for ev using assms(3) by (simp add: states_ok_def s1_def)
  have "sim_result k (log_receive_promise n ?pr (record_event ev s1)) (receive_promise n (promise_at ?pr) (record_event ev' t1))"
    "sim_result k (send_msg n q (SlotPromiseMsg ?pr) (record_event ev s1)) (send_msg n q (PromiseMsg (promise_at ?pr)) (record_event ev' t1))" for ev ev'
    using r1 so assms(2) by (auto intro!: promise_step sim_send_step)
  moreover have "px_promised (persistent_state t n) = ?m" using sim_reads(5)[OF assms(1)] .
  ultimately show ?thesis using assms(1,2)
    by (simp add: log_receive_prepare_def receive_prepare_def promised_proposal_def slot_accepted_value_def require_slot_def Let_def pr
        flip: s1_def t1_def)
qed

section \<open>Handlers touch one slot\<close>

text \<open>A property of log states that every primitive step of a handler at slot \<open>k\<close> keeps is kept by
  the handlers at that slot.\<close>

locale slot_handlers =
  fixes k :: int and P :: "'v paxos_log \<Rightarrow> bool"
  assumes positive: "P s \<Longrightarrow> 0 < k" and states: "P s \<Longrightarrow> states_ok s"
    and keep_record: "P s \<Longrightarrow> P (record_event ev s)"
    and keep_state: "P s \<Longrightarrow> st_slot st = k \<Longrightarrow> P (set_slot_state n k st s)"
    and keep_pop: "P s \<Longrightarrow> P (pop_slot_state n k s)"
    and keep_promised: "P s \<Longrightarrow> P (set_durable n (\<lambda>d. d\<lparr>pl_promised := AList.update k p (pl_promised d)\<rparr>) s)"
    and keep_accepted: "P s \<Longrightarrow> P (set_durable n (\<lambda>d. d\<lparr>pl_promised := AList.update k p (pl_promised d),
        pl_accepted := AList.update k (SlotAcceptedValue k p v) (pl_accepted d),
        pl_history := (if SlotAcceptedValue k p v \<in> set (pl_history d) then pl_history d
                       else pl_history d @ [SlotAcceptedValue k p v])\<rparr>) s)"
    and keep_learned: "P s \<Longrightarrow> map_of (pl_learned (persistent_state s n)) k = None \<Longrightarrow>
        P (set_durable n (\<lambda>d. d\<lparr>pl_learned := AList.update k (SlotLearnedDecision k p v) (pl_learned d)\<rparr>) s)"
    and keep_chosen: "P s \<Longrightarrow> map_of (pl_chosen s) k = None \<Longrightarrow>
        P (s\<lparr>pl_chosen := AList.update k (SlotLearnedDecision k p v) (pl_chosen s), pl_chosen_acceptors := x\<rparr>)"
    and keep_send: "P s \<Longrightarrow> fst (payload_at m) = k \<Longrightarrow> outcome UNIV P (send_msg n dst m s)"
begin

lemma outcome_bindI: "outcome UNIV P a \<Longrightarrow> (\<And>x. P x \<Longrightarrow> outcome UNIV P (f x)) \<Longrightarrow> outcome UNIV P (and_then a f)"
  by (cases a) auto

lemma broadcast_keeps: "P s \<Longrightarrow> fst (payload_at m) = k \<Longrightarrow> outcome UNIV P (for_each (\<lambda>peer. send_msg n peer m) ps s)"
  by (rule outcome_for_each) (auto intro: keep_send)

lemma learn_keeps: "P s \<Longrightarrow> outcome UNIV P (log_receive_learn n k p v s)"
  using positive[of s]
  by (auto simp: log_receive_learn_def slot_learned_decision_def require_slot_def make_slot_learned_def Let_def
      intro!: keep_record keep_learned split: option.split)

lemma chosen_keeps: "P s \<Longrightarrow> outcome UNIV P (log_record_chosen k p v A s)"
  using positive[of s]
  by (auto simp: log_record_chosen_def make_slot_learned_def Let_def intro!: keep_record keep_chosen split: option.split)

lemma accepted_keeps:
  assumes "P s"
  shows "outcome UNIV P (log_receive_accepted n k p a v s)"
proof (cases "map_of (pl_proposals s n) k")
  case None
  then show ?thesis using assms by (simp add: log_receive_accepted_def keep_record)
next
  case (Some st)
  have slot: "st_slot st = k" by (rule states_okD[OF states[OF assms] Some])
  let ?s = "set_slot_state n k (st\<lparr>st_accepted_by := insert a (st_accepted_by st)\<rparr>) s"
  have s1: "P ?s" using slot by (intro keep_state assms) simp
  have "outcome UNIV P (and_then (log_record_chosen k (st_proposal st) w A ?s) (\<lambda>s2.
       and_then (log_receive_learn n k (st_proposal st) w s2) (\<lambda>s3.
       and_then (pl_broadcast n (SlotLearn k (st_proposal st) n w) s3) (\<lambda>s4. Inr (pop_slot_state n k s4)))))" for w A
    by (intro outcome_bindI chosen_keeps learn_keeps broadcast_keeps s1) (auto intro: keep_pop)
  then show ?thesis using Some slot assms s1
    by (auto simp: log_receive_accepted_def Let_def keep_record simp del: outcome_and_then split: option.split)
qed

lemma accept_request_keeps: "P s \<Longrightarrow> outcome UNIV P (log_receive_accept_request n k p q v s)"
  using positive[of s]
  by (auto simp: log_receive_accept_request_def promised_proposal_def slot_accepted_value_def require_slot_def
      make_slot_accepted_def Let_def intro!: keep_record keep_accepted accepted_keeps keep_send split: option.split)

lemma promise_keeps:
  assumes "P s" and "sp_slot pr = k"
  shows "outcome UNIV P (log_receive_promise n pr s)"
proof (cases "map_of (pl_proposals s n) k")
  case None
  then show ?thesis using assms by (simp add: log_receive_promise_def keep_record)
next
  case (Some st)
  have slot: "st_slot st = k" by (rule states_okD[OF states[OF assms(1)] Some])
  define st1 where "st1 = st\<lparr>st_promises := setdefault (sp_acceptor pr) pr (st_promises st)\<rparr>"
  define s1 where "s1 = set_slot_state n k st1 s"
  have slot1: "st_slot st1 = k" using slot by (simp add: st1_def)
  have s1: "P s1" unfolding s1_def using slot1 by (intro keep_state assms)
  have "outcome UNIV P (and_then (select_slot_value (st_original st1) xs) (\<lambda>w.
      and_then (make_slot_accept_request k (st_proposal st1) n w) (\<lambda>request.
        and_then (log_receive_accept_request n k (st_proposal st1) n w
            (record_event (ev w) (set_slot_state n k (st1\<lparr>st_chosen_value := Some w, st_started := True\<rparr>) s1)))
          (pl_broadcast n request))))" for xs ev
  proof (cases "select_slot_value (st_original st1) xs")
    case (Inr w)
    have "P (record_event (ev w) (set_slot_state n k (st1\<lparr>st_chosen_value := Some w, st_started := True\<rparr>) s1))"
      using slot1 by (intro keep_record keep_state s1) simp
    then show ?thesis using Inr
      by (auto simp: make_slot_accept_request_def simp del: outcome_and_then intro!: outcome_bindI accept_request_keeps broadcast_keeps)
  qed simp
  then show ?thesis using Some slot1 assms s1
    by (auto simp: log_receive_promise_def Let_def keep_record simp del: outcome_and_then simp flip: st1_def s1_def)
qed

lemma prepare_keeps: "P s \<Longrightarrow> outcome UNIV P (log_receive_prepare n k p q s)"
  using positive[of s]
  by (auto simp: log_receive_prepare_def promised_proposal_def slot_accepted_value_def require_slot_def Let_def
      intro!: keep_record keep_promised promise_keeps keep_send split: option.split)

end

section \<open>The invariant of the log\<close>

definition durable_ok :: "'v log_durable \<Rightarrow> bool" where
  "durable_ok d \<longleftrightarrow> distinct (map fst (pl_promised d)) \<and> distinct (map fst (pl_accepted d)) \<and> distinct (map fst (pl_learned d)) \<and>
     (\<forall>(slot, p) \<in> set (pl_promised d). 0 < slot) \<and> (\<forall>(slot, a) \<in> set (pl_accepted d). 0 < slot \<and> sa_slot a = slot) \<and>
     (\<forall>(slot, l) \<in> set (pl_learned d). 0 < slot \<and> sl_slot l = slot) \<and> (\<forall>a \<in> set (pl_history d). 0 < sa_slot a) \<and> 0 \<le> pl_last_round d"

definition log_ok :: "'v paxos_log \<Rightarrow> bool" where
  "log_ok s \<longleftrightarrow> states_ok s \<and> (\<forall>a. durable_ok (persistent_state s a)) \<and> distinct (map fst (pl_chosen s)) \<and>
     (\<forall>(slot, l) \<in> set (pl_chosen s). 0 < slot) \<and>
     (\<forall>d \<in> set (sim_queue s). 0 < fst (payload_at (msg_payload (sd_message d))))"

definition log_grows :: "'v paxos_log \<Rightarrow> 'v paxos_log \<Rightarrow> bool" where
  "log_grows s s' \<longleftrightarrow> pl_node_ids s' = pl_node_ids s \<and> (\<forall>k l. map_of (pl_chosen s) k = Some l \<longrightarrow> map_of (pl_chosen s') k = Some l) \<and>
     (\<forall>a k l. map_of (pl_learned (persistent_state s a)) k = Some l \<longrightarrow> map_of (pl_learned (persistent_state s' a)) k = Some l) \<and>
     (\<forall>a. set (pl_history (persistent_state s a)) \<subseteq> set (pl_history (persistent_state s' a)))"

definition kept :: "int \<Rightarrow> int \<Rightarrow> 'v paxos \<Rightarrow> 'v paxos_log \<Rightarrow> 'v paxos_log \<Rightarrow> bool" where
  "kept k j t s0 s \<longleftrightarrow> 0 < k \<and> log_ok s \<and> log_grows s0 s \<and> (j \<noteq> k \<longrightarrow> slot_sim j s t)"

lemma update_entry: "x \<in> set (AList.update k v d) \<Longrightarrow> x \<in> set d \<or> x = (k, v)"
  by (induction d) (auto split: if_splits)

lemma delete_entry: "x \<in> set (AList.delete k d) \<Longrightarrow> x \<in> set d"
  by (induction d) (auto split: if_splits)

lemma durable_ok_updates:
  assumes "durable_ok d" and "0 < k"
  shows "durable_ok (d\<lparr>pl_promised := AList.update k p (pl_promised d)\<rparr>)"
    "durable_ok (d\<lparr>pl_learned := AList.update k (SlotLearnedDecision k p v) (pl_learned d)\<rparr>)"
    "durable_ok (d\<lparr>pl_promised := AList.update k p (pl_promised d),
        pl_accepted := AList.update k (SlotAcceptedValue k p v) (pl_accepted d),
        pl_history := (if SlotAcceptedValue k p v \<in> set (pl_history d) then pl_history d
                       else pl_history d @ [SlotAcceptedValue k p v])\<rparr>)"
  using assms by (auto simp: durable_ok_def distinct_update dest!: update_entry)

lemma log_ok_durable:
  assumes "log_ok s" and "durable_ok (f (persistent_state s n))"
  shows "log_ok (set_durable n f s)"
  using assms by (auto simp: log_ok_def states_ok_def set_durable_def)

lemma log_ok_frame:
  assumes "log_ok s" and "pl_proposals s' = pl_proposals s" and "persistent_state s' = persistent_state s" and "pl_chosen s' = pl_chosen s"
    and "\<And>d. d \<in> set (sim_queue s') \<Longrightarrow> d \<in> set (sim_queue s) \<or> 0 < fst (payload_at (msg_payload (sd_message d)))"
  shows "log_ok s'"
proof -
  have "0 < fst (payload_at (msg_payload (sd_message d)))" if "d \<in> set (sim_queue s')" for d
    using assms(5)[OF that] assms(1) by (auto simp: log_ok_def)
  then show ?thesis using assms(1-4) unfolding log_ok_def states_ok_def by simp
qed

lemma slot_sim_other:
  assumes "slot_sim j s t" and "j \<noteq> k"
  shows "slot_sim j (set_slot_state n k st s) t" "slot_sim j (pop_slot_state n k s) t"
    "slot_sim j (s\<lparr>pl_chosen := AList.update k l (pl_chosen s), pl_chosen_acceptors := x\<rparr>) t"
  using assms by (simp_all add: slot_sim_def carried_def update_conv' delete_conv')

lemma slot_sim_durable:
  assumes "slot_sim j s t" and "durable_at j (f (persistent_state s n)) = durable_at j (persistent_state s n)"
  shows "slot_sim j (set_durable n f s) t"
  using assms by (auto simp: slot_sim_def carried_def set_durable_def)

lemma slot_sim_send:
  assumes "slot_sim j s t" and "sent n dst m s s'" and "fst (payload_at m) \<noteq> j"
  shows "slot_sim j s' t"
proof -
  obtain sq q os tr where f: "s' = s\<lparr>sim_sequence := sq, sim_queue := q, send_ordinals := os, sim_trace := sim_trace s @ tr\<rparr>"
    using assms(2) unfolding sent_def by (blast elim: core_frameE)
  have "carried j t (sd_message d)" if "d \<in> set (sim_queue s')" for d
  proof -
    have "d \<in> set (sim_queue s) \<or> msg_payload (sd_message d) = m" using assms(2) that unfolding sent_def by blast
    then show ?thesis using assms(1,3) unfolding slot_sim_def by (auto simp: carried_def)
  qed
  then show ?thesis using assms(1) unfolding slot_sim_def f by auto
qed

lemma log_grows_frame:
  assumes "log_grows s0 s" and "pl_node_ids s' = pl_node_ids s" and "pl_chosen s' = pl_chosen s"
    and "\<And>a. pl_learned (persistent_state s' a) = pl_learned (persistent_state s a)"
    and "\<And>a. set (pl_history (persistent_state s a)) \<subseteq> set (pl_history (persistent_state s' a))"
  shows "log_grows s0 s'"
proof -
  have "set (pl_history (persistent_state s0 a)) \<subseteq> set (pl_history (persistent_state s' a))" for a
    using assms(1) assms(5)[of a] unfolding log_grows_def by blast
  then show ?thesis using assms(1-4) unfolding log_grows_def by simp
qed

lemma log_grows_states [simp]:
  "log_grows s0 (set_slot_state n k st s) = log_grows s0 s" "log_grows s0 (pop_slot_state n k s) = log_grows s0 s"
  "log_grows s0 (clear_slot_states n s) = log_grows s0 s" "log_grows s0 (record_event ev s) = log_grows s0 s"
  by (simp_all add: log_grows_def)

lemma log_ok_send:
  assumes "log_ok s" and "sent n dst m s s'" and "0 < fst (payload_at m)"
  shows "log_ok s'"
proof -
  obtain sq q os tr where f: "s' = s\<lparr>sim_sequence := sq, sim_queue := q, send_ordinals := os, sim_trace := sim_trace s @ tr\<rparr>"
    using assms(2) unfolding sent_def by (blast elim: core_frameE)
  show ?thesis
  proof (rule log_ok_frame[OF assms(1)])
    fix d assume "d \<in> set (sim_queue s')"
    then have "d \<in> set (sim_queue s) \<or> msg_payload (sd_message d) = m" using assms(2) unfolding sent_def by blast
    then show "d \<in> set (sim_queue s) \<or> 0 < fst (payload_at (msg_payload (sd_message d)))" using assms(3) by auto
  qed (simp_all add: f)
qed

lemma log_ok_states:
  assumes "log_ok s"
  shows "st_slot st = k \<Longrightarrow> log_ok (set_slot_state n k st s)" "log_ok (pop_slot_state n k s)" "log_ok (clear_slot_states n s)"
  using assms by (auto simp: log_ok_def states_ok_def update_conv' delete_conv' split: if_splits)

lemma log_ok_record [simp]: "log_ok (record_event ev s) = log_ok s"
  by (simp add: log_ok_def states_ok_def)

interpretation slotwise: slot_handlers k "kept k j t s0" for k j t s0
proof (unfold_locales, goal_cases)
  case (3 s ev)
  then show ?case by (auto simp: kept_def)
next
  case (4 s st n)
  then show ?case by (auto simp: kept_def log_ok_states slot_sim_other)
next
  case (5 s n)
  then show ?case by (auto simp: kept_def log_ok_states slot_sim_other)
next
  case (6 s n p)
  then have "log_ok (set_durable n (\<lambda>d. d\<lparr>pl_promised := AList.update k p (pl_promised d)\<rparr>) s)"
    by (intro log_ok_durable durable_ok_updates) (auto simp: kept_def log_ok_def)
  then show ?case using 6
    by (auto simp: kept_def durable_at_def update_conv' set_durable_def elim!: log_grows_frame intro: slot_sim_durable[unfolded set_durable_def])
next
  case (7 s n p v)
  let ?f = "\<lambda>d. d\<lparr>pl_promised := AList.update k p (pl_promised d), pl_accepted := AList.update k (SlotAcceptedValue k p v) (pl_accepted d),
     pl_history := (if SlotAcceptedValue k p v \<in> set (pl_history d) then pl_history d else pl_history d @ [SlotAcceptedValue k p v])\<rparr>"
  have "log_ok (set_durable n ?f s)" using 7 by (intro log_ok_durable durable_ok_updates) (auto simp: kept_def log_ok_def)
  moreover have "log_grows s0 (set_durable n ?f s)" by (rule log_grows_frame[of s0 s]) (use 7 in \<open>auto simp: kept_def set_durable_def\<close>)
  moreover have "slot_sim j (set_durable n ?f s) t" if "j \<noteq> k"
    by (rule slot_sim_durable) (use 7 that in \<open>auto simp: kept_def durable_at_def update_conv'\<close>)
  ultimately show ?case using 7 by (simp add: kept_def)
next
  case (8 s n p v)
  let ?f = "\<lambda>d. d\<lparr>pl_learned := AList.update k (SlotLearnedDecision k p v) (pl_learned d)\<rparr>"
  have "log_ok (set_durable n ?f s)" using 8 by (intro log_ok_durable durable_ok_updates) (auto simp: kept_def log_ok_def)
  moreover have "log_grows s0 (set_durable n ?f s)"
    using 8 by (fastforce simp: kept_def log_grows_def set_durable_def update_conv')
  moreover have "slot_sim j (set_durable n ?f s) t" if "j \<noteq> k"
    by (rule slot_sim_durable) (use 8 that in \<open>auto simp: kept_def durable_at_def update_conv'\<close>)
  ultimately show ?case using 8 by (simp add: kept_def)
next
  case (9 s x p v)
  let ?s = "s\<lparr>pl_chosen := AList.update k (SlotLearnedDecision k p v) (pl_chosen s), pl_chosen_acceptors := x\<rparr>"
  have "log_ok ?s" using 9 by (auto simp: kept_def log_ok_def states_ok_def distinct_update dest!: update_entry)
  moreover have "log_grows s0 ?s" using 9 by (fastforce simp: kept_def log_grows_def update_conv')
  ultimately show ?case using 9 slot_sim_other(3)[of j s t k] by (simp add: kept_def)
next
  case (10 s m n dst)
  show ?case
  proof (rule outcome_mono[OF sent_outcome])
    fix s' assume sent: "sent n dst m s s'"
    then have same: "pl_node_ids s' = pl_node_ids s" "pl_chosen s' = pl_chosen s" "persistent_state s' = persistent_state s"
      unfolding sent_def by (auto elim!: core_frameE)
    have "log_grows s0 s'" by (rule log_grows_frame[of s0 s]) (use 10(1) same in \<open>simp_all add: kept_def\<close>)
    moreover have "log_ok s'" by (rule log_ok_send[OF _ sent]) (use 10 in \<open>simp_all add: kept_def\<close>)
    moreover have "slot_sim j s' t" if "j \<noteq> k" by (rule slot_sim_send[OF _ sent]) (use 10 that in \<open>simp_all add: kept_def\<close>)
    ultimately show "kept k j t s0 s'" using 10(1) by (simp add: kept_def)
  qed simp
qed (auto simp: kept_def log_ok_def)

section \<open>Handlers keep the invariant and never raise\<close>

definition log_inv :: "'v paxos_log \<Rightarrow> bool" where
  "log_inv s \<longleftrightarrow> log_ok s \<and> (\<forall>k > 0. \<exists>t. slot_sim k s t \<and> paxos_inv t)"

definition log_good :: "'v paxos_log \<Rightarrow> 'v paxos_log \<Rightarrow> bool" where
  "log_good s s' \<longleftrightarrow> log_inv s' \<and> log_grows s s'"

lemma log_invE:
  assumes "log_inv s" and "0 < k"
  obtains t where "slot_sim k s t" and "paxos_inv t"
  using assms by (auto simp: log_inv_def)

lemma log_grows_refl [simp]: "log_grows s s"
  by (simp add: log_grows_def)

lemma log_grows_trans:
  assumes "log_grows s t" and "log_grows t u"
  shows "log_grows s u"
proof -
  have "set (pl_history (persistent_state s a)) \<subseteq> set (pl_history (persistent_state u a))" for a
    using assms unfolding log_grows_def by blast
  then show ?thesis using assms unfolding log_grows_def by simp
qed

lemma log_good_trans: "log_good s t \<Longrightarrow> log_good t u \<Longrightarrow> log_good s u"
  by (auto simp: log_good_def intro: log_grows_trans)

lemma log_good_record [simp]: "log_good s (record_event ev t) = log_good s t"
  by (simp add: log_good_def log_inv_def)

lemma slot_handler_good:
  assumes inv: "log_inv s" and k: "0 < k" and t: "slot_sim k s t" "paxos_inv t"
    and step: "sim_result k r r'" and ok: "outcome {} (good t) r'"
    and keeps: "\<And>j u. kept k j u s s \<Longrightarrow> outcome UNIV (kept k j u s) r"
  shows "outcome {} (log_good s) r"
proof -
  obtain t' where t': "r' = Inr t'" "good t t'" using ok by (auto simp: outcome_Inr_iff)
  then obtain s' where s': "r = Inr s'" "slot_sim k s' t'" using step by (auto simp: sim_result_Inr)
  have kept: "kept k j u s s'" if "j \<noteq> k \<longrightarrow> slot_sim j s u" for j u
    using keeps[of j u] that inv k s'(1) by (simp add: kept_def log_inv_def)
  have "\<exists>u. slot_sim j s' u \<and> paxos_inv u" if j: "0 < j" for j
  proof (cases "j = k")
    case True
    then show ?thesis using s'(2) goodD(1)[OF t'(2)] by blast
  next
    case False
    obtain u where u: "slot_sim j s u" "paxos_inv u" using log_invE[OF inv j] .
    then show ?thesis using kept[of j u] False by (auto simp: kept_def)
  qed
  then show ?thesis using kept[of k t] s'(1) by (simp add: kept_def log_good_def log_inv_def)
qed

lemma slot_sim_frame:
  assumes "slot_sim k s t" and "pl_node_ids s' = pl_node_ids s" "sim_handlers s' = sim_handlers s"
    "persistent_state s' = persistent_state s" "pl_proposals s' = pl_proposals s" "pl_chosen s' = pl_chosen s"
    "set (sim_queue s') \<subseteq> set (sim_queue s)"
  shows "slot_sim k s' t"
  using assms unfolding slot_sim_def by auto

lemma log_good_frame:
  assumes "log_good s0 s" and "pl_node_ids s' = pl_node_ids s" "sim_handlers s' = sim_handlers s"
    "persistent_state s' = persistent_state s" "pl_proposals s' = pl_proposals s" "pl_chosen s' = pl_chosen s"
    "set (sim_queue s') \<subseteq> set (sim_queue s)"
  shows "log_good s0 s'"
proof -
  have "log_ok s'" using assms by (intro log_ok_frame[of s s']) (auto simp: log_good_def log_inv_def)
  moreover have "\<exists>t. slot_sim k s' t \<and> paxos_inv t" if "0 < k" for k
    using assms that by (auto simp: log_good_def elim!: log_invE intro: slot_sim_frame)
  ultimately show ?thesis using assms by (simp add: log_good_def log_inv_def log_grows_def)
qed

definition log_message_ok :: "'v paxos_log \<Rightarrow> 'v log_msg message \<Rightarrow> bool" where
  "log_message_ok s m \<longleftrightarrow> msg_delivery_dst m = None \<and> msg_dst m \<in> set (sim_handlers s) \<and>
     0 < fst (payload_at (msg_payload m)) \<and>
     (\<exists>t. slot_sim (fst (payload_at (msg_payload m))) s t \<and> paxos_inv t \<and> msg_dst m \<in> set (px_node_ids t) \<and>
        payload_ok t (snd (payload_at (msg_payload m))))"

lemma queued_ok:
  assumes "log_inv s" and "d \<in> set (sim_queue s)"
  shows "log_message_ok s (sd_message d)"
proof -
  let ?m = "sd_message d"
  let ?k = "fst (payload_at (msg_payload ?m))"
  have k: "0 < ?k" using assms unfolding log_inv_def log_ok_def by blast
  obtain t where t: "slot_sim ?k s t" "paxos_inv t" using log_invE[OF assms(1) k] .
  then have "carried ?k t ?m" using assms(2) unfolding slot_sim_def by blast
  then obtain d' where "msg_delivery_dst ?m = None" "d' \<in> set (sim_queue t)"
    "msg_payload (sd_message d') = snd (payload_at (msg_payload ?m))" "msg_dst (sd_message d') = msg_dst ?m"
    unfolding carried_def by blast
  moreover have "sim_handlers t = sim_handlers s" using t(1) by (simp add: slot_sim_def)
  ultimately show ?thesis using paxos_invD(10)[OF t(2), of d'] t k by (auto simp: log_message_ok_def message_ok_def)
qed

lemma pl_handle_message_good:
  assumes inv: "log_inv s" and ok: "log_message_ok s m"
  shows "outcome {} (log_good s) (pl_handle_message n s m)"
proof -
  have self: "log_good s s" using inv by (simp add: log_good_def)
  obtain k where k: "fst (payload_at (msg_payload m)) = k" "0 < k" using ok by (simp add: log_message_ok_def)
  obtain t where t: "slot_sim k s t" "paxos_inv t" "msg_dst m \<in> set (px_node_ids t)" "payload_ok t (snd (payload_at (msg_payload m)))"
    using ok k unfolding log_message_ok_def by auto
  have so: "states_ok s" using inv by (simp add: log_inv_def log_ok_def)
  note run = slot_handler_good[OF inv k(2) t(1,2)]
  show ?thesis
  proof (cases "msg_dst m = n")
    case False
    then show ?thesis using self by (simp add: pl_handle_message_def log_reject_def)
  next
    case dst: True
    have n: "n \<in> set (px_node_ids t)" using dst t(3) by simp
    have "outcome {} (log_good s) (log_receive_prepare n k p q s)" if "q \<in> set (px_node_ids t)" for p q
      using prepare_step[OF t(1) k(2) so] receive_prepare_good[OF t(2) n that] slotwise.prepare_keeps by (rule run)
    moreover have "outcome {} (log_good s) (log_receive_promise n pr s)" if "sp_slot pr = k" "promise_ok t (promise_at pr)" for pr
      using promise_step[OF t(1) k(2) so that(1)] receive_promise_good[OF t(2) that(2)] slotwise.promise_keeps[OF _ that(1)]
      by (rule run)
    moreover have "outcome {} (log_good s) (log_receive_accept_request n k p q v s)"
      if "q = pn_proposer p" "(p, v) \<in> proposals t" for p q v
      using accept_request_step[OF t(1) k(2) so] receive_accept_request_good[OF t(2) that(2) n that(1)] slotwise.accept_request_keeps
      by (rule run)
    moreover have "outcome {} (log_good s) (log_receive_accepted n k p a v s)"
      if "a \<in> set (px_node_ids t)" "(p, v) \<in> px_votes t a" for p a v
      using accepted_step[OF t(1) k(2) so] receive_accepted_good[OF t(2) that(2,1)] slotwise.accepted_keeps by (rule run)
    moreover have "outcome {} (log_good s) (log_receive_learn n k p v s)" if "px_decided t p v" for p v
      using learn_step[OF t(1) k(2)] receive_learn_good[OF t(2) that] slotwise.learn_keeps by (rule run)
    ultimately show ?thesis using dst self k(1) t(4)
      by (cases "msg_payload m") (auto simp: pl_handle_message_def checked_source_def log_reject_def issued_member)
  qed
qed

section \<open>Starting a proposal, crash and restart\<close>

lemma round_good:
  assumes "paxos_inv t" and "px_last_round (persistent_state t n) \<le> rnd"
  shows "good t (set_durable n (\<lambda>d. d\<lparr>px_last_round := rnd\<rparr>) t)"
proof (rule good_same[OF assms(1)])
  show "acceptor_ok (persistent_state (set_durable n (\<lambda>d. d\<lparr>px_last_round := rnd\<rparr>) t) a)" for a
    using paxos_invD(3)[OF assms(1), of a] assms(2) by (auto simp: acceptor_ok_def split: option.splits)
qed (use assms(2) in \<open>auto simp: px_votes_def px_promises_def proposals_def started_def fun_eq_iff split: if_splits\<close>)

lemma log_new_round:
  fixes s :: "'v paxos_log" and v :: 'v
  assumes inv: "log_inv s" and k: "0 < k" and n: "n \<in> set (pl_node_ids s)" and rnd: "pl_last_round (persistent_state s n) < rnd"
  defines "s3 \<equiv> record_app (EvLogProposalStart k n (PN rnd n) v) (set_slot_state n k \<lparr>st_slot = k, st_proposal = PN rnd n, st_original = v,
      st_promises = [], st_accepted_by = {}, st_chosen_value = None, st_started = False\<rparr> (set_durable n (\<lambda>d. d\<lparr>pl_last_round := rnd\<rparr>) s))"
  shows "log_good s s3" "\<exists>t. slot_sim k s3 t \<and> paxos_inv t \<and> issued t (PN rnd n)"
proof -
  let ?st = "\<lparr>st_slot = k, st_proposal = PN rnd n, st_original = v,
      st_promises = [], st_accepted_by = {}, st_chosen_value = None, st_started = False\<rparr> :: 'v slot_state"
  let ?f = "\<lambda>d. d\<lparr>pl_last_round := rnd\<rparr> :: 'v log_durable"
  let ?g = "\<lambda>d. d\<lparr>px_last_round := rnd\<rparr> :: 'v paxos_durable"
  have dur: "slot_sim j (set_durable n ?f s) (set_durable n ?g u)" if "slot_sim j s u" for j u
    by (rule sim_durable[OF that]) (simp add: durable_at_def)
  have same: "\<exists>t. slot_sim k s3 t \<and> paxos_inv t \<and> issued t (PN rnd n)"
  proof -
    obtain t where t: "slot_sim k s t" "paxos_inv t" using log_invE[OF inv k] .
    let ?t = "record_app (EvProposalStart n (PN rnd n) v) (set_proposal n (Some (state_at ?st)) (set_durable n ?g t))"
    have sim: "slot_sim k s3 ?t" unfolding s3_def using sim_set_state[OF dur[OF t(1)]] by simp
    have "px_last_round (persistent_state t n) < rnd" "n \<in> set (px_node_ids t)" using sim_reads(2,9)[OF t(1)] rnd n by simp_all
    then have "paxos_inv ?t" using goodD(1)[OF new_round_good[OF t(2)]] by (simp add: state_at_def)
    moreover have "issued ?t (PN rnd n)" using \<open>n \<in> set (px_node_ids t)\<close> by (simp add: issued_def)
    ultimately show ?thesis using sim by blast
  qed
  show "\<exists>t. slot_sim k s3 t \<and> paxos_inv t \<and> issued t (PN rnd n)" by (rule same)
  have "\<exists>u. slot_sim j s3 u \<and> paxos_inv u" if j: "0 < j" "j \<noteq> k" for j
  proof -
    obtain u where u: "slot_sim j s u" "paxos_inv u" using log_invE[OF inv j(1)] .
    have "slot_sim j s3 (set_durable n ?g u)" unfolding s3_def using slot_sim_other(1)[OF dur[OF u(1)] j(2)] by simp
    moreover have "paxos_inv (set_durable n ?g u)" using goodD(1)[OF round_good[OF u(2)]] sim_reads(9)[OF u(1)] rnd by simp
    ultimately show ?thesis by blast
  qed
  moreover have "log_ok s3" unfolding s3_def log_ok_record
  proof (intro log_ok_states log_ok_durable)
    show "log_ok s" using inv by (simp add: log_inv_def)
    then have "durable_ok (persistent_state s n)" by (simp add: log_ok_def)
    then show "durable_ok ((persistent_state s n)\<lparr>pl_last_round := rnd\<rparr>)" using rnd by (simp add: durable_ok_def)
  qed simp
  moreover have "log_grows s s3" by (auto simp: s3_def log_grows_def)
  ultimately show "log_good s s3" using same unfolding log_good_def log_inv_def by metis
qed

lemma log_start_proposal_good:
  assumes inv: "log_inv s" and n: "n \<in> set (pl_node_ids s)"
  shows "outcome {PaxosError, PaxosProposalActive, ValueError} (\<lambda>(p, s'). log_good s s') (log_start_proposal n k v round_number s)"
proof -
  define rnd where "rnd = (case round_number of Some r \<Rightarrow> r | None \<Rightarrow> Max (set (known_rounds (persistent_state s n))) + 1)"
  define s3 where "s3 = record_app (EvLogProposalStart k n (PN rnd n) v) (set_slot_state n k \<lparr>st_slot = k, st_proposal = PN rnd n, st_original = v,
      st_promises = [], st_accepted_by = {}, st_chosen_value = None, st_started = False\<rparr> (set_durable n (\<lambda>d. d\<lparr>pl_last_round := rnd\<rparr>) s))"
  have run: "outcome {} (log_good s) (and_then (log_receive_prepare n k (PN rnd n) n s3) (pl_broadcast n (SlotPrepare k (PN rnd n) n)))"
    if k: "0 < k" and r: "pl_last_round (persistent_state s n) < rnd"
  proof -
    note new = log_new_round[OF inv k n r, of v, folded s3_def]
    obtain t where t: "slot_sim k s3 t" "paxos_inv t" "issued t (PN rnd n)" using new(2) by blast
    have inv3: "log_inv s3" using new(1) by (simp add: log_good_def)
    then have so: "states_ok s3" by (simp add: log_inv_def log_ok_def)
    have nt: "n \<in> set (px_node_ids t)" using issued_member[OF t(3)] by simp
    have "outcome {} (log_good s3) (and_then (log_receive_prepare n k (PN rnd n) n s3) (pl_broadcast n (SlotPrepare k (PN rnd n) n)))"
    proof (rule slot_handler_good[OF inv3 k t(1,2)])
      show "sim_result k (and_then (log_receive_prepare n k (PN rnd n) n s3) (pl_broadcast n (SlotPrepare k (PN rnd n) n)))
          (and_then (receive_prepare n (PN rnd n) n t) (px_broadcast n (Prepare (PN rnd n) n)))"
        using prepare_step[OF t(1) k so] by (rule sim_bind) (auto intro: sim_broadcast)
      show "outcome {} (good t) (and_then (receive_prepare n (PN rnd n) n t) (px_broadcast n (Prepare (PN rnd n) n)))"
        unfolding outcome_and_then
      proof (rule outcome_weaken[OF receive_prepare_good[OF t(2) nt nt]])
        fix t' assume g: "good t t'"
        then have "payload_ok t' (Prepare (PN rnd n) n)" using issued_stable[OF goodD(2)[OF g] t(3)] by simp
        from outcome_good_trans[OF g broadcast_good[OF goodD(1)[OF g] this]]
        show "outcome {} (good t) (px_broadcast n (Prepare (PN rnd n) n) t')" .
      qed
      show "outcome UNIV (kept k j u s3) (and_then (log_receive_prepare n k (PN rnd n) n s3) (pl_broadcast n (SlotPrepare k (PN rnd n) n)))"
        if "kept k j u s3 s3" for j u
        using slotwise.prepare_keeps[OF that] by (rule slotwise.outcome_bindI) (auto intro: slotwise.broadcast_keeps)
    qed
    then show ?thesis using log_good_trans[OF new(1)] by (rule outcome_weaken)
  qed
  then have finish: "outcome E (\<lambda>(p, s'). log_good s s') (and_then (log_receive_prepare n k (PN rnd n) n s3) (\<lambda>s4.
      and_then (pl_broadcast n (SlotPrepare k (PN rnd n) n) s4) (\<lambda>s5. Inr (PN rnd n, s5))))"
    if "0 < k" "pl_last_round (persistent_state s n) < rnd" for E
    using outcome_allow[OF run[OF that], of E] by (simp only: outcome_and_then outcome_simps case_prod_conv)
  have pn: "ProposalNumber rnd n = Inl ValueError \<or> ProposalNumber rnd n = Inr (PN rnd n)"
    by (simp add: ProposalNumber_def)
  show ?thesis
    unfolding log_start_proposal_def Let_def rnd_def[symmetric]
    using pn finish
    by (cases "rnd \<le> pl_last_round (persistent_state s n)"; cases "0 < k")
      (auto simp del: outcome_and_then simp add: make_slot_prepare_def require_slot_def simp flip: s3_def)
qed

lemma check_slot_history_ok:
  assumes "\<And>a v. a \<in> set items \<Longrightarrow> map_of seen (sa_slot a, sa_proposal a) = Some v \<Longrightarrow> v = sa_value a"
    and "\<And>a b. a \<in> set items \<Longrightarrow> b \<in> set items \<Longrightarrow> sa_slot a = sa_slot b \<Longrightarrow> sa_proposal a = sa_proposal b \<Longrightarrow> sa_value a = sa_value b"
  shows "check_slot_history seen items = Inr ()"
  using assms
proof (induction items arbitrary: seen)
  case Nil
  show ?case by (simp only: check_slot_history.simps)
next
  case (Cons x items)
  let ?seen = "AList.update (sa_slot x, sa_proposal x) (sa_value x) seen"
  have "check_slot_history ?seen items = Inr ()"
  proof (rule Cons.IH)
    show "v = sa_value a" if "a \<in> set items" "map_of ?seen (sa_slot a, sa_proposal a) = Some v" for a v
      using that Cons.prems(1)[of a] Cons.prems(2)[of x a] by (auto simp: update_conv split: if_splits)
    show "sa_value a = sa_value b" if "a \<in> set items" "b \<in> set items" "sa_slot a = sa_slot b" "sa_proposal a = sa_proposal b" for a b
      using that by (intro Cons.prems(2)) simp_all
  qed
  moreover have "map_of seen (sa_slot x, sa_proposal x) = None \<or> map_of seen (sa_slot x, sa_proposal x) = Some (sa_value x)"
    using Cons.prems(1)[of x] by (cases "map_of seen (sa_slot x, sa_proposal x)") simp_all
  ultimately show ?case by (auto simp: Let_def)
qed

lemma accepted_at_inj: "accepted_at a = accepted_at b \<Longrightarrow> sa_slot a = sa_slot b \<Longrightarrow> a = b"
  by (cases a, cases b) (simp add: accepted_at_def)

lemma log_durable_ok:
  assumes "log_inv s"
  shows "durable_ok (persistent_state s n)"
  using assms by (simp add: log_inv_def log_ok_def)

lemma log_history_values:
  assumes "log_inv s" and "a \<in> set (pl_history (persistent_state s n))" and "b \<in> set (pl_history (persistent_state s m))"
    and "sa_slot a = sa_slot b" and "sa_proposal a = sa_proposal b"
  shows "sa_value a = sa_value b"
proof -
  have "0 < sa_slot a" using log_durable_ok[OF assms(1), of n] assms(2) by (simp add: durable_ok_def)
  then obtain t where t: "slot_sim (sa_slot a) s t" "paxos_inv t" using log_invE[OF assms(1)] by blast
  then have "persistent_state t x = durable_at (sa_slot a) (persistent_state s x)" for x by (simp add: slot_sim_def)
  then have "accepted_at a \<in> set (px_history (persistent_state t n))" "accepted_at b \<in> set (px_history (persistent_state t m))"
    using assms(2-4) by (auto simp: durable_at_def)
  from history_values[OF t(2) this] show ?thesis using assms(5) by simp
qed

lemma log_accepted_entry:
  assumes "log_inv s" and "(k, a) \<in> set (pl_accepted (persistent_state s n))"
  shows "a \<in> set (pl_history (persistent_state s n))" "\<exists>b. map_of (pl_promised (persistent_state s n)) k = Some b \<and> sa_proposal a \<le> b"
proof -
  let ?d = "persistent_state s n"
  have k: "0 < k" "sa_slot a = k" and m: "map_of (pl_accepted ?d) k = Some a"
    using log_durable_ok[OF assms(1), of n] assms(2) by (auto simp: durable_ok_def)
  obtain t where t: "slot_sim k s t" "paxos_inv t" using log_invE[OF assms(1) k(1)] .
  have "acceptor_ok (durable_at k ?d)" using paxos_invD(3)[OF t(2), of n] t(1) by (simp add: slot_sim_def)
  then have h: "accepted_at a \<in> accepted_at ` {x \<in> set (pl_history ?d). sa_slot x = k}"
    and "\<exists>b. map_of (pl_promised ?d) k = Some b \<and> sa_proposal a \<le> b"
    by (auto simp: acceptor_ok_def durable_at_def m)
  then show "\<exists>b. map_of (pl_promised ?d) k = Some b \<and> sa_proposal a \<le> b" by blast
  from h show "a \<in> set (pl_history ?d)" using k(2) by (auto dest: accepted_at_inj)
qed

lemma for_each_unit: "(\<And>x. x \<in> set xs \<Longrightarrow> f x () = Inr ()) \<Longrightarrow> for_each f xs () = Inr ()"
  by (induction xs) auto

lemma validate_log_durable_ok:
  assumes "log_inv s"
  shows "validate_log_durable (persistent_state s n) = Inr ()"
proof -
  let ?d = "persistent_state s n"
  have "check_slot_history [] (pl_history ?d) = Inr ()"
  proof (rule check_slot_history_ok)
    show "sa_value a = sa_value b" if "a \<in> set (pl_history ?d)" "b \<in> set (pl_history ?d)" "sa_slot a = sa_slot b" "sa_proposal a = sa_proposal b" for a b
      using log_history_values[OF assms that] .
  qed simp
  moreover have "for_each (\<lambda>(slot, current) _.
          if current \<notin> set (pl_history ?d) then Inl PaxosSafetyViolation
          else case map_of (pl_promised ?d) slot of
                 Some promised \<Rightarrow> if sa_proposal current > promised then Inl PaxosSafetyViolation else Inr ()
               | None \<Rightarrow> Inr ()) (pl_accepted ?d) () = Inr ()"
  proof (rule for_each_unit, goal_cases)
    case (1 x)
    obtain k a where x: "x = (k, a)" by (cases x)
    with 1 show ?case using log_accepted_entry[OF assms, of k a n] by auto
  qed
  ultimately show ?thesis using log_durable_ok[OF assms, of n]
    by (auto simp: validate_log_durable_def durable_ok_def list_all_iff)
qed

lemma clear_good:
  assumes "log_inv s"
  shows "log_good s (clear_slot_states n s)"
proof -
  have "\<exists>t. slot_sim k (clear_slot_states n s) t \<and> paxos_inv t" if k: "0 < k" for k
  proof -
    obtain t where t: "slot_sim k s t" "paxos_inv t" using log_invE[OF assms k] .
    have "paxos_inv (set_proposal n None t)" using goodD(1)[OF set_proposal_good[OF t(2), of None n]] by simp
    then show ?thesis using sim_clear_states[OF t(1)] by blast
  qed
  then show ?thesis using assms log_ok_states(3) by (auto simp: log_good_def log_inv_def)
qed

lemma pl_handle_crash_good: "log_inv s \<Longrightarrow> outcome {} (log_good s) (pl_handle_crash n s)"
  by (simp add: pl_handle_crash_def Let_def clear_good)

lemma pl_handle_restart_good:
  assumes "log_inv s"
  shows "outcome {} (log_good s) (pl_handle_restart n s)"
proof -
  have "log_inv (clear_slot_states n s)" using clear_good[OF assms] by (simp add: log_good_def)
  from validate_log_durable_ok[OF this, of n] show ?thesis by (simp add: pl_handle_restart_def Let_def clear_good[OF assms])
qed

end
