(* ===== verification/Paxos_Log_Agreement.thy ===== *)
theory Paxos_Log_Agreement
  imports Paxos_Log_Safety
begin

text \<open>
  What the Paxos log guarantees over every behaviour of the simulated network: at most one value is
  decided per slot, decided slots never change, the prefixes learners expose are comparable, the
  harness checkpoint passes and the delivery loop ends without an exception.
\<close>

section \<open>Decided slots\<close>

definition slot_decided :: "'v paxos_log \<Rightarrow> int \<Rightarrow> proposal_number \<Rightarrow> 'v \<Rightarrow> bool" where
  "slot_decided s k p v \<longleftrightarrow> (\<exists>Q \<subseteq> set (pl_node_ids s). pl_quorum s \<le> card Q \<and>
     (\<forall>a \<in> Q. SlotAcceptedValue k p v \<in> set (pl_history (persistent_state s a))))"

lemma votes_at:
  assumes "slot_sim k s t"
  shows "(p, v) \<in> px_votes t a \<longleftrightarrow> SlotAcceptedValue k p v \<in> set (pl_history (persistent_state s a))"
proof -
  have "px_history (persistent_state t a) = map accepted_at (filter (\<lambda>a. sa_slot a = k) (pl_history (persistent_state s a)))"
    using assms by (simp add: slot_sim_def durable_at_def)
  then show ?thesis using history_mem[of k p v "pl_history (persistent_state s a)"] by (simp add: votes_iff accepted_at_def)
qed

lemma decided_at: "slot_sim k s t \<Longrightarrow> px_decided t p v \<longleftrightarrow> slot_decided s k p v"
  using sim_reads(1,2)[of k s t]
  by (simp add: px_decided_def chosen_at_def majority_def slot_decided_def votes_at px_quorum_def pl_quorum_def)

lemma slot_decided_agree:
  assumes "log_inv s" and "0 < k" and "slot_decided s k p v" and "slot_decided s k q w"
  shows "v = w"
proof -
  obtain t where "slot_sim k s t" "paxos_inv t" using log_invE[OF assms(1,2)] .
  then show ?thesis using decided_agree[of t p v q w] assms(3,4) by (simp add: decided_at)
qed

lemma learned_decided:
  assumes "log_inv s" and "map_of (pl_learned (persistent_state s n)) k = Some l"
  shows "0 < k" "sl_slot l = k" "slot_decided s k (sl_proposal l) (sl_value l)"
proof -
  show k: "0 < k" and "sl_slot l = k"
    using log_durable_ok[OF assms(1), of n] map_of_SomeD[OF assms(2)] by (auto simp: durable_ok_def)
  obtain t where t: "slot_sim k s t" "paxos_inv t" using log_invE[OF assms(1) k] .
  show "slot_decided s k (sl_proposal l) (sl_value l)"
    using paxos_invD(8)[OF t(2), of n "decision_at l"] sim_reads(7)[OF t(1), of n] assms(2) by (simp add: decided_at[OF t(1)])
qed

lemma chosen_decided:
  assumes "log_inv s" and "map_of (pl_chosen s) k = Some l"
  shows "0 < k" "slot_decided s k (sl_proposal l) (sl_value l)"
proof -
  show k: "0 < k" using assms(1) map_of_SomeD[OF assms(2)] by (auto simp: log_inv_def log_ok_def)
  obtain t where t: "slot_sim k s t" "paxos_inv t" using log_invE[OF assms(1) k] .
  show "slot_decided s k (sl_proposal l) (sl_value l)"
    using paxos_invD(9)[OF t(2), of "decision_at l"] sim_reads(8)[OF t(1)] assms(2) by (simp add: decided_at[OF t(1)])
qed

section \<open>The log as a protocol of the simulator\<close>

lemma log_message_ok_frame:
  assumes "log_message_ok s m" and "pl_node_ids s' = pl_node_ids s" "sim_handlers s' = sim_handlers s"
    "persistent_state s' = persistent_state s" "pl_proposals s' = pl_proposals s" "pl_chosen s' = pl_chosen s"
    "set (sim_queue s') \<subseteq> set (sim_queue s)"
  shows "log_message_ok s' m"
  using assms(1) slot_sim_frame[OF _ assms(2-7)] unfolding log_message_ok_def assms(3) by blast

lemma log_outcome_trans: "log_good s t \<Longrightarrow> outcome {} (log_good t) m \<Longrightarrow> outcome {} (log_good s) m"
  by (erule outcome_weaken) (rule log_good_trans)

lemma log_goodD: "log_good s s' \<Longrightarrow> log_inv s'" "log_good s s' \<Longrightarrow> log_grows s s'"
  by (simp_all add: log_good_def)

interpretation pl: protocol paxos_log_callbacks "{}" "log_good s0" log_message_ok for s0
proof (unfold_locales, goal_cases)
  case (1 s d q t)
  show ?case by (rule log_good_frame[OF 1(1)]) (auto simp: 1(2))
next
  case (2 s d q t)
  have "log_message_ok s (sd_message d)" by (rule queued_ok[OF log_goodD(1)[OF 2(1)]]) (simp add: 2(2))
  then show ?case by (rule log_message_ok_frame) (auto simp: 2(2))
next
  case (4 s m ev)
  show ?case by (rule log_message_ok_frame[OF 4(1)]) (simp_all add: record_event_def)
next
  case (9 s m)
  then show ?case by (auto simp: log_message_ok_def effective_dst_def)
next
  case (10 s m)
  from pl_handle_message_good[OF log_goodD(1)[OF 10(1)] 10(2)] show ?case
    unfolding paxos_log_callbacks_def callbacks.simps by (rule log_outcome_trans[OF 10(1)])
next
  case (11 s n)
  have "outcome {} (\<lambda>s. log_good s0 (s\<lparr>volatile_state := (volatile_state s)(n := None)\<rparr>)) (pl_handle_crash n s)"
    by (rule outcome_weaken[OF log_outcome_trans[OF 11 pl_handle_crash_good[OF log_goodD(1)[OF 11]]]])
      (erule log_good_frame; simp)
  then show ?case by (simp add: paxos_log_callbacks_def call_optional_def)
next
  case (12 s n)
  let ?t = "s\<lparr>volatile_state := (volatile_state s)(n := None)\<rparr>"
  have "log_good s0 ?t" by (rule log_good_frame[OF 12]) simp_all
  then have g: "log_good s0 (record_event (TRestart n) ?t)" by simp
  from log_outcome_trans[OF g pl_handle_restart_good[OF log_goodD(1)[OF g]]] show ?case
    by (simp add: paxos_log_callbacks_def call_optional_def)
qed (simp | (erule log_good_frame; simp))+

section \<open>Reachable states\<close>

inductive paxos_log_step :: "'v paxos_log \<Rightarrow> 'v paxos_log \<Rightarrow> bool" where
  network: "sim_step paxos_log_callbacks s s' \<Longrightarrow> paxos_log_step s s'"
| propose: "n \<in> set (pl_node_ids s) \<Longrightarrow> log_start_proposal n slot v round_number s = Inr (p, s') \<Longrightarrow> paxos_log_step s s'"

definition paxos_log_start :: "'v paxos_log \<Rightarrow> bool" where
  "paxos_log_start s \<longleftrightarrow> (\<exists>plan names ids. PaxosLogCluster (sim_init plan names (\<lambda>_. fresh_log)) ids = Inr s)"

definition paxos_log_reachable :: "'v paxos_log \<Rightarrow> bool" where
  "paxos_log_reachable s \<longleftrightarrow> (\<exists>s0. paxos_log_start s0 \<and> paxos_log_step\<^sup>*\<^sup>* s0 s)"

lemma log_cluster_inv:
  fixes s :: "'v paxos_log"
  assumes "PaxosLogCluster (sim_init plan names (\<lambda>_. fresh_log)) node_ids = Inr s"
  shows "log_inv s"
proof -
  let ?s0 = "simulator.extend (sim_init plan names (\<lambda>_. fresh_log)) (paxos_log.fields node_ids (\<lambda>_. []) [] [])"
  have d: "card (set node_ids) = length node_ids" and reg: "for_each sim_register node_ids ?s0 = Inr s"
    using assms
    by (auto simp: PaxosLogCluster_def Let_def and_then_eq_Inr split: if_splits dest!: for_each_skip)
  have ds: "persistent_state s = (\<lambda>_. fresh_log)" "sim_queue s = []" "pl_node_ids s = node_ids"
    "sim_handlers s = node_ids" "pl_proposals s = (\<lambda>_. [])" "pl_chosen s = []"
    using register_all[OF reg] by (auto simp: sim_init_def simulator.defs paxos_log.defs)
  let ?t = "simulator.extend (sim_init [] (\<lambda>_. []) (\<lambda>_. fresh_durable))
    (paxos.fields node_ids (\<lambda>_. None) None []) \<lparr>sim_handlers := node_ids\<rparr> :: 'v paxos"
  have "slot_sim k s ?t" for k
    by (simp add: slot_sim_def ds sim_init_def simulator.defs paxos.defs durable_at_def fresh_log_def fresh_durable_def)
  moreover have "paxos_inv ?t"
    using d card_distinct[of node_ids]
    by (auto simp: paxos_inv_def sim_init_def simulator.defs paxos.defs proposals_def phase_starts_def px_votes_def
        acceptor_ok_def fresh_durable_def)
  moreover have "log_ok s" by (simp add: log_ok_def states_ok_def ds durable_ok_def fresh_log_def)
  ultimately show ?thesis unfolding log_inv_def by blast
qed

lemma log_step_good: "paxos_log_step s s' \<Longrightarrow> log_inv s \<Longrightarrow> log_good s s'"
proof (induction rule: paxos_log_step.induct)
  case (network s s')
  then show ?case using pl.step_inv[of s s' s] by (simp add: log_good_def)
next
  case (propose n s slot v r p s')
  then show ?case using log_start_proposal_good[of s n slot v r] by auto
qed

lemma log_steps_good: "paxos_log_step\<^sup>*\<^sup>* s s' \<Longrightarrow> log_inv s \<Longrightarrow> log_good s s'"
proof (induction rule: rtranclp_induct)
  case base
  then show ?case by (simp add: log_good_def)
next
  case (step y z)
  then show ?case using log_good_trans log_step_good log_goodD(1) by blast
qed

lemma log_reachable_inv: "paxos_log_reachable s \<Longrightarrow> log_inv s"
  unfolding paxos_log_reachable_def paxos_log_start_def using log_cluster_inv log_steps_good log_goodD(1) by blast

lemma log_reachable_steps: "paxos_log_reachable s \<Longrightarrow> paxos_log_step\<^sup>*\<^sup>* s s' \<Longrightarrow> paxos_log_reachable s'"
  unfolding paxos_log_reachable_def by (meson rtranclp_trans)

lemma log_network_steps: "(sim_step paxos_log_callbacks)\<^sup>*\<^sup>* s s' \<Longrightarrow> paxos_log_step\<^sup>*\<^sup>* s s'"
  by (induction rule: rtranclp_induct) (auto intro: rtranclp.rtrancl_into_rtrancl paxos_log_step.network)

section \<open>The log falls silent\<close>

definition log_rank :: "'v log_msg \<Rightarrow> nat" where
  "log_rank m = paxos_rank (snd (payload_at m))"

lemma log_rank_simps [simp]:
  "log_rank (SlotPrepare k p n) = 4" "log_rank (SlotPromiseMsg pr) = 3" "log_rank (SlotAcceptRequest k p n v) = 2"
  "log_rank (SlotAccepted k p n v) = 1" "log_rank (SlotLearn k p n v) = 0"
  by (simp_all add: log_rank_def)

lemma emits_pl [simp]:
  "emits rank r s (set_slot_state n k st t) = emits rank r s t" "emits rank r s (pop_slot_state n k t) = emits rank r s t"
  "emits rank r s (clear_slot_states n t) = emits rank r s t"
  "emits rank r s (t\<lparr>pl_chosen := c, pl_chosen_acceptors := a\<rparr>) = emits rank r s t"
  by (simp_all add: emits_def sim_wf_def set_slot_state_def pop_slot_state_def clear_slot_states_def)

lemma log_learn_emits: "emits log_rank r s t \<Longrightarrow> outcome UNIV (emits log_rank r s) (log_receive_learn n k p v t)"
  by (auto simp: log_receive_learn_def slot_learned_decision_def require_slot_def make_slot_learned_def Let_def split: option.split)

lemma log_chosen_emits: "emits log_rank r s t \<Longrightarrow> outcome UNIV (emits log_rank r s) (log_record_chosen k p v A t)"
  by (auto simp: log_record_chosen_def make_slot_learned_def Let_def split: option.split)

lemma log_accepted_emits:
  assumes "1 \<le> r" and "emits log_rank r s t"
  shows "outcome UNIV (emits log_rank r s) (log_receive_accepted n k p a v t)"
  using assms
  by (auto simp: log_receive_accepted_def Let_def split: option.split
      intro!: outcome_weaken[OF log_chosen_emits[of r s]] outcome_weaken[OF log_learn_emits[of r s]]
        outcome_weaken[OF emits_broadcast[of log_rank _ r s]])

lemma log_accept_request_emits:
  assumes "2 \<le> r" and "emits log_rank r s t"
  shows "outcome UNIV (emits log_rank r s) (log_receive_accept_request n k p q v t)"
  using assms
  by (auto simp: log_receive_accept_request_def promised_proposal_def slot_accepted_value_def require_slot_def
      make_slot_accepted_def Let_def split: option.split intro!: log_accepted_emits emits_send)

lemma log_promise_emits:
  assumes "3 \<le> r" and "emits log_rank r s t"
  shows "outcome UNIV (emits log_rank r s) (log_receive_promise n pr t)"
proof -
  have sel: "outcome UNIV (\<lambda>_. True) (select_slot_value original accepted)" for original and accepted :: "'a slot_accepted list"
    by (cases "select_slot_value original accepted") auto
  show ?thesis
    using assms
    by (auto simp: log_receive_promise_def Let_def make_slot_accept_request_def split: option.split
        intro!: outcome_weaken[OF sel] outcome_weaken[OF log_accept_request_emits[of r s]] emits_broadcast)
qed

lemma log_prepare_emits:
  assumes "4 \<le> r" and "emits log_rank r s t"
  shows "outcome UNIV (emits log_rank r s) (log_receive_prepare n k p q t)"
  using assms
  by (auto simp: log_receive_prepare_def promised_proposal_def slot_accepted_value_def require_slot_def Let_def
      intro!: log_promise_emits emits_send)

lemma log_handle_message_emits:
  "outcome UNIV (emits log_rank (log_rank (msg_payload m)) s) (pl_handle_message n s m)"
  by (cases "msg_payload m")
    (auto simp: pl_handle_message_def checked_source_def log_reject_def
      intro!: log_prepare_emits log_promise_emits log_accept_request_emits log_accepted_emits log_learn_emits)

interpretation pl_quiet: silencing paxos_log_callbacks "\<lambda>_. True" log_rank
proof
  fix n s m s'
  assume "on_message paxos_log_callbacks n s m = Inr s'"
  then show "emits log_rank (log_rank (msg_payload m)) s s' \<and> True"
    using log_handle_message_emits[of m s n] by (simp add: paxos_log_callbacks_def)
qed (auto simp: paxos_log_callbacks_def call_optional_def pl_handle_crash_def pl_handle_restart_def Let_def
    and_then_eq_Inr)

section \<open>The exposed prefix\<close>

lemma prefix_from_nth:
  "i < length (prefix_from d k) \<Longrightarrow> map_of d (k + int i) = Some (prefix_from d k ! i)"
proof (induction d k arbitrary: i rule: prefix_from.induct)
  case (1 d k)
  show ?case
  proof (cases "map_of d k")
    case None
    then show ?thesis using "1.prems" by (simp add: prefix_from.simps[of d k])
  next
    case (Some x)
    have eq: "prefix_from d k = x # prefix_from d (k + 1)" using Some by (simp add: prefix_from.simps[of d k])
    show ?thesis using "1.IH"[OF Some, of "i - 1"] "1.prems" Some
      by (cases i) (simp_all add: eq algebra_simps)
  qed
qed

lemma prefix_from_stops: "map_of d (k + int (length (prefix_from d k))) = None"
proof (induction d k rule: prefix_from.induct)
  case (1 d k)
  show ?case
  proof (cases "map_of d k")
    case (Some x)
    have eq: "prefix_from d k = x # prefix_from d (k + 1)" using Some by (simp add: prefix_from.simps[of d k])
    show ?thesis using "1.IH"[OF Some] by (simp add: eq algebra_simps)
  qed (simp add: prefix_from.simps[of d k])
qed

lemma prefix_from_comparable:
  assumes "\<And>j x y. k \<le> j \<Longrightarrow> map_of d j = Some x \<Longrightarrow> map_of d' j = Some y \<Longrightarrow> f x = f y"
  shows "prefix (map f (prefix_from d k)) (map f (prefix_from d' k)) \<or> prefix (map f (prefix_from d' k)) (map f (prefix_from d k))"
  using assms
proof (induction d k rule: prefix_from.induct)
  case (1 d k)
  show ?case
  proof (cases "\<exists>x y. map_of d k = Some x \<and> map_of d' k = Some y")
    case True
    then obtain x y where xy: "map_of d k = Some x" "map_of d' k = Some y" by blast
    have "f x = f y" using "1.prems"[of k] xy by simp
    moreover have "prefix (map f (prefix_from d (k + 1))) (map f (prefix_from d' (k + 1))) \<or>
        prefix (map f (prefix_from d' (k + 1))) (map f (prefix_from d (k + 1)))"
    proof (rule "1.IH"[OF xy(1)])
      show "f x = f y" if "k + 1 \<le> j" "map_of d j = Some x" "map_of d' j = Some y" for j x y
        by (rule "1.prems"[OF _ that(2,3)]) (use that(1) in simp)
    qed
    ultimately show ?thesis using xy by (simp add: prefix_from.simps[of d k] prefix_from.simps[of d' k])
  next
    case False
    then have "prefix_from d k = [] \<or> prefix_from d' k = []"
      by (auto simp: prefix_from.simps[of d k] prefix_from.simps[of d' k] split: option.split)
    then show ?thesis by auto
  qed
qed

lemma prefix_from_grows:
  assumes "\<And>j x. map_of d j = Some x \<Longrightarrow> map_of d' j = Some x"
  shows "prefix (prefix_from d k) (prefix_from d' k)"
  using assms
proof (induction d k rule: prefix_from.induct)
  case (1 d k)
  show ?case
  proof (cases "map_of d k")
    case (Some x)
    then show ?thesis using "1.IH"[OF Some] "1.prems" "1.prems"[OF Some]
      by (simp add: prefix_from.simps[of d k] prefix_from.simps[of d' k])
  qed (simp add: prefix_from.simps[of d k])
qed

section \<open>The harness checkpoint\<close>

definition log_evidence_set :: "'v log_evidence list \<Rightarrow> (int \<times> proposal_number \<times> 'v \<times> string) set" where
  "log_evidence_set es = {(k, p, v, a). \<exists>A. (k, p, v, A) \<in> set es \<and> a \<in> A}"

definition log_keys :: "'v log_evidence list \<Rightarrow> (int \<times> proposal_number \<times> 'v) list" where
  "log_keys es = map (\<lambda>(k, p, v, A). (k, p, v)) es"

definition gathered :: "(int \<times> proposal_number \<times> 'v \<times> string) set \<Rightarrow> 'v log_gathered \<Rightarrow> bool" where
  "gathered H = (\<lambda>(es, pvs). distinct (log_keys es) \<and> log_evidence_set es = H \<and>
     (\<forall>(k, p, v) \<in> set pvs. \<exists>a. (k, p, v, a) \<in> H))"

lemma log_evidence_simps [simp]:
  "log_evidence_set [] = {}" "log_evidence_set ((k, p, v, A) # es) = {k} \<times> {p} \<times> {v} \<times> A \<union> log_evidence_set es"
  "log_keys [] = []" "log_keys ((k, p, v, A) # es) = (k, p, v) # log_keys es"
  by (auto simp: log_evidence_set_def log_keys_def)

lemma log_evidence_add [simp]:
  "log_evidence_set (add_log_evidence n a es) = insert (sa_slot a, sa_proposal a, sa_value a, n) (log_evidence_set es)"
  by (induction n a es rule: add_log_evidence.induct) auto

lemma log_keys_add: "set (log_keys (add_log_evidence n a es)) = insert (sa_slot a, sa_proposal a, sa_value a) (set (log_keys es))"
  by (induction n a es rule: add_log_evidence.induct) auto

lemma log_keys_distinct: "distinct (log_keys es) \<Longrightarrow> distinct (log_keys (add_log_evidence n a es))"
  by (induction n a es rule: add_log_evidence.induct) (auto simp: log_keys_add)

definition log_votes :: "'v paxos_log \<Rightarrow> string set \<Rightarrow> (int \<times> proposal_number \<times> 'v \<times> string) set" where
  "log_votes s N = {(k, p, v, n). n \<in> N \<and> SlotAcceptedValue k p v \<in> set (pl_history (persistent_state s n))}"

lemma gather_accepted_ok:
  assumes inv: "log_inv s" and g: "gathered H g" and sub: "H \<subseteq> log_votes s UNIV"
    and a: "a \<in> set (pl_history (persistent_state s n))"
  shows "outcome {} (gathered (insert (sa_slot a, sa_proposal a, sa_value a, n) H)) (gather_accepted n a g)"
proof -
  obtain es pvs where es: "g = (es, pvs)" by (cases g)
  let ?m = "List.map_filter (\<lambda>(slot, p, v). if slot = sa_slot a \<and> p = sa_proposal a then Some v else None) pvs"
  have one: "v = sa_value a" if v: "(sa_slot a, sa_proposal a, v) \<in> set pvs" for v
  proof -
    have "\<forall>(k, p, v) \<in> set pvs. \<exists>a. (k, p, v, a) \<in> H" using g by (simp add: gathered_def es)
    from bspec[OF this v] obtain m where "(sa_slot a, sa_proposal a, v, m) \<in> log_votes s UNIV" using sub by auto
    then have "SlotAcceptedValue (sa_slot a) (sa_proposal a) v \<in> set (pl_history (persistent_state s m))" by (simp add: log_votes_def)
    from log_history_values[OF inv this a] show ?thesis by simp
  qed
  have "(sa_slot a, sa_proposal a, v) \<in> set pvs" if "v \<in> set ?m" for v
    using that by (auto simp: List.map_filter_def split: if_splits)
  then have "v = sa_value a" if "v \<in> set ?m" for v using that one by blast
  then have m: "?m = [] \<or> hd ?m = sa_value a" using hd_in_set by blast
  then show ?thesis using g unfolding es gather_accepted_def gathered_def
    by (auto simp: Let_def log_keys_distinct)
qed

lemma gather_history_ok:
  assumes inv: "log_inv s" and "gathered H g" and "H \<subseteq> log_votes s UNIV" and "set as \<subseteq> set (pl_history (persistent_state s n))"
  shows "outcome {} (gathered (H \<union> {(k, p, v, m). m = n \<and> SlotAcceptedValue k p v \<in> set as})) (for_each (gather_accepted n) as g)"
  using assms(2-4)
proof (induction as arbitrary: H g)
  case (Cons a as)
  let ?H = "insert (sa_slot a, sa_proposal a, sa_value a, n) H"
  have sub: "?H \<subseteq> log_votes s UNIV" using Cons.prems(2,3) by (cases a) (auto simp: log_votes_def)
  have eq: "H \<union> {(k, p, v, m). m = n \<and> SlotAcceptedValue k p v \<in> set (a # as)} = ?H \<union> {(k, p, v, m). m = n \<and> SlotAcceptedValue k p v \<in> set as}"
    by (cases a) auto
  have "outcome {} (gathered ?H) (gather_accepted n a g)"
    using gather_accepted_ok[OF inv Cons.prems(1,2), of a n] Cons.prems(3) by simp
  then show ?case unfolding for_each.simps outcome_and_then eq
    by (rule outcome_weaken) (rule Cons.IH[OF _ sub], use Cons.prems(3) in simp_all)
next
  case Nil
  have "H \<union> {(k, p, v, m). m = n \<and> SlotAcceptedValue k p v \<in> set []} = H" by auto
  then show ?case using Nil by simp
qed

lemma gather_nodes_ok:
  assumes inv: "log_inv s"
  shows "outcome {} (gathered (log_votes s (set (pl_node_ids s)))) (for_each (gather_node s) (pl_node_ids s) ([], []))"
proof -
  have "outcome {} (gathered (H \<union> log_votes s (set ns))) (for_each (gather_node s) ns g)"
    if "gathered H g" "H \<subseteq> log_votes s UNIV" for ns H g
    using that
  proof (induction ns arbitrary: H g)
    case (Cons n ns)
    let ?H = "H \<union> {(k, p, v, m). m = n \<and> SlotAcceptedValue k p v \<in> set (pl_history (persistent_state s n))}"
    have sub: "?H \<subseteq> log_votes s UNIV" using Cons.prems(2) by (auto simp: log_votes_def)
    have eq: "H \<union> log_votes s (set (n # ns)) = ?H \<union> log_votes s (set ns)" by (auto simp: log_votes_def)
    have "outcome {} (gathered ?H) (gather_node s n g)"
      using gather_history_ok[OF inv Cons.prems, of "pl_history (persistent_state s n)" n]
      by (simp add: gather_node_def validate_log_durable_ok[OF inv])
    then show ?case unfolding for_each.simps outcome_and_then eq by (rule outcome_weaken) (rule Cons.IH[OF _ sub])
  next
    case Nil
    have "H \<union> log_votes s (set []) = H" by (auto simp: log_votes_def)
    then show ?case using Nil by simp
  qed
  from this[of "{}" "([], [])" "pl_node_ids s"] show ?thesis by (simp add: gathered_def)
qed

lemma evidence_acceptors:
  assumes "gathered (log_votes s (set (pl_node_ids s))) (es, pvs)" and "(k, p, v, A) \<in> set es"
  shows "A = {n \<in> set (pl_node_ids s). SlotAcceptedValue k p v \<in> set (pl_history (persistent_state s n))}"
proof -
  have "inj_on (\<lambda>(k, p, v, A). (k, p, v)) (set es)" using assms(1) unfolding gathered_def log_keys_def prod.case distinct_map by blast
  from inj_onD[OF this, of "(k, p, v, A)"] assms(2) have "B = A" if "(k, p, v, B) \<in> set es" for B using that by fastforce
  then have "x \<in> A \<longleftrightarrow> (k, p, v, x) \<in> log_evidence_set es" for x
    using assms(2) unfolding log_evidence_set_def mem_Collect_eq prod.case by metis
  then show ?thesis using assms(1) unfolding gathered_def log_votes_def prod.case by auto
qed

lemma evidence_decided:
  assumes "gathered (log_votes s (set (pl_node_ids s))) (es, pvs)" and "(k, p, v, A) \<in> set es" and "pl_quorum s \<le> card A"
  shows "slot_decided s k p v"
  using evidence_acceptors[OF assms(1,2)] assms(3) unfolding slot_decided_def by (intro exI[of _ A]) auto

lemma slot_decided_positive:
  assumes inv: "log_inv s" and dec: "slot_decided s k p v"
  shows "0 < k"
proof -
  obtain a where "SlotAcceptedValue k p v \<in> set (pl_history (persistent_state s a))"
    using dec maj.quorum_nonempty[of "pl_node_ids s"] unfolding slot_decided_def majority_def pl_quorum_def by (metis all_not_in_conv)
  then show ?thesis using log_durable_ok[OF inv, of a] by (force simp: durable_ok_def)
qed

lemma chosen_values_iff:
  assumes "gathered (log_votes s (set (pl_node_ids s))) (es, pvs)"
  shows "v \<in> set (chosen_values (pl_quorum s) es k) \<longleftrightarrow> (\<exists>p. slot_decided s k p v)"
proof -
  note A = evidence_acceptors[OF assms]
  show ?thesis
  proof
    assume "v \<in> set (chosen_values (pl_quorum s) es k)"
    then obtain p A where "(k, p, v, A) \<in> set es" "pl_quorum s \<le> card A" by (auto simp: chosen_values_def)
    then have "slot_decided s k p v" by (rule evidence_decided[OF assms])
    then show "\<exists>p. slot_decided s k p v" by blast
  next
    assume "\<exists>p. slot_decided s k p v"
    then obtain p Q where Q: "Q \<subseteq> set (pl_node_ids s)" "pl_quorum s \<le> card Q"
      "\<And>a. a \<in> Q \<Longrightarrow> SlotAcceptedValue k p v \<in> set (pl_history (persistent_state s a))" unfolding slot_decided_def by blast
    then obtain a where "a \<in> Q" using maj.quorum_nonempty[of "pl_node_ids s" Q] by (auto simp: majority_def pl_quorum_def)
    then have "(k, p, v, a) \<in> log_evidence_set es" using Q assms by (auto simp: gathered_def log_votes_def)
    then obtain B where B: "(k, p, v, B) \<in> set es" by (auto simp: log_evidence_set_def)
    have "Q \<subseteq> B" "finite B" using A[OF B] Q by auto
    then have "pl_quorum s \<le> card B" using Q(2) card_mono le_trans by blast
    with B show "v \<in> set (chosen_values (pl_quorum s) es k)" by (force simp: chosen_values_def)
  qed
qed

lemma prefixes_comparable:
  assumes "log_inv s"
  shows "prefix (prefix_values n s) (prefix_values m s) \<or> prefix (prefix_values m s) (prefix_values n s)"
  unfolding prefix_values_def learned_prefix_def
proof (rule prefix_from_comparable)
  fix j x y
  assume x: "map_of (pl_learned (persistent_state s n)) j = Some x" and y: "map_of (pl_learned (persistent_state s m)) j = Some y"
  show "sl_value x = sl_value y"
    by (rule slot_decided_agree[OF assms learned_decided(1)[OF assms x] learned_decided(3)[OF assms x] learned_decided(3)[OF assms y]])
qed

lemma take_common_prefix: "prefix xs ys \<or> prefix ys xs \<Longrightarrow> take (min (length xs) (length ys)) xs = take (min (length xs) (length ys)) ys"
  by (auto simp: prefix_def)

lemma log_checkpoint_ok:
  assumes inv: "log_inv s"
  shows "pl_checkpoint s = Inr ()"
proof -
  obtain es pvs where es: "for_each (gather_node s) (pl_node_ids s) ([], []) = Inr (es, pvs)"
    and g: "gathered (log_votes s (set (pl_node_ids s))) (es, pvs)"
    using gather_nodes_ok[OF inv] by (auto simp: outcome_Inr_iff)
  note iff = chosen_values_iff[OF g]
  have head: "require_chosen (pl_quorum s) es (k, l) () = Inr ()" if "0 < k" "slot_decided s k (sl_proposal l) (sl_value l)" for k l
  proof -
    let ?c = "chosen_values (pl_quorum s) es k"
    have "sl_value l \<in> set ?c" using iff that(2) by blast
    then have ne: "?c \<noteq> []" by (metis empty_iff list.set(1))
    then obtain p where "slot_decided s k p (hd ?c)" using iff hd_in_set[OF ne] by blast
    from slot_decided_agree[OF inv that(1) this that(2)] ne show ?thesis by (simp add: require_chosen_def Let_def)
  qed
  have "all_equal_to_head (chosen_values (pl_quorum s) es k)" for k
  proof (rule all_equal_to_headI)
    fix v w assume "v \<in> set (chosen_values (pl_quorum s) es k)" "w \<in> set (chosen_values (pl_quorum s) es k)"
    then obtain p q where pq: "slot_decided s k p v" "slot_decided s k q w" using iff by blast
    show "v = w" by (rule slot_decided_agree[OF inv slot_decided_positive[OF inv pq(1)] pq])
  qed
  then have "for_each (\<lambda>slot _. if \<not> all_equal_to_head (chosen_values (pl_quorum s) es slot)
      then Inl PaxosSafetyViolation else Inr ()) ks () = Inr ()" for ks by (intro for_each_unit) simp
  moreover have "for_each (require_chosen (pl_quorum s) es) (pl_learned (persistent_state s n)) () = Inr ()" for n
  proof (rule for_each_unit)
    fix x assume x: "x \<in> set (pl_learned (persistent_state s n))"
    then have "map_of (pl_learned (persistent_state s n)) (fst x) = Some (snd x)"
      using log_durable_ok[OF inv, of n] by (simp add: durable_ok_def)
    from head[OF learned_decided(1,3)[OF inv this]] show "require_chosen (pl_quorum s) es x () = Inr ()" by simp
  qed
  then have "for_each (\<lambda>n _. for_each (require_chosen (pl_quorum s) es) (pl_learned (persistent_state s n)) ()) ns () = Inr ()" for ns
    by (rule for_each_unit)
  moreover have "for_each (require_chosen (pl_quorum s) es) (pl_chosen s) () = Inr ()"
  proof (rule for_each_unit)
    fix x assume "x \<in> set (pl_chosen s)"
    then have "map_of (pl_chosen s) (fst x) = Some (snd x)" using inv by (simp add: log_inv_def log_ok_def)
    from head[OF chosen_decided[OF inv this]] show "require_chosen (pl_quorum s) es x () = Inr ()" by simp
  qed
  moreover have "for_each (\<lambda>left _. for_each (\<lambda>right _.
         (let l = prefix_values left s; r = prefix_values right s; common = min (length l) (length r)
          in if take common l \<noteq> take common r then Inl PaxosSafetyViolation else Inr ())) ns ()) ms () = Inr ()" for ns ms
  proof (intro for_each_unit)
    fix l r
    from take_common_prefix[OF prefixes_comparable[OF inv, of l r]]
    show "(let l = prefix_values l s; r = prefix_values r s; common = min (length l) (length r)
          in if take common l \<noteq> take common r then Inl PaxosSafetyViolation else Inr ()) = Inr ()" by (simp only: Let_def) simp
  qed
  ultimately show ?thesis unfolding pl_checkpoint_def es by simp
qed

section \<open>Example run\<close>

text \<open>A three-node log in which \<open>a\<close> decides 7 at slot 1, then \<open>b\<close> decides 8 at slot 2.\<close>

definition log_demo_sim :: "(int log_msg, int log_event, int log_durable, unit) simulator" where
  "log_demo_sim = sim_init [] (\<lambda>_. '''') (\<lambda>_. fresh_log)"

definition log_demo_start :: "int paxos_log" where
  "log_demo_start = projr (PaxosLogCluster log_demo_sim [''a'', ''b'', ''c''])"

definition log_demo_proposed :: "int paxos_log" where
  "log_demo_proposed = snd (projr (log_start_proposal ''a'' 1 7 None log_demo_start))"

definition log_demo_first :: "int paxos_log" where
  "log_demo_first = snd (projr (the (sim_run paxos_log_callbacks None log_demo_proposed)))"

definition log_demo_second :: "int paxos_log" where
  "log_demo_second = snd (projr (log_start_proposal ''b'' 2 8 None log_demo_first))"

lemma log_demo_ok:
  "\<not> isl (PaxosLogCluster log_demo_sim [''a'', ''b'', ''c''])"
  "\<not> isl (log_start_proposal ''a'' 1 7 None log_demo_start)"
  "(case sim_run paxos_log_callbacks None log_demo_proposed of Some (Inr _) \<Rightarrow> True | _ \<Rightarrow> False)"
  "\<not> isl (log_start_proposal ''b'' 2 8 None log_demo_first)"
  by code_simp+

lemma log_demo_ids: "pl_node_ids log_demo_start = [''a'', ''b'', ''c'']" "pl_node_ids log_demo_first = [''a'', ''b'', ''c'']"
  by code_simp+

lemma log_demo_values:
  "map sl_value (learned_prefix ''c'' log_demo_first) = [7]"
  "map_of (pl_chosen log_demo_first) 1 = Some (SlotLearnedDecision 1 (PN 1 ''a'') 7)"
  "map_of (pl_learned (persistent_state log_demo_first ''c'')) 1 = Some (SlotLearnedDecision 1 (PN 1 ''a'') 7)"
  "length (sim_queue log_demo_proposed) = 2" "length (sim_queue log_demo_second) = 2"
  by code_simp+

lemma log_propose_step:
  assumes "paxos_log_reachable s" and "n \<in> set (pl_node_ids s)" and "\<not> isl (log_start_proposal n slot v r s)"
  shows "paxos_log_step\<^sup>*\<^sup>* s (snd (projr (log_start_proposal n slot v r s)))"
proof -
  obtain p s' where "log_start_proposal n slot v r s = Inr (p, s')" using assms(3) by (cases "log_start_proposal n slot v r s") auto
  then show ?thesis using paxos_log_step.propose[OF assms(2)] by auto
qed

lemma log_demo_reachable:
  "paxos_log_reachable log_demo_proposed" "paxos_log_reachable log_demo_first" "paxos_log_step\<^sup>*\<^sup>* log_demo_first log_demo_second"
    "(sim_step paxos_log_callbacks)\<^sup>*\<^sup>* log_demo_proposed log_demo_first"
proof -
  have "PaxosLogCluster log_demo_sim [''a'', ''b'', ''c''] = Inr log_demo_start"
    unfolding log_demo_start_def using log_demo_ok(1) by simp
  then have start: "paxos_log_reachable log_demo_start"
    unfolding paxos_log_reachable_def paxos_log_start_def log_demo_sim_def by blast
  have "paxos_log_step\<^sup>*\<^sup>* log_demo_start log_demo_proposed"
    unfolding log_demo_proposed_def by (rule log_propose_step[OF start _ log_demo_ok(2)]) (simp add: log_demo_ids)
  then show p: "paxos_log_reachable log_demo_proposed" using log_reachable_steps[OF start] by blast
  obtain n where "run_loop paxos_log_callbacks None 0 log_demo_proposed = Some (Inr (n, log_demo_first))"
    using log_demo_ok(3) unfolding log_demo_first_def
    by (cases "sim_run paxos_log_callbacks None log_demo_proposed") (auto simp: sim_run_def split: sum.splits)
  then show r: "(sim_step paxos_log_callbacks)\<^sup>*\<^sup>* log_demo_proposed log_demo_first" by (rule run_loop_steps)
  show f: "paxos_log_reachable log_demo_first" using log_reachable_steps[OF p log_network_steps[OF r]] .
  show "paxos_log_step\<^sup>*\<^sup>* log_demo_first log_demo_second"
    unfolding log_demo_second_def by (rule log_propose_step[OF f _ log_demo_ok(4)]) (simp add: log_demo_ids)
qed

section \<open>Properties\<close>

definition slot_decisions :: "'v paxos_log \<Rightarrow> int \<Rightarrow> 'v slot_learned set" where
  "slot_decisions s k = {l. map_of (pl_chosen s) k = Some l \<or> (\<exists>n. map_of (pl_learned (persistent_state s n)) k = Some l)}"

lemma slot_decisions_decided: "log_inv s \<Longrightarrow> l \<in> slot_decisions s k \<Longrightarrow> 0 < k \<and> slot_decided s k (sl_proposal l) (sl_value l)"
  unfolding slot_decisions_def using learned_decided chosen_decided by blast

text \<open>A value is held by a majority at a slot when more than half of the configured nodes have its
  acceptance for the slot under one proposal number in their durable accept history.\<close>

definition log_majority :: "'v paxos_log \<Rightarrow> int \<Rightarrow> proposal_number \<Rightarrow> 'v \<Rightarrow> bool" where
  "log_majority s k p v \<longleftrightarrow> (\<exists>Q \<subseteq> set (pl_node_ids s). length (pl_node_ids s) < 2 * card Q \<and>
     (\<forall>a \<in> Q. SlotAcceptedValue k p v \<in> set (pl_history (persistent_state s a))))"

lemma log_majority_iff: "log_majority s k p v \<longleftrightarrow> slot_decided s k p v"
  unfolding log_majority_def slot_decided_def pl_quorum_def quorum_size_half ..

lemma log_majority_positive:
  assumes "log_inv s" and "log_majority s k p v"
  shows "0 < k"
proof -
  obtain Q where "length (pl_node_ids s) < 2 * card Q" "\<forall>a \<in> Q. SlotAcceptedValue k p v \<in> set (pl_history (persistent_state s a))"
    using assms(2) unfolding log_majority_def by blast
  moreover from this have "Q \<noteq> {}" by auto
  ultimately obtain a where "SlotAcceptedValue k p v \<in> set (pl_history (persistent_state s a))" by blast
  then show ?thesis using log_durable_ok[OF assms(1), of a] unfolding durable_ok_def by fastforce
qed

lemma log_majority_stable: "log_grows s s' \<Longrightarrow> log_majority s k p v \<Longrightarrow> log_majority s' k p v"
  unfolding log_majority_def log_grows_def by (metis subsetD)

lemma log_majority_unique:
  assumes "log_good s s'" and "log_majority s k p v" and "log_majority s' k q w"
  shows "v = w"
  using slot_decided_agree[OF log_goodD(1)[OF assms(1)] log_majority_positive[OF log_goodD(1)[OF assms(1)] assms(3)]]
    log_majority_stable[OF log_goodD(2)[OF assms(1)] assms(2)] assms(3) unfolding log_majority_iff by blast

text \<open>C9. Agreement of the Paxos log. Whatever the network drops, delays, duplicates or partitions,
  whichever nodes crash and restart and whichever proposals are started at whichever slots: if more
  than half of the nodes durably accepted a value at a slot under one proposal number and, then or at
  any later time, more than half durably accepted a value at that slot under some number, the two
  values are the same; everything recorded as chosen or learned for a slot is a value held by such a
  majority; so the decisions of a slot agree over time, and a slot once decided in the cluster's
  record or learned by a node keeps its decision.\<close>

theorem paxos_log_agreement:
  assumes "paxos_log_reachable s" and "paxos_log_step\<^sup>*\<^sup>* s s'"
  shows "(\<forall>p v p' v'. log_majority s k p v \<and> log_majority s' k p' v' \<longrightarrow> v = v') \<and>
    (\<forall>l \<in> slot_decisions s k. log_majority s k (sl_proposal l) (sl_value l)) \<and>
    slot_decisions s k \<subseteq> slot_decisions s' k \<and>
    (\<forall>l \<in> slot_decisions s k. \<forall>l' \<in> slot_decisions s' k. sl_value l = sl_value l')"
proof (intro conjI ballI allI impI)
  have inv: "log_inv s" by (rule log_reachable_inv[OF assms(1)])
  have good: "log_good s s'" by (rule log_steps_good[OF assms(2) inv])
  show "v = v'" if "log_majority s k p v \<and> log_majority s' k p' v'" for p v p' v'
    using that log_majority_unique[OF good] by blast
  have held: "log_majority t k (sl_proposal l) (sl_value l)" if "log_inv t" "l \<in> slot_decisions t k" for t :: "'a paxos_log" and l
    using slot_decisions_decided[OF that] by (simp add: log_majority_iff)
  show "log_majority s k (sl_proposal l) (sl_value l)" if "l \<in> slot_decisions s k" for l using held[OF inv that] .
  show "slot_decisions s k \<subseteq> slot_decisions s' k"
    using log_goodD(2)[OF good] unfolding slot_decisions_def log_grows_def by blast
  show "sl_value l = sl_value l'" if "l \<in> slot_decisions s k" "l' \<in> slot_decisions s' k" for l l'
    using log_majority_unique[OF good held[OF inv that(1)] held[OF log_goodD(1)[OF good] that(2)]] .
qed

theorem paxos_log_agreement_witness:
  "paxos_log_reachable log_demo_first \<and> paxos_log_step\<^sup>*\<^sup>* log_demo_first log_demo_second \<and>
   SlotLearnedDecision 1 (PN 1 ''a'') 7 \<in> slot_decisions log_demo_first 1 \<and>
   SlotLearnedDecision 1 (PN 1 ''a'') 7 \<in> slot_decisions log_demo_second 1 \<and>
   log_majority log_demo_first 1 (PN 1 ''a'') 7 \<and>
   {v. \<exists>p. log_majority log_demo_second 1 p v} \<subseteq> {7}"
proof -
  note agree = paxos_log_agreement[OF log_demo_reachable(2,3), of 1]
  have d: "SlotLearnedDecision 1 (PN 1 ''a'') 7 \<in> slot_decisions log_demo_first 1"
    using log_demo_values(2) by (simp add: slot_decisions_def)
  then have m: "log_majority log_demo_first 1 (PN 1 ''a'') 7" using bspec[OF conjunct1[OF conjunct2[OF agree]]] by force
  moreover have "\<forall>p v. log_majority log_demo_second 1 p v \<longrightarrow> v = 7" using conjunct1[OF agree] m by blast
  ultimately show ?thesis using d agree log_demo_reachable(2,3) by blast
qed

text \<open>C23. The ordered prefix a learner exposes. In every reachable state \<open>learned_prefix\<close> lists exactly
  the decisions of slots 1, 2, ... up to the first slot the node has not learned, its values and
  those of any node's prefix in any later state are comparable (one extends the other), and the
  prefix of one node only ever grows.\<close>

theorem learned_prefix_comparable:
  assumes "paxos_log_reachable s" and "paxos_log_step\<^sup>*\<^sup>* s s'"
  shows "map (\<lambda>l. Some l) (learned_prefix n s) =
      map (\<lambda>i. map_of (pl_learned (persistent_state s n)) (1 + int i)) [0..<length (learned_prefix n s)] \<and>
    map_of (pl_learned (persistent_state s n)) (1 + int (length (learned_prefix n s))) = None \<and>
    prefix (learned_prefix n s) (learned_prefix n s') \<and>
    (prefix (prefix_values n s) (prefix_values m s') \<or> prefix (prefix_values m s') (prefix_values n s))"
proof (intro conjI)
  have good: "log_good s s'" using log_steps_good[OF assms(2) log_reachable_inv[OF assms(1)]] .
  show "map (\<lambda>l. Some l) (learned_prefix n s) =
      map (\<lambda>i. map_of (pl_learned (persistent_state s n)) (1 + int i)) [0..<length (learned_prefix n s)]"
    by (rule nth_equalityI) (simp_all add: learned_prefix_def prefix_from_nth)
  show "map_of (pl_learned (persistent_state s n)) (1 + int (length (learned_prefix n s))) = None"
    unfolding learned_prefix_def by (rule prefix_from_stops)
  have mono: "prefix (learned_prefix n s) (learned_prefix n s')"
    unfolding learned_prefix_def by (rule prefix_from_grows) (use log_goodD(2)[OF good] in \<open>simp add: log_grows_def\<close>)
  show "prefix (learned_prefix n s) (learned_prefix n s')" by (rule mono)
  then have "prefix (prefix_values n s) (prefix_values n s')" by (simp add: prefix_values_def map_mono_prefix)
  moreover have "prefix (prefix_values n s') (prefix_values m s') \<or> prefix (prefix_values m s') (prefix_values n s')"
    by (rule prefixes_comparable[OF log_goodD(1)[OF good]])
  ultimately show "prefix (prefix_values n s) (prefix_values m s') \<or> prefix (prefix_values m s') (prefix_values n s)"
    by (meson prefix_order.trans prefix_same_cases)
qed

theorem learned_prefix_comparable_witness:
  "paxos_log_reachable log_demo_first \<and> prefix_values ''c'' log_demo_first = [7] \<and>
   prefix (learned_prefix ''c'' log_demo_first) (learned_prefix ''c'' log_demo_second)"
  using learned_prefix_comparable[OF log_demo_reachable(2,3), of "''c''" "''a''"] log_demo_reachable(2) log_demo_values(1)
  by (simp add: prefix_values_def)

text \<open>The harness of the Paxos log never reports a violation: in every reachable state each node's
  durable state validates, no slot and proposal number carry two values, at most one value per slot
  has a quorum of durable accepts, every learned and every recorded decision is that value, and the
  prefixes of any two nodes agree on their common length.\<close>

lemma paxos_log_checkpoint:
  assumes "paxos_log_reachable s"
  shows "pl_checkpoint s = Inr ()"
  using log_checkpoint_ok[OF log_reachable_inv[OF assms]] .

text \<open>C19. Slot-wise refinement. A log state that shows, at a slot, the state of a single-decree cluster
  handles a message for that slot exactly as that cluster's node does: both raise, or both return
  states related at the slot (durable promise, accepted value, history, decision and round,
  volatile proposal, objective record, and every queued message).\<close>

theorem log_refines_single_decree:
  assumes "slot_sim k s t" and "0 < k" and "states_ok s" and "fst (payload_at (msg_payload m)) = k"
    and "msg_src m \<in> set (pl_node_ids s)" and "msg_src m' = msg_src m" and "msg_dst m' = msg_dst m" 
    and "msg_payload m' = snd (payload_at (msg_payload m))"
  shows "sim_result k (pl_handle_message n s m) (px_handle_message n t m')"
proof (cases "msg_dst m = n \<and> (\<forall>name. msg_payload m \<noteq> ForeignLog name)")
  case False
  then show ?thesis
  proof (cases "msg_dst m = n")
    case True
    with False obtain name where f: "msg_payload m = ForeignLog name" by blast
    then have "msg_payload m' = Foreign name" using assms(4,8) by simp
    then show ?thesis using f True assms(7) by (simp add: pl_handle_message_def px_handle_message_def)
  qed (use assms(1,7) in \<open>simp add: pl_handle_message_def px_handle_message_def log_reject_def\<close>)
next
  case True
  then show ?thesis
    using assms prepare_step[OF assms(1-3)] promise_step[OF assms(1-3)] accept_request_step[OF assms(1-3)]
      accepted_step[OF assms(1-3)] learn_step[OF assms(1,2)]
    by (cases "msg_payload m")
      (auto simp: pl_handle_message_def px_handle_message_def checked_source_def log_reject_def reject_source_def)
qed

theorem log_refines_single_decree_witness:
  "\<exists>t. slot_sim 1 log_demo_proposed t \<and>
     sim_result 1 (pl_handle_message ''b'' log_demo_proposed (sd_message (hd (sim_queue log_demo_proposed))))
       (px_handle_message ''b'' t \<lparr>msg_src = ''a'', msg_dst = ''b'', msg_payload = Prepare (PN 1 ''a'') ''a'', msg_ordinal = 1,
          msg_delivery_dst = None\<rparr>)"
proof -
  let ?m = "sd_message (hd (sim_queue log_demo_proposed))"
  have inv: "log_inv log_demo_proposed" using log_reachable_inv[OF log_demo_reachable(1)] .
  then obtain t where t: "slot_sim 1 log_demo_proposed t" by (auto elim: log_invE[of _ 1])
  have "payload_at (msg_payload ?m) = (1, Prepare (PN 1 ''a'') ''a'')" "msg_src ?m = ''a''" "msg_dst ?m = ''b''"
    "''a'' \<in> set (pl_node_ids log_demo_proposed)" by code_simp+
  then have "sim_result 1 (pl_handle_message ''b'' log_demo_proposed ?m)
       (px_handle_message ''b'' t \<lparr>msg_src = ''a'', msg_dst = ''b'', msg_payload = Prepare (PN 1 ''a'') ''a'', msg_ordinal = 1,
          msg_delivery_dst = None\<rparr>)"
    using inv by (intro log_refines_single_decree[OF t]) (simp_all add: log_inv_def log_ok_def)
  with t show ?thesis by blast
qed

text \<open>Total correctness of running a log cluster: from every reachable state \<open>sim.run()\<close> returns, no
  handler raises, and the state reached is reachable with nothing left to deliver.\<close>

lemma paxos_log_run_total:
  assumes "paxos_log_reachable s"
  shows "\<exists>n s'. sim_run paxos_log_callbacks None s = Some (Inr (n, s')) \<and> paxos_log_reachable s' \<and> sim_queue s' = []"
proof -
  have self: "log_good s s" using log_reachable_inv[OF assms] by (simp add: log_good_def)
  obtain r where r: "run_loop paxos_log_callbacks None 0 s = Some r" using pl_quiet.run_loop_returns[OF TrueI] by blast
  then obtain n s' where "r = Inr (n, s')" using pl.run_loop_outcome[OF r self] by (auto simp: outcome_Inr_iff)
  with r have run: "run_loop paxos_log_callbacks None 0 s = Some (Inr (n, s'))" by simp
  then show ?thesis
    using run_loop_drains[OF run] log_reachable_steps[OF assms log_network_steps[OF run_loop_steps[OF run]]]
    by (simp add: sim_run_def)
qed

end
