(* ===== verification/MultiPaxos_Safety.thy ===== *)
theory MultiPaxos_Safety
  imports MultiPaxos Paxos_Log_Agreement
begin

text \<open>
  Safety of Multi-Paxos: the invariant that ties acceptor histories, the ballot-wide promises, leader
  state and messages of every slot to the ballot voting of \<open>Quorums\<close>, and its preservation by every
  handler and every client call. Nothing is assumed about how clients use a leader: the same slot
  may be proposed again under one ballot.
\<close>

section \<open>Abstraction to ballot voting\<close>

definition mp_votes :: "'v multipaxos \<Rightarrow> int \<Rightarrow> string \<Rightarrow> (proposal_number \<times> 'v) set" where
  "mp_votes s k a = {(p, v). SlotAcceptedValue k p v \<in> set (mp_history (persistent_state s a))}"

definition mp_promises :: "'v multipaxos \<Rightarrow> string \<Rightarrow> proposal_number option" where
  "mp_promises s a = mp_promised (persistent_state s a)"

definition mp_sound :: "'v multipaxos \<Rightarrow> int \<Rightarrow> proposal_number \<Rightarrow> 'v \<Rightarrow> bool" where
  "mp_sound s k p v = safe_at (majority (mp_node_ids s)) (mp_votes s k) (mp_promises s) p v"

definition mp_decided :: "'v multipaxos \<Rightarrow> int \<Rightarrow> proposal_number \<Rightarrow> 'v \<Rightarrow> bool" where
  "mp_decided s k p v = chosen_at (majority (mp_node_ids s)) (mp_votes s k) p v"

definition ballot_ok :: "string list \<Rightarrow> proposal_number \<Rightarrow> bool" where
  "ballot_ok ids b \<longleftrightarrow> 0 < pn_round b \<and> pn_proposer b \<in> set ids"

section \<open>The invariant\<close>

definition multi_acceptor_ok :: "string list \<Rightarrow> 'v multi_durable \<Rightarrow> bool" where
  "multi_acceptor_ok ids d \<longleftrightarrow>
     (\<forall>b. mp_promised d = Some b \<longrightarrow> ballot_ok ids b) \<and> 0 \<le> mp_last_round d \<and>
     (\<forall>x \<in> set (mp_history d). 0 < sa_slot x \<and> ballot_ok ids (sa_proposal x) \<and>
        (\<exists>m. mp_promised d = Some m \<and> sa_proposal x \<le> m)) \<and>
     (\<forall>x \<in> set (mp_history d). \<forall>y \<in> set (mp_history d).
        sa_slot x = sa_slot y \<longrightarrow> sa_proposal x = sa_proposal y \<longrightarrow> sa_value x = sa_value y) \<and>
     distinct (map fst (mp_accepted d)) \<and>
     (\<forall>(k, x) \<in> set (mp_accepted d). sa_slot x = k \<and> x \<in> set (mp_history d)) \<and>
     (\<forall>y \<in> set (mp_history d). \<exists>x. map_of (mp_accepted d) (sa_slot y) = Some x \<and> sa_proposal y \<le> sa_proposal x)"

definition mp_promise_ok :: "'v multipaxos \<Rightarrow> 'v leader_promise \<Rightarrow> bool" where
  "mp_promise_ok s pr \<longleftrightarrow> lp_acceptor pr \<in> set (mp_node_ids s) \<and>
     (\<forall>c < lp_ballot pr. beyond (mp_promises s (lp_acceptor pr)) c) \<and> distinct (map sa_slot (lp_accepted pr)) \<and>
     (\<forall>x \<in> set (lp_accepted pr). (sa_proposal x, sa_value x) \<in> mp_votes s (sa_slot x) (lp_acceptor pr) \<and>
        sa_proposal x \<le> lp_ballot pr) \<and>
     (\<forall>k c w. c < lp_ballot pr \<longrightarrow> (c, w) \<in> mp_votes s k (lp_acceptor pr) \<longrightarrow>
        (\<exists>x \<in> set (lp_accepted pr). sa_slot x = k \<and> c \<le> sa_proposal x))"

definition leader_ok :: "'v multipaxos \<Rightarrow> string \<Rightarrow> 'v multi_node \<Rightarrow> bool" where
  "leader_ok s n nd \<longleftrightarrow>
     (case mn_ballot nd of
        None \<Rightarrow> mn_promises nd = [] \<and> mn_pending nd = [] \<and> mn_accepted_by nd = []
      | Some b \<Rightarrow> ballot_ok (mp_node_ids s) b \<and> pn_proposer b = n \<and> distinct (map fst (mn_promises nd)) \<and>
          (\<forall>(a, pr) \<in> set (mn_promises nd). lp_acceptor pr = a \<and> lp_ballot pr = b \<and> mp_promise_ok s pr) \<and>
          (\<forall>k v. map_of (mn_pending nd) k = Some v \<longrightarrow> 0 < k \<and> mp_sound s k b v \<and>
             (\<exists>A. map_of (mn_accepted_by nd) k = Some A \<and> A \<subseteq> {a \<in> set (mp_node_ids s). (b, v) \<in> mp_votes s k a})))"

definition decision_ok :: "'v multipaxos \<Rightarrow> 'v slot_learned \<Rightarrow> bool" where
  "decision_ok s d \<longleftrightarrow> 0 < sl_slot d \<and> mp_decided s (sl_slot d) (sl_proposal d) (sl_value d)"

fun multi_payload_ok :: "'v multipaxos \<Rightarrow> 'v multi_msg \<Rightarrow> bool" where
  "multi_payload_ok s (LeaderPrepare b) \<longleftrightarrow> ballot_ok (mp_node_ids s) b"
| "multi_payload_ok s (LeaderPromiseMsg pr) \<longleftrightarrow> mp_promise_ok s pr"
| "multi_payload_ok s (LeaderAccept k b v) \<longleftrightarrow> 0 < k \<and> ballot_ok (mp_node_ids s) b \<and> mp_sound s k b v"
| "multi_payload_ok s (LeaderAccepted k b a v) \<longleftrightarrow> a \<in> set (mp_node_ids s) \<and> (b, v) \<in> mp_votes s k a"
| "multi_payload_ok s (LeaderDecision k b v) \<longleftrightarrow> decision_ok s (SlotLearnedDecision k b v)"
| "multi_payload_ok s (DecisionRecoveryRequest start) \<longleftrightarrow> True"
| "multi_payload_ok s (DecisionRecoveryResponse start ds) \<longleftrightarrow> (\<forall>d \<in> set ds. decision_ok s d)"
| "multi_payload_ok s (DecisionRecoveryRetry generation attempt) \<longleftrightarrow> True"
| "multi_payload_ok s (ForeignMulti name) \<longleftrightarrow> False"

definition multi_message_ok :: "'v multipaxos \<Rightarrow> 'v multi_msg message \<Rightarrow> bool" where
  "multi_message_ok s m \<longleftrightarrow> msg_delivery_dst m = None \<and> msg_dst m \<in> set (mp_node_ids s) \<and>
     set (mp_node_ids s) \<subseteq> set (sim_handlers s) \<and> multi_payload_ok s (msg_payload m)"

definition learned_ok :: "'v multipaxos \<Rightarrow> 'v multi_durable \<Rightarrow> bool" where
  "learned_ok s d \<longleftrightarrow> (\<forall>L. mp_learned d = Some L \<longrightarrow> distinct (map fst L) \<and>
     (\<forall>(k, l) \<in> set L. sl_slot l = k \<and> decision_ok s l))"

definition multi_inv :: "'v multipaxos \<Rightarrow> bool" where
  "multi_inv s \<longleftrightarrow> distinct (mp_node_ids s) \<and> set (mp_node_ids s) \<subseteq> set (sim_handlers s) \<and>
     (\<forall>a. multi_acceptor_ok (mp_node_ids s) (persistent_state s a)) \<and>
     (\<forall>a k p v. (p, v) \<in> mp_votes s k a \<longrightarrow> mp_sound s k p v) \<and>
     (\<forall>n. leader_ok s n (mp_nodes s n)) \<and> (\<forall>a. learned_ok s (persistent_state s a)) \<and>
     (\<forall>k l. map_of (mp_chosen s) k = Some l \<longrightarrow> sl_slot l = k \<and> decision_ok s l) \<and>
     (\<forall>d \<in> set (sim_queue s). multi_message_ok s (sd_message d))"

definition mp_evolves :: "'v multipaxos \<Rightarrow> 'v multipaxos \<Rightarrow> bool" where
  "mp_evolves s s' \<longleftrightarrow> mp_node_ids s' = mp_node_ids s \<and> sim_handlers s' = sim_handlers s \<and>
     (\<forall>k. acceptors_grow (mp_votes s k) (mp_promises s) (mp_votes s' k) (mp_promises s')) \<and>
     (\<forall>k l. map_of (mp_chosen s) k = Some l \<longrightarrow> map_of (mp_chosen s') k = Some l) \<and>
     (\<forall>n k l. multi_learned_decision n k s = Some l \<longrightarrow> multi_learned_decision n k s' = Some l)"

definition mgood :: "'v multipaxos \<Rightarrow> 'v multipaxos \<Rightarrow> bool" where
  "mgood s s' \<longleftrightarrow> multi_inv s' \<and> mp_evolves s s'"

section \<open>Stability\<close>

lemma mp_evolves_refl [simp]: "mp_evolves s s"
  by (simp add: mp_evolves_def)

lemma mp_evolves_trans: "mp_evolves s t \<Longrightarrow> mp_evolves t u \<Longrightarrow> mp_evolves s u"
  unfolding mp_evolves_def by (metis acceptors_grow_trans)

lemma mgood_refl: "multi_inv s \<Longrightarrow> mgood s s"
  by (simp add: mgood_def)

lemma mgood_trans: "mgood s t \<Longrightarrow> mgood t u \<Longrightarrow> mgood s u"
  by (auto simp: mgood_def intro: mp_evolves_trans)

lemma mgoodD: "mgood s s' \<Longrightarrow> multi_inv s'" "mgood s s' \<Longrightarrow> mp_evolves s s'"
  by (simp_all add: mgood_def)

lemma mgood_outcome: "mgood s t \<Longrightarrow> outcome E (mgood t) m \<Longrightarrow> outcome E (mgood s) m"
  by (erule outcome_weaken) (rule mgood_trans)

lemma multi_invD:
  assumes "multi_inv s"
  shows "distinct (mp_node_ids s)" "set (mp_node_ids s) \<subseteq> set (sim_handlers s)"
    "multi_acceptor_ok (mp_node_ids s) (persistent_state s a)" "(p, v) \<in> mp_votes s k a \<Longrightarrow> mp_sound s k p v"
    "leader_ok s n (mp_nodes s n)" "learned_ok s (persistent_state s a)"
    "map_of (mp_chosen s) k = Some l \<Longrightarrow> sl_slot l = k \<and> decision_ok s l"
    "d \<in> set (sim_queue s) \<Longrightarrow> multi_message_ok s (sd_message d)"
  using assms unfolding multi_inv_def by blast+

lemma mp_votes_iff: "(p, v) \<in> mp_votes s k a \<longleftrightarrow> SlotAcceptedValue k p v \<in> set (mp_history (persistent_state s a))"
  by (simp add: mp_votes_def)

lemma mp_vote_of: "x \<in> set (mp_history (persistent_state s a)) \<longleftrightarrow> (sa_proposal x, sa_value x) \<in> mp_votes s (sa_slot x) a"
  by (cases x) (simp add: mp_votes_def)

lemma multi_acceptorD:
  assumes "multi_acceptor_ok ids d"
  shows "mp_promised d = Some b \<Longrightarrow> ballot_ok ids b" "0 \<le> mp_last_round d"
    "x \<in> set (mp_history d) \<Longrightarrow> 0 < sa_slot x" "x \<in> set (mp_history d) \<Longrightarrow> ballot_ok ids (sa_proposal x)"
    "x \<in> set (mp_history d) \<Longrightarrow> \<exists>m. mp_promised d = Some m \<and> sa_proposal x \<le> m"
    "x \<in> set (mp_history d) \<Longrightarrow> y \<in> set (mp_history d) \<Longrightarrow> sa_slot x = sa_slot y \<Longrightarrow> sa_proposal x = sa_proposal y \<Longrightarrow> sa_value x = sa_value y"
    "distinct (map fst (mp_accepted d))" "(k, x) \<in> set (mp_accepted d) \<Longrightarrow> sa_slot x = k \<and> x \<in> set (mp_history d)"
    "y \<in> set (mp_history d) \<Longrightarrow> \<exists>x. map_of (mp_accepted d) (sa_slot y) = Some x \<and> sa_proposal y \<le> sa_proposal x"
  using assms unfolding multi_acceptor_ok_def by blast+

lemma multi_acceptor_ok_learned [simp]: "multi_acceptor_ok ids (d\<lparr>mp_learned := L\<rparr>) = multi_acceptor_ok ids d"
  by (cases d) (simp only: multi_acceptor_ok_def multi_durable.update_convs multi_durable.select_convs)

lemma multi_acceptor_ok_round:
  assumes "multi_acceptor_ok ids d" and "0 \<le> r"
  shows "multi_acceptor_ok ids (d\<lparr>mp_last_round := r\<rparr>)"
  using assms by (cases d) (simp only: multi_acceptor_ok_def multi_durable.update_convs multi_durable.select_convs, blast)

lemma multi_acceptor_ok_promised:
  assumes "multi_acceptor_ok ids d" and "ballot_ok ids b" and "\<forall>x \<in> set (mp_history d). sa_proposal x \<le> b"
  shows "multi_acceptor_ok ids (d\<lparr>mp_promised := Some b\<rparr>)"
  using assms unfolding multi_acceptor_ok_def
  by (cases d) (simp only: multi_durable.update_convs multi_durable.select_convs, elim conjE, intro conjI, simp_all only: option.inject, blast+)

lemma multi_one_vote:
  assumes "\<And>a. multi_acceptor_ok (mp_node_ids s) (persistent_state s a)"
  shows "one_vote (mp_votes s k)"
  using assms unfolding one_vote_def mp_votes_iff multi_acceptor_ok_def by fastforce

lemma mp_decided_stable: "mp_evolves s s' \<Longrightarrow> mp_decided s k p v \<Longrightarrow> mp_decided s' k p v"
  unfolding mp_decided_def mp_evolves_def by (metis chosen_at_stable)

lemma decision_ok_stable: "mp_evolves s s' \<Longrightarrow> decision_ok s d \<Longrightarrow> decision_ok s' d"
  by (auto simp: decision_ok_def intro: mp_decided_stable)

lemma mp_votes_stable: "mp_evolves s s' \<Longrightarrow> x \<in> mp_votes s k a \<Longrightarrow> x \<in> mp_votes s' k a"
  unfolding mp_evolves_def acceptors_grow_def by blast

lemma mp_sound_stable:
  assumes "mp_evolves s s'" and "\<And>a. multi_acceptor_ok (mp_node_ids s') (persistent_state s' a)" and "mp_sound s k p v"
  shows "mp_sound s' k p v"
proof -
  have "acceptors_grow (mp_votes s k) (mp_promises s) (mp_votes s' k) (mp_promises s')" "mp_node_ids s' = mp_node_ids s"
    using assms(1) by (simp_all add: mp_evolves_def)
  from safe_at_stable[OF this(1) multi_one_vote[OF assms(2)]] assms(3) this(2) show ?thesis by (simp add: mp_sound_def)
qed

lemma mp_promise_ok_stable:
  assumes ev: "mp_evolves s s'" and ok: "mp_promise_ok s pr"
  shows "mp_promise_ok s' pr"
proof -
  let ?a = "lp_acceptor pr"
  have ids: "mp_node_ids s' = mp_node_ids s" using ev by (simp add: mp_evolves_def)
  have grow: "acceptors_grow (mp_votes s k) (mp_promises s) (mp_votes s' k) (mp_promises s')" for k
    using ev by (simp add: mp_evolves_def)
  have beyond: "beyond (mp_promises s ?a) c" if "c < lp_ballot pr" for c using ok that by (simp add: mp_promise_ok_def)
  have old: "(c, w) \<in> mp_votes s k ?a" if "c < lp_ballot pr" "(c, w) \<in> mp_votes s' k ?a" for k c w
    using grow[of k] beyond[OF that(1)] that(2) unfolding acceptors_grow_def by blast
  have "beyond (mp_promises s' ?a) c" if "c < lp_ballot pr" for c
    using grow beyond[OF that] unfolding acceptors_grow_def by blast
  moreover have "(sa_proposal x, sa_value x) \<in> mp_votes s' (sa_slot x) ?a \<and> sa_proposal x \<le> lp_ballot pr" if "x \<in> set (lp_accepted pr)" for x
    using ok that mp_votes_stable[OF ev] unfolding mp_promise_ok_def by blast
  ultimately show ?thesis using ok old unfolding mp_promise_ok_def ids by blast
qed

lemma leader_okD:
  assumes "leader_ok s n nd" and "mn_ballot nd = Some b"
  shows "ballot_ok (mp_node_ids s) b" "pn_proposer b = n" "distinct (map fst (mn_promises nd))"
    "(a, pr) \<in> set (mn_promises nd) \<Longrightarrow> lp_acceptor pr = a \<and> lp_ballot pr = b \<and> mp_promise_ok s pr"
    "map_of (mn_pending nd) k = Some v \<Longrightarrow> 0 < k \<and> mp_sound s k b v \<and>
       (\<exists>A. map_of (mn_accepted_by nd) k = Some A \<and> A \<subseteq> {a \<in> set (mp_node_ids s). (b, v) \<in> mp_votes s k a})"
  using assms by (auto simp: leader_ok_def)

lemma leader_ok_stable:
  assumes ev: "mp_evolves s s'" and acc: "\<And>a. multi_acceptor_ok (mp_node_ids s') (persistent_state s' a)" and ok: "leader_ok s n nd"
  shows "leader_ok s' n nd"
proof (cases "mn_ballot nd")
  case (Some b)
  have ids: "mp_node_ids s' = mp_node_ids s" using ev by (simp add: mp_evolves_def)
  have "0 < k \<and> mp_sound s' k b v \<and> (\<exists>A. map_of (mn_accepted_by nd) k = Some A \<and> A \<subseteq> {a \<in> set (mp_node_ids s'). (b, v) \<in> mp_votes s' k a})"
    if "map_of (mn_pending nd) k = Some v" for k v
  proof -
    obtain A where A: "0 < k" "mp_sound s k b v" "map_of (mn_accepted_by nd) k = Some A" "A \<subseteq> {a \<in> set (mp_node_ids s). (b, v) \<in> mp_votes s k a}"
      using leader_okD(5)[OF ok Some \<open>map_of (mn_pending nd) k = Some v\<close>] by blast
    have "A \<subseteq> {a \<in> set (mp_node_ids s'). (b, v) \<in> mp_votes s' k a}"
      using A(4) by (auto simp: ids intro: mp_votes_stable[OF ev])
    then show ?thesis using mp_sound_stable[OF ev acc A(2)] A(1,3) by blast
  qed
  moreover have "\<forall>(a, pr) \<in> set (mn_promises nd). lp_acceptor pr = a \<and> lp_ballot pr = b \<and> mp_promise_ok s' pr"
    using leader_okD(4)[OF ok Some] mp_promise_ok_stable[OF ev] by blast
  ultimately show ?thesis using leader_okD(1,2,3)[OF ok Some] Some by (simp add: leader_ok_def ids)
qed (use ok in \<open>simp add: leader_ok_def\<close>)

lemma multi_payload_ok_stable:
  assumes ev: "mp_evolves s s'" and acc: "\<And>a. multi_acceptor_ok (mp_node_ids s') (persistent_state s' a)" and "multi_payload_ok s p"
  shows "multi_payload_ok s' p"
proof -
  have "mp_node_ids s' = mp_node_ids s" using ev by (simp add: mp_evolves_def)
  then show ?thesis
    using assms(3) mp_sound_stable[OF ev acc] mp_promise_ok_stable[OF ev] mp_votes_stable[OF ev] decision_ok_stable[OF ev]
    by (cases p) auto
qed

lemma multi_message_ok_stable:
  assumes ev: "mp_evolves s s'" and acc: "\<And>a. multi_acceptor_ok (mp_node_ids s') (persistent_state s' a)" and "multi_message_ok s m"
  shows "multi_message_ok s' m"
  using assms(3) multi_payload_ok_stable[OF ev acc] ev by (auto simp: multi_message_ok_def mp_evolves_def)

lemma learned_ok_stable: "mp_evolves s s' \<Longrightarrow> learned_ok s d \<Longrightarrow> learned_ok s' d"
  unfolding learned_ok_def by (fastforce intro: decision_ok_stable)

text \<open>A step keeps the invariant when what it adds is justified.\<close>

lemma multi_inv_evolves:
  assumes inv: "multi_inv s" and ev: "mp_evolves s s'"
    and acc: "\<And>a. multi_acceptor_ok (mp_node_ids s) (persistent_state s' a)"
    and votes: "\<And>a k p v. (p, v) \<in> mp_votes s' k a \<Longrightarrow> (p, v) \<in> mp_votes s k a \<or> mp_sound s k p v"
    and nodes: "\<And>n. leader_ok s n (mp_nodes s' n) \<or> leader_ok s' n (mp_nodes s' n)"
    and learned: "\<And>a. learned_ok s (persistent_state s' a)"
    and chosen: "\<And>k l. map_of (mp_chosen s') k = Some l \<Longrightarrow> sl_slot l = k \<and> decision_ok s l"
    and queue: "\<And>d. d \<in> set (sim_queue s') \<Longrightarrow> d \<in> set (sim_queue s) \<or> multi_message_ok s' (sd_message d)"
  shows "mgood s s'"
proof -
  have ids: "mp_node_ids s' = mp_node_ids s" "sim_handlers s' = sim_handlers s" using ev by (simp_all add: mp_evolves_def)
  have acc': "multi_acceptor_ok (mp_node_ids s') (persistent_state s' a)" for a using acc by (simp add: ids)
  have "mp_sound s' k p v" if "(p, v) \<in> mp_votes s' k a" for a k p v
    using votes[OF that] multi_invD(4)[OF inv] mp_sound_stable[OF ev acc'] by blast
  moreover have "leader_ok s' n (mp_nodes s' n)" for n using nodes[of n] leader_ok_stable[OF ev acc'] by blast
  moreover have "learned_ok s' (persistent_state s' a)" for a using learned_ok_stable[OF ev learned] .
  moreover have "sl_slot l = k \<and> decision_ok s' l" if "map_of (mp_chosen s') k = Some l" for k l
    using chosen[OF that] decision_ok_stable[OF ev] by blast
  moreover have "multi_message_ok s' (sd_message d)" if "d \<in> set (sim_queue s')" for d
    using queue[OF that] multi_invD(8)[OF inv] multi_message_ok_stable[OF ev acc'] by blast
  ultimately have "multi_inv s'"
    using multi_invD(1,2)[OF inv] acc' unfolding multi_inv_def ids by blast
  with ev show ?thesis by (simp add: mgood_def)
qed

lemma multi_agree:
  assumes inv: "multi_inv s" and "mp_decided s k p v" and "mp_decided s k q w"
  shows "v = w"
proof (rule maj.agreement)
  show "all_safe (majority (mp_node_ids s)) (mp_votes s k) (mp_promises s)"
    using multi_invD(4)[OF inv] unfolding all_safe_def mp_sound_def by blast
  show "one_vote (mp_votes s k)" using multi_one_vote multi_invD(3)[OF inv] by blast
qed (use assms(2,3) in \<open>simp_all add: mp_decided_def\<close>)

section \<open>Building blocks\<close>

lemma mp_record_simps [simp]:
  "mp_node_ids (record_event ev s) = mp_node_ids s" "mp_nodes (record_event ev s) = mp_nodes s"
  "mp_chosen (record_event ev s) = mp_chosen s" "mp_learn_decisions (record_event ev s) = mp_learn_decisions s"
  "mp_node_ids (set_durable n f s) = mp_node_ids s" "mp_nodes (set_durable n f s) = mp_nodes s"
  "mp_chosen (set_durable n f s) = mp_chosen s" "mp_learn_decisions (set_durable n f s) = mp_learn_decisions s"
  by (simp_all add: record_event_def set_durable_def)

lemma update_node_simps [simp]:
  "mp_node_ids (update_node n f s) = mp_node_ids s" "mp_chosen (update_node n f s) = mp_chosen s"
  "persistent_state (update_node n f s) = persistent_state s" "sim_queue (update_node n f s) = sim_queue s"
  "sim_handlers (update_node n f s) = sim_handlers s" "mp_learn_decisions (update_node n f s) = mp_learn_decisions s"
  "mp_nodes (update_node n f s) = (mp_nodes s)(n := f (mp_nodes s n))"
  by (simp_all add: update_node_def)

lemma mp_quorum_simps [simp]:
  "mp_quorum (record_event ev s) = mp_quorum s" "mp_quorum (update_node n f s) = mp_quorum s" "mp_quorum (set_durable n g s) = mp_quorum s"
  by (simp_all add: mp_quorum_def)

lemma mp_same_views:
  assumes "persistent_state s' = persistent_state s" and "mp_node_ids s' = mp_node_ids s"
  shows "mp_votes s' = mp_votes s" "mp_promises s' = mp_promises s" "mp_sound s' = mp_sound s" "mp_decided s' = mp_decided s"
    "mp_promise_ok s' = mp_promise_ok s" "decision_ok s' = decision_ok s" "leader_ok s' = leader_ok s" "learned_ok s' = learned_ok s"
    "multi_payload_ok s' = multi_payload_ok s"
proof -
  show v: "mp_votes s' = mp_votes s" "mp_promises s' = mp_promises s" using assms by (auto simp: mp_votes_def mp_promises_def fun_eq_iff)
  show d: "mp_sound s' = mp_sound s" "mp_decided s' = mp_decided s" by (intro ext, simp add: mp_sound_def mp_decided_def v assms)+
  show p: "mp_promise_ok s' = mp_promise_ok s" "decision_ok s' = decision_ok s"
    by (intro ext, simp add: mp_promise_ok_def decision_ok_def v d assms)+
  show "leader_ok s' = leader_ok s" "learned_ok s' = learned_ok s"
    by (intro ext, simp add: leader_ok_def learned_ok_def v d p assms cong: option.case_cong)+
  show "multi_payload_ok s' = multi_payload_ok s"
  proof
    fix m show "multi_payload_ok s' m = multi_payload_ok s m" by (cases m) (simp_all add: v d p assms)
  qed
qed

text \<open>A step that leaves durable state alone.\<close>

lemma mgood_core:
  assumes inv: "multi_inv s" and same: "persistent_state s' = persistent_state s" "mp_node_ids s' = mp_node_ids s" "sim_handlers s' = sim_handlers s"
    and nodes: "\<And>n. leader_ok s n (mp_nodes s' n)"
    and keep: "\<And>k l. map_of (mp_chosen s) k = Some l \<Longrightarrow> map_of (mp_chosen s') k = Some l"
    and chosen: "\<And>k l. map_of (mp_chosen s') k = Some l \<Longrightarrow> sl_slot l = k \<and> decision_ok s l"
    and queue: "\<And>d. d \<in> set (sim_queue s') \<Longrightarrow> d \<in> set (sim_queue s) \<or> multi_message_ok s (sd_message d)"
  shows "mgood s s'"
proof (rule multi_inv_evolves[OF inv])
  note views = mp_same_views[OF same(1,2)]
  show "mp_evolves s s'" using same keep by (simp add: mp_evolves_def views multi_learned_decision_def)
  show "d \<in> set (sim_queue s) \<or> multi_message_ok s' (sd_message d)" if "d \<in> set (sim_queue s')" for d
    using queue[OF that] by (simp add: multi_message_ok_def views same)
qed (use nodes chosen multi_invD(3,6)[OF inv] in \<open>auto simp: mp_same_views[OF same(1,2)] same\<close>)

lemma mgood_record: "multi_inv s \<Longrightarrow> mgood s (record_event ev s)"
  by (rule mgood_core) (auto simp: multi_invD)

lemma mgood_node: "multi_inv s \<Longrightarrow> leader_ok s n (f (mp_nodes s n)) \<Longrightarrow> mgood s (update_node n f s)"
  by (rule mgood_core) (auto simp: multi_invD)

lemma message_toI:
  assumes "multi_inv s" and "multi_payload_ok s p" and "msg_payload m = p" and "msg_dst m \<in> set (mp_node_ids s)" and "msg_delivery_dst m = None"
  shows "multi_message_ok s m"
  using assms multi_invD(2)[OF assms(1)] by (simp add: multi_message_ok_def)

lemma mgood_send:
  assumes "multi_inv s" and "multi_payload_ok s m" and "dst \<in> set (mp_node_ids s)"
  shows "outcome {} (mgood s) (send_msg n dst m s)"
proof (rule outcome_weaken[OF sent_outcome])
  fix s' assume sent: "sent n dst m s s'"
  then obtain sq q os tr where s': "s' = s\<lparr>sim_sequence := sq, sim_queue := q, send_ordinals := os, sim_trace := sim_trace s @ tr\<rparr>"
    unfolding sent_def by (blast elim: core_frameE)
  show "mgood s s'"
  proof (rule mgood_core[OF assms(1)])
    fix d assume "d \<in> set (sim_queue s')"
    then have "d \<in> set (sim_queue s) \<or> (msg_dst (sd_message d) = dst \<and> msg_payload (sd_message d) = m \<and> msg_delivery_dst (sd_message d) = None)"
      using sent unfolding sent_def by blast
    then show "d \<in> set (sim_queue s) \<or> multi_message_ok s (sd_message d)"
      using assms(3) message_toI[OF assms(1,2), of "sd_message d"] by auto
  qed (auto simp: s' multi_invD[OF assms(1)])
qed

lemma mgood_sends:
  assumes "multi_inv s" and "multi_payload_ok s m" and "set peers \<subseteq> set (mp_node_ids s)"
  shows "outcome {} (mgood s) (for_each (\<lambda>peer. send_msg n peer m) peers s)"
proof (rule outcome_for_each)
  show "mgood s s" using assms(1) by (rule mgood_refl)
next
  fix peer t assume "peer \<in> set peers" and t: "mgood s t"
  then have "peer \<in> set (mp_node_ids t)" using assms(3) mgoodD(2)[OF t] by (auto simp: mp_evolves_def)
  moreover have "multi_payload_ok t m"
    by (rule multi_payload_ok_stable[OF mgoodD(2)[OF t] multi_invD(3)[OF mgoodD(1)[OF t]] assms(2)])
  ultimately show "outcome {} (mgood s) (send_msg n peer m t)" using mgood_outcome[OF t mgood_send] mgoodD(1)[OF t] by blast
qed

lemma mgood_broadcast: "multi_inv s \<Longrightarrow> multi_payload_ok s m \<Longrightarrow> outcome {} (mgood s) (mp_broadcast n m s)"
  by (rule mgood_sends) (auto simp: mp_peers_def)

lemma mgood_schedule:
  assumes "multi_inv s" and "multi_message_ok s m"
  shows "mgood s (sim_schedule m dl s)"
  by (rule mgood_core[OF assms(1)]) (auto simp: sim_schedule_def Let_def record_event_def multi_invD[OF assms(1)] assms(2))

text \<open>Sequencing: the rest of a handler runs from a good state.\<close>

lemma mgood_bind:
  assumes "outcome E (mgood s) m" and "\<And>t. mgood s t \<Longrightarrow> outcome E (mgood t) (f t)"
  shows "outcome E (mgood s) (and_then m f)"
  using assms mgood_outcome by (cases m) fastforce+

lemma payload_after:
  assumes g: "mgood s t" and "multi_payload_ok s p"
  shows "multi_payload_ok t p"
  by (rule multi_payload_ok_stable[OF mgoodD(2)[OF g] multi_invD(3)[OF mgoodD(1)[OF g]] assms(2)])

section \<open>Evidence\<close>

lemma validate_ballot_ok: "ballot_ok (mp_node_ids s) b \<Longrightarrow> validate_ballot s b = Inr ()"
  by (simp add: validate_ballot_def ballot_ok_def)

lemma promised_ballot_ok: "multi_inv s \<Longrightarrow> promised_ballot n s = Inr (mp_promised (persistent_state s n))"
  using multi_invD(3)[of s n] by (auto simp: promised_ballot_def multi_acceptor_ok_def ballot_ok_def split: option.split)

lemma validate_accepted_ok:
  assumes "multi_inv s" and "x \<in> set (mp_history (persistent_state s n))"
  shows "validate_durable_accepted s n x = Inr ()"
proof -
  have "0 < sa_slot x" "ballot_ok (mp_node_ids s) (sa_proposal x)"
    and "\<exists>m. mp_promised (persistent_state s n) = Some m \<and> sa_proposal x \<le> m"
    using multi_invD(3)[OF assms(1), of n] assms(2) by (auto simp: multi_acceptor_ok_def)
  then show ?thesis by (auto simp: validate_durable_accepted_def validate_ballot_ok promised_ballot_ok[OF assms(1)])
qed

lemma count_evidence_ok:
  assumes "multi_inv s"
  shows "count_evidence s d n A = Inr (if (sl_proposal d, sl_value d) \<in> mp_votes s (sl_slot d) n then insert n A else A)"
proof -
  let ?xs = "filter (\<lambda>a. sa_slot a = sl_slot d \<and> sa_proposal a = sl_proposal d \<and> sa_value a = sl_value d) (mp_history (persistent_state s n))"
  have mem: "?xs \<noteq> [] \<longleftrightarrow> (sl_proposal d, sl_value d) \<in> mp_votes s (sl_slot d) n"
  proof -
    have "(sa_slot a = sl_slot d \<and> sa_proposal a = sl_proposal d \<and> sa_value a = sl_value d) \<longleftrightarrow> a = SlotAcceptedValue (sl_slot d) (sl_proposal d) (sl_value d)" for a
      by (cases a) auto
    then show ?thesis by (auto simp: filter_empty_conv mp_votes_iff)
  qed
  show ?thesis
  proof (cases ?xs)
    case Nil
    then show ?thesis using mem by (simp add: count_evidence_def)
  next
    case (Cons x xs)
    then have "x \<in> set ?xs" by simp
    then have "validate_durable_accepted s n x = Inr ()" by (intro validate_accepted_ok[OF assms]) simp
    then show ?thesis using Cons mem by (simp add: count_evidence_def)
  qed
qed

lemma evidence_found:
  assumes inv: "multi_inv s" and d: "decision_ok s d"
  shows "require_decision_evidence s d = Inr ()"
proof -
  let ?V = "{n. (sl_proposal d, sl_value d) \<in> mp_votes s (sl_slot d) n}"
  have "for_each (count_evidence s d) ns A = Inr (A \<union> (set ns \<inter> ?V))" for ns A
    by (induction ns arbitrary: A) (auto simp: count_evidence_ok[OF inv])
  moreover obtain Q where Q: "Q \<subseteq> set (mp_node_ids s)" "mp_quorum s \<le> card Q" "Q \<subseteq> ?V"
    using d unfolding decision_ok_def mp_decided_def chosen_at_def majority_def mp_quorum_def by blast
  then have "card Q \<le> card (set (mp_node_ids s) \<inter> ?V)" by (intro card_mono) auto
  moreover obtain a where "a \<in> Q" using Q maj.quorum_nonempty[of "mp_node_ids s" Q] by (auto simp: majority_def mp_quorum_def)
  then have "SlotAcceptedValue (sl_slot d) (sl_proposal d) (sl_value d) \<in> set (mp_history (persistent_state s a))"
    using Q(3) by (auto simp: mp_votes_iff)
  then have "ballot_ok (mp_node_ids s) (sl_proposal d)" using multi_invD(3)[OF inv, of a] by (force simp: multi_acceptor_ok_def)
  ultimately show ?thesis using d Q(2) by (simp add: require_decision_evidence_def validate_ballot_ok decision_ok_def)
qed

section \<open>Learning\<close>

lemma mp_decided_positive:
  assumes "multi_inv s" and "mp_decided s k p v"
  shows "0 < k"
proof -
  obtain a where "(p, v) \<in> mp_votes s k a"
    using maj.chosen_voted[of "mp_node_ids s" "mp_votes s k" p v] assms(2) by (auto simp: mp_decided_def)
  then show ?thesis using multi_acceptorD(3)[OF multi_invD(3)[OF assms(1)]] by (fastforce simp: mp_votes_iff)
qed

lemma learned_decisionD:
  assumes "multi_inv s" and "multi_learned_decision n k s = Some l"
  shows "sl_slot l = k" "decision_ok s l"
  using multi_invD(6)[OF assms(1), of n] assms(2) map_of_SomeD
  by (fastforce simp: learned_ok_def multi_learned_decision_def split: option.splits)+

lemma learned_agrees:
  assumes "multi_inv s" and "multi_learned_decision n (sl_slot d) s = Some l" and "decision_ok s d"
  shows "sl_value l = sl_value d"
  using learned_decisionD[OF assms(1,2)] assms(3) multi_agree[OF assms(1)] unfolding decision_ok_def by metis

lemma learn_good:
  assumes inv: "multi_inv s" and L: "mp_learned (persistent_state s n) = Some L" and none: "map_of L (sl_slot d) = None" and d: "decision_ok s d"
  shows "mgood s (set_durable n (\<lambda>x. x\<lparr>mp_learned := Some (AList.update (sl_slot d) d L)\<rparr>) s)" (is "mgood s ?s")
proof (rule multi_inv_evolves[OF inv])
  have same: "mp_votes ?s = mp_votes s" "mp_promises ?s = mp_promises s"
    by (auto simp: mp_votes_def mp_promises_def fun_eq_iff)
  show "mp_evolves s ?s"
    using L none by (auto simp: mp_evolves_def same multi_learned_decision_def update_conv')
  show "(p, v) \<in> mp_votes s k a \<or> mp_sound s k p v" if "(p, v) \<in> mp_votes ?s k a" for a k p v using that by (simp add: same)
  have "learned_ok s ((persistent_state s n)\<lparr>mp_learned := Some (AList.update (sl_slot d) d L)\<rparr>)"
    using multi_invD(6)[OF inv, of n] L d by (auto simp: learned_ok_def distinct_update dest!: update_entry)
  then show "learned_ok s (persistent_state ?s a)" for a using multi_invD(6)[OF inv, of a] by simp
  show "multi_acceptor_ok (mp_node_ids s) (persistent_state ?s a)" for a
    using multi_invD(3)[OF inv, of a] by auto
qed (use multi_invD(5,7)[OF inv] in auto)

lemma receive_decision_good:
  assumes inv: "multi_inv s" and d: "decision_ok s (SlotLearnedDecision k b v)"
  shows "outcome {} (mgood s) (receive_decision n k b v s)"
proof (cases "mp_learned (persistent_state s n)")
  case None
  then show ?thesis using mgood_record[OF inv] by (simp add: receive_decision_def)
next
  case (Some L)
  let ?d = "SlotLearnedDecision k b v"
  have k: "0 < k" using d by (simp add: decision_ok_def)
  have same: "sl_value l = v" if "map_of L k = Some l" for l
    using learned_agrees[OF inv _ d, of n l] that Some by (simp add: multi_learned_decision_def)
  show ?thesis
  proof (cases "map_of L k")
    case None
    have g: "mgood s (set_durable n (\<lambda>x. x\<lparr>mp_learned := Some (AList.update k ?d L)\<rparr>) s)"
      using learn_good[OF inv Some _ d] None by simp
    then show ?thesis using None Some k mgood_trans[OF g mgood_record[OF mgoodD(1)[OF g]]]
      by (simp add: receive_decision_def make_slot_learned_def evidence_found[OF inv d])
  next
    case (Some l)
    then show ?thesis using \<open>mp_learned (persistent_state s n) = Some L\<close> same[OF Some] k mgood_record[OF inv]
      by (simp add: receive_decision_def make_slot_learned_def evidence_found[OF inv d])
  qed
qed

lemma multi_record_chosen_good:
  assumes inv: "multi_inv s" and d: "decision_ok s (SlotLearnedDecision k b v)"
  shows "outcome {} (mgood s) (multi_record_chosen k b v s)"
proof (cases "map_of (mp_chosen s) k")
  case (Some l)
  then have "mp_decided s k (sl_proposal l) (sl_value l)" using multi_invD(7)[OF inv Some] by (auto simp: decision_ok_def)
  then have "sl_value l = v" using d multi_agree[OF inv] by (auto simp: decision_ok_def)
  then show ?thesis using Some mgood_refl[OF inv] by (simp add: multi_record_chosen_def)
next
  case None
  let ?s = "s\<lparr>mp_chosen := AList.update k (SlotLearnedDecision k b v) (mp_chosen s)\<rparr>"
  have g: "mgood s ?s"
    by (rule mgood_core[OF inv]) (use None d multi_invD(5,7)[OF inv] in \<open>auto simp: update_conv' split: if_splits\<close>)
  show ?thesis using None d mgood_trans[OF g mgood_record[OF mgoodD(1)[OF g]]]
    by (simp add: multi_record_chosen_def make_slot_learned_def decision_ok_def)
qed

section \<open>Phase 2\<close>

lemma leader_ok_update:
  assumes "leader_ok s n nd" and "mn_ballot nd' = mn_ballot nd" and "mn_promises nd' = mn_promises nd" and "mn_ballot nd = Some b"
    and "\<And>k v. map_of (mn_pending nd') k = Some v \<Longrightarrow> 0 < k \<and> mp_sound s k b v \<and>
       (\<exists>A. map_of (mn_accepted_by nd') k = Some A \<and> A \<subseteq> {a \<in> set (mp_node_ids s). (b, v) \<in> mp_votes s k a})"
  shows "leader_ok s n nd'"
  using leader_okD(1,2,3,4)[OF assms(1,4)] assms(2-5) unfolding leader_ok_def by auto

lemma accepted_quorum_decided:
  assumes "A \<subseteq> {a \<in> set (mp_node_ids s). (b, v) \<in> mp_votes s k a}" and "mp_quorum s \<le> card A"
  shows "mp_decided s k b v"
  using assms unfolding mp_decided_def chosen_at_def majority_def mp_quorum_def by blast

lemma multi_receive_accepted_good:
  assumes inv: "multi_inv s" and vote: "(b, v) \<in> mp_votes s k a" and a: "a \<in> set (mp_node_ids s)"
  shows "outcome {PaxosSafetyViolation} (mgood s) (multi_receive_accepted n k b a v s)"
proof (cases "0 < k \<and> map_of (mn_pending (mp_nodes s n)) k = Some v \<and> mn_ballot (mp_nodes s n) = Some b")
  case False
  then show ?thesis using mgood_refl[OF inv]
    by (auto simp: multi_receive_accepted_def Let_def split: option.split)
next
  case True
  let ?nd = "mp_nodes s n"
  note ok = multi_invD(5)[OF inv, of n]
  have b: "mn_ballot ?nd = Some b" and pend: "map_of (mn_pending ?nd) k = Some v" and k: "0 < k" using True by auto
  obtain A where A: "map_of (mn_accepted_by ?nd) k = Some A" "A \<subseteq> {a \<in> set (mp_node_ids s). (b, v) \<in> mp_votes s k a}"
    using leader_okD(5)[OF ok b pend] by blast
  let ?A = "insert a A"
  let ?f = "\<lambda>nd. nd\<lparr>mn_accepted_by := AList.update k ?A (mn_accepted_by nd)\<rparr> :: 'a multi_node"
  let ?g = "\<lambda>nd. nd\<lparr>mn_pending := AList.delete k (mn_pending nd), mn_accepted_by := AList.delete k (mn_accepted_by nd)\<rparr> :: 'a multi_node"
  have A': "?A \<subseteq> {a \<in> set (mp_node_ids s). (b, v) \<in> mp_votes s k a}" using A(2) vote a by blast
  have g1: "mgood s (update_node n ?f s)"
  proof (rule mgood_node[OF inv leader_ok_update[OF ok _ _ b]])
    show "0 < j \<and> mp_sound s j b w \<and> (\<exists>B. map_of (mn_accepted_by (?f ?nd)) j = Some B \<and> B \<subseteq> {a \<in> set (mp_node_ids s). (b, w) \<in> mp_votes s j a})"
      if "map_of (mn_pending (?f ?nd)) j = Some w" for j w
      using leader_okD(5)[OF ok b, of j w] that pend A' by (cases "j = k") (auto simp: update_conv')
  qed simp_all
  have step: "outcome {} (mgood (update_node n ?f s)) (and_then (multi_record_chosen k b v (update_node n ?f s)) (\<lambda>s2.
      if \<not> mp_learn_decisions (update_node n ?g s2) then Inr (update_node n ?g s2)
      else and_then (receive_decision n k b v (update_node n ?g s2)) (mp_broadcast n (LeaderDecision k b v))))"
    if "mp_quorum s \<le> card ?A"
  proof (rule mgood_bind)
    have "decision_ok s (SlotLearnedDecision k b v)" using accepted_quorum_decided[OF A' that] k by (simp add: decision_ok_def)
    then have d1: "decision_ok (update_node n ?f s) (SlotLearnedDecision k b v)" by (rule decision_ok_stable[OF mgoodD(2)[OF g1]])
    show "outcome {} (mgood (update_node n ?f s)) (multi_record_chosen k b v (update_node n ?f s))"
      by (rule multi_record_chosen_good[OF mgoodD(1)[OF g1] d1])
    fix s2 assume g2: "mgood (update_node n ?f s) s2"
    have ok2: "leader_ok s2 n (mp_nodes s2 n)" by (rule multi_invD(5)[OF mgoodD(1)[OF g2]])
    have g3: "mgood s2 (update_node n ?g s2)"
    proof (rule mgood_node[OF mgoodD(1)[OF g2]])
      show "leader_ok s2 n (?g (mp_nodes s2 n))"
      proof (cases "mn_ballot (mp_nodes s2 n)")
        case None
        then show ?thesis using ok2 by (simp add: leader_ok_def)
      next
        case (Some c)
        show ?thesis
        proof (rule leader_ok_update[OF ok2 _ _ Some])
          show "0 < j \<and> mp_sound s2 j c w \<and> (\<exists>B. map_of (mn_accepted_by (?g (mp_nodes s2 n))) j = Some B \<and>
              B \<subseteq> {a \<in> set (mp_node_ids s2). (c, w) \<in> mp_votes s2 j a})"
            if "map_of (mn_pending (?g (mp_nodes s2 n))) j = Some w" for j w
            using leader_okD(5)[OF ok2 Some, of j w] that by (cases "j = k") (auto simp: delete_conv')
        qed simp_all
      qed
    qed
    note inv3 = mgoodD(1)[OF g3]
    have d3: "decision_ok (update_node n ?g s2) (SlotLearnedDecision k b v)"
      by (rule decision_ok_stable[OF mgoodD(2)[OF mgood_trans[OF g2 g3]] d1])
    have "outcome {} (mgood (update_node n ?g s2)) (and_then (receive_decision n k b v (update_node n ?g s2)) (mp_broadcast n (LeaderDecision k b v)))"
    proof (rule mgood_bind[OF receive_decision_good[OF inv3 d3]])
      fix t assume t: "mgood (update_node n ?g s2) t"
      have "multi_payload_ok t (LeaderDecision k b v)" using payload_after[OF t, of "LeaderDecision k b v"] d3 by simp
      then show "outcome {} (mgood t) (mp_broadcast n (LeaderDecision k b v) t)" by (rule mgood_broadcast[OF mgoodD(1)[OF t]])
    qed
    from mgood_outcome[OF g3 this] g3
    show "outcome {} (mgood s2) (if \<not> mp_learn_decisions (update_node n ?g s2) then Inr (update_node n ?g s2)
      else and_then (receive_decision n k b v (update_node n ?g s2)) (mp_broadcast n (LeaderDecision k b v)))" by simp
  qed
  show ?thesis
  proof (cases "card ?A < mp_quorum s")
    case True
    then show ?thesis using g1 k pend b a A(1) by (simp add: multi_receive_accepted_def Let_def)
  next
    case False
    then have "mp_quorum s \<le> card ?A" by simp
    from outcome_allow[OF mgood_outcome[OF g1 step[OF this]], of "{PaxosSafetyViolation}"] show ?thesis
      using False k pend b a A(1) by (simp add: multi_receive_accepted_def Let_def del: outcome_and_then)
  qed
qed

definition accept_update :: "int \<Rightarrow> proposal_number \<Rightarrow> 'v \<Rightarrow> 'v multi_durable \<Rightarrow> 'v multi_durable" where
  "accept_update k b v d = d\<lparr>mp_promised := Some b, mp_accepted := AList.update k (SlotAcceptedValue k b v) (mp_accepted d),
     mp_history := (if SlotAcceptedValue k b v \<in> set (mp_history d) then mp_history d else mp_history d @ [SlotAcceptedValue k b v])\<rparr>"

lemma accept_update_simps [simp]:
  "mp_promised (accept_update k b v d) = Some b" "set (mp_history (accept_update k b v d)) = insert (SlotAcceptedValue k b v) (set (mp_history d))"
  "mp_accepted (accept_update k b v d) = AList.update k (SlotAcceptedValue k b v) (mp_accepted d)"
  "mp_last_round (accept_update k b v d) = mp_last_round d" "mp_learned (accept_update k b v d) = mp_learned d"
  by (auto simp: accept_update_def)

lemma accept_update_ok:
  assumes ok: "multi_acceptor_ok ids d" and k: "0 < k" and b: "ballot_ok ids b" and nb: "\<not> beyond (mp_promised d) b"
    and agree: "\<And>x. map_of (mp_accepted d) k = Some x \<Longrightarrow> sa_proposal x = b \<Longrightarrow> sa_value x = v"
  shows "multi_acceptor_ok ids (accept_update k b v d)"
proof -
  let ?x = "SlotAcceptedValue k b v"
  have below: "sa_proposal y \<le> b" if y: "y \<in> set (mp_history d)" for y
  proof -
    obtain m where "mp_promised d = Some m" "sa_proposal y \<le> m" using multi_acceptorD(5)[OF ok y] by blast
    then show ?thesis using nb by auto
  qed
  have one: "sa_value y = v" if y: "y \<in> set (mp_history d)" "sa_slot y = k" "sa_proposal y = b" for y
  proof -
    obtain x where x: "map_of (mp_accepted d) k = Some x" "b \<le> sa_proposal x" using multi_acceptorD(9)[OF ok y(1)] y(2,3) by auto
    have "sa_slot x = k" "x \<in> set (mp_history d)" using multi_acceptorD(8)[OF ok map_of_SomeD[OF x(1)]] by auto
    moreover from this have "sa_proposal x = b" using below x(2) by (simp add: antisym)
    ultimately show ?thesis using multi_acceptorD(6)[OF ok y(1), of x] y(2,3) agree[OF x(1)] by simp
  qed
  have c1: "sa_value x = sa_value y" if xy: "x \<in> insert ?x (set (mp_history d))" "y \<in> insert ?x (set (mp_history d))" "sa_slot x = sa_slot y" "sa_proposal x = sa_proposal y" for x y
  proof -
    consider "x = ?x" "y = ?x" | "x = ?x" "y \<in> set (mp_history d)" | "y = ?x" "x \<in> set (mp_history d)" | "x \<in> set (mp_history d)" "y \<in> set (mp_history d)"
      using xy(1,2) by blast
    then show ?thesis
      using xy(3,4) one[of x] one[of y] multi_acceptorD(6)[OF ok, of x y] by cases simp_all
  qed
  have c2: "\<forall>(j, x) \<in> set (AList.update k ?x (mp_accepted d)). sa_slot x = j \<and> x \<in> insert ?x (set (mp_history d))"
    using multi_acceptorD(8)[OF ok] by (auto dest!: update_entry)
  have c3: "\<exists>x. map_of (AList.update k ?x (mp_accepted d)) (sa_slot y) = Some x \<and> sa_proposal y \<le> sa_proposal x" if "y \<in> insert ?x (set (mp_history d))" for y
    using that multi_acceptorD(9)[OF ok, of y] below[of y] by (auto simp: update_conv')
  have c4: "0 < sa_slot x \<and> ballot_ok ids (sa_proposal x) \<and> (\<exists>m. Some b = Some m \<and> sa_proposal x \<le> m)" if "x \<in> insert ?x (set (mp_history d))" for x
    using that multi_acceptorD(3,4)[OF ok, of x] below[of x] k b by auto
  have c5: "distinct (map fst (AList.update k ?x (mp_accepted d)))" using multi_acceptorD(7)[OF ok] by (rule distinct_update)
  have c6: "\<forall>x \<in> insert ?x (set (mp_history d)). \<forall>y \<in> insert ?x (set (mp_history d)).
      sa_slot x = sa_slot y \<longrightarrow> sa_proposal x = sa_proposal y \<longrightarrow> sa_value x = sa_value y"
    using c1 by (intro ballI impI)
  show ?thesis unfolding multi_acceptor_ok_def accept_update_simps
    by (intro conjI c2 c5 c6 ballI c3 multi_acceptorD(2)[OF ok]) (use b c4 in auto)
qed

lemma accept_good:
  assumes inv: "multi_inv s" and k: "0 < k" and b: "ballot_ok (mp_node_ids s) b" and sound: "mp_sound s k b v"
    and nb: "\<not> beyond (mp_promised (persistent_state s n)) b"
    and agree: "\<And>x. map_of (mp_accepted (persistent_state s n)) k = Some x \<Longrightarrow> sa_proposal x = b \<Longrightarrow> sa_value x = v"
  shows "mgood s (set_durable n (accept_update k b v) s)" (is "mgood s ?s")
proof (rule multi_inv_evolves[OF inv])
  have votes: "mp_votes ?s j a = (if j = k \<and> a = n then insert (b, v) (mp_votes s j a) else mp_votes s j a)" for j a
    by (auto simp: mp_votes_def)
  have proms: "mp_promises ?s a = (if a = n then Some b else mp_promises s a)" for a by (simp add: mp_promises_def)
  have "acceptors_grow (mp_votes s j) (mp_promises s) (mp_votes ?s j) (mp_promises ?s)" for j
    using nb unfolding acceptors_grow_def votes proms
    by (auto simp: mp_promises_def beyond_def split: option.splits)
  then show "mp_evolves s ?s" by (simp add: mp_evolves_def multi_learned_decision_def)
  show "multi_acceptor_ok (mp_node_ids s) (persistent_state ?s a)" for a
    using multi_invD(3)[OF inv, of a] accept_update_ok[OF multi_invD(3)[OF inv] k b nb agree] by auto
  show "(p, w) \<in> mp_votes s j a \<or> mp_sound s j p w" if "(p, w) \<in> mp_votes ?s j a" for a j p w
    using that sound by (auto simp: votes split: if_splits)
  show "learned_ok s (persistent_state ?s a)" for a
    using multi_invD(6)[OF inv, of a] multi_invD(6)[OF inv, of n] by (simp add: learned_ok_def)
qed (use multi_invD(5,7)[OF inv] in auto)

lemma set_durable_twice: "set_durable n g (set_durable n f s) = set_durable n (\<lambda>d. g (f d)) s"
  by (simp add: set_durable_def)

lemma receive_accept_good:
  assumes inv: "multi_inv s" and pay: "multi_payload_ok s (LeaderAccept k b v)" and n: "n \<in> set (mp_node_ids s)"
  shows "outcome {PaxosSafetyViolation} (mgood s) (receive_accept n k b v s)"
proof -
  let ?d = "persistent_state s n"
  have k: "0 < k" and b: "ballot_ok (mp_node_ids s) b" and sound: "mp_sound s k b v" using pay by simp_all
  show ?thesis
  proof (cases "beyond (mp_promised ?d) b \<or> (\<exists>x. map_of (mp_accepted ?d) k = Some x \<and> sa_proposal x = b \<and> sa_value x \<noteq> v)")
    case True
    then show ?thesis
    proof (cases "beyond (mp_promised ?d) b")
      case b: True
      show ?thesis using k mgood_record[OF inv] by (simp add: receive_accept_def promised_ballot_ok[OF inv] b)
    next
      case False
      with True obtain x where "map_of (mp_accepted ?d) k = Some x" "sa_proposal x = b" "sa_value x \<noteq> v" by blast
      then show ?thesis using k False by (simp add: receive_accept_def promised_ballot_ok[OF inv] Let_def)
    qed
  next
    case False
    let ?s = "set_durable n (accept_update k b v) s"
    have g: "mgood s ?s" using False by (intro accept_good[OF inv k b sound]) auto
    have vote: "(b, v) \<in> mp_votes ?s k n" by (simp add: mp_votes_def)
    have "outcome {PaxosSafetyViolation} (mgood ?s) (multi_receive_accepted n k b n v ?s)"
      using multi_receive_accepted_good[OF mgoodD(1)[OF g] vote] n by simp
    moreover have "outcome {PaxosSafetyViolation} (mgood ?s) (send_msg n (pn_proposer b) (LeaderAccepted k b n v) ?s)"
      using b n vote by (intro outcome_allow[OF mgood_send[OF mgoodD(1)[OF g]]]) (simp_all add: ballot_ok_def)
    moreover have eq: "set_durable n (\<lambda>d. d\<lparr>mp_accepted := AList.update k (SlotAcceptedValue k b v) (mp_accepted d),
        mp_history := (if SlotAcceptedValue k b v \<in> set (mp_history d) then mp_history d else mp_history d @ [SlotAcceptedValue k b v])\<rparr>)
        (set_durable n (\<lambda>d. d\<lparr>mp_promised := Some b\<rparr>) s) = ?s"
      unfolding set_durable_twice by (rule arg_cong[of _ _ "\<lambda>f. set_durable n f s"]) (auto simp: accept_update_def fun_eq_iff)
    ultimately have "outcome {PaxosSafetyViolation} (mgood s) (if pn_proposer b = n then multi_receive_accepted n k b n v ?s
        else send_msg n (pn_proposer b) (LeaderAccepted k b n v) ?s)"
      using mgood_outcome[OF g] by simp
    moreover have "receive_accept n k b v s = (if pn_proposer b = n then multi_receive_accepted n k b n v ?s
        else send_msg n (pn_proposer b) (LeaderAccepted k b n v) ?s)"
      using False k unfolding receive_accept_def promised_ballot_ok[OF inv] Let_def
      by (auto simp: make_slot_accepted_def eq split: option.split)
    ultimately show ?thesis by (simp only:)
  qed
qed

section \<open>Proposing\<close>

lemma quorum_safe_value:
  assumes inv: "multi_inv s" and b: "mn_ballot (mp_nodes s n) = Some b" and q: "mp_quorum s \<le> length (mn_promises (mp_nodes s n))"
    and top: "promised_accepted (mp_nodes s n) k = [] \<or> (\<exists>x \<in> set (promised_accepted (mp_nodes s n) k). sa_value x = v \<and>
      (\<forall>y \<in> set (promised_accepted (mp_nodes s n) k). sa_proposal y < sa_proposal x \<or> sa_proposal y = sa_proposal x \<and> sa_value y = v))"
  shows "mp_sound s k b v"
proof -
  let ?P = "mn_promises (mp_nodes s n)"
  note ok = multi_invD(5)[OF inv, of n]
  have dist: "distinct (map fst ?P)" by (rule leader_okD(3)[OF ok b])
  have pr: "lp_acceptor r = a" "lp_ballot r = b" "mp_promise_ok s r" if "(a, r) \<in> set ?P" for a r
    using leader_okD(4)[OF ok b that] by auto
  have reported: "x \<in> set (promised_accepted (mp_nodes s n) k) \<longleftrightarrow> (\<exists>a r. (a, r) \<in> set ?P \<and> x \<in> set (lp_accepted r) \<and> sa_slot x = k)" for x
    by (auto simp: promised_accepted_def)
  have vote: "(sa_proposal x, sa_value x) \<in> mp_votes s k a" "sa_proposal x \<le> b" if "(a, r) \<in> set ?P" "x \<in> set (lp_accepted r)" "sa_slot x = k" for a r x
    using pr[OF that(1)] that(2,3) unfolding mp_promise_ok_def by auto
  show ?thesis
  proof (cases "\<exists>x \<in> set (promised_accepted (mp_nodes s n) k). sa_proposal x = b \<and> sa_value x = v")
    case True
    then obtain a r x where "(a, r) \<in> set ?P" "x \<in> set (lp_accepted r)" "sa_slot x = k" "sa_proposal x = b" "sa_value x = v"
      using reported by blast
    then show ?thesis using vote(1) multi_invD(4)[OF inv] by blast
  next
    case False
    define rep where "rep a = (case map_of ?P a of None \<Rightarrow> None | Some r \<Rightarrow>
       (case filter (\<lambda>x. sa_slot x = k) (lp_accepted r) of [] \<Rightarrow> None | x # _ \<Rightarrow> Some (sa_proposal x, sa_value x)))" for a
    have rep: "rep a = None \<and> (\<forall>x \<in> set (lp_accepted r). sa_slot x \<noteq> k) \<or>
        (\<exists>x. rep a = Some (sa_proposal x, sa_value x) \<and> x \<in> set (lp_accepted r) \<and> sa_slot x = k \<and> (\<forall>y \<in> set (lp_accepted r). sa_slot y = k \<longrightarrow> y = x))"
      if r: "(a, r) \<in> set ?P" for a r
    proof (cases "filter (\<lambda>x. sa_slot x = k) (lp_accepted r)")
      case Nil
      then show ?thesis using r dist by (auto simp: rep_def filter_empty_conv)
    next
      case (Cons x xs)
      have "x \<in> set (filter (\<lambda>x. sa_slot x = k) (lp_accepted r))" by (simp add: Cons)
      then have x: "x \<in> set (lp_accepted r)" "sa_slot x = k" by auto
      have inj: "inj_on sa_slot (set (lp_accepted r))" using pr(3)[OF r] by (simp add: mp_promise_ok_def distinct_map)
      have "y = x" if "y \<in> set (lp_accepted r)" "sa_slot y = k" for y using inj_onD[OF inj _ that(1) x(1)] that(2) x(2) by simp
      moreover have "rep a = Some (sa_proposal x, sa_value x)" using r dist Cons by (simp add: rep_def)
      ultimately show ?thesis using x by blast
    qed
    have repD: "\<exists>r x. (a, r) \<in> set ?P \<and> m = sa_proposal x \<and> w = sa_value x \<and> x \<in> set (lp_accepted r) \<and> sa_slot x = k \<and>
        (\<forall>y \<in> set (lp_accepted r). sa_slot y = k \<longrightarrow> y = x)" if a: "a \<in> fst ` set ?P" "rep a = Some (m, w)" for a m w
    proof -
      obtain r where r: "(a, r) \<in> set ?P" using a(1) by force
      show ?thesis using rep[OF r] a(2) r by auto
    qed
    show ?thesis
      unfolding mp_sound_def
    proof (rule maj.phase1_safe[where Q = "fst ` set ?P" and report = rep])
      show "all_safe (majority (mp_node_ids s)) (mp_votes s k) (mp_promises s)"
        using multi_invD(4)[OF inv] unfolding all_safe_def mp_sound_def by blast
      show "one_vote (mp_votes s k)" using multi_one_vote multi_invD(3)[OF inv] by blast
      show "majority (mp_node_ids s) (fst ` set ?P)"
        using q pr length_distinct_keys[OF dist] by (auto simp: majority_def mp_quorum_def mp_promise_ok_def)
      show "beyond (mp_promises s a) c" if "a \<in> fst ` set ?P" "c < b" for a c
        using that pr by (auto simp: mp_promise_ok_def)
      show "(c, w) \<notin> mp_votes s k a" if a: "a \<in> fst ` set ?P" "rep a = None" "c < b" for a c w
      proof -
        obtain r where r: "(a, r) \<in> set ?P" using a(1) by force
        then have "\<forall>x \<in> set (lp_accepted r). sa_slot x \<noteq> k" using rep[OF r] a(2) by auto
        then show ?thesis using pr[OF r] a(3) unfolding mp_promise_ok_def by blast
      qed
      show "m < b \<and> (m, w) \<in> mp_votes s k a" if a: "a \<in> fst ` set ?P" "rep a = Some (m, w)" for a m w
      proof -
        obtain r x where x: "(a, r) \<in> set ?P" "m = sa_proposal x" "w = sa_value x" "x \<in> set (lp_accepted r)" "sa_slot x = k"
          using repD[OF a] by blast
        have "m \<noteq> b"
        proof
          assume "m = b"
          have "x \<in> set (promised_accepted (mp_nodes s n) k)" using reported x by blast
          then obtain y where y: "y \<in> set (promised_accepted (mp_nodes s n) k)" "sa_value y = v"
              "sa_proposal x < sa_proposal y \<or> sa_proposal x = sa_proposal y \<and> sa_value x = v"
            using top by (metis empty_iff list.set(1))
          have "sa_proposal y \<le> b" using y(1) reported vote(2) by blast
          then show False using y False \<open>m = b\<close> x(2) by (metis leD)
        qed
        then show ?thesis using vote[OF x(1,4,5)] x(2,3) by (simp add: le_neq_trans)
      qed
      show "c \<le> m" if a: "a \<in> fst ` set ?P" "rep a = Some (m, w)" "c < b" "(c, u) \<in> mp_votes s k a" for a m w c u
      proof -
        obtain r x where x: "(a, r) \<in> set ?P" "m = sa_proposal x" "\<forall>y \<in> set (lp_accepted r). sa_slot y = k \<longrightarrow> y = x"
          using repD[OF a(1,2)] by blast
        obtain y where "y \<in> set (lp_accepted r)" "sa_slot y = k" "c \<le> sa_proposal y"
          using pr[OF x(1)] a(3,4) unfolding mp_promise_ok_def by blast
        then show ?thesis using x(2,3) by blast
      qed
      show "(\<forall>a \<in> fst ` set ?P. rep a = None) \<or> (\<exists>a \<in> fst ` set ?P. \<exists>m. rep a = Some (m, v) \<and>
          (\<forall>a' \<in> fst ` set ?P. \<forall>m' w. rep a' = Some (m', w) \<longrightarrow> m' < m \<or> m' = m \<and> w = v))"
        using top
      proof
        assume none: "promised_accepted (mp_nodes s n) k = []"
        have "rep a = None" if a: "a \<in> fst ` set ?P" for a
        proof (rule ccontr)
          assume "rep a \<noteq> None"
          then obtain m w where "rep a = Some (m, w)" by (cases "rep a") auto
          from repD[OF a this] show False using reported none by (metis empty_iff list.set(1))
        qed
        then show ?thesis by (intro disjI1 ballI)
      next
        assume "\<exists>x \<in> set (promised_accepted (mp_nodes s n) k). sa_value x = v \<and>
          (\<forall>y \<in> set (promised_accepted (mp_nodes s n) k). sa_proposal y < sa_proposal x \<or> sa_proposal y = sa_proposal x \<and> sa_value y = v)"
        then obtain x where x: "x \<in> set (promised_accepted (mp_nodes s n) k)" "sa_value x = v"
          and high: "\<And>y. y \<in> set (promised_accepted (mp_nodes s n) k) \<Longrightarrow> sa_proposal y < sa_proposal x \<or> sa_proposal y = sa_proposal x \<and> sa_value y = v" by blast
        obtain a r where ar: "(a, r) \<in> set ?P" "x \<in> set (lp_accepted r)" "sa_slot x = k" using x(1) reported by blast
        then have "rep a = Some (sa_proposal x, v)" using rep[OF ar(1)] x(2) by auto
        moreover have "m' < sa_proposal x \<or> m' = sa_proposal x \<and> w = v" if a': "a' \<in> fst ` set ?P" "rep a' = Some (m', w)" for a' m' w
        proof -
          obtain r' y where y: "(a', r') \<in> set ?P" "m' = sa_proposal y" "w = sa_value y" "y \<in> set (lp_accepted r')" "sa_slot y = k"
            using repD[OF a'] by blast
          show ?thesis using high[of y] y reported by blast
        qed
        moreover have "a \<in> fst ` set ?P" using ar(1) by force
        ultimately show ?thesis by (intro disjI2 bexI[of _ a] exI[of _ "sa_proposal x"]) auto
      qed
    qed
  qed
qed

lemma adopted_value_cases:
  "outcome {PaxosSafetyViolation} (\<lambda>adopted. promised_accepted nd k = [] \<and> adopted = None \<or>
     (\<exists>x \<in> set (promised_accepted nd k). adopted = Some x \<and>
        (\<forall>y \<in> set (promised_accepted nd k). sa_proposal y < sa_proposal x \<or> sa_proposal y = sa_proposal x \<and> sa_value y = sa_value x)))
   (adopted_value nd k)"
proof (cases "promised_accepted nd k")
  case Nil
  then show ?thesis by (simp add: adopted_value_def)
next
  case (Cons z zs)
  let ?xs = "promised_accepted nd k"
  define h where "h = Max (set (map sa_proposal ?xs))"
  have max: "sa_proposal y \<le> h" if "y \<in> set ?xs" for y unfolding h_def using that by (intro Max_ge) auto
  have "h \<in> set (map sa_proposal ?xs)" unfolding h_def using Cons by (intro Max_in) auto
  then obtain t ts where top: "filter (\<lambda>a. sa_proposal a = h) ?xs = t # ts"
    by (cases "filter (\<lambda>a. sa_proposal a = h) ?xs") (auto simp: filter_empty_conv)
  have "t \<in> set (filter (\<lambda>a. sa_proposal a = h) ?xs)" by (simp add: top)
  then have t: "t \<in> set ?xs" "sa_proposal t = h" by auto
  have "?xs \<noteq> []" using Cons by simp
  then have eq: "adopted_value nd k = (if \<exists>a \<in> set ts. sa_value a \<noteq> sa_value t then Inl PaxosSafetyViolation else Inr (Some t))"
    unfolding adopted_value_def Let_def h_def[symmetric] top by simp
  show ?thesis
  proof (cases "\<exists>a \<in> set ts. sa_value a \<noteq> sa_value t")
    case True
    then show ?thesis by (simp add: eq)
  next
    case False
    have "sa_proposal y < sa_proposal t \<or> sa_proposal y = sa_proposal t \<and> sa_value y = sa_value t" if y: "y \<in> set ?xs" for y
    proof (cases "sa_proposal y = h")
      case True
      then have "y \<in> set (filter (\<lambda>a. sa_proposal a = h) ?xs)" using y by simp
      then show ?thesis using False t(2) True unfolding top by auto
    next
      case False
      then show ?thesis using max[OF y] t(2) by simp
    qed
    then show ?thesis unfolding eq using False t(1) by auto
  qed
qed

lemma accept_everywhere_good:
  assumes inv: "multi_inv s" and pay: "multi_payload_ok s (LeaderAccept k b v)" and n: "n \<in> set (mp_node_ids s)"
  shows "outcome {PaxosSafetyViolation} (mgood s) (and_then (receive_accept n k b v s) (mp_broadcast n (LeaderAccept k b v)))"
proof (rule mgood_bind[OF receive_accept_good[OF inv pay n]])
  fix t assume t: "mgood s t"
  show "outcome {PaxosSafetyViolation} (mgood t) (mp_broadcast n (LeaderAccept k b v) t)"
    by (rule outcome_allow[OF mgood_broadcast[OF mgoodD(1)[OF t] payload_after[OF t pay]]])
qed

lemma propose_good:
  assumes inv: "multi_inv s"
  shows "outcome {ValueError, PaxosError, PaxosSafetyViolation} (mgood s) (propose n k w s)"
proof (cases "0 < k \<and> has_leader_authority n s \<and> map_of (mn_pending (mp_nodes s n)) k = None")
  case False
  then show ?thesis by (auto simp: propose_def split: option.split)
next
  case True
  let ?nd = "mp_nodes s n"
  obtain b where b: "mn_ballot ?nd = Some b" and q: "mp_quorum s \<le> length (mn_promises ?nd)"
    using True by (auto simp: has_leader_authority_def)
  note ok = multi_invD(5)[OF inv, of n]
  have n: "n \<in> set (mp_node_ids s)" using leader_okD(1,2)[OF ok b] by (simp add: ballot_ok_def)
  show ?thesis
  proof (cases "adopted_value ?nd k")
    case (Inl e)
    then show ?thesis using adopted_value_cases[of ?nd k] True b by (simp add: propose_def)
  next
    case (Inr adopted)
    define v where "v = (case adopted of None \<Rightarrow> w | Some a \<Rightarrow> sa_value a)"
    let ?f = "\<lambda>nd. nd\<lparr>mn_pending := AList.update k v (mn_pending nd), mn_accepted_by := AList.update k {} (mn_accepted_by nd)\<rparr> :: 'a multi_node"
    let ?s = "update_node n ?f s"
    have "promised_accepted ?nd k = [] \<or> (\<exists>x \<in> set (promised_accepted ?nd k). sa_value x = v \<and>
        (\<forall>y \<in> set (promised_accepted ?nd k). sa_proposal y < sa_proposal x \<or> sa_proposal y = sa_proposal x \<and> sa_value y = v))"
      using adopted_value_cases[of ?nd k] unfolding Inr outcome_simps
    proof (elim disjE bexE conjE)
      fix x assume "x \<in> set (promised_accepted ?nd k)" "adopted = Some x"
        "\<forall>y \<in> set (promised_accepted ?nd k). sa_proposal y < sa_proposal x \<or> sa_proposal y = sa_proposal x \<and> sa_value y = sa_value x"
      then show ?thesis by (intro disjI2 bexI[of _ x]) (simp_all add: v_def)
    qed simp
    then have "mp_sound s k b v" by (rule quorum_safe_value[OF inv b q])
    then have pay: "multi_payload_ok s (LeaderAccept k b v)" using True leader_okD(1)[OF ok b] by simp
    have g: "mgood s ?s"
    proof (rule mgood_node[OF inv leader_ok_update[OF ok _ _ b]])
      show "0 < j \<and> mp_sound s j b u \<and> (\<exists>A. map_of (mn_accepted_by (?f ?nd)) j = Some A \<and> A \<subseteq> {a \<in> set (mp_node_ids s). (b, u) \<in> mp_votes s j a})"
        if "map_of (mn_pending (?f ?nd)) j = Some u" for j u
        using that pay leader_okD(5)[OF ok b, of j u] by (cases "j = k") (auto simp: update_conv')
    qed simp_all
    have "outcome {PaxosSafetyViolation} (mgood ?s) (and_then (and_then (receive_accept n k b v ?s) (mp_broadcast n (LeaderAccept k b v)))
        (\<lambda>s3. Inr (record_app (EvPhase2Start k n b v) s3)))"
    proof (rule mgood_bind[OF accept_everywhere_good[OF mgoodD(1)[OF g] payload_after[OF g pay]]])
      show "n \<in> set (mp_node_ids ?s)" using n by simp
    qed (use mgood_record mgoodD(1) in auto)
    from mgood_outcome[OF g this] show ?thesis
      using True b Inr unfolding propose_def and_then_assoc
      by (auto simp: Let_def v_def simp del: outcome_and_then elim: outcome_mono)
  qed
qed

lemma retry_proposal_good:
  assumes inv: "multi_inv s"
  shows "outcome {PaxosError, PaxosSafetyViolation} (mgood s) (retry_proposal n k s)"
proof (cases "has_leader_authority n s \<and> map_of (mn_pending (mp_nodes s n)) k \<noteq> None")
  case False
  then show ?thesis by (auto simp: retry_proposal_def promised_ballot_ok[OF inv] split: option.split)
next
  case True
  note ok = multi_invD(5)[OF inv, of n]
  obtain b v where b: "mn_ballot (mp_nodes s n) = Some b" and v: "map_of (mn_pending (mp_nodes s n)) k = Some v"
    using True by (auto simp: has_leader_authority_def)
  have pay: "multi_payload_ok s (LeaderAccept k b v)" "n \<in> set (mp_node_ids s)"
    using leader_okD(1,2)[OF ok b] leader_okD(5)[OF ok b v] by (auto simp: ballot_ok_def)
  from outcome_mono[OF accept_everywhere_good[OF inv pay] _, of "mgood s" "{PaxosError, PaxosSafetyViolation}"]
  show ?thesis using b v
    by (cases "mp_promised (persistent_state s n) = Some b")
      (simp_all add: retry_proposal_def promised_ballot_ok[OF inv] Let_def del: outcome_and_then)
qed

section \<open>Phase 1\<close>

lemma multi_receive_promise_good:
  assumes inv: "multi_inv s" and pr: "mp_promise_ok s pr"
  shows "outcome {} (mgood s) (multi_receive_promise n pr s)"
proof (cases "mn_ballot (mp_nodes s n) = Some (lp_ballot pr) \<and> filter (invalid_evidence s (lp_ballot pr)) (lp_accepted pr) = []")
  case False
  then show ?thesis using mgood_refl[OF inv] mgood_record[OF inv]
    by (auto simp: multi_receive_promise_def split: list.split)
next
  case True
  let ?nd = "mp_nodes s n"
  let ?f = "\<lambda>nd. nd\<lparr>mn_promises := setdefault (lp_acceptor pr) pr (mn_promises nd)\<rparr> :: 'a multi_node"
  note ok = multi_invD(5)[OF inv, of n]
  have b: "mn_ballot ?nd = Some (lp_ballot pr)" using True by simp
  have "\<forall>(a, r) \<in> set (setdefault (lp_acceptor pr) pr (mn_promises ?nd)). lp_acceptor r = a \<and> lp_ballot r = lp_ballot pr \<and> mp_promise_ok s r"
    using leader_okD(4)[OF ok b] pr by (auto dest!: set_setdefault_cases)
  then have "leader_ok s n (?f ?nd)"
    using leader_okD(1,2)[OF ok b] distinct_setdefault[OF leader_okD(3)[OF ok b]] leader_okD(5)[OF ok b] b by (simp add: leader_ok_def)
  then have g: "mgood s (update_node n ?f s)" by (rule mgood_node[OF inv])
  show ?thesis using True g mgood_trans[OF g mgood_record[OF mgoodD(1)[OF g]]] mgood_refl[OF inv]
    by (auto simp: multi_receive_promise_def Let_def)
qed

lemma raise_promise_good:
  assumes inv: "multi_inv s" and b: "ballot_ok (mp_node_ids s) b" and nb: "\<not> beyond (mp_promised (persistent_state s n)) b"
  shows "mgood s (set_durable n (\<lambda>d. d\<lparr>mp_promised := Some b\<rparr>) s)" (is "mgood s ?s")
proof (rule multi_inv_evolves[OF inv])
  let ?d = "persistent_state s n"
  have votes: "mp_votes ?s = mp_votes s" by (auto simp: mp_votes_def fun_eq_iff)
  have "acceptors_grow (mp_votes s j) (mp_promises s) (mp_votes ?s j) (mp_promises ?s)" for j
    using nb unfolding acceptors_grow_def votes by (auto simp: mp_promises_def beyond_def split: option.splits)
  then show "mp_evolves s ?s" by (simp add: mp_evolves_def multi_learned_decision_def)
  have "multi_acceptor_ok (mp_node_ids s) (?d\<lparr>mp_promised := Some b\<rparr>)"
  proof -
    note ok = multi_invD(3)[OF inv, of n]
    have "sa_proposal x \<le> b" if x: "x \<in> set (mp_history ?d)" for x
    proof -
      obtain m where "mp_promised ?d = Some m" "sa_proposal x \<le> m" using multi_acceptorD(5)[OF ok x] by blast
      then show ?thesis using nb by auto
    qed
    then show ?thesis by (intro multi_acceptor_ok_promised[OF ok b] ballI)
  qed
  then show "multi_acceptor_ok (mp_node_ids s) (persistent_state ?s a)" for a using multi_invD(3)[OF inv, of a] by auto
  show "learned_ok s (persistent_state ?s a)" for a
    using multi_invD(6)[OF inv, of a] multi_invD(6)[OF inv, of n] by (simp add: learned_ok_def)
qed (use multi_invD(5,7)[OF inv] in \<open>auto simp: mp_votes_def split: if_splits\<close>)

lemma own_promise_ok:
  assumes inv: "multi_inv s" and n: "n \<in> set (mp_node_ids s)" and b: "mp_promised (persistent_state s n) = Some b"
  shows "mp_promise_ok s (LeaderPromise b n (map snd (mp_accepted (persistent_state s n))))"
proof -
  let ?d = "persistent_state s n"
  note ok = multi_invD(3)[OF inv, of n]
  have slots: "map sa_slot (map snd (mp_accepted ?d)) = map fst (mp_accepted ?d)"
    using multi_acceptorD(8)[OF ok] by (auto simp: comp_def)
  have "distinct (map sa_slot (map snd (mp_accepted ?d)))" using multi_acceptorD(7)[OF ok] by (simp only: slots)
  moreover have "(sa_proposal x, sa_value x) \<in> mp_votes s (sa_slot x) n \<and> sa_proposal x \<le> b" if "x \<in> set (map snd (mp_accepted ?d))" for x
  proof -
    have x: "x \<in> set (mp_history ?d)" using that multi_acceptorD(8)[OF ok] by auto
    then show ?thesis using multi_acceptorD(5)[OF ok x] b mp_vote_of[of x s n] by auto
  qed
  moreover have "\<exists>x \<in> set (map snd (mp_accepted ?d)). sa_slot x = k \<and> c \<le> sa_proposal x" if cw: "(c, w) \<in> mp_votes s k n" for k c w
  proof -
    obtain x where x: "map_of (mp_accepted ?d) k = Some x" "c \<le> sa_proposal x"
      using multi_acceptorD(9)[OF ok] cw by (fastforce simp: mp_votes_iff)
    then show ?thesis using multi_acceptorD(8)[OF ok map_of_SomeD[OF x(1)]] map_of_SomeD[OF x(1)] by force
  qed
  ultimately show ?thesis using n b by (auto simp: mp_promise_ok_def mp_promises_def)
qed

lemma multi_receive_prepare_good:
  assumes inv: "multi_inv s" and b: "ballot_ok (mp_node_ids s) b" and n: "n \<in> set (mp_node_ids s)"
  shows "outcome {} (mgood s) (multi_receive_prepare n b s)"
proof (cases "beyond (mp_promised (persistent_state s n)) b")
  case True
  then show ?thesis using mgood_refl[OF inv] by (simp add: multi_receive_prepare_def promised_ballot_ok[OF inv])
next
  case False
  let ?s = "set_durable n (\<lambda>d. d\<lparr>mp_promised := Some b\<rparr>) s"
  have g: "mgood s ?s" by (rule raise_promise_good[OF inv b False])
  let ?pr = "LeaderPromise b n (map snd (mp_accepted (persistent_state ?s n)))"
  have pr: "mp_promise_ok ?s ?pr" by (rule own_promise_ok[OF mgoodD(1)[OF g]]) (use n in simp_all)
  have "outcome {} (mgood ?s) (multi_receive_promise n ?pr ?s)" by (rule multi_receive_promise_good[OF mgoodD(1)[OF g] pr])
  moreover have "outcome {} (mgood ?s) (send_msg n (pn_proposer b) (LeaderPromiseMsg ?pr) ?s)"
    by (rule mgood_send[OF mgoodD(1)[OF g]]) (use pr b in \<open>simp_all add: ballot_ok_def\<close>)
  ultimately show ?thesis using False mgood_outcome[OF g]
    by (simp add: multi_receive_prepare_def promised_ballot_ok[OF inv] Let_def)
qed

lemma new_ballot_good:
  assumes inv: "multi_inv s" and b: "ballot_ok (mp_node_ids s) b" "pn_proposer b = n" and rnd: "0 \<le> rnd"
  shows "mgood s (update_node n (\<lambda>nd. nd\<lparr>mn_ballot := Some b, mn_promises := [], mn_pending := [], mn_accepted_by := []\<rparr>)
    (set_durable n (\<lambda>d. d\<lparr>mp_last_round := rnd\<rparr>) s))"
proof -
  let ?s = "set_durable n (\<lambda>d. d\<lparr>mp_last_round := rnd\<rparr>) s"
  have g: "mgood s ?s"
  proof (rule multi_inv_evolves[OF inv])
    have same: "mp_votes ?s = mp_votes s" "mp_promises ?s = mp_promises s" by (auto simp: mp_votes_def mp_promises_def fun_eq_iff)
    show "mp_evolves s ?s" by (simp add: mp_evolves_def same multi_learned_decision_def)
    show "multi_acceptor_ok (mp_node_ids s) (persistent_state ?s a)" for a
      using multi_invD(3)[OF inv, of a] multi_acceptor_ok_round[OF _ rnd] by auto
    show "learned_ok s (persistent_state ?s a)" for a
      using multi_invD(6)[OF inv, of a] multi_invD(6)[OF inv, of n] by (simp add: learned_ok_def)
    show "(p, v) \<in> mp_votes s k a \<or> mp_sound s k p v" if "(p, v) \<in> mp_votes ?s k a" for a k p v using that by (simp add: same)
  qed (use multi_invD(5,7)[OF inv] in auto)
  have "mgood ?s (update_node n (\<lambda>nd. nd\<lparr>mn_ballot := Some b, mn_promises := [], mn_pending := [], mn_accepted_by := []\<rparr>) ?s)"
    by (rule mgood_node[OF mgoodD(1)[OF g]]) (use b in \<open>simp add: leader_ok_def\<close>)
  with g show ?thesis by (rule mgood_trans)
qed

lemma prepare_leadership_good:
  assumes inv: "multi_inv s" and n: "n \<in> set (mp_node_ids s)"
  shows "outcome {PaxosError, ValueError} (\<lambda>(b, s'). mgood s s') (prepare_leadership n r s)"
proof (cases "is_alive s n")
  case False
  then show ?thesis by (simp add: prepare_leadership_def)
next
  case True
  let ?d = "persistent_state s n"
  define rnd where "rnd = (case r of Some r \<Rightarrow> r
    | None \<Rightarrow> max (mp_last_round ?d) (case mp_promised ?d of Some p \<Rightarrow> pn_round p | None \<Rightarrow> 0) + 1)"
  have last_round: "0 \<le> mp_last_round ?d" by (rule multi_acceptorD(2)[OF multi_invD(3)[OF inv]])
  show ?thesis
  proof (cases "ProposalNumber rnd n")
    case (Inl e)
    have "e = ValueError" using Inl by (auto simp: ProposalNumber_def split: if_splits)
    then show ?thesis using True Inl
      by (simp add: prepare_leadership_def promised_ballot_ok[OF inv] Let_def flip: rnd_def)
  next
    case (Inr b)
    show ?thesis
    proof (cases "rnd \<le> mp_last_round ?d")
      case True
      then show ?thesis using \<open>is_alive s n\<close>
        by (simp add: prepare_leadership_def promised_ballot_ok[OF inv] Let_def flip: rnd_def)
    next
      case False
      have b: "ballot_ok (mp_node_ids s) b" "pn_proposer b = n"
        using Inr n by (auto simp: ProposalNumber_def ballot_ok_def split: if_splits)
      let ?s = "update_node n (\<lambda>nd. nd\<lparr>mn_ballot := Some b, mn_promises := [], mn_pending := [], mn_accepted_by := []\<rparr>)
        (set_durable n (\<lambda>d. d\<lparr>mp_last_round := rnd\<rparr>) s)"
      have g: "mgood s ?s" by (rule new_ballot_good[OF inv b]) (use last_round False in simp)
      have b': "ballot_ok (mp_node_ids ?s) b" "n \<in> set (mp_node_ids ?s)" using b n by simp_all
      have "outcome {} (mgood ?s) (and_then (multi_receive_prepare n b ?s) (\<lambda>s3. mp_broadcast n (LeaderPrepare b) s3))"
      proof (rule mgood_bind[OF multi_receive_prepare_good[OF mgoodD(1)[OF g] b']])
        fix t assume t: "mgood ?s t"
        have "multi_payload_ok ?s (LeaderPrepare b)" using b'(1) by simp
        then show "outcome {} (mgood t) (mp_broadcast n (LeaderPrepare b) t)"
          by (rule mgood_broadcast[OF mgoodD(1)[OF t] payload_after[OF t]])
      qed
      then have "outcome {} (\<lambda>s4. mgood s (record_app (EvPhase1Start n b) s4))
          (and_then (multi_receive_prepare n b ?s) (\<lambda>s3. mp_broadcast n (LeaderPrepare b) s3))"
      proof (rule outcome_weaken)
        fix t assume "mgood ?s t"
        from mgood_trans[OF g this] show "mgood s (record_app (EvPhase1Start n b) t)"
          using mgood_trans mgood_record mgoodD(1) by blast
      qed
      moreover have "prepare_leadership n r s = and_then (and_then (multi_receive_prepare n b ?s) (\<lambda>s3. mp_broadcast n (LeaderPrepare b) s3))
          (\<lambda>s4. Inr (b, record_app (EvPhase1Start n b) s4))"
        using False \<open>is_alive s n\<close> Inr
        by (simp add: prepare_leadership_def promised_ballot_ok[OF inv] Let_def and_then_assoc flip: rnd_def)
      ultimately have "outcome {} (\<lambda>(b, s'). mgood s s') (prepare_leadership n r s)"
        by (simp only: outcome_and_then[of _ _ "and_then _ _"] outcome_simps prod.case)
      then show ?thesis by (rule outcome_allow)
    qed
  qed
qed

section \<open>Catching up\<close>

lemma leader_ok_recovery [simp]:
  "leader_ok s n (nd\<lparr>mn_recovery := r\<rparr>) = leader_ok s n nd" "leader_ok s n (nd\<lparr>mn_attempt := a\<rparr>) = leader_ok s n nd"
  "leader_ok s n (nd\<lparr>mn_generation := g\<rparr>) = leader_ok s n nd"
  by (cases "mn_ballot nd"; simp add: leader_ok_def)+

lemma mp_peers_update [simp]: "mp_peers (update_node n f s) = mp_peers s"
  by (simp add: mp_peers_def fun_eq_iff)

lemma retry_recovery_good:
  assumes inv: "multi_inv s" and n: "n \<in> set (mp_node_ids s)"
  shows "outcome {} (mgood s) (retry_recovery n s)"
proof (cases "mn_recovery (mp_nodes s n)")
  case None
  then show ?thesis using mgood_refl[OF inv] by (simp add: retry_recovery_def)
next
  case (Some start)
  have clear: "mgood s (update_node n (\<lambda>nd. nd\<lparr>mn_recovery := None\<rparr>) s)"
    by (rule mgood_node[OF inv]) (simp add: multi_invD(5)[OF inv])
  then have exhausted: "mgood s (record_app ev (update_node n (\<lambda>nd. nd\<lparr>mn_recovery := None\<rparr>) s))" for ev
    using mgood_trans mgood_record mgoodD(1) by blast
  let ?s = "update_node n (\<lambda>nd. nd\<lparr>mn_attempt := mn_attempt nd + 1\<rparr>) s"
  have g: "mgood s ?s" by (rule mgood_node[OF inv]) (simp add: multi_invD(5)[OF inv])
  have "outcome {} (mgood ?s) (for_each (\<lambda>peer. send_msg n peer (DecisionRecoveryRequest start)) (sort (mp_peers s n)) ?s)"
    by (rule mgood_sends[OF mgoodD(1)[OF g]]) (auto simp: mp_peers_def)
  then have "outcome {} (\<lambda>t. mgood s (sim_schedule \<lparr>msg_src = n, msg_dst = n, msg_payload = DecisionRecoveryRetry (gen t) (att t),
      msg_ordinal = 0, msg_delivery_dst = None\<rparr> dl t))
      (for_each (\<lambda>peer. send_msg n peer (DecisionRecoveryRequest start)) (sort (mp_peers s n)) ?s)" for gen att dl
  proof (rule outcome_weaken)
    fix t assume "mgood ?s t"
    then have t: "mgood s t" by (rule mgood_trans[OF g])
    have "n \<in> set (mp_node_ids t)" using n mgoodD(2)[OF t] by (simp add: mp_evolves_def)
    then have "multi_message_ok t \<lparr>msg_src = n, msg_dst = n, msg_payload = DecisionRecoveryRetry (gen t) (att t),
      msg_ordinal = 0, msg_delivery_dst = None\<rparr>" by (intro message_toI[OF mgoodD(1)[OF t]]) simp_all
    then show "mgood s (sim_schedule \<lparr>msg_src = n, msg_dst = n, msg_payload = DecisionRecoveryRetry (gen t) (att t),
      msg_ordinal = 0, msg_delivery_dst = None\<rparr> dl t)"
      by (intro mgood_trans[OF t] mgood_schedule mgoodD(1)[OF t])
  qed
  then show ?thesis using Some clear exhausted by (simp add: retry_recovery_def Let_def)
qed

lemma recover_decisions_good:
  assumes inv: "multi_inv s" and n: "n \<in> set (mp_node_ids s)"
  shows "outcome {ValueError, PaxosError} (mgood s) (recover_decisions n start s)"
proof -
  let ?s = "update_node n (\<lambda>nd. nd\<lparr>mn_generation := mn_generation nd + 1, mn_attempt := 0, mn_recovery := Some start\<rparr>) s"
  have g: "mgood s ?s" by (rule mgood_node[OF inv]) (simp add: multi_invD(5)[OF inv])
  have "outcome {} (mgood s) (retry_recovery n ?s)"
    by (rule mgood_outcome[OF g retry_recovery_good[OF mgoodD(1)[OF g]]]) (use n in simp)
  then show ?thesis using mgood_refl[OF inv] by (auto simp: recover_decisions_def intro: outcome_mono)
qed

lemma receive_recovery_request_good:
  assumes inv: "multi_inv s" and src: "src \<in> set (mp_node_ids s)"
  shows "outcome {} (mgood s) (receive_recovery_request n src start s)"
proof -
  let ?ds = "List.map_filter (\<lambda>slot. multi_learned_decision n slot s) [start..start + RECOVERY_WINDOW - 1]"
  have ds: "decision_ok s d" if "d \<in> set ?ds" for d
    using that learned_decisionD(2)[OF inv] by (auto simp: map_filter_def)
  have "for_each (\<lambda>d _. require_decision_evidence s d) ?ds () = Inr ()"
    by (rule for_each_unit) (use evidence_found[OF inv ds] in simp)
  moreover have "outcome {} (mgood s) (send_msg n src (DecisionRecoveryResponse start ?ds) s)"
    by (rule mgood_send[OF inv _ src]) (use ds in simp)
  ultimately show ?thesis using mgood_refl[OF inv] by (simp add: receive_recovery_request_def Let_def)
qed

lemma receive_decisions_good:
  assumes inv: "multi_inv s" and "\<forall>d \<in> set ds. decision_ok s d"
  shows "outcome {} (mgood s) (for_each (\<lambda>d. receive_decision n (sl_slot d) (sl_proposal d) (sl_value d)) ds s)"
proof (rule outcome_for_each)
  show "mgood s s" by (rule mgood_refl[OF inv])
next
  fix d t assume d: "d \<in> set ds" and t: "mgood s t"
  have "decision_ok t d" using assms(2) d decision_ok_stable[OF mgoodD(2)[OF t]] by blast
  then show "outcome {} (mgood s) (receive_decision n (sl_slot d) (sl_proposal d) (sl_value d) t)"
    by (intro mgood_outcome[OF t receive_decision_good[OF mgoodD(1)[OF t]]]) simp
qed

lemma receive_recovery_response_good:
  assumes inv: "multi_inv s" and ds: "\<forall>d \<in> set ds. decision_ok s d"
  shows "outcome {} (mgood s) (receive_recovery_response n start ds s)"
proof -
  have "for_each (\<lambda>d _. if (case multi_learned_decision n (sl_slot d) s of Some l \<Rightarrow> sl_value l \<noteq> sl_value d | None \<Rightarrow> False)
      then Inl PaxosSafetyViolation else require_decision_evidence s d) ds () = Inr ()"
  proof (rule for_each_unit)
    fix d u assume "d \<in> set ds"
    then have d: "decision_ok s d" using ds by blast
    show "(if (case multi_learned_decision n (sl_slot d) s of Some l \<Rightarrow> sl_value l \<noteq> sl_value d | None \<Rightarrow> False)
      then Inl PaxosSafetyViolation else require_decision_evidence s d) = Inr ()"
      using learned_agrees[OF inv _ d] evidence_found[OF inv d] by (auto split: option.split)
  qed
  then show ?thesis using mgood_refl[OF inv] receive_decisions_good[OF inv ds]
    by (simp add: receive_recovery_response_def)
qed

section \<open>Dispatch and lifecycle\<close>

lemma mp_handle_message_good:
  assumes inv: "multi_inv s" and m: "multi_message_ok s m"
  shows "outcome {PaxosSafetyViolation} (mgood s) (mp_handle_message (msg_dst m) s m)"
proof -
  have n: "msg_dst m \<in> set (mp_node_ids s)" and pay: "multi_payload_ok s (msg_payload m)"
    using m by (simp_all add: multi_message_ok_def)
  have stay: "outcome {PaxosSafetyViolation} (mgood s) (Inr s)" using mgood_refl[OF inv] by simp
  show ?thesis
  proof (cases "msg_payload m")
    case (LeaderPrepare b)
    then show ?thesis using pay stay outcome_allow[OF multi_receive_prepare_good[OF inv _ n]]
      by (simp add: mp_handle_message_def)
  next
    case (LeaderPromiseMsg pr)
    then show ?thesis using pay stay outcome_allow[OF multi_receive_promise_good[OF inv]]
      by (simp add: mp_handle_message_def)
  next
    case (LeaderAccept k b v)
    then show ?thesis using pay stay receive_accept_good[OF inv _ n, of k b v] by (simp add: mp_handle_message_def)
  next
    case (LeaderAccepted k b a v)
    then show ?thesis using pay stay multi_receive_accepted_good[OF inv] by (simp add: mp_handle_message_def)
  next
    case (LeaderDecision k b v)
    then show ?thesis using pay stay outcome_allow[OF receive_decision_good[OF inv]]
      by (simp add: mp_handle_message_def)
  next
    case (DecisionRecoveryRequest start)
    then show ?thesis using stay outcome_allow[OF receive_recovery_request_good[OF inv]]
      by (simp add: mp_handle_message_def mp_peers_def)
  next
    case (DecisionRecoveryResponse start ds)
    then show ?thesis using pay stay outcome_allow[OF receive_recovery_response_good[OF inv]]
      by (simp add: mp_handle_message_def)
  next
    case (DecisionRecoveryRetry g a)
    then show ?thesis using stay outcome_allow[OF retry_recovery_good[OF inv n]] by (simp add: mp_handle_message_def)
  next
    case (ForeignMulti name)
    then show ?thesis using pay by simp
  qed
qed

lemma forget_leadership_good: "multi_inv s \<Longrightarrow> mgood s (forget_leadership n s)"
  unfolding forget_leadership_def by (rule mgood_node) (simp_all add: leader_ok_def)

end
