(* ===== verification/Paxos_Log_Recovery.thy ===== *)
theory Paxos_Log_Recovery
  imports Paxos_Log_Agreement
begin

text \<open>
  Rebuilding a Paxos log runtime, \<^verbatim>\<open>src/src/distlab/paxos_log_recovery.py\<close>: the volatile record of
  chosen decisions is derived from the durable accept histories. The rebuilt cluster is shown to
  satisfy the invariant of the log, so the guarantees of \<open>Paxos_Log_Agreement\<close> continue across it.
\<close>

section \<open>The recovering cluster\<close>

definition recover_evidence :: "'v paxos_log \<Rightarrow> 'v log_gathered result" where
  "recover_evidence s =
     for_each (\<lambda>n. for_each (gather_accepted n) (pl_history (persistent_state s n))) (pl_node_ids s) ([], [])"

definition slot_candidates :: "nat \<Rightarrow> 'v log_evidence list \<Rightarrow> int \<Rightarrow> (proposal_number \<times> 'v \<times> string set) list" where
  "slot_candidates quorum evidence slot =
     map (\<lambda>(_, p, v, acceptors). (p, v, acceptors))
       (filter (\<lambda>(k, _, _, acceptors). k = slot \<and> card acceptors \<ge> quorum) evidence)"

primrec lowest_candidate ::
  "proposal_number \<times> 'v \<times> string set \<Rightarrow> (proposal_number \<times> 'v \<times> string set) list \<Rightarrow> proposal_number \<times> 'v \<times> string set" where
  "lowest_candidate c [] = c"
| "lowest_candidate c (d # ds) = lowest_candidate (if fst d < fst c then d else c) ds"

definition recover_slot :: "'v log_evidence list \<Rightarrow> int \<Rightarrow> 'v paxos_log \<Rightarrow> 'v paxos_log result" where
  "recover_slot evidence slot s =
     (case slot_candidates (pl_quorum s) evidence slot of
        [] \<Rightarrow> Inr s
      | c # rest \<Rightarrow>
          (let value = fst (snd c)
           in if (\<exists>d \<in> set rest. fst (snd d) \<noteq> value) then Inl PaxosSafetyViolation
              else
                (let best = lowest_candidate c rest; names = sorted_list_of_set (snd (snd best))
                 in and_then (make_slot_learned slot (fst best) value) (\<lambda>decision.
                      Inr (record_app (EvLogChosenRecovered slot (fst best) value names)
                        (s\<lparr>pl_chosen := AList.update slot decision (pl_chosen s),
                           pl_chosen_acceptors := AList.update slot names (pl_chosen_acceptors s)\<rparr>))))))"

definition recover_chosen :: "'v paxos_log \<Rightarrow> 'v paxos_log result" where
  "recover_chosen s =
     and_then (recover_evidence s) (\<lambda>(evidence, _).
       for_each (recover_slot evidence)
         (sort (remdups (map fst (filter (\<lambda>(_, _, _, acceptors). card acceptors \<ge> pl_quorum s) evidence)))) s)"

definition RecoveringPaxosLogCluster ::
  "('v log_msg, 'v log_event, 'v log_durable, unit) simulator \<Rightarrow> string list \<Rightarrow> 'v paxos_log result" where
  "RecoveringPaxosLogCluster sim node_ids =
     and_then (PaxosLogCluster sim node_ids) (\<lambda>s.
     and_then (recover_chosen s) (\<lambda>s1.
     and_then (pl_checkpoint s1) (\<lambda>_. Inr s1)))"

section \<open>The rebuilt runtime\<close>

lemma register_ok:
  assumes "distinct ids" and "set ids \<inter> set (sim_handlers s) = {}"
  shows "\<exists>s'. for_each sim_register ids s = Inr s'"
  using assms by (induction ids arbitrary: s) (auto simp: sim_register_def)

lemma restored_paxos_inv:
  assumes "paxos_inv t"
  shows "paxos_inv (t\<lparr>sim_queue := [], sim_handlers := px_node_ids t, px_proposal := (\<lambda>_. None), px_chosen := None\<rparr>)"
    (is "paxos_inv ?t")
proof -
  have "px_votes ?t = px_votes t" "px_promises ?t = px_promises t" by (rule px_views, simp)+
  then show ?thesis using assms by (simp add: paxos_inv_def proposals_def started_def issued_def px_safe_def px_decided_def)
qed

lemma restored_log_inv:
  assumes "log_inv s" and "persistent_state s0 = persistent_state s" "pl_node_ids s0 = pl_node_ids s" "sim_handlers s0 = pl_node_ids s"
    "pl_proposals s0 = (\<lambda>_. [])" "pl_chosen s0 = []" "sim_queue s0 = []"
  shows "log_inv s0"
proof -
  have "\<exists>t. slot_sim k s0 t \<and> paxos_inv t" if k: "0 < k" for k
  proof -
    obtain t where t: "slot_sim k s t" "paxos_inv t" using log_invE[OF assms(1) k] .
    have "slot_sim k s0 (t\<lparr>sim_queue := [], sim_handlers := px_node_ids t, px_proposal := (\<lambda>_. None), px_chosen := None\<rparr>)"
      using t(1) by (simp add: slot_sim_def assms)
    then show ?thesis using restored_paxos_inv[OF t(2)] by blast
  qed
  moreover have "log_ok s0" using log_durable_ok[OF assms(1)] by (simp add: log_ok_def states_ok_def assms)
  ultimately show ?thesis by (simp add: log_inv_def)
qed

lemma log_ids_distinct:
  assumes "log_inv s"
  shows "distinct (pl_node_ids s)"
proof -
  obtain t where "slot_sim 1 s t" "paxos_inv t" using log_invE[OF assms, of 1] by auto
  then show ?thesis using paxos_invD(1)[of t] by (simp add: slot_sim_def)
qed

lemma log_reachable_ids: "paxos_log_reachable s \<Longrightarrow> pl_node_ids s \<noteq> []"
proof -
  assume "paxos_log_reachable s"
  then obtain s0 plan names ids where s0: "PaxosLogCluster (sim_init plan names (\<lambda>_. fresh_log)) ids = Inr s0" "paxos_log_step\<^sup>*\<^sup>* s0 s"
    unfolding paxos_log_reachable_def paxos_log_start_def by blast
  have "pl_node_ids s0 = ids \<and> ids \<noteq> []" using s0(1)
    by (auto simp: PaxosLogCluster_def Let_def and_then_eq_Inr simulator.defs paxos_log.defs split: if_splits dest!: for_each_skip register_all)
  then show ?thesis using log_goodD(2)[OF log_steps_good[OF s0(2) log_cluster_inv[OF s0(1)]]] by (simp add: log_grows_def)
qed

lemma restored_cluster:
  fixes s :: "'v paxos_log"
  assumes "log_inv s" and "pl_node_ids s \<noteq> []"
  shows "\<exists>s0. PaxosLogCluster (sim_init plan names (persistent_state s)) (pl_node_ids s) = Inr s0 \<and> log_inv s0 \<and>
    persistent_state s0 = persistent_state s \<and> pl_node_ids s0 = pl_node_ids s \<and> pl_chosen s0 = []"
proof -
  let ?e = "simulator.extend (sim_init plan names (persistent_state s)) (paxos_log.fields (pl_node_ids s) (\<lambda>_. []) [] []) :: 'v paxos_log"
  have "for_each (\<lambda>n s. and_then (validate_log_durable (persistent_state s n)) (\<lambda>_. Inr s)) ns ?e = Inr ?e" for ns
    by (induction ns) (simp_all add: sim_init_def simulator.defs validate_log_durable_ok[OF assms(1)])
  moreover obtain s0 where s0: "for_each sim_register (pl_node_ids s) ?e = Inr s0"
    using register_ok[OF log_ids_distinct[OF assms(1)], of ?e] by (auto simp: sim_init_def simulator.defs)
  ultimately have run: "PaxosLogCluster (sim_init plan names (persistent_state s)) (pl_node_ids s) = Inr s0"
    using assms(2) log_ids_distinct[OF assms(1)] by (simp add: PaxosLogCluster_def Let_def distinct_card)
  have fields: "persistent_state s0 = persistent_state s" "pl_node_ids s0 = pl_node_ids s" "sim_handlers s0 = pl_node_ids s"
    "pl_proposals s0 = (\<lambda>_. [])" "pl_chosen s0 = []" "sim_queue s0 = []"
    using register_all[OF s0] by (auto simp: sim_init_def simulator.defs paxos_log.defs)
  then show ?thesis using run restored_log_inv[OF assms(1) fields] by blast
qed

section \<open>Recovering the record\<close>

lemma lowest_candidate_in: "lowest_candidate c ds \<in> insert c (set ds)"
  by (induction ds arbitrary: c) auto

lemma recovered_evidence:
  assumes inv: "log_inv s"
  shows "outcome {} (gathered (log_votes s (set (pl_node_ids s)))) (recover_evidence s)"
proof -
  have "gather_node s = (\<lambda>n. for_each (gather_accepted n) (pl_history (persistent_state s n)))"
    by (intro ext) (simp add: gather_node_def validate_log_durable_ok[OF inv])
  with gather_nodes_ok[OF inv] show ?thesis by (simp only: recover_evidence_def)
qed

lemma log_inv_record_decision:
  assumes inv: "log_inv s" and k: "0 < k" and dec: "slot_decided s k p v"
  shows "log_inv (s\<lparr>pl_chosen := AList.update k (SlotLearnedDecision k p v) (pl_chosen s), pl_chosen_acceptors := x\<rparr>)" (is "log_inv ?s")
proof -
  have "\<exists>t. slot_sim j ?s t \<and> paxos_inv t" if j: "0 < j" for j
  proof (cases "j = k")
    case True
    obtain t where t: "slot_sim k s t" "paxos_inv t" using log_invE[OF inv k] .
    let ?t = "t\<lparr>px_chosen := Some (LearnedDecision p v)\<rparr>"
    have "slot_sim k ?s ?t" using t(1) by (simp add: slot_sim_def carried_def update_conv' decision_at_def)
    moreover have "paxos_inv ?t"
    proof (rule goodD(1)[OF good_same[OF t(2)]])
      show "px_chosen t = Some l \<or> px_decided t (ld_proposal l) (ld_value l)" if "px_chosen ?t = Some l" for l
        using that dec by (auto simp: decided_at[OF t(1)])
    qed (simp_all add: px_votes_def px_promises_def proposals_def started_def fun_eq_iff paxos_invD(3)[OF t(2)])
    ultimately show ?thesis using True by blast
  next
    case False
    obtain t where "slot_sim j s t" "paxos_inv t" using log_invE[OF inv j] .
    then show ?thesis using slot_sim_other(3)[OF _ False] by blast
  qed
  moreover have "log_ok ?s" using inv k by (auto simp: log_inv_def log_ok_def states_ok_def distinct_update dest!: update_entry)
  ultimately show ?thesis by (simp add: log_inv_def)
qed

definition recovering :: "'v paxos_log \<Rightarrow> int set \<Rightarrow> 'v paxos_log \<Rightarrow> bool" where
  "recovering s0 K s \<longleftrightarrow> log_inv s \<and> persistent_state s = persistent_state s0 \<and> pl_node_ids s = pl_node_ids s0 \<and>
     dom (map_of (pl_chosen s)) = K"

lemma recovering_decided: "recovering s0 K s \<Longrightarrow> slot_decided s k p v = slot_decided s0 k p v"
  by (simp add: recovering_def slot_decided_def pl_quorum_def)

lemma recover_slot_ok:
  assumes g: "gathered (log_votes s0 (set (pl_node_ids s0))) (es, pvs)" and s: "recovering s0 K s" and dec: "\<exists>p v. slot_decided s0 k p v"
  shows "outcome {} (recovering s0 (insert k K)) (recover_slot es k s)"
proof -
  have inv: "log_inv s" and q: "pl_quorum s = pl_quorum s0" and g': "gathered (log_votes s (set (pl_node_ids s))) (es, pvs)"
    using s g by (simp_all add: recovering_def pl_quorum_def log_votes_def)
  let ?cs = "slot_candidates (pl_quorum s) es k"
  have vals: "map (\<lambda>c. fst (snd c)) ?cs = chosen_values (pl_quorum s) es k"
    by (simp add: slot_candidates_def chosen_values_def comp_def case_prod_beta)
  have "\<exists>v. v \<in> set (chosen_values (pl_quorum s) es k)"
    using dec chosen_values_iff[OF g'] recovering_decided[OF s] by blast
  then obtain c rest where cs: "?cs = c # rest" unfolding vals[symmetric] by (cases ?cs) auto
  have at: "slot_decided s k (fst d) (fst (snd d))" if "d \<in> set ?cs" for d
  proof -
    obtain p v A where d: "d = (p, v, A)" by (cases d)
    then have "(k, p, v, A) \<in> set es" "pl_quorum s \<le> card A" using that by (auto simp: slot_candidates_def)
    then show ?thesis using evidence_decided[OF g'] by (simp add: d)
  qed
  have k: "0 < k"
    using slot_decided_positive[OF inv at, of c] by (simp add: cs)
  have same: "fst (snd d) = fst (snd c)" if "d \<in> set ?cs" for d
    using slot_decided_agree[OF inv k at[OF that] at, of c] by (simp add: cs)
  let ?b = "lowest_candidate c rest"
  have b: "?b \<in> set ?cs" using lowest_candidate_in[of c rest] by (simp add: cs)
  have "slot_decided s k (fst ?b) (fst (snd c))" using at[OF b] same[OF b] by simp
  note new = log_inv_record_decision[OF inv k this]
  have "recovering s0 (insert k K) (record_event ev (s\<lparr>pl_chosen := AList.update k (SlotLearnedDecision k (fst ?b) (fst (snd c))) (pl_chosen s),
      pl_chosen_acceptors := x\<rparr>))" for ev x
    using s new[of x] unfolding recovering_def by (simp add: update_conv' log_inv_def)
  moreover have "fst (snd d) = fst (snd c)" if "d \<in> set rest" for d by (rule same) (simp add: cs that)
  then have "\<not> (\<exists>d \<in> set rest. fst (snd d) \<noteq> fst (snd c))" by blast
  ultimately show ?thesis using k unfolding recover_slot_def cs by (simp add: Let_def make_slot_learned_def)
qed

lemma recover_slots_ok:
  assumes g: "gathered (log_votes s0 (set (pl_node_ids s0))) (es, pvs)" and "recovering s0 K s"
    and "\<And>k. k \<in> set ks \<Longrightarrow> \<exists>p v. slot_decided s0 k p v"
  shows "outcome {} (recovering s0 (set ks \<union> K)) (for_each (recover_slot es) ks s)"
  using assms(2,3)
proof (induction ks arbitrary: K s)
  case (Cons k ks)
  have "outcome {} (recovering s0 (insert k K)) (recover_slot es k s)"
    by (rule recover_slot_ok[OF g Cons.prems(1)]) (simp add: Cons.prems(2))
  then show ?case unfolding for_each.simps outcome_and_then
  proof (rule outcome_weaken)
    fix s1 assume "recovering s0 (insert k K) s1"
    from Cons.IH[OF this] Cons.prems(2) show "outcome {} (recovering s0 (set (k # ks) \<union> K)) (for_each (recover_slot es) ks s1)" by simp
  qed
qed simp

lemma recover_chosen_ok:
  assumes inv: "log_inv s" and "pl_chosen s = []"
  shows "outcome {} (recovering s {k. \<exists>p v. slot_decided s k p v}) (recover_chosen s)"
proof -
  obtain es pvs where es: "recover_evidence s = Inr (es, pvs)" and g: "gathered (log_votes s (set (pl_node_ids s))) (es, pvs)"
    using recovered_evidence[OF inv] by (auto simp: outcome_Inr_iff)
  let ?ks = "sort (remdups (map fst (filter (\<lambda>(_, _, _, acceptors). card acceptors \<ge> pl_quorum s) es)))"
  have "k \<in> set ?ks \<longleftrightarrow> (\<exists>v. v \<in> set (chosen_values (pl_quorum s) es k))" for k
    by (force simp: chosen_values_def image_iff)
  then have ks: "set ?ks = {k. \<exists>p v. slot_decided s k p v}" using chosen_values_iff[OF g] by blast
  have "recovering s {} s" using inv assms(2) by (simp add: recovering_def)
  from recover_slots_ok[OF g this, of ?ks] show ?thesis
    unfolding recover_chosen_def es ks by (simp add: ks)
qed

section \<open>Properties\<close>

text \<open>C12. Rebuilding loses no decision. Building a \<open>RecoveringPaxosLogCluster\<close> over the durable state of a
  reachable log cluster never raises, whatever was in flight; its record of chosen decisions covers
  exactly the slots with a durable majority, so every decision recorded or learned before the
  rebuild is there with its value, and along every further run of the rebuilt cluster whatever is
  recorded or learned for a slot is still the value decided before the rebuild.\<close>

theorem rebuild_keeps_decisions:
  assumes "paxos_log_reachable s"
  shows "\<exists>s1. RecoveringPaxosLogCluster (sim_init plan names (persistent_state s)) (pl_node_ids s) = Inr s1 \<and>
    persistent_state s1 = persistent_state s \<and>
    (\<forall>k. map_of (pl_chosen s1) k \<noteq> None \<longleftrightarrow> (\<exists>p v. slot_decided s k p v)) \<and>
    (\<forall>k. \<forall>l \<in> slot_decisions s k. \<exists>l1. map_of (pl_chosen s1) k = Some l1 \<and> sl_value l1 = sl_value l) \<and>
    (\<forall>s2 k. paxos_log_step\<^sup>*\<^sup>* s1 s2 \<longrightarrow> (\<forall>l \<in> slot_decisions s k. \<forall>l2 \<in> slot_decisions s2 k. sl_value l2 = sl_value l))"
proof -
  have inv: "log_inv s" by (rule log_reachable_inv[OF assms])
  obtain s0 where s0: "PaxosLogCluster (sim_init plan names (persistent_state s)) (pl_node_ids s) = Inr s0" "log_inv s0"
    "persistent_state s0 = persistent_state s" "pl_node_ids s0 = pl_node_ids s" "pl_chosen s0 = []"
    using restored_cluster[OF inv log_reachable_ids[OF assms]] by blast
  have dec: "slot_decided s0 k p v = slot_decided s k p v" for k p v by (simp add: slot_decided_def pl_quorum_def s0)
  obtain s1 where s1: "recover_chosen s0 = Inr s1" and rec: "recovering s0 {k. \<exists>p v. slot_decided s k p v} s1"
    using recover_chosen_ok[OF s0(2,5)] by (auto simp: outcome_Inr_iff dec)
  have inv1: "log_inv s1" and same: "persistent_state s1 = persistent_state s"
    and keys: "dom (map_of (pl_chosen s1)) = {k. \<exists>p v. slot_decided s k p v}"
    using rec s0(3) by (simp_all add: recovering_def)
  have dom: "map_of (pl_chosen s1) k \<noteq> None \<longleftrightarrow> (\<exists>p v. slot_decided s k p v)" for k
    using keys unfolding dom_def by blast
  have dec1: "slot_decided s1 k p v = slot_decided s k p v" for k p v using recovering_decided[OF rec] dec by blast
  have found: "\<exists>l1. map_of (pl_chosen s1) k = Some l1 \<and> sl_value l1 = sl_value l" if "l \<in> slot_decisions s k" for k l
  proof -
    have k: "0 < k" and d: "slot_decided s k (sl_proposal l) (sl_value l)" using slot_decisions_decided[OF inv that] by auto
    then obtain l1 where l1: "map_of (pl_chosen s1) k = Some l1" using dom by blast
    from slot_decided_agree[OF inv1 k chosen_decided(2)[OF inv1 l1]] d show ?thesis using l1 dec1 by blast
  qed
  have "sl_value l2 = sl_value l" if steps: "paxos_log_step\<^sup>*\<^sup>* s1 s2" and l: "l \<in> slot_decisions s k" and l2: "l2 \<in> slot_decisions s2 k" for s2 k l l2
  proof -
    have good: "log_good s1 s2" by (rule log_steps_good[OF steps inv1])
    obtain l1 where l1: "map_of (pl_chosen s1) k = Some l1" "sl_value l1 = sl_value l" using found[OF l] by blast
    then have "l1 \<in> slot_decisions s2 k" using log_goodD(2)[OF good] by (simp add: log_grows_def slot_decisions_def)
    then show ?thesis
      using slot_decisions_decided[OF log_goodD(1)[OF good]] l2 l1(2) slot_decided_agree[OF log_goodD(1)[OF good]] by metis
  qed
  moreover have "RecoveringPaxosLogCluster (sim_init plan names (persistent_state s)) (pl_node_ids s) = Inr s1"
    by (simp add: RecoveringPaxosLogCluster_def s0(1) s1 log_checkpoint_ok[OF inv1])
  ultimately show ?thesis using same dom found by blast
qed

theorem rebuild_keeps_decisions_witness:
  "paxos_log_reachable log_demo_second \<and>
   (\<exists>s1 l. RecoveringPaxosLogCluster (sim_init [] (\<lambda>_. []) (persistent_state log_demo_second)) (pl_node_ids log_demo_second) = Inr s1 \<and>
      map_of (pl_chosen s1) 1 = Some l \<and> sl_value l = 7)"
proof -
  have r: "paxos_log_reachable log_demo_second" by (rule log_reachable_steps[OF log_demo_reachable(2,3)])
  have "map_of (pl_chosen log_demo_second) 1 = Some (SlotLearnedDecision 1 (PN 1 ''a'') 7)" by code_simp
  then have "SlotLearnedDecision 1 (PN 1 ''a'') 7 \<in> slot_decisions log_demo_second 1" by (simp add: slot_decisions_def)
  then show ?thesis using rebuild_keeps_decisions[OF r, of "[]" "\<lambda>_. []"] r by fastforce
qed

end
