(* ===== verification/MultiPaxos_Agreement.thy ===== *)
theory MultiPaxos_Agreement
  imports MultiPaxos_Safety Paxos_Log_Recovery
begin

text \<open>
  What stable-leader Multi-Paxos guarantees over every behaviour of the simulated network and every
  use of the leader operations: one value per slot, decisions that never change, a safety check that
  passes, and a cluster rebuilt over the durable state that knows every decision.
\<close>

section \<open>Multi-Paxos as a protocol of the simulator\<close>

lemma mgood_frame:
  assumes g: "mgood s0 s" and same: "persistent_state s' = persistent_state s" "mp_node_ids s' = mp_node_ids s"
      "sim_handlers s' = sim_handlers s" "mp_nodes s' = mp_nodes s" "mp_chosen s' = mp_chosen s"
    and queue: "set (sim_queue s') \<subseteq> set (sim_queue s)"
  shows "mgood s0 s'"
proof (rule mgood_trans[OF g mgood_core[OF mgoodD(1)[OF g] same(1-3)]])
  note inv = mgoodD(1)[OF g]
  show "leader_ok s n (mp_nodes s' n)" for n using multi_invD(5)[OF inv] by (simp add: same)
  show "map_of (mp_chosen s) k = Some l \<Longrightarrow> map_of (mp_chosen s') k = Some l" for k l by (simp add: same)
  show "map_of (mp_chosen s') k = Some l \<Longrightarrow> sl_slot l = k \<and> decision_ok s l" for k l
    using multi_invD(7)[OF inv] by (simp add: same)
qed (use queue in blast)

lemma multi_message_ok_frame:
  assumes "multi_message_ok s m" and "persistent_state s' = persistent_state s" "mp_node_ids s' = mp_node_ids s" "sim_handlers s' = sim_handlers s"
  shows "multi_message_ok s' m"
  using assms(1) mp_same_views(9)[OF assms(2,3)] by (simp add: multi_message_ok_def assms)

interpretation mp: protocol multipaxos_callbacks "{PaxosSafetyViolation}" "mgood s0" multi_message_ok for s0
proof (unfold_locales, goal_cases)
  case (1 s d q t)
  show ?case by (rule mgood_frame[OF 1(1)]) (auto simp: 1(2))
next
  case (2 s d q t)
  have "multi_message_ok s (sd_message d)" by (rule multi_invD(8)[OF mgoodD(1)[OF 2(1)]]) (simp add: 2(2))
  then show ?case by (rule multi_message_ok_frame) simp_all
next
  case (4 s m ev)
  show ?case by (rule multi_message_ok_frame[OF 4(1)]) simp_all
next
  case (9 s m)
  then show ?case by (auto simp: multi_message_ok_def effective_dst_def)
next
  case (10 s m)
  then have "effective_dst m = msg_dst m" by (simp add: multi_message_ok_def effective_dst_def)
  with mgood_outcome[OF 10(1) mp_handle_message_good[OF mgoodD(1)[OF 10(1)] 10(2)]] show ?case
    by (simp add: multipaxos_callbacks_def)
next
  case (11 s n)
  have "mgood s0 (forget_leadership n s)" by (rule mgood_trans[OF 11 forget_leadership_good[OF mgoodD(1)[OF 11]]])
  then have "mgood s0 (forget_leadership n s\<lparr>volatile_state := vs\<rparr>)" for vs by (rule mgood_frame) simp_all
  then show ?case by (simp add: multipaxos_callbacks_def call_optional_def mp_handle_crash_def)
next
  case (12 s n)
  let ?t = "record_event (TRestart n) (s\<lparr>volatile_state := (volatile_state s)(n := None)\<rparr>)"
  have g: "mgood s0 ?t" by (rule mgood_frame[OF 12]) simp_all
  have "mgood s0 (forget_leadership n ?t)" by (rule mgood_trans[OF g forget_leadership_good[OF mgoodD(1)[OF g]]])
  then have "mgood s0 (record_app ev (forget_leadership n ?t))" for ev by (rule mgood_frame) simp_all
  then show ?case by (simp add: multipaxos_callbacks_def call_optional_def mp_handle_restart_def)
qed (erule mgood_frame; simp)+

section \<open>What the durable evidence shows\<close>

text \<open>The checks read the durable state and the membership only.\<close>

lemma evidence_cong:
  assumes "persistent_state s' = persistent_state s" and "mp_node_ids s' = mp_node_ids s"
  shows "promised_ballot n s' = promised_ballot n s" "validate_ballot s' b = validate_ballot s b"
    "validate_durable_accepted s' n x = validate_durable_accepted s n x"
    "count_evidence s' d n A = count_evidence s d n A"
    "validate_durable_learned s' n = validate_durable_learned s n"
    "slot_records s' k = slot_records s k" "recorded_slots s' = recorded_slots s"
    "quorum_records s' k = quorum_records s k" "multi_learned_decisions n s' = multi_learned_decisions n s"
proof -
  show p: "promised_ballot n s' = promised_ballot n s" for n by (simp only: promised_ballot_def assms)
  show v: "validate_ballot s' b = validate_ballot s b" for b by (simp add: validate_ballot_def assms)
  show a: "validate_durable_accepted s' n x = validate_durable_accepted s n x" for n x
    by (simp add: validate_durable_accepted_def p v)
  show "count_evidence s' d n A = count_evidence s d n A" by (simp only: count_evidence_def a assms)
  show "validate_durable_learned s' n = validate_durable_learned s n" by (simp only: validate_durable_learned_def v assms)
  show r: "slot_records s' k = slot_records s k" for k by (simp add: slot_records_def assms)
  show "recorded_slots s' = recorded_slots s" by (simp add: recorded_slots_def assms)
  show "quorum_records s' k = quorum_records s k" by (simp add: quorum_records_def r mp_quorum_def assms)
  show "multi_learned_decisions n s' = multi_learned_decisions n s" by (simp add: multi_learned_decisions_def assms)
qed

lemma evidence_cong2:
  assumes same: "persistent_state s' = persistent_state s" "mp_node_ids s' = mp_node_ids s"
  shows "require_decision_evidence s' d = require_decision_evidence s d" "validate_durable_history s' n = validate_durable_history s n"
proof -
  have "count_evidence s' d = count_evidence s d" by (intro ext evidence_cong(4)[OF same])
  then show "require_decision_evidence s' d = require_decision_evidence s d"
    by (simp add: require_decision_evidence_def evidence_cong(2)[OF same] mp_quorum_def same)
  have "validate_history s' n seen as = validate_history s n seen as" for seen as
    by (induction as arbitrary: seen) (simp_all only: validate_history.simps evidence_cong(3)[OF same])
  then show "validate_durable_history s' n = validate_durable_history s n"
    by (simp add: validate_durable_history_def evidence_cong(5)[OF same] same)
qed

lemma multi_assert_safety_cong:
  assumes same: "persistent_state s' = persistent_state s" "mp_node_ids s' = mp_node_ids s" and "mp_chosen s' = mp_chosen s"
  shows "multi_assert_safety s' = multi_assert_safety s"
proof -
  have "check_slot_quorums s' = check_slot_quorums s"
    by (intro ext) (simp only: check_slot_quorums_def evidence_cong(8)[OF same] assms(3))
  moreover have "check_learned s' = check_learned s"
    by (intro ext) (simp add: check_learned_def evidence_cong(8)[OF same] evidence_cong2(1)[OF same])
  ultimately show ?thesis
    by (simp add: multi_assert_safety_def evidence_cong(7,9)[OF same] evidence_cong2(2)[OF same] same(2))
qed

text \<open>The candidates of a slot are its decided ballots.\<close>

lemma slot_records_iff: "(b, v, n) \<in> set (slot_records s k) \<longleftrightarrow> n \<in> set (mp_node_ids s) \<and> (b, v) \<in> mp_votes s k n"
  by (force simp: slot_records_def mp_votes_iff)

lemma quorum_records_iff: "(b, v) \<in> set (quorum_records s k) \<longleftrightarrow> mp_decided s k b v"
proof -
  let ?A = "{n \<in> set (mp_node_ids s). (b, v) \<in> mp_votes s k n}"
  have voters: "(\<lambda>(_, _, n). n) ` set (filter (\<lambda>(b', v', _). b' = b \<and> v' = v) (slot_records s k)) = ?A"
    using slot_records_iff[of b v _ s k] by force
  have "(b, v) \<in> set (quorum_records s k) \<longleftrightarrow> ?A \<noteq> {} \<and> mp_quorum s \<le> card ?A"
  proof -
    have "(b, v) \<in> set (quorum_records s k) \<longleftrightarrow> (\<exists>n. (b, v, n) \<in> set (slot_records s k)) \<and> mp_quorum s \<le> card ?A"
      unfolding quorum_records_def Let_def List.map_filter_def voters[symmetric]
      by (auto simp: image_iff split: if_splits)
    then show ?thesis by (auto simp: slot_records_iff)
  qed
  also have "\<dots> \<longleftrightarrow> mp_decided s k b v"
  proof
    assume "?A \<noteq> {} \<and> mp_quorum s \<le> card ?A"
    then show "mp_decided s k b v" by (intro accepted_quorum_decided[of ?A]) simp_all
  next
    assume "mp_decided s k b v"
    then obtain Q where Q: "majority (mp_node_ids s) Q" "\<forall>a \<in> Q. (b, v) \<in> mp_votes s k a"
      unfolding mp_decided_def chosen_at_def by blast
    then have "Q \<subseteq> ?A" "Q \<noteq> {}" using maj.quorum_nonempty[OF Q(1)] by (auto simp: majority_def)
    moreover have "card Q \<le> card ?A" using \<open>Q \<subseteq> ?A\<close> by (intro card_mono) auto
    ultimately show "?A \<noteq> {} \<and> mp_quorum s \<le> card ?A" using Q(1) by (auto simp: majority_def mp_quorum_def)
  qed
  finally show ?thesis .
qed

lemma recorded_slots_decided: "mp_decided s k b v \<Longrightarrow> k \<in> set (recorded_slots s)"
proof -
  assume "mp_decided s k b v"
  then obtain n where "(b, v, n) \<in> set (slot_records s k)"
    unfolding quorum_records_iff[symmetric] by (auto simp: quorum_records_def Let_def List.map_filter_def split: if_splits)
  then show ?thesis by (force simp: recorded_slots_def slot_records_def)
qed

lemma validate_history_ok:
  assumes inv: "multi_inv s" and "set as \<subseteq> set (mp_history (persistent_state s n))"
    and "\<And>k b v. map_of seen (k, b) = Some v \<Longrightarrow> SlotAcceptedValue k b v \<in> set (mp_history (persistent_state s n))"
  shows "validate_history s n seen as = Inr ()"
  using assms(2,3)
proof (induction as arbitrary: seen)
  case (Cons a as)
  have a: "a \<in> set (mp_history (persistent_state s n))" using Cons.prems(1) by simp
  have same: "v = sa_value a" if "map_of seen (sa_slot a, sa_proposal a) = Some v" for v
    using multi_acceptorD(6)[OF multi_invD(3)[OF inv] Cons.prems(2)[OF that] a] by simp
  have "validate_history s n (AList.update (sa_slot a, sa_proposal a) (sa_value a) seen) as = Inr ()"
  proof (rule Cons.IH)
    show "set as \<subseteq> set (mp_history (persistent_state s n))" using Cons.prems(1) by simp
    show "SlotAcceptedValue k b v \<in> set (mp_history (persistent_state s n))"
      if "map_of (AList.update (sa_slot a, sa_proposal a) (sa_value a) seen) (k, b) = Some v" for k b v
      using that Cons.prems(2) a by (cases a) (auto simp: update_conv' split: if_splits)
  qed
  then show ?case using validate_accepted_ok[OF inv a] same by (auto simp: Let_def split: option.split)
qed simp

lemma validate_learned_ok:
  assumes inv: "multi_inv s"
  shows "validate_durable_learned s n = Inr ()"
proof (cases "mp_learned (persistent_state s n)")
  case (Some L)
  have "(case x of (slot, d) \<Rightarrow> if slot \<le> 0 \<or> sl_slot d \<le> 0 \<or> sl_slot d \<noteq> slot then Inl PaxosSafetyViolation
      else validate_ballot s (sl_proposal d)) = Inr ()" if x: "x \<in> set L" for x
  proof -
    obtain k d where kd: "x = (k, d)" by (cases x)
    have d: "sl_slot d = k" "decision_ok s d" using multi_invD(6)[OF inv, of n] x kd Some by (auto simp: learned_ok_def)
    then obtain a where "(sl_proposal d, sl_value d) \<in> mp_votes s k a"
      using maj.chosen_voted[of "mp_node_ids s" "mp_votes s k"] by (auto simp: decision_ok_def mp_decided_def)
    then have "ballot_ok (mp_node_ids s) (sl_proposal d)"
      using multi_acceptorD(4)[OF multi_invD(3)[OF inv]] by (fastforce simp: mp_votes_iff)
    then show ?thesis using d by (simp add: kd decision_ok_def validate_ballot_ok)
  qed
  then show ?thesis by (auto simp: validate_durable_learned_def Some intro!: for_each_unit)
qed (simp add: validate_durable_learned_def)

lemma validate_multi_ok: "multi_inv s \<Longrightarrow> validate_durable_history s n = Inr ()"
  by (simp add: validate_durable_history_def validate_learned_ok) (rule validate_history_ok; simp)

section \<open>The safety check\<close>

lemma candidates_iff: "v \<in> set (map snd (quorum_records s k)) \<longleftrightarrow> (\<exists>b. mp_decided s k b v)"
  using quorum_records_iff[of _ v s k] by force

lemma candidates_head:
  assumes inv: "multi_inv s" and "mp_decided s k b v"
  shows "map snd (quorum_records s k) \<noteq> [] \<and> hd (map snd (quorum_records s k)) = v"
proof -
  let ?c = "map snd (quorum_records s k)"
  have ne: "?c \<noteq> []" using assms(2) candidates_iff[of v s k] by (metis empty_iff list.set(1))
  then obtain b' where "mp_decided s k b' (hd ?c)" using candidates_iff[of "hd ?c" s k] hd_in_set[OF ne] by blast
  then show ?thesis using multi_agree[OF inv _ assms(2)] ne by blast
qed

lemma check_slot_ok:
  assumes inv: "multi_inv s"
  shows "check_slot_quorums s k () = Inr ()"
proof -
  have "all_equal_to_head (map snd (quorum_records s k))"
    by (rule all_equal_to_headI) (use candidates_iff[of _ s k] multi_agree[OF inv] in blast)
  moreover have "hd (map snd (quorum_records s k)) = sl_value l" if l: "map_of (mp_chosen s) k = Some l" for l
    using candidates_head[OF inv, of k "sl_proposal l" "sl_value l"] multi_invD(7)[OF inv l] by (auto simp: decision_ok_def)
  ultimately show ?thesis by (auto simp: check_slot_quorums_def Let_def split: option.split)
qed

lemma learned_decisions_ok:
  assumes inv: "multi_inv s" and "d \<in> set (multi_learned_decisions n s)"
  shows "decision_ok s d"
proof -
  obtain k where "multi_learned_decision n k s = Some d"
    using assms(2) by (cases "mp_learned (persistent_state s n)")
      (auto simp: multi_learned_decisions_def multi_learned_decision_def List.map_filter_def)
  then show ?thesis by (rule learned_decisionD(2)[OF inv])
qed

lemma multi_assert_safety_ok:
  assumes inv: "multi_inv s"
  shows "multi_assert_safety s = Inr ()"
proof -
  have "check_learned s d () = Inr ()" if "d \<in> set (multi_learned_decisions n s)" for n d
    using learned_decisions_ok[OF inv that] candidates_head[OF inv, of "sl_slot d" "sl_proposal d" "sl_value d"]
      evidence_found[OF inv] by (simp add: check_learned_def Let_def decision_ok_def)
  then have "for_each (check_learned s) (multi_learned_decisions n s) () = Inr ()" for n by (rule for_each_unit)
  then have "for_each (\<lambda>n. for_each (check_learned s) (multi_learned_decisions n s)) ns () = Inr ()" for ns
    by (rule for_each_unit)
  moreover have "for_each (check_slot_quorums s) ks () = Inr ()" for ks by (intro for_each_unit check_slot_ok[OF inv])
  moreover have "for_each (\<lambda>n _. validate_durable_history s n) ns () = Inr ()" for ns
    by (intro for_each_unit validate_multi_ok[OF inv])
  ultimately show ?thesis by (simp add: multi_assert_safety_def)
qed

section \<open>Recovering the record\<close>

definition mp_recovering :: "'v multipaxos \<Rightarrow> int set \<Rightarrow> 'v multipaxos \<Rightarrow> bool" where
  "mp_recovering s0 K s \<longleftrightarrow> persistent_state s = persistent_state s0 \<and> mp_node_ids s = mp_node_ids s0 \<and>
     mp_nodes s = mp_nodes s0 \<and> mp_learn_decisions s = mp_learn_decisions s0 \<and> sim_queue s = sim_queue s0 \<and> sim_handlers s = sim_handlers s0 \<and>
     (\<forall>k l. map_of (mp_chosen s) k = Some l \<longrightarrow> sl_slot l = k \<and> decision_ok s0 l) \<and>
     dom (map_of (mp_chosen s)) = {k \<in> K. \<exists>b v. mp_decided s0 k b v}"

lemma recover_multi_slot_ok:
  assumes agree: "\<And>k b v c w. mp_decided s0 k b v \<Longrightarrow> mp_decided s0 k c w \<Longrightarrow> 0 < k \<and> v = w" and s: "mp_recovering s0 K s"
  shows "outcome {} (mp_recovering s0 (insert k K)) (recover_multi_slot k s)"
proof -
  have same: "persistent_state s = persistent_state s0" "mp_node_ids s = mp_node_ids s0" using s by (simp_all add: mp_recovering_def)
  have eq: "quorum_records s k = quorum_records s0 k" by (rule evidence_cong(8)[OF same])
  show ?thesis
  proof (cases "quorum_records s0 k")
    case Nil
    then have none: "\<not> mp_decided s0 k b v" for b v using quorum_records_iff[of b v s0 k] by simp
    have "{j \<in> insert k K. \<exists>b v. mp_decided s0 j b v} = {j \<in> K. \<exists>b v. mp_decided s0 j b v}" using none by auto
    then have "mp_recovering s0 (insert k K) s" using s unfolding mp_recovering_def by simp
    then show ?thesis by (simp add: recover_multi_slot_def eq Nil)
  next
    case (Cons top rest)
    obtain b0 v where c: "top = (b0, v)" by (cases top)
    define b where "b = Max (set (b0 # map fst rest))"
    have dec: "mp_decided s0 k c w" if "(c, w) \<in> set (quorum_records s0 k)" for c w using that by (simp only: quorum_records_iff)
    have "mp_decided s0 k b0 v" by (rule dec) (simp add: Cons c)
    note one = agree[OF _ this]
    have "b \<in> set (b0 # map fst rest)" unfolding b_def by (intro Max_in) simp_all
    then obtain w where "(b, w) \<in> set (quorum_records s0 k)" unfolding Cons c by force
    then have bv: "mp_decided s0 k b v" "0 < k" using dec one by blast+
    have rest: "\<not> (\<exists>r \<in> set rest. snd r \<noteq> v)"
    proof
      assume "\<exists>r \<in> set rest. snd r \<noteq> v"
      then obtain c w where "(c, w) \<in> set rest" "w \<noteq> v" by force
      then show False using one[OF dec, of c w] by (simp add: Cons)
    qed
    let ?l = "SlotLearnedDecision k b v"
    have "mp_recovering s0 (insert k K) (record_event ev (s\<lparr>mp_chosen := AList.update k ?l (mp_chosen s)\<rparr>))" for ev
    proof -
      have "decision_ok s0 ?l" using bv by (simp add: decision_ok_def)
      moreover have "{j \<in> insert k K. \<exists>b v. mp_decided s0 j b v} = insert k {j \<in> K. \<exists>b v. mp_decided s0 j b v}" using bv(1) by auto
      ultimately show ?thesis using s by (simp add: mp_recovering_def update_conv' record_event_def)
    qed
    then show ?thesis using bv(2) rest
      unfolding recover_multi_slot_def eq Cons c list.case prod.case b_def[symmetric] by (simp add: Let_def make_slot_learned_def)
  qed
qed

lemma recover_multi_slots_ok:
  assumes agree: "\<And>k b v c w. mp_decided s0 k b v \<Longrightarrow> mp_decided s0 k c w \<Longrightarrow> 0 < k \<and> v = w" and s: "mp_recovering s0 K s"
  shows "outcome {} (mp_recovering s0 (set ks \<union> K)) (for_each recover_multi_slot ks s)"
  using s
proof (induction ks arbitrary: K s)
  case (Cons k ks)
  have "outcome {} (mp_recovering s0 (insert k K)) (recover_multi_slot k s)"
    by (rule recover_multi_slot_ok[OF _ Cons.prems]) (rule agree)
  then show ?case unfolding for_each.simps outcome_and_then
  proof (rule outcome_weaken)
    fix t assume "mp_recovering s0 (insert k K) t"
    from Cons.IH[OF this] show "outcome {} (mp_recovering s0 (set (k # ks) \<union> K)) (for_each recover_multi_slot ks t)" by simp
  qed
qed simp

text \<open>\<open>s\<close> is the new runtime over the durable state, before its nodes are registered.\<close>

lemma multi_recover_chosen_ok:
  assumes inv: "multi_inv (s\<lparr>sim_handlers := mp_node_ids s\<rparr>)" and none: "mp_chosen s = []"
  shows "outcome {} (\<lambda>s1. mp_recovering s UNIV s1 \<and> multi_inv (s1\<lparr>sim_handlers := mp_node_ids s1\<rparr>)) (multi_recover_chosen s)"
proof -
  let ?h = "s\<lparr>sim_handlers := mp_node_ids s\<rparr>"
  have views: "mp_decided ?h = mp_decided s" "decision_ok ?h = decision_ok s" by (rule mp_same_views; simp)+
  have valid: "for_each (\<lambda>n _. validate_durable_history s n) ns () = Inr ()" for ns
    using validate_multi_ok[OF inv] evidence_cong2(2)[of ?h s] by (intro for_each_unit) simp
  have agree: "0 < k \<and> v = w" if "mp_decided s k b v" "mp_decided s k c w" for k b v c w
    using multi_agree[OF inv] mp_decided_positive[OF inv] that unfolding views by blast
  have "mp_recovering s {} s" using none by (simp add: mp_recovering_def)
  then have "outcome {} (mp_recovering s (set (recorded_slots s) \<union> {})) (for_each recover_multi_slot (recorded_slots s) s)"
    by (rule recover_multi_slots_ok[rotated]) (rule agree)
  then obtain s1 where s1: "for_each recover_multi_slot (recorded_slots s) s = Inr s1" "mp_recovering s (set (recorded_slots s)) s1"
    by (auto simp: outcome_Inr_iff)
  have all: "mp_recovering s UNIV s1"
    using s1(2) recorded_slots_decided[of s] unfolding mp_recovering_def by blast
  have "mgood ?h (s1\<lparr>sim_handlers := mp_node_ids s1\<rparr>)"
  proof (rule mgood_core[OF inv])
    show "leader_ok ?h n (mp_nodes (s1\<lparr>sim_handlers := mp_node_ids s1\<rparr>) n)" for n
      using multi_invD(5)[OF inv, of n] all by (simp add: mp_recovering_def)
  qed (use all none in \<open>auto simp: mp_recovering_def views\<close>)
  then have inv1: "multi_inv (s1\<lparr>sim_handlers := mp_node_ids s1\<rparr>)" by (rule mgoodD)
  then have "multi_assert_safety s1 = Inr ()"
    using multi_assert_safety_ok[OF inv1] multi_assert_safety_cong[of "s1\<lparr>sim_handlers := mp_node_ids s1\<rparr>" s1] by simp
  then show ?thesis using all inv1 valid s1(1) by (simp add: multi_recover_chosen_def)
qed

section \<open>Building a cluster\<close>

lemma init_learned_simps [simp]:
  "mp_promised (init_learned b d) = mp_promised d" "mp_history (init_learned b d) = mp_history d"
  "mp_accepted (init_learned b d) = mp_accepted d" "mp_last_round (init_learned b d) = mp_last_round d"
  "mp_learned (init_learned b d) = (if b \<and> mp_learned d = None then Some [] else mp_learned d)"
  by (simp_all add: init_learned_def)

lemma init_all_learned:
  "distinct ns \<Longrightarrow> fold (\<lambda>n. set_durable n f) ns s =
     s\<lparr>persistent_state := (\<lambda>a. if a \<in> set ns then f (persistent_state s a) else persistent_state s a)\<rparr>"
  by (induction ns arbitrary: s) (auto simp: set_durable_def fun_eq_iff)

lemma init_learned_ok [simp]: "multi_acceptor_ok ids (init_learned b d) = multi_acceptor_ok ids d"
  by (simp add: init_learned_def)

lemma cluster_built:
  fixes s :: "'v multipaxos"
  assumes inv: "multi_inv s" and ids: "mp_node_ids s = ids" "ids \<noteq> []"
  shows "\<exists>s1. MultiPaxosCluster (sim_init plan names (persistent_state s)) ids learn = Inr s1 \<and> multi_inv s1 \<and>
    mp_node_ids s1 = ids \<and> mp_learn_decisions s1 = learn \<and> sim_queue s1 = [] \<and> (\<forall>n. mp_nodes s1 n = fresh_node) \<and>
    (\<forall>a. persistent_state s1 a = (if a \<in> set ids then init_learned learn (persistent_state s a) else persistent_state s a)) \<and>
    (\<forall>k. map_of (mp_chosen s1) k \<noteq> None \<longleftrightarrow> (\<exists>b v. mp_decided s k b v))"
proof -
  let ?D = "\<lambda>a. if a \<in> set ids then init_learned learn (persistent_state s a) else persistent_state s a"
  let ?e = "simulator.extend (sim_init plan names (persistent_state s)) (multipaxos.fields ids learn (\<lambda>_. fresh_node) []) :: 'v multipaxos"
  let ?s = "?e\<lparr>persistent_state := ?D\<rparr>"
  have dist: "distinct ids" using multi_invD(1)[OF inv] ids by simp
  have ps: "persistent_state ?e = persistent_state s" by (simp add: sim_init_def simulator.defs)
  have init: "fold (\<lambda>n. set_durable n (init_learned learn)) ids ?e = ?s" by (simp only: init_all_learned[OF dist] ps)
  have fields: "mp_node_ids ?s = ids" "mp_chosen ?s = []" "sim_queue ?s = []" "sim_handlers ?s = []" "mp_nodes ?s = (\<lambda>_. fresh_node)"
    "mp_learn_decisions ?s = learn"
    by (simp_all add: sim_init_def simulator.defs multipaxos.defs)
  let ?h = "?s\<lparr>sim_handlers := mp_node_ids ?s\<rparr>"
  have votes: "mp_votes ?h = mp_votes s" "mp_promises ?h = mp_promises s"
    by (auto simp: mp_votes_def mp_promises_def fun_eq_iff)
  have ids': "mp_node_ids ?h = mp_node_ids s" using fields(1) ids by simp
  have dec: "mp_decided ?h = mp_decided s" "mp_sound ?h = mp_sound s" "decision_ok ?h = decision_ok s"
    unfolding mp_decided_def[abs_def] mp_sound_def[abs_def] decision_ok_def[abs_def] votes ids' by (rule refl)+
  have "multi_inv ?h"
    unfolding multi_inv_def
  proof (intro conjI allI impI ballI)
    show "distinct (mp_node_ids ?h)" using dist fields(1) by simp
    show "set (mp_node_ids ?h) \<subseteq> set (sim_handlers ?h)" by simp
    show "multi_acceptor_ok (mp_node_ids ?h) (persistent_state ?h a)" for a
      unfolding ids' using multi_invD(3)[OF inv, of a] by simp
    show "mp_sound ?h k p v" if "(p, v) \<in> mp_votes ?h k a" for a k p v
      using multi_invD(4)[OF inv] that unfolding dec votes by blast
    show "leader_ok ?h n (mp_nodes ?h n)" for n using fields(5) by (simp add: leader_ok_def fresh_node_def)
    show "learned_ok ?h (persistent_state ?h a)" for a
      using multi_invD(6)[OF inv, of a] unfolding learned_ok_def dec by (auto split: if_splits)
    show "sl_slot l = k" "decision_ok ?h l" if "map_of (mp_chosen ?h) k = Some l" for k l using that fields(2) by simp_all
    show "multi_message_ok ?h (sd_message d)" if "d \<in> set (sim_queue ?h)" for d using that fields(3) by simp
  qed
  from multi_recover_chosen_ok[OF this fields(2)] obtain s1 where s1: "multi_recover_chosen ?s = Inr s1"
    and rec: "mp_recovering ?s UNIV s1" and inv1: "multi_inv (s1\<lparr>sim_handlers := mp_node_ids s1\<rparr>)"
    by (auto simp: outcome_Inr_iff)
  have h1: "sim_handlers s1 = []" "mp_node_ids s1 = ids" using rec fields by (simp_all add: mp_recovering_def)
  obtain s2 where s2: "for_each sim_register ids s1 = Inr s2" using register_ok[OF dist, of s1] h1 by auto
  then obtain al where al: "s2 = s1\<lparr>sim_handlers := ids, sim_alive := al\<rparr>" using register_all[OF s2] h1(1) by auto
  have "mgood (s1\<lparr>sim_handlers := mp_node_ids s1\<rparr>) s2"
    by (rule mgood_frame[OF mgood_refl[OF inv1]]) (simp_all add: al h1)
  then have inv2: "multi_inv s2" by (rule mgoodD)
  have "MultiPaxosCluster (sim_init plan names (persistent_state s)) ids learn = Inr s2"
    using ids(2) dist s1 s2 init by (simp add: MultiPaxosCluster_def Let_def distinct_card)
  moreover have "map_of (mp_chosen s2) k \<noteq> None \<longleftrightarrow> (\<exists>b v. mp_decided s k b v)" for k
  proof -
    have "mp_decided ?s = mp_decided ?h" by (rule mp_same_views(4)) simp_all
    then have "mp_decided ?s = mp_decided s" by (simp only: dec)
    moreover have "dom (map_of (mp_chosen s1)) = {k \<in> UNIV. \<exists>b v. mp_decided ?s k b v}" using rec unfolding mp_recovering_def by blast
    ultimately have "dom (map_of (mp_chosen s1)) = {k. \<exists>b v. mp_decided s k b v}" by simp
    then show ?thesis by (auto simp: al dom_def set_eq_iff)
  qed
  moreover have "persistent_state s2 = ?D" "mp_learn_decisions s2 = learn" "sim_queue s2 = []" "mp_nodes s2 = (\<lambda>_. fresh_node)"
    using rec fields by (simp_all add: al mp_recovering_def)
  ultimately show ?thesis using inv2 by (intro exI[of _ s2]) (simp add: al h1)
qed

section \<open>Reachable states\<close>

inductive multipaxos_step :: "'v multipaxos \<Rightarrow> 'v multipaxos \<Rightarrow> bool" where
  network: "sim_step multipaxos_callbacks s s' \<Longrightarrow> multipaxos_step s s'"
| prepare: "n \<in> set (mp_node_ids s) \<Longrightarrow> prepare_leadership n r s = Inr (b, s') \<Longrightarrow> multipaxos_step s s'"
| propose: "n \<in> set (mp_node_ids s) \<Longrightarrow> propose n k v s = Inr s' \<Longrightarrow> multipaxos_step s s'"
| retry: "n \<in> set (mp_node_ids s) \<Longrightarrow> retry_proposal n k s = Inr s' \<Longrightarrow> multipaxos_step s s'"
| recover: "n \<in> set (mp_node_ids s) \<Longrightarrow> recover_decisions n k s = Inr s' \<Longrightarrow> multipaxos_step s s'"

definition multipaxos_start :: "'v multipaxos \<Rightarrow> bool" where
  "multipaxos_start s \<longleftrightarrow> (\<exists>plan names ids learn. MultiPaxosCluster (sim_init plan names (\<lambda>_. fresh_multi)) ids learn = Inr s)"

definition multipaxos_reachable :: "'v multipaxos \<Rightarrow> bool" where
  "multipaxos_reachable s \<longleftrightarrow> (\<exists>s0. multipaxos_start s0 \<and> multipaxos_step\<^sup>*\<^sup>* s0 s)"

lemma fresh_multi_inv:
  assumes "distinct ids"
  shows "multi_inv (simulator.extend (sim_init plan names (\<lambda>_. fresh_multi)) (multipaxos.fields ids learn (\<lambda>_. fresh_node) [])\<lparr>sim_handlers := ids\<rparr> :: 'v multipaxos)"
  using assms
  by (auto simp: multi_inv_def sim_init_def simulator.defs multipaxos.defs multi_acceptor_ok_def fresh_multi_def mp_votes_def
      leader_ok_def fresh_node_def learned_ok_def)

lemma multi_cluster_inv:
  fixes s :: "'v multipaxos"
  assumes start: "MultiPaxosCluster (sim_init plan names (\<lambda>_. fresh_multi)) ids learn = Inr s"
  shows "multi_inv s \<and> mp_node_ids s = ids \<and> ids \<noteq> [] \<and> (\<forall>n. mp_nodes s n = fresh_node)"
proof -
  have ids: "distinct ids" "ids \<noteq> []" using start by (auto simp: MultiPaxosCluster_def card_distinct split: if_splits)
  let ?s = "simulator.extend (sim_init plan names (\<lambda>_. fresh_multi)) (multipaxos.fields ids learn (\<lambda>_. fresh_node) [])\<lparr>sim_handlers := ids\<rparr> :: 'v multipaxos"
  have "mp_node_ids ?s = ids" "persistent_state ?s = (\<lambda>_. fresh_multi)" by (simp_all add: sim_init_def simulator.defs multipaxos.defs)
  with cluster_built[OF fresh_multi_inv[OF ids(1)], of plan names learn ids plan names learn] ids(2) start show ?thesis by auto
qed

lemma multi_step_good: "multipaxos_step s s' \<Longrightarrow> multi_inv s \<Longrightarrow> mgood s s'"
proof (induction rule: multipaxos_step.induct)
  case (network s s')
  then show ?case using mp.step_inv[of s s' s] mgood_refl by blast
next
  case (prepare n s r b s')
  then show ?case using prepare_leadership_good[of s n r] by simp
next
  case (propose n s k v s')
  then show ?case using propose_good[of s n k v] by simp
next
  case (retry n s k s')
  then show ?case using retry_proposal_good[of s n k] by simp
next
  case (recover n s k s')
  then show ?case using recover_decisions_good[of s n k] by simp
qed

lemma multi_steps_good: "multipaxos_step\<^sup>*\<^sup>* s s' \<Longrightarrow> multi_inv s \<Longrightarrow> mgood s s'"
proof (induction rule: rtranclp_induct)
  case base
  then show ?case by (rule mgood_refl)
next
  case (step y z)
  then show ?case using mgood_trans multi_step_good mgoodD(1) by blast
qed

lemma multi_reachable_inv:
  assumes "multipaxos_reachable s"
  shows "multi_inv s \<and> mp_node_ids s \<noteq> []"
proof -
  obtain s0 plan names ids learn where s0: "MultiPaxosCluster (sim_init plan names (\<lambda>_. fresh_multi)) ids learn = Inr s0" "multipaxos_step\<^sup>*\<^sup>* s0 s"
    using assms unfolding multipaxos_reachable_def multipaxos_start_def by blast
  have c: "multi_inv s0" "mp_node_ids s0 \<noteq> []" using multi_cluster_inv[OF s0(1)] by simp_all
  have "mgood s0 s" by (rule multi_steps_good[OF s0(2) c(1)])
  then show ?thesis using c(2) by (simp add: mgood_def mp_evolves_def)
qed

lemma multi_reachable_steps: "multipaxos_reachable s \<Longrightarrow> multipaxos_step\<^sup>*\<^sup>* s s' \<Longrightarrow> multipaxos_reachable s'"
  unfolding multipaxos_reachable_def by (meson rtranclp_trans)

lemma multi_network_steps: "(sim_step multipaxos_callbacks)\<^sup>*\<^sup>* s s' \<Longrightarrow> multipaxos_step\<^sup>*\<^sup>* s s'"
  by (induction rule: rtranclp_induct) (auto intro: rtranclp.rtrancl_into_rtrancl multipaxos_step.network)

section \<open>Multi-Paxos falls silent\<close>

fun multi_rank :: "'v multi_msg \<Rightarrow> nat" where
  "multi_rank (LeaderPrepare b) = 1"
| "multi_rank (LeaderPromiseMsg pr) = 0"
| "multi_rank (LeaderAccept k b v) = 2"
| "multi_rank (LeaderAccepted k b a v) = 1"
| "multi_rank (LeaderDecision k b v) = 0"
| "multi_rank (DecisionRecoveryRequest start) = 1"
| "multi_rank (DecisionRecoveryResponse start ds) = 0"
| "multi_rank (DecisionRecoveryRetry generation attempt) = 2 + nat (RECOVERY_ATTEMPTS - attempt)"
| "multi_rank (ForeignMulti name) = 0"

text \<open>Every node's retry counter stays within the bound, so a retry timer re-arms a bounded number of times.\<close>

definition attempts_bounded :: "'v multipaxos \<Rightarrow> bool" where
  "attempts_bounded s \<longleftrightarrow> (\<forall>n. mn_attempt (mp_nodes s n) \<le> RECOVERY_ATTEMPTS)"

definition mcalm :: "nat \<Rightarrow> 'v multipaxos \<Rightarrow> 'v multipaxos \<Rightarrow> bool" where
  "mcalm r s t \<longleftrightarrow> emits multi_rank r s t \<and> attempts_bounded t"

lemma emits_node [simp]: "emits rank r s (update_node n f t) = emits rank r s t" "emits rank r s (t\<lparr>mp_chosen := c\<rparr>) = emits rank r s t"
  by (simp_all add: emits_def sim_wf_def update_node_def)

lemma mcalm_simps [simp]:
  "mcalm r s (record_event ev t) = mcalm r s t" "mcalm r s (set_durable n f t) = mcalm r s t"
  "mcalm r s (t\<lparr>mp_chosen := c\<rparr>) = mcalm r s t"
  by (simp_all add: mcalm_def attempts_bounded_def)

lemma mcalm_node [intro]: "mcalm r s t \<Longrightarrow> mn_attempt (f (mp_nodes t n)) \<le> RECOVERY_ATTEMPTS \<Longrightarrow> mcalm r s (update_node n f t)"
  by (simp add: mcalm_def attempts_bounded_def)

lemma mcalm_attempt: "mcalm r s t \<Longrightarrow> mn_attempt (mp_nodes t n) \<le> RECOVERY_ATTEMPTS"
  by (simp add: mcalm_def attempts_bounded_def)

lemma mcalm_send: "multi_rank p < r \<Longrightarrow> mcalm r s t \<Longrightarrow> outcome UNIV (mcalm r s) (send_msg src dst p t)"
proof -
  assume "multi_rank p < r" "mcalm r s t"
  then have "outcome UNIV (emits multi_rank r s) (send_msg src dst p t)" by (intro emits_send) (simp_all add: mcalm_def)
  moreover have "outcome UNIV (\<lambda>u. mp_nodes u = mp_nodes t) (send_msg src dst p t)"
    by (rule outcome_mono[OF sent_outcome]) (auto simp: sent_def elim!: core_frameE)
  ultimately show ?thesis using \<open>mcalm r s t\<close> by (cases "send_msg src dst p t") (simp_all add: mcalm_def attempts_bounded_def)
qed

lemma mcalm_broadcast:
  "multi_rank p < r \<Longrightarrow> mcalm r s t \<Longrightarrow> outcome UNIV (mcalm r s) (for_each (\<lambda>peer. send_msg src peer p) peers t)"
  by (rule outcome_for_each) (auto intro: mcalm_send)

lemma sends_nodes: "outcome UNIV (\<lambda>u. mp_nodes u = mp_nodes t) (for_each (\<lambda>peer. send_msg src peer p) peers t)"
proof (rule outcome_for_each)
  fix peer u assume "mp_nodes u = mp_nodes t"
  then show "outcome UNIV (\<lambda>u. mp_nodes u = mp_nodes t) (send_msg src peer p u)"
    by (intro outcome_mono[OF sent_outcome]) (auto simp: sent_def elim!: core_frameE)
qed simp

lemma emits_schedule:
  assumes "rank (msg_payload m) < r" and "emits rank r s t" and "0 \<le> dl"
  shows "emits rank r s (sim_schedule m dl t)"
proof -
  have "emits rank r t (sim_schedule m dl t)"
    unfolding emits_def
    using assms(1,3) sim_schedule_wf[of t dl m] by (auto simp: queue_schedule intro!: exI[of _ "{#\<lparr>sd_time = sim_time t + dl, sd_sequence = sim_sequence t + 1, sd_message = m\<rparr>#}"])
  with assms(2) show ?thesis by (rule emits_trans)
qed

lemma any_outcome [simp]: "outcome UNIV (\<lambda>_. True) m"
  by (cases m) simp_all

lemma outcome_any: "(\<And>x. P x) \<Longrightarrow> outcome UNIV P m"
  by (cases m) simp_all

lemma receive_decision_calm: "mcalm r s t \<Longrightarrow> outcome UNIV (mcalm r s) (receive_decision n k b v t)"
  by (auto simp: receive_decision_def make_slot_learned_def Let_def split: option.split intro: outcome_weaken[OF any_outcome])

lemma multi_record_chosen_calm: "mcalm r s t \<Longrightarrow> outcome UNIV (mcalm r s) (multi_record_chosen k b v t)"
  by (auto simp: multi_record_chosen_def make_slot_learned_def split: option.split)

lemma mcalm_keep [intro]: "mcalm r s t \<Longrightarrow> mn_attempt (f (mp_nodes t n)) = mn_attempt (mp_nodes t n) \<Longrightarrow> mcalm r s (update_node n f t)"
  by (rule mcalm_node) (simp_all add: mcalm_attempt)

lemma multi_receive_accepted_calm:
  assumes r: "1 \<le> r" and t: "mcalm r s t"
  shows "outcome UNIV (mcalm r s) (multi_receive_accepted n k b a v t)"
proof -
  have learn: "outcome UNIV (mcalm r s) (if \<not> mp_learn_decisions u then Inr u
      else and_then (receive_decision n k b v u) (mp_broadcast n (LeaderDecision k b v)))" if u: "mcalm r s u" for u
    using u r by (auto intro!: outcome_weaken[OF receive_decision_calm[OF u]] mcalm_broadcast)
  have "outcome UNIV (mcalm r s) (and_then (multi_record_chosen k b v u) (\<lambda>s2.
      let s3 = update_node n (\<lambda>nd. nd\<lparr>mn_pending := AList.delete k (mn_pending nd), mn_accepted_by := AList.delete k (mn_accepted_by nd)\<rparr>) s2
      in if \<not> mp_learn_decisions s3 then Inr s3
         else and_then (receive_decision n k b v s3) (mp_broadcast n (LeaderDecision k b v))))" if u: "mcalm r s u" for u
    unfolding outcome_and_then Let_def
    by (rule outcome_weaken[OF multi_record_chosen_calm[OF u]]) (intro learn mcalm_keep; simp)
  from this[OF mcalm_keep[OF t]] t show ?thesis
    by (auto simp: multi_receive_accepted_def Let_def split: option.split simp del: outcome_and_then intro!: mcalm_keep)
qed

lemma receive_accept_calm:
  assumes "2 \<le> r" and "mcalm r s t"
  shows "outcome UNIV (mcalm r s) (receive_accept n k b v t)"
  using assms
  by (auto simp: receive_accept_def promised_ballot_def make_slot_accepted_def Let_def split: option.split
      intro!: multi_receive_accepted_calm mcalm_send)

lemma multi_receive_promise_calm: "mcalm r s t \<Longrightarrow> outcome UNIV (mcalm r s) (multi_receive_promise n pr t)"
  by (auto simp: multi_receive_promise_def Let_def split: list.split intro!: mcalm_keep)

lemma multi_receive_prepare_calm:
  assumes "1 \<le> r" and "mcalm r s t"
  shows "outcome UNIV (mcalm r s) (multi_receive_prepare n b t)"
  using assms
  by (auto simp: multi_receive_prepare_def promised_ballot_def Let_def split: option.split
      intro!: multi_receive_promise_calm mcalm_send)

lemma sim_schedule_nodes: "mp_nodes (sim_schedule m dl u) = mp_nodes u"
  by (simp add: sim_schedule_def Let_def)

lemma retry_recovery_calm:
  assumes r: "2 + nat (RECOVERY_ATTEMPTS - mn_attempt (mp_nodes t n)) \<le> r" and t: "mcalm r s t"
  shows "outcome UNIV (mcalm r s) (retry_recovery n t)"
proof (cases "mn_recovery (mp_nodes t n)")
  case (Some start)
  let ?t = "update_node n (\<lambda>nd. nd\<lparr>mn_attempt := mn_attempt nd + 1\<rparr>) t"
  let ?send = "for_each (\<lambda>peer. send_msg n peer (DecisionRecoveryRequest start)) (sort (mp_peers t n)) ?t"
  let ?retry = "\<lambda>u. sim_schedule \<lparr>msg_src = n, msg_dst = n, msg_payload = DecisionRecoveryRetry (mn_generation (mp_nodes u n)) (mn_attempt (mp_nodes u n)),
      msg_ordinal = 0, msg_delivery_dst = None\<rparr> RECOVERY_RETRY_DELAY u"
  have "outcome UNIV (\<lambda>u. mcalm r s (?retry u)) ?send" if less: "mn_attempt (mp_nodes t n) \<noteq> RECOVERY_ATTEMPTS"
  proof -
    have bound: "mn_attempt (mp_nodes t n) + 1 \<le> RECOVERY_ATTEMPTS" using less mcalm_attempt[OF t, of n] by simp
    have "mcalm r s ?t" by (rule mcalm_node[OF t]) (use bound in simp)
    then have "outcome UNIV (mcalm r s) ?send" by (intro mcalm_broadcast) (use r in simp)
    from outcome_conj[OF this sends_nodes] show ?thesis
    proof (rule outcome_weaken)
      fix u assume u: "mcalm r s u \<and> mp_nodes u = mp_nodes ?t"
      have "emits multi_rank r s (?retry u)"
        by (rule emits_schedule) (use u r bound in \<open>simp_all add: mcalm_def RECOVERY_RETRY_DELAY_def\<close>)
      moreover have "attempts_bounded (?retry u)" using u unfolding mcalm_def attempts_bounded_def sim_schedule_nodes by blast
      ultimately show "mcalm r s (?retry u)" by (simp only: mcalm_def)
    qed
  qed
  then show ?thesis using Some t by (auto simp: retry_recovery_def Let_def intro!: mcalm_keep)
qed (use t in \<open>simp add: retry_recovery_def\<close>)

lemma receive_recovery_request_calm: "1 \<le> r \<Longrightarrow> mcalm r s t \<Longrightarrow> outcome UNIV (mcalm r s) (receive_recovery_request n src start t)"
  by (simp add: receive_recovery_request_def Let_def, intro impI, rule outcome_any, rule mcalm_send) simp_all

lemma receive_recovery_response_calm: "mcalm r s t \<Longrightarrow> outcome UNIV (mcalm r s) (receive_recovery_response n start ds t)"
  by (simp add: receive_recovery_response_def, intro impI, rule outcome_any, rule outcome_for_each) (auto intro: receive_decision_calm)

lemma mp_handle_message_calm:
  "attempts_bounded s \<Longrightarrow> outcome UNIV (mcalm (multi_rank (msg_payload m)) s) (mp_handle_message n s m)"
  by (cases "msg_payload m")
    (auto simp: mp_handle_message_def mcalm_def[of _ s s] intro!: multi_receive_prepare_calm multi_receive_promise_calm receive_accept_calm
      multi_receive_accepted_calm receive_decision_calm receive_recovery_request_calm receive_recovery_response_calm retry_recovery_calm)

interpretation mp_quiet: silencing multipaxos_callbacks attempts_bounded multi_rank
proof (unfold_locales, goal_cases)
  case (1 s n m s')
  then show ?case using mp_handle_message_calm[OF 1(1), of m n] by (simp add: multipaxos_callbacks_def mcalm_def)
qed (auto simp: multipaxos_callbacks_def call_optional_def mp_handle_crash_def mp_handle_restart_def forget_leadership_def
    attempts_bounded_def RECOVERY_ATTEMPTS_def)

text \<open>The client operations keep the retry counters bounded.\<close>

lemma accept_everywhere_calm:
  assumes "mcalm 5 s t"
  shows "outcome UNIV (mcalm 5 s) (and_then (receive_accept n k c w t) (mp_broadcast n (LeaderAccept k c w)))"
  unfolding outcome_and_then by (rule outcome_weaken[OF receive_accept_calm[OF _ assms]]) (auto intro: mcalm_broadcast)

lemma propose_calm:
  assumes "attempts_bounded s"
  shows "outcome UNIV (mcalm 5 s) (propose n k v s)"
proof -
  have "outcome UNIV (mcalm 5 s) (and_then (receive_accept n k c w t) (\<lambda>s2. and_then (mp_broadcast n (LeaderAccept k c w) s2) (\<lambda>s3. Inr (record_app ev s3))))"
    if t: "mcalm 5 s t" for c w t ev
    using accept_everywhere_calm[OF t, of n k c w] unfolding outcome_and_then outcome_simps by simp
  moreover have "mcalm 5 s (update_node n (\<lambda>nd. nd\<lparr>mn_pending := f nd, mn_accepted_by := g nd\<rparr>) s)" for f g
    by (rule mcalm_keep) (use assms in \<open>simp_all add: mcalm_def\<close>)
  ultimately have "outcome UNIV (mcalm 5 s) (and_then (receive_accept n k c w (update_node n (\<lambda>nd. nd\<lparr>mn_pending := f nd, mn_accepted_by := g nd\<rparr>) s))
      (\<lambda>s2. and_then (mp_broadcast n (LeaderAccept k c w) s2) (\<lambda>s3. Inr (record_app ev s3))))" for c w ev f g by blast
  then show ?thesis
    by (auto simp: propose_def Let_def outcome_and_then[of _ _ "adopted_value _ _"] simp del: outcome_and_then
        split: option.split intro!: outcome_weaken[OF any_outcome])
qed

lemma retry_proposal_calm: "attempts_bounded s \<Longrightarrow> outcome UNIV (mcalm 5 s) (retry_proposal n k s)"
  using accept_everywhere_calm[of s s n k]
  by (auto simp: retry_proposal_def Let_def mcalm_def[of _ s s] outcome_and_then[of _ _ "promised_ballot _ _"] simp del: outcome_and_then
      split: option.split intro!: outcome_weaken[OF any_outcome])

lemma recover_decisions_calm:
  assumes "attempts_bounded s"
  shows "outcome UNIV (mcalm 5 s) (recover_decisions n k s)"
proof -
  have s: "mcalm 5 s s" using assms by (simp add: mcalm_def)
  have "mcalm 5 s (update_node n (\<lambda>nd. nd\<lparr>mn_generation := mn_generation nd + 1, mn_attempt := 0, mn_recovery := Some k\<rparr>) s)"
    by (rule mcalm_node[OF s]) (simp add: RECOVERY_ATTEMPTS_def)
  then show ?thesis using s by (auto simp: recover_decisions_def RECOVERY_ATTEMPTS_def intro!: retry_recovery_calm)
qed

lemma prepare_leadership_calm:
  assumes "attempts_bounded s"
  shows "outcome UNIV (\<lambda>(b, s'). mcalm 5 s s') (prepare_leadership n r s)"
proof -
  have "mcalm 5 s s" using assms by (simp add: mcalm_def)
  then have "mcalm 5 s (set_durable n f s)" for f by simp
  then have t: "mcalm 5 s (update_node n (\<lambda>nd. nd\<lparr>mn_ballot := b, mn_promises := [], mn_pending := [], mn_accepted_by := []\<rparr>) (set_durable n f s))" for b f
    by (rule mcalm_keep) simp
  have "outcome UNIV (\<lambda>s4. mcalm 5 s (record_app ev s4)) (and_then (multi_receive_prepare n b (update_node n (\<lambda>nd. nd\<lparr>mn_ballot := Some b, mn_promises := [],
      mn_pending := [], mn_accepted_by := []\<rparr>) (set_durable n f s))) (mp_broadcast n (LeaderPrepare b)))" for b f ev
    unfolding outcome_and_then by (rule outcome_weaken[OF multi_receive_prepare_calm[OF _ t]]) (auto intro: mcalm_broadcast)
  then show ?thesis
    by (auto simp: prepare_leadership_def Let_def intro!: outcome_weaken[OF any_outcome])
qed

lemma multi_step_bounded: "multipaxos_step s s' \<Longrightarrow> attempts_bounded s \<Longrightarrow> attempts_bounded s'"
proof (induction rule: multipaxos_step.induct)
  case (network s s')
  then show ?case using mp_quiet.step_wf by blast
next
  case (prepare n s r b s')
  then show ?case using prepare_leadership_calm[of s n r] by (simp add: mcalm_def)
next
  case (propose n s k v s')
  then show ?case using propose_calm[of s n k v] by (simp add: mcalm_def)
next
  case (retry n s k s')
  then show ?case using retry_proposal_calm[of s n k] by (simp add: mcalm_def)
next
  case (recover n s k s')
  then show ?case using recover_decisions_calm[of s n k] by (simp add: mcalm_def)
qed

lemma multi_reachable_bounded: "multipaxos_reachable s \<Longrightarrow> attempts_bounded s"
proof -
  assume "multipaxos_reachable s"
  then obtain s0 where s0: "multipaxos_start s0" "multipaxos_step\<^sup>*\<^sup>* s0 s" by (auto simp: multipaxos_reachable_def)
  have "mp_nodes s0 n = fresh_node" for n using s0(1) multi_cluster_inv unfolding multipaxos_start_def by blast
  then have "attempts_bounded s0" by (simp add: attempts_bounded_def fresh_node_def RECOVERY_ATTEMPTS_def)
  with s0(2) show ?thesis by (induction rule: rtranclp_induct) (auto intro: multi_step_bounded)
qed

section \<open>Example run\<close>

text \<open>A three-node learning cluster: \<open>a\<close> leads, decides 7 at slot 1, and starts 8 at slot 2.\<close>

definition multi_demo_sim :: "(int multi_msg, int multi_event, int multi_durable, unit) simulator" where
  "multi_demo_sim = sim_init [] (\<lambda>_. '''') (\<lambda>_. fresh_multi)"

definition multi_demo_start :: "int multipaxos" where
  "multi_demo_start = projr (MultiPaxosCluster multi_demo_sim [''a'', ''b'', ''c''] True)"

definition multi_demo_leading :: "int multipaxos" where
  "multi_demo_leading = snd (projr (the (sim_run multipaxos_callbacks None (snd (projr (prepare_leadership ''a'' None multi_demo_start))))))"

definition multi_demo_proposed :: "int multipaxos" where
  "multi_demo_proposed = projr (propose ''a'' 1 7 multi_demo_leading)"

definition multi_demo_first :: "int multipaxos" where
  "multi_demo_first = snd (projr (the (sim_run multipaxos_callbacks None multi_demo_proposed)))"

definition multi_demo_second :: "int multipaxos" where
  "multi_demo_second = projr (propose ''a'' 2 8 multi_demo_first)"

lemma multi_demo_ok:
  "\<not> isl (MultiPaxosCluster multi_demo_sim [''a'', ''b'', ''c''] True)"
  "\<not> isl (prepare_leadership ''a'' None multi_demo_start)"
  "(case sim_run multipaxos_callbacks None (snd (projr (prepare_leadership ''a'' None multi_demo_start))) of Some (Inr _) \<Rightarrow> True | _ \<Rightarrow> False)"
  "\<not> isl (propose ''a'' 1 7 multi_demo_leading)"
  "(case sim_run multipaxos_callbacks None multi_demo_proposed of Some (Inr _) \<Rightarrow> True | _ \<Rightarrow> False)"
  "\<not> isl (propose ''a'' 2 8 multi_demo_first)"
  by code_simp+

lemma multi_demo_ids:
  "mp_node_ids multi_demo_start = [''a'', ''b'', ''c'']" "mp_node_ids multi_demo_leading = [''a'', ''b'', ''c'']"
  "mp_node_ids multi_demo_first = [''a'', ''b'', ''c'']"
  by code_simp+

lemma multi_demo_values:
  "map_of (mp_chosen multi_demo_first) 1 = Some (SlotLearnedDecision 1 (PN 1 ''a'') 7)"
  "multi_learned_decision ''c'' 1 multi_demo_first = Some (SlotLearnedDecision 1 (PN 1 ''a'') 7)"
  "length (sim_queue multi_demo_proposed) = 2"
  by code_simp+

lemma multi_run_steps:
  assumes "case sim_run multipaxos_callbacks None s of Some (Inr _) \<Rightarrow> True | _ \<Rightarrow> False"
  shows "multipaxos_step\<^sup>*\<^sup>* s (snd (projr (the (sim_run multipaxos_callbacks None s))))"
proof -
  obtain n s' where run: "run_loop multipaxos_callbacks None 0 s = Some (Inr (n, s'))"
    using assms by (cases "sim_run multipaxos_callbacks None s") (auto simp: sim_run_def split: sum.splits)
  from multi_network_steps[OF run_loop_steps[OF run]] show ?thesis by (simp add: sim_run_def run)
qed

lemma multi_demo_reachable:
  "multipaxos_reachable multi_demo_start" "multipaxos_reachable multi_demo_leading" "multipaxos_reachable multi_demo_proposed"
  "multipaxos_reachable multi_demo_first" "multipaxos_step\<^sup>*\<^sup>* multi_demo_first multi_demo_second"
proof -
  have "MultiPaxosCluster multi_demo_sim [''a'', ''b'', ''c''] True = Inr multi_demo_start"
    unfolding multi_demo_start_def using multi_demo_ok(1) by simp
  then show start: "multipaxos_reachable multi_demo_start"
    unfolding multipaxos_reachable_def multipaxos_start_def multi_demo_sim_def by blast
  have "multipaxos_step multi_demo_start (snd (projr (prepare_leadership ''a'' None multi_demo_start)))"
  proof (rule multipaxos_step.prepare)
    show "''a'' \<in> set (mp_node_ids multi_demo_start)" by (simp add: multi_demo_ids)
    show "prepare_leadership ''a'' None multi_demo_start = Inr (fst (projr (prepare_leadership ''a'' None multi_demo_start)),
      snd (projr (prepare_leadership ''a'' None multi_demo_start)))" using multi_demo_ok(2) by simp
  qed
  then have "multipaxos_step\<^sup>*\<^sup>* multi_demo_start multi_demo_leading"
    unfolding multi_demo_leading_def using multi_run_steps[OF multi_demo_ok(3)] by (rule converse_rtranclp_into_rtranclp)
  then show leading: "multipaxos_reachable multi_demo_leading" by (rule multi_reachable_steps[OF start])
  have "propose ''a'' 1 7 multi_demo_leading = Inr multi_demo_proposed" unfolding multi_demo_proposed_def using multi_demo_ok(4) by simp
  then have "multipaxos_step multi_demo_leading multi_demo_proposed"
    by (rule multipaxos_step.propose[rotated]) (simp add: multi_demo_ids)
  then show proposed: "multipaxos_reachable multi_demo_proposed" by (intro multi_reachable_steps[OF leading]) simp
  show "multipaxos_reachable multi_demo_first"
    unfolding multi_demo_first_def by (rule multi_reachable_steps[OF proposed multi_run_steps[OF multi_demo_ok(5)]])
  have "propose ''a'' 2 8 multi_demo_first = Inr multi_demo_second" unfolding multi_demo_second_def using multi_demo_ok(6) by simp
  then have "multipaxos_step multi_demo_first multi_demo_second"
    by (rule multipaxos_step.propose[rotated]) (simp add: multi_demo_ids)
  then show "multipaxos_step\<^sup>*\<^sup>* multi_demo_first multi_demo_second" by simp
qed

section \<open>Properties\<close>

definition multi_decisions :: "'v multipaxos \<Rightarrow> int \<Rightarrow> 'v slot_learned set" where
  "multi_decisions s k = {l. map_of (mp_chosen s) k = Some l \<or> (\<exists>n. multi_learned_decision n k s = Some l)}"

lemma multi_decisions_decided: "multi_inv s \<Longrightarrow> l \<in> multi_decisions s k \<Longrightarrow> mp_decided s k (sl_proposal l) (sl_value l)"
  unfolding multi_decisions_def using multi_invD(7)[of s k l] learned_decisionD[of s _ k l] by (auto simp: decision_ok_def)

lemma multi_decisions_one:
  assumes "mgood s s'" and l: "l \<in> multi_decisions s k" and l': "l' \<in> multi_decisions s' k"
  shows "l \<in> multi_decisions s' k \<and> sl_value l = sl_value l'"
proof -
  have "l \<in> multi_decisions s' k" using l mgoodD(2)[OF assms(1)] unfolding multi_decisions_def mp_evolves_def by blast
  then show ?thesis using multi_agree[OF mgoodD(1)[OF assms(1)]] multi_decisions_decided[OF mgoodD(1)[OF assms(1)]] l' by blast
qed

text \<open>A value is held by a majority at a slot when more than half of the configured nodes have its
  acceptance for the slot under one ballot in their durable accept history.\<close>

definition slot_majority :: "'v multipaxos \<Rightarrow> int \<Rightarrow> proposal_number \<Rightarrow> 'v \<Rightarrow> bool" where
  "slot_majority s k b v \<longleftrightarrow> (\<exists>Q \<subseteq> set (mp_node_ids s). length (mp_node_ids s) < 2 * card Q \<and>
     (\<forall>a \<in> Q. SlotAcceptedValue k b v \<in> set (mp_history (persistent_state s a))))"

lemma slot_majority_iff: "slot_majority s k b v \<longleftrightarrow> mp_decided s k b v"
  unfolding slot_majority_def mp_decided_def chosen_at_def majority_def mp_votes_iff quorum_size_half
  by blast

text \<open>C5. Agreement of stable-leader Multi-Paxos. Whatever the network drops, delays, duplicates or partitions,
  whichever nodes crash and restart, and however leaderships, proposals, retries and catch-up requests
  are started: if more than half of the nodes durably accepted a value at a slot under one ballot
  and, then or at any later time, more than half durably accepted a value at that slot under some
  ballot, the two values are the same; everything recorded as chosen or durably learned for a slot
  is a value held by such a majority; so the decisions of a slot agree over time, and a decision
  once recorded or learned is kept.\<close>

theorem multipaxos_agreement:
  assumes "multipaxos_reachable s" and "multipaxos_step\<^sup>*\<^sup>* s s'"
  shows "(\<forall>b v b' v'. slot_majority s k b v \<and> slot_majority s' k b' v' \<longrightarrow> v = v') \<and>
    (\<forall>l \<in> multi_decisions s k. slot_majority s k (sl_proposal l) (sl_value l)) \<and>
    multi_decisions s k \<subseteq> multi_decisions s' k \<and>
    (\<forall>l \<in> multi_decisions s k. \<forall>l' \<in> multi_decisions s' k. sl_value l = sl_value l')"
proof -
  have inv: "multi_inv s" using multi_reachable_inv[OF assms(1)] by simp
  have g: "mgood s s'" by (rule multi_steps_good[OF assms(2) inv])
  have unique: "\<forall>b v b' v'. slot_majority s k b v \<and> slot_majority s' k b' v' \<longrightarrow> v = v'"
    unfolding slot_majority_iff
    using multi_agree[OF mgoodD(1)[OF g] mp_decided_stable[OF mgoodD(2)[OF g]]] by blast
  have held: "\<forall>l \<in> multi_decisions s k. slot_majority s k (sl_proposal l) (sl_value l)"
    unfolding slot_majority_iff using multi_decisions_decided[OF inv] by blast
  have "multi_decisions s k \<subseteq> multi_decisions s' k"
    using mgoodD(2)[OF g] unfolding multi_decisions_def mp_evolves_def by blast
  then show ?thesis using unique held multi_decisions_one[OF g] by blast
qed

theorem multipaxos_agreement_witness:
  "multipaxos_reachable multi_demo_first \<and> multipaxos_step\<^sup>*\<^sup>* multi_demo_first multi_demo_second \<and>
   SlotLearnedDecision 1 (PN 1 ''a'') 7 \<in> multi_decisions multi_demo_first 1 \<and>
   SlotLearnedDecision 1 (PN 1 ''a'') 7 \<in> multi_decisions multi_demo_second 1 \<and>
   slot_majority multi_demo_first 1 (PN 1 ''a'') 7 \<and>
   {v. \<exists>b. slot_majority multi_demo_second 1 b v} \<subseteq> {7}"
proof -
  note agree = multipaxos_agreement[OF multi_demo_reachable(4,5), of 1]
  have d: "SlotLearnedDecision 1 (PN 1 ''a'') 7 \<in> multi_decisions multi_demo_first 1"
    using multi_demo_values(1) by (simp add: multi_decisions_def)
  then have m: "slot_majority multi_demo_first 1 (PN 1 ''a'') 7" using bspec[OF conjunct1[OF conjunct2[OF agree]]] by force
  moreover have "\<forall>b v. slot_majority multi_demo_second 1 b v \<longrightarrow> v = 7" using agree m by blast
  ultimately show ?thesis using d agree multi_demo_reachable(4,5) by blast
qed

text \<open>C11. Rebuilding Multi-Paxos loses no decision. Building a \<open>MultiPaxosCluster\<close> over the durable state of a
  reachable cluster never raises: the durable validation and the safety check pass, and its record
  covers exactly the slots some majority accepted at one ballot. Along every further run of the
  rebuilt cluster what is recorded or learned for a slot is still the value decided before, and
  \<open>assert_safety\<close> passes in every state it reaches.\<close>

theorem multipaxos_rebuild:
  assumes "multipaxos_reachable s"
  shows "\<exists>s1. MultiPaxosCluster (sim_init plan names (persistent_state s)) (mp_node_ids s) learn = Inr s1 \<and>
    (\<forall>k. map_of (mp_chosen s1) k \<noteq> None \<longleftrightarrow> (\<exists>b v. mp_decided s k b v)) \<and>
    (\<forall>k. \<forall>l \<in> multi_decisions s k. \<exists>l1. map_of (mp_chosen s1) k = Some l1 \<and> sl_value l1 = sl_value l) \<and>
    (\<forall>s2 k. multipaxos_step\<^sup>*\<^sup>* s1 s2 \<longrightarrow> multi_assert_safety s2 = Inr () \<and>
       (\<forall>l \<in> multi_decisions s k. \<forall>l2 \<in> multi_decisions s2 k. sl_value l2 = sl_value l))"
proof -
  have inv: "multi_inv s" "mp_node_ids s \<noteq> []" using multi_reachable_inv[OF assms] by simp_all
  obtain s1 where s1: "MultiPaxosCluster (sim_init plan names (persistent_state s)) (mp_node_ids s) learn = Inr s1" "multi_inv s1"
    and ids: "mp_node_ids s1 = mp_node_ids s" and dom: "\<And>k. map_of (mp_chosen s1) k \<noteq> None \<longleftrightarrow> (\<exists>b v. mp_decided s k b v)"
    and ps: "\<And>a. persistent_state s1 a = (if a \<in> set (mp_node_ids s) then init_learned learn (persistent_state s a) else persistent_state s a)"
    using cluster_built[OF inv(1) refl inv(2), of plan names learn] by blast
  have "mp_votes s1 = mp_votes s" by (auto simp: mp_votes_def ps fun_eq_iff)
  then have dec: "mp_decided s1 = mp_decided s" by (intro ext) (simp only: mp_decided_def ids)
  have found: "\<exists>l1. map_of (mp_chosen s1) k = Some l1 \<and> sl_value l1 = sl_value l" if l: "l \<in> multi_decisions s k" for k l
  proof -
    have d: "mp_decided s k (sl_proposal l) (sl_value l)" by (rule multi_decisions_decided[OF inv(1) l])
    then obtain l1 where l1: "map_of (mp_chosen s1) k = Some l1" using dom by blast
    have "mp_decided s1 k (sl_proposal l1) (sl_value l1)" using multi_decisions_decided[OF s1(2)] l1 by (auto simp: multi_decisions_def)
    then show ?thesis using multi_agree[OF inv(1) _ d] l1 unfolding dec by blast
  qed
  have "multi_assert_safety s2 = Inr () \<and> (\<forall>l \<in> multi_decisions s k. \<forall>l2 \<in> multi_decisions s2 k. sl_value l2 = sl_value l)"
    if steps: "multipaxos_step\<^sup>*\<^sup>* s1 s2" for s2 k
  proof (intro conjI ballI)
    have g: "mgood s1 s2" by (rule multi_steps_good[OF steps s1(2)])
    show "multi_assert_safety s2 = Inr ()" by (rule multi_assert_safety_ok[OF mgoodD(1)[OF g]])
    fix l l2 assume l: "l \<in> multi_decisions s k" and l2: "l2 \<in> multi_decisions s2 k"
    obtain l1 where l1: "map_of (mp_chosen s1) k = Some l1" "sl_value l1 = sl_value l" using found[OF l] by blast
    then show "sl_value l2 = sl_value l" using multi_decisions_one[OF g _ l2, of l1] by (simp add: multi_decisions_def)
  qed
  then show ?thesis using s1(1) dom found by blast
qed

theorem multipaxos_rebuild_witness:
  "multipaxos_reachable multi_demo_second \<and>
   (\<exists>s1 l. MultiPaxosCluster (sim_init [] (\<lambda>_. []) (persistent_state multi_demo_second)) (mp_node_ids multi_demo_second) True = Inr s1 \<and>
      map_of (mp_chosen s1) 1 = Some l \<and> sl_value l = 7)"
proof -
  have r: "multipaxos_reachable multi_demo_second" by (rule multi_reachable_steps[OF multi_demo_reachable(4,5)])
  have "map_of (mp_chosen multi_demo_second) 1 = Some (SlotLearnedDecision 1 (PN 1 ''a'') 7)" by code_simp
  then have "SlotLearnedDecision 1 (PN 1 ''a'') 7 \<in> multi_decisions multi_demo_second 1" by (simp add: multi_decisions_def)
  then show ?thesis using multipaxos_rebuild[OF r, of "[]" "\<lambda>_. []" True] r by fastforce
qed

text \<open>C13. Running Multi-Paxos. From every reachable state \<open>sim.run()\<close> returns: message handling dies down and each
  catch-up gives up after its bounded retries. The only exception a handler can raise is
  \<open>PaxosSafetyViolation\<close>; otherwise the state reached is reachable, has an empty queue and passes
  \<open>assert_safety\<close>.\<close>

theorem multipaxos_run_total:
  assumes "multipaxos_reachable s"
  shows "\<exists>r. sim_run multipaxos_callbacks None s = Some r \<and>
    outcome {PaxosSafetyViolation} (\<lambda>(n, s'). multipaxos_reachable s' \<and> sim_queue s' = [] \<and> multi_assert_safety s' = Inr ()) r"
proof -
  obtain r where r: "run_loop multipaxos_callbacks None 0 s = Some r"
    using mp_quiet.run_loop_returns[OF multi_reachable_bounded[OF assms]] by blast
  have "mgood s s" using multi_reachable_inv[OF assms] mgood_refl by blast
  then have out: "outcome {PaxosSafetyViolation} (\<lambda>(n, s'). mgood s s') r" by (rule mp.run_loop_outcome[OF r])
  have "outcome {PaxosSafetyViolation} (\<lambda>(n, s'). multipaxos_reachable s' \<and> sim_queue s' = [] \<and> multi_assert_safety s' = Inr ()) r"
  proof (cases r)
    case (Inr x)
    obtain n s' where x: "x = (n, s')" by (cases x)
    have run: "run_loop multipaxos_callbacks None 0 s = Some (Inr (n, s'))" using r Inr x by simp
    have "multipaxos_reachable s'" by (rule multi_reachable_steps[OF assms multi_network_steps[OF run_loop_steps[OF run]]])
    then show ?thesis using run_loop_drains[OF run] multi_assert_safety_ok[of s'] multi_reachable_inv[of s'] by (simp add: Inr x)
  qed (use out in simp)
  then show ?thesis using r by (simp add: sim_run_def)
qed

theorem multipaxos_run_total_witness:
  "multipaxos_reachable multi_demo_proposed \<and> length (sim_queue multi_demo_proposed) = 2 \<and>
   (\<exists>n s'. sim_run multipaxos_callbacks None multi_demo_proposed = Some (Inr (n, s')) \<and> sim_queue s' = [])"
proof -
  obtain n s' where "sim_run multipaxos_callbacks None multi_demo_proposed = Some (Inr (n, s'))"
    using multi_demo_ok(5) by (cases "sim_run multipaxos_callbacks None multi_demo_proposed") (auto split: sum.splits)
  then show ?thesis
    using multipaxos_run_total[OF multi_demo_reachable(3)] multi_demo_reachable(3) multi_demo_values(3) by auto
qed

text \<open>C33. Proposing a decided slot again. The leader of the example has decided 7 at slot 1 and has forgotten
  that it proposed there; nothing refuses a second proposal of another value at that slot, and its
  own acceptor then raises \<open>PaxosSafetyViolation\<close>, although no safety property is at risk: the same
  call with the decided value succeeds.\<close>

theorem repropose_decided_slot:
  "multipaxos_reachable multi_demo_first \<and> multi_assert_safety multi_demo_first = Inr () \<and>
   map_of (mp_chosen multi_demo_first) 1 = Some (SlotLearnedDecision 1 (PN 1 ''a'') 7) \<and>
   (case propose ''a'' 1 9 multi_demo_first of Inl e \<Rightarrow> e = PaxosSafetyViolation | Inr _ \<Rightarrow> False) \<and>
   (case propose ''a'' 1 7 multi_demo_first of Inl _ \<Rightarrow> False | Inr _ \<Rightarrow> True)"
proof (intro conjI)
  show "case propose ''a'' 1 9 multi_demo_first of Inl e \<Rightarrow> e = PaxosSafetyViolation | Inr _ \<Rightarrow> False" by code_simp
  show "case propose ''a'' 1 7 multi_demo_first of Inl _ \<Rightarrow> False | Inr _ \<Rightarrow> True" by code_simp
  show "multi_assert_safety multi_demo_first = Inr ()"
    using multi_assert_safety_ok multi_reachable_inv[OF multi_demo_reachable(4)] by blast
qed (rule multi_demo_reachable multi_demo_values)+

end
