(* ===== verification/MultiPaxos_Machine_Safety.thy ===== *)
theory MultiPaxos_Machine_Safety
  imports MultiPaxos_Machine MultiPaxos_Agreement
begin

text \<open>
  Correctness of the machine over Multi-Paxos: what is learned is recorded as chosen, each node
  applies the decisions of slots 1, 2, ... in order, and a node's key/value state and request table
  are the replay of its durable prefix, so crashes lose nothing and replicas agree.
\<close>

section \<open>Learned decisions are recorded\<close>

fun payload_recorded :: "'v multipaxos \<Rightarrow> 'v multi_msg \<Rightarrow> bool" where
  "payload_recorded s (LeaderDecision k b v) \<longleftrightarrow> map_of (mp_chosen s) k \<noteq> None"
| "payload_recorded s (DecisionRecoveryResponse start ds) \<longleftrightarrow> (\<forall>d \<in> set ds. map_of (mp_chosen s) (sl_slot d) \<noteq> None)"
| "payload_recorded s _ \<longleftrightarrow> True"

definition recorded :: "'v multipaxos \<Rightarrow> bool" where
  "recorded s \<longleftrightarrow> (\<forall>n k. multi_learned_decision n k s \<noteq> None \<longrightarrow> map_of (mp_chosen s) k \<noteq> None) \<and>
     (\<forall>n k l. multi_learned_decision n k s = Some l \<longrightarrow> sl_slot l = k) \<and>
     (\<forall>d \<in> set (sim_queue s). payload_recorded s (msg_payload (sd_message d)))"

definition traced :: "'v multipaxos \<Rightarrow> 'v multipaxos \<Rightarrow> bool" where
  "traced s t \<longleftrightarrow> recorded t \<and> (\<forall>k. map_of (mp_chosen s) k \<noteq> None \<longrightarrow> map_of (mp_chosen t) k \<noteq> None) \<and>
     volatile_state t = volatile_state s"

lemma payload_recorded_mono:
  "payload_recorded s p \<Longrightarrow> (\<And>k. map_of (mp_chosen s) k \<noteq> None \<Longrightarrow> map_of (mp_chosen t) k \<noteq> None) \<Longrightarrow> payload_recorded t p"
  by (cases p) auto

lemma payload_recorded_same: "mp_chosen t = mp_chosen s \<Longrightarrow> payload_recorded t p = payload_recorded s p"
  by (cases p) auto

lemma traced_refl: "recorded s \<Longrightarrow> traced s s"
  by (simp add: traced_def)

lemma traced_chosen: "traced s t \<Longrightarrow> map_of (mp_chosen s) k \<noteq> None \<Longrightarrow> map_of (mp_chosen t) k \<noteq> None"
  by (simp add: traced_def)

lemma traced_payload: "traced s t \<Longrightarrow> payload_recorded s p \<Longrightarrow> payload_recorded t p"
  using payload_recorded_mono traced_chosen by blast

lemma traced_frame:
  assumes "traced s t" and "mp_chosen t' = mp_chosen t" "volatile_state t' = volatile_state t"
    "\<And>n k. multi_learned_decision n k t' = multi_learned_decision n k t" "set (sim_queue t') \<subseteq> set (sim_queue t)"
  shows "traced s t'"
  using assms payload_recorded_same[OF assms(2)] unfolding traced_def recorded_def by auto

lemma traced_simps [simp]:
  "traced s t \<Longrightarrow> traced s (record_event ev t)" "traced s t \<Longrightarrow> traced s (update_node n f t)"
  by (erule traced_frame; simp add: multi_learned_decision_def update_node_def)+

lemma traced_durable: "traced s t \<Longrightarrow> (\<And>d. mp_learned (f d) = mp_learned d) \<Longrightarrow> traced s (set_durable n f t)"
  by (erule traced_frame) (simp_all add: multi_learned_decision_def)

lemma traced_record_chosen: "traced s t \<Longrightarrow> traced s (t\<lparr>mp_chosen := AList.update k l (mp_chosen t)\<rparr>)"
proof -
  assume t: "traced s t"
  have p: "payload_recorded (t\<lparr>mp_chosen := AList.update k l (mp_chosen t)\<rparr>) p" if "payload_recorded t p" for p
    using that by (rule payload_recorded_mono) (simp add: update_conv')
  then show ?thesis using t by (simp add: traced_def recorded_def multi_learned_decision_def update_conv')
qed

lemma traced_send:
  assumes "payload_recorded t p" and t: "traced s t"
  shows "outcome UNIV (traced s) (send_msg src dst p t)"
proof (rule outcome_mono[OF sent_outcome])
  fix u assume sent: "sent src dst p t u"
  then obtain sq q os tr where u: "u = t\<lparr>sim_sequence := sq, sim_queue := q, send_ordinals := os, sim_trace := sim_trace t @ tr\<rparr>"
    unfolding sent_def by (blast elim: core_frameE)
  have queue: "msg_payload (sd_message d) = p \<or> d \<in> set (sim_queue t)" if "d \<in> set (sim_queue u)" for d
    using sent that by (auto simp: sent_def)
  have same: "payload_recorded u = payload_recorded t" by (intro ext payload_recorded_same) (simp add: u)
  have "\<forall>d \<in> set (sim_queue u). payload_recorded u (msg_payload (sd_message d))"
    using queue assms unfolding same traced_def recorded_def by blast
  then show "traced s u" using t by (simp add: traced_def recorded_def u multi_learned_decision_def)
qed simp

lemma traced_broadcast:
  assumes "payload_recorded t p" and t: "traced s t"
  shows "outcome UNIV (traced s) (for_each (\<lambda>peer. send_msg src peer p) peers t)"
proof -
  have "outcome UNIV (\<lambda>u. traced s u \<and> traced t u) (for_each (\<lambda>peer. send_msg src peer p) peers t)"
  proof (rule outcome_for_each)
    show "traced s t \<and> traced t t" using t by (simp add: traced_def)
  next
    fix peer u assume u: "traced s u \<and> traced t u"
    then have "payload_recorded u p" using traced_payload assms(1) by blast
    then show "outcome UNIV (\<lambda>u. traced s u \<and> traced t u) (send_msg src peer p u)" using u by (intro outcome_conj traced_send) simp_all
  qed
  then show ?thesis by (rule outcome_weaken) simp
qed

lemma receive_decision_traced:
  assumes t: "traced s t" and k: "map_of (mp_chosen t) k \<noteq> None"
  shows "outcome UNIV (traced s) (receive_decision n k b v t)"
proof (cases "mp_learned (persistent_state t n)")
  case (Some L)
  have "traced s (set_durable n (\<lambda>d. d\<lparr>mp_learned := Some (AList.update k (SlotLearnedDecision k b v) L)\<rparr>) t)" (is "traced s ?t")
  proof -
    have learned: "multi_learned_decision m j ?t =
        (if m = n \<and> j = k then Some (SlotLearnedDecision k b v) else multi_learned_decision m j t)" for m j
      using Some by (auto simp: multi_learned_decision_def update_conv')
    have "payload_recorded ?t p = payload_recorded t p" for p by (rule payload_recorded_same) simp
    then show ?thesis using t k unfolding traced_def recorded_def by (auto simp: learned)
  qed
  then show ?thesis using t Some
    by (auto simp: receive_decision_def make_slot_learned_def Let_def split: option.split intro!: outcome_any)
qed (use t in \<open>simp add: receive_decision_def\<close>)

lemma multi_record_chosen_traced:
  assumes t: "traced s t"
  shows "outcome UNIV (\<lambda>u. traced s u \<and> map_of (mp_chosen u) k \<noteq> None) (multi_record_chosen k b v t)"
  using t traced_record_chosen[OF t]
  by (auto simp: multi_record_chosen_def make_slot_learned_def update_conv' split: option.split)

lemma multi_receive_accepted_traced:
  assumes t: "traced s t"
  shows "outcome UNIV (traced s) (multi_receive_accepted n k b a v t)"
proof -
  have learn: "outcome UNIV (traced s) (if \<not> mp_learn_decisions u then Inr u
      else and_then (receive_decision n k b v u) (mp_broadcast n (LeaderDecision k b v)))"
    if u: "traced s u" "map_of (mp_chosen u) k \<noteq> None" for u
  proof -
    have "outcome UNIV (\<lambda>w. traced s w \<and> traced u w) (receive_decision n k b v u)"
      using u by (intro outcome_conj receive_decision_traced) (simp_all add: traced_def)
    then have "outcome UNIV (traced s) (and_then (receive_decision n k b v u) (mp_broadcast n (LeaderDecision k b v)))"
      unfolding outcome_and_then
    proof (rule outcome_weaken)
      fix w assume "traced s w \<and> traced u w"
      then show "outcome UNIV (traced s) (mp_broadcast n (LeaderDecision k b v) w)"
        using traced_chosen[of u w k] u(2) by (intro traced_broadcast) auto
    qed
    then show ?thesis using u by simp
  qed
  have "outcome UNIV (traced s) (and_then (multi_record_chosen k b v u) (\<lambda>s2.
      let s3 = update_node n (\<lambda>nd. nd\<lparr>mn_pending := AList.delete k (mn_pending nd), mn_accepted_by := AList.delete k (mn_accepted_by nd)\<rparr>) s2
      in if \<not> mp_learn_decisions s3 then Inr s3
         else and_then (receive_decision n k b v s3) (mp_broadcast n (LeaderDecision k b v))))" if u: "traced s u" for u
    unfolding outcome_and_then Let_def
    by (rule outcome_weaken[OF multi_record_chosen_traced[OF u]]) (rule learn; simp)
  from this[OF traced_simps(2)[OF t]] t show ?thesis
    by (auto simp: multi_receive_accepted_def Let_def split: option.split simp del: outcome_and_then)
qed

lemma receive_accept_traced: "traced s t \<Longrightarrow> outcome UNIV (traced s) (receive_accept n k b v t)"
  by (auto simp: receive_accept_def promised_ballot_def make_slot_accepted_def Let_def split: option.split
      intro!: multi_receive_accepted_traced traced_send traced_durable)

lemma multi_receive_promise_traced: "traced s t \<Longrightarrow> outcome UNIV (traced s) (multi_receive_promise n pr t)"
  by (auto simp: multi_receive_promise_def Let_def split: list.split)

lemma multi_receive_prepare_traced: "traced s t \<Longrightarrow> outcome UNIV (traced s) (multi_receive_prepare n b t)"
  by (auto simp: multi_receive_prepare_def promised_ballot_def Let_def split: option.split
      intro!: multi_receive_promise_traced traced_send traced_durable)

lemma traced_schedule:
  assumes "traced s t" and "payload_recorded t (msg_payload m)"
  shows "traced s (sim_schedule m dl t)"
proof -
  have "payload_recorded (sim_schedule m dl t) p = payload_recorded t p" for p
    by (rule payload_recorded_same) (simp add: sim_schedule_def Let_def)
  then show ?thesis using assms
    by (auto simp: traced_def recorded_def sim_schedule_def Let_def multi_learned_decision_def)
qed

lemma retry_recovery_traced:
  assumes t: "traced s t"
  shows "outcome UNIV (traced s) (retry_recovery n t)"
proof -
  have "outcome UNIV (\<lambda>u. traced s (sim_schedule (m u) dl u)) (for_each (\<lambda>peer. send_msg n peer (DecisionRecoveryRequest start)) peers u)"
    if u: "traced s u" and m: "\<And>u. \<exists>g a. msg_payload (m u) = DecisionRecoveryRetry g a" for u m dl start peers
  proof (rule outcome_weaken[OF traced_broadcast[OF _ u]])
    fix x assume x: "traced s x"
    obtain g a where "msg_payload (m x) = DecisionRecoveryRetry g a" using m by blast
    then show "traced s (sim_schedule (m x) dl x)" by (intro traced_schedule[OF x]) simp
  qed simp
  then show ?thesis using t by (auto simp: retry_recovery_def Let_def split: option.split)
qed

lemma receive_recovery_request_traced:
  assumes t: "traced s t"
  shows "outcome UNIV (traced s) (receive_recovery_request n src start t)"
proof -
  let ?ds = "List.map_filter (\<lambda>slot. multi_learned_decision n slot t) [start..start + RECOVERY_WINDOW - 1]"
  have "payload_recorded t (DecisionRecoveryResponse start ?ds)"
  proof -
    have "map_of (mp_chosen t) (sl_slot d) \<noteq> None" if d: "d \<in> set ?ds" for d
    proof -
      obtain k where k: "multi_learned_decision n k t = Some d" using d by (auto simp: map_filter_def)
      then have "sl_slot d = k" "map_of (mp_chosen t) k \<noteq> None" using t unfolding traced_def recorded_def by blast+
      then show ?thesis by simp
    qed
    then show ?thesis by simp
  qed
  from traced_send[OF this t] show ?thesis using t
    by (auto simp: receive_recovery_request_def Let_def intro!: outcome_any)
qed

lemma receive_recovery_response_traced:
  assumes t: "traced s t" and "\<forall>d \<in> set ds. map_of (mp_chosen t) (sl_slot d) \<noteq> None"
  shows "outcome UNIV (traced s) (receive_recovery_response n start ds t)"
proof -
  have "outcome UNIV (\<lambda>u. traced s u \<and> traced t u) (for_each (\<lambda>d. receive_decision n (sl_slot d) (sl_proposal d) (sl_value d)) ds t)"
  proof (rule outcome_for_each)
    show "traced s t \<and> traced t t" using t by (simp add: traced_def)
  next
    fix d u assume "d \<in> set ds" and u: "traced s u \<and> traced t u"
    then have "map_of (mp_chosen u) (sl_slot d) \<noteq> None" using assms(2) traced_chosen by blast
    then show "outcome UNIV (\<lambda>u. traced s u \<and> traced t u) (receive_decision n (sl_slot d) (sl_proposal d) (sl_value d) u)"
      using u by (intro outcome_conj receive_decision_traced) simp_all
  qed
  then have "outcome UNIV (traced s) (for_each (\<lambda>d. receive_decision n (sl_slot d) (sl_proposal d) (sl_value d)) ds t)"
    by (rule outcome_weaken) simp
  then show ?thesis using t by (auto simp: receive_recovery_response_def intro!: outcome_any)
qed

lemma mp_handle_message_traced:
  assumes "recorded s" and "payload_recorded s (msg_payload m)"
  shows "outcome UNIV (traced s) (mp_handle_message n s m)"
  using assms(2) traced_refl[OF assms(1)]
  by (cases "msg_payload m")
    (auto simp: mp_handle_message_def intro!: multi_receive_prepare_traced multi_receive_promise_traced receive_accept_traced
      multi_receive_accepted_traced receive_decision_traced receive_recovery_request_traced receive_recovery_response_traced retry_recovery_traced)

lemma outcome_and: "outcome E P m \<Longrightarrow> outcome UNIV Q m \<Longrightarrow> outcome E (\<lambda>x. P x \<and> Q x) m"
  by (cases m) auto

text \<open>The second invariant of the protocol, relative to the state \<open>s0\<close> a run starts from.\<close>

definition tracked :: "'v multipaxos \<Rightarrow> 'v multipaxos \<Rightarrow> bool" where
  "tracked s0 s \<longleftrightarrow> mgood s0 s \<and> recorded s \<and> (\<forall>n. volatile_state s n \<noteq> None \<longrightarrow> volatile_state s0 n \<noteq> None)"

lemma tracked_frame:
  assumes t: "tracked s0 s" and same: "persistent_state s' = persistent_state s" "mp_node_ids s' = mp_node_ids s"
      "sim_handlers s' = sim_handlers s" "mp_nodes s' = mp_nodes s" "mp_chosen s' = mp_chosen s"
    and sub: "set (sim_queue s') \<subseteq> set (sim_queue s)" "\<And>n. volatile_state s' n \<noteq> None \<Longrightarrow> volatile_state s n \<noteq> None"
  shows "tracked s0 s'"
proof -
  have "mgood s0 s'" by (rule mgood_frame[OF _ same sub(1)]) (use t in \<open>simp add: tracked_def\<close>)
  moreover have "recorded s'"
    using t sub(1) payload_recorded_same[OF same(5)] same unfolding tracked_def recorded_def multi_learned_decision_def by auto
  ultimately show ?thesis using t sub(2) unfolding tracked_def by blast
qed

lemma tracked_traced:
  assumes "tracked s0 s" and "mgood s t" and "traced s t"
  shows "tracked s0 t"
  using assms mgood_trans unfolding tracked_def traced_def by metis

lemma tracked_outcome:
  assumes "tracked s0 s" and "outcome E (mgood s) m" and "outcome UNIV (traced s) m"
  shows "outcome E (tracked s0) m"
  by (rule outcome_weaken[OF outcome_and[OF assms(2,3)]]) (use tracked_traced[OF assms(1)] in blast)

lemma forget_leadership_tracked: "tracked s0 s \<Longrightarrow> tracked s0 (forget_leadership n s)"
  using tracked_traced[of s0 s "forget_leadership n s"] forget_leadership_good mgoodD(1) traced_simps(2) traced_refl
  unfolding forget_leadership_def tracked_def by blast

interpretation mpt: protocol multipaxos_callbacks "{PaxosSafetyViolation}" "tracked s0"
    "\<lambda>s m. multi_message_ok s m \<and> payload_recorded s (msg_payload m)" for s0
proof (unfold_locales, goal_cases)
  case (1 s d q t)
  show ?case by (rule tracked_frame[OF 1(1)]) (auto simp: 1(2))
next
  case (2 s d q t)
  have "mgood s0 s" "recorded s" "d \<in> set (sim_queue s)" using 2 by (simp_all add: tracked_def)
  then have "multi_message_ok s (sd_message d) \<and> payload_recorded s (msg_payload (sd_message d))"
    using multi_invD(8)[OF mgoodD(1)] unfolding recorded_def by blast
  then show ?case using multi_message_ok_frame[of s "sd_message d" "s\<lparr>sim_queue := q, sim_time := t\<rparr>"]
    by (simp add: payload_recorded_same[of "s\<lparr>sim_queue := q, sim_time := t\<rparr>" s])
next
  case (4 s m ev)
  then show ?case using multi_message_ok_frame[of s m "record_event ev s"] by (simp add: payload_recorded_same[of "record_event ev s" s])
next
  case (9 s m)
  then show ?case by (auto simp: multi_message_ok_def effective_dst_def)
next
  case (10 s m)
  then have "effective_dst m = msg_dst m" by (simp add: multi_message_ok_def effective_dst_def)
  moreover have "outcome {PaxosSafetyViolation} (tracked s0) (mp_handle_message (msg_dst m) s m)"
    using 10 by (intro tracked_outcome[OF 10(1)] mp_handle_message_good mp_handle_message_traced) (auto simp: tracked_def mgood_def)
  ultimately show ?case by (simp add: multipaxos_callbacks_def)
next
  case (11 s n)
  have "tracked s0 (forget_leadership n s\<lparr>volatile_state := (volatile_state (forget_leadership n s))(n := None)\<rparr>)"
    by (rule tracked_frame[OF forget_leadership_tracked[OF 11]]) (auto split: if_splits)
  then show ?case by (simp add: multipaxos_callbacks_def call_optional_def mp_handle_crash_def)
next
  case (12 s n)
  let ?t = "record_event (TRestart n) (s\<lparr>volatile_state := (volatile_state s)(n := None)\<rparr>)"
  have "tracked s0 ?t" by (rule tracked_frame[OF 12]) (auto split: if_splits)
  then have "tracked s0 (forget_leadership n ?t)" by (rule forget_leadership_tracked)
  then have "tracked s0 (record_app ev (forget_leadership n ?t))" for ev by (rule tracked_frame) simp_all
  then show ?case by (simp add: multipaxos_callbacks_def call_optional_def mp_handle_restart_def)
qed (erule tracked_frame; simp)+

lemma accept_everywhere_traced:
  assumes "traced s t"
  shows "outcome UNIV (traced s) (and_then (receive_accept n k c w t) (mp_broadcast n (LeaderAccept k c w)))"
  unfolding outcome_and_then by (rule outcome_weaken[OF receive_accept_traced[OF assms]]) (auto intro: traced_broadcast)

lemma propose_traced:
  assumes "recorded s"
  shows "outcome UNIV (traced s) (propose n k v s)"
proof -
  have "outcome UNIV (traced s) (and_then (receive_accept n k c w t) (\<lambda>s2. and_then (mp_broadcast n (LeaderAccept k c w) s2) (\<lambda>s3. Inr (record_app ev s3))))"
    if t: "traced s t" for c w t ev
    unfolding and_then_assoc[symmetric] outcome_and_then[of _ _ "and_then _ _"] outcome_simps
    by (rule outcome_weaken[OF accept_everywhere_traced[OF t]]) simp
  moreover have "traced s (update_node n f s)" for f using traced_refl[OF assms] by simp
  ultimately have "outcome UNIV (traced s) (and_then (receive_accept n k c w (update_node n f s))
      (\<lambda>s2. and_then (mp_broadcast n (LeaderAccept k c w) s2) (\<lambda>s3. Inr (record_app ev s3))))" for c w ev f by blast
  then show ?thesis
    by (auto simp: propose_def Let_def outcome_and_then[of _ _ "adopted_value _ _"] simp del: outcome_and_then
        split: option.split intro!: outcome_any)
qed

lemma retry_proposal_traced: "recorded s \<Longrightarrow> outcome UNIV (traced s) (retry_proposal n k s)"
  using accept_everywhere_traced[OF traced_refl, of s n k]
  by (auto simp: retry_proposal_def Let_def outcome_and_then[of _ _ "promised_ballot _ _"] simp del: outcome_and_then
      split: option.split intro!: outcome_any)

lemma recover_decisions_traced: "recorded s \<Longrightarrow> outcome UNIV (traced s) (recover_decisions n k s)"
  using traced_refl[of s] by (auto simp: recover_decisions_def intro!: retry_recovery_traced)

lemma prepare_leadership_traced:
  assumes "recorded s"
  shows "outcome UNIV (\<lambda>(b, s'). traced s s') (prepare_leadership n r s)"
proof -
  have t: "traced s (update_node n f (set_durable n (\<lambda>d. d\<lparr>mp_last_round := rnd\<rparr>) s))" for f rnd
    using traced_durable[OF traced_refl[OF assms]] by simp
  have "outcome UNIV (\<lambda>s4. traced s (record_app ev s4)) (and_then (multi_receive_prepare n b (update_node n f (set_durable n (\<lambda>d. d\<lparr>mp_last_round := rnd\<rparr>) s)))
      (mp_broadcast n (LeaderPrepare b)))" for b f ev rnd
    unfolding outcome_and_then by (rule outcome_weaken[OF multi_receive_prepare_traced[OF t]], rule outcome_weaken[OF traced_broadcast[of _ _ s]]) (simp_all only: payload_recorded.simps traced_simps)
  then show ?thesis
    by (auto simp: prepare_leadership_def Let_def intro!: outcome_any)
qed

lemma tracked_refl: "multi_inv s \<Longrightarrow> recorded s \<Longrightarrow> tracked s s"
  by (simp add: tracked_def mgood_refl)

lemma tracked_step: "multipaxos_step s s' \<Longrightarrow> multi_inv s \<Longrightarrow> recorded s \<Longrightarrow> tracked s s'"
proof (induction rule: multipaxos_step.induct)
  case (network s s')
  then show ?case using mpt.step_inv[of s s' s] tracked_refl by blast
next
  case (prepare n s r b s')
  then show ?case using prepare_leadership_good[of s n r] prepare_leadership_traced[of s n r] tracked_traced[OF tracked_refl] by simp
next
  case (propose n s k v s')
  then show ?case using propose_good[of s n k v] propose_traced[of s n k v] tracked_traced[OF tracked_refl] by simp
next
  case (retry n s k s')
  then show ?case using retry_proposal_good[of s n k] retry_proposal_traced[of s n k] tracked_traced[OF tracked_refl] by simp
next
  case (recover n s k s')
  then show ?case using recover_decisions_good[of s n k] recover_decisions_traced[of s n k] tracked_traced[OF tracked_refl] by simp
qed

section \<open>Replay\<close>

lemma apply_decision_requests:
  "apply_decision d im = Inr im' \<Longrightarrow> \<exists>new. mi_requests im' = mi_requests im @ new \<and>
     (\<forall>x \<in> set new. map_of (mi_requests im) (fst x) = None)"
  by (auto simp: apply_decision_def split: multi_command.splits option.splits if_splits)

lemma replay_requests:
  "for_each apply_decision ds im = Inr im' \<Longrightarrow> map_of (mi_requests im) k = Some r \<Longrightarrow> map_of (mi_requests im') k = Some r"
proof (induction ds arbitrary: im)
  case (Cons d ds)
  obtain im1 where im1: "apply_decision d im = Inr im1" "for_each apply_decision ds im1 = Inr im'"
    using Cons.prems(1) by (auto simp: and_then_eq_Inr)
  obtain new where "mi_requests im1 = mi_requests im @ new" using apply_decision_requests[OF im1(1)] by blast
  then have "map_of (mi_requests im1) k = Some r" using Cons.prems(2) by (simp add: map_add_Some_iff)
  then show ?case by (rule Cons.IH[OF im1(2)])
qed simp

lemma replay_append: "multi_replay (ds @ es) = and_then (multi_replay ds) (for_each apply_decision es)"
  by (simp add: multi_replay_def for_each_append)

lemma replay_prefix:
  assumes "prefix ds es" and "multi_replay es = Inr im"
  shows "\<exists>im0. multi_replay ds = Inr im0 \<and> (\<forall>k r. map_of (mi_requests im0) k = Some r \<longrightarrow> map_of (mi_requests im) k = Some r)"
proof -
  obtain zs where "es = ds @ zs" using assms(1) by (rule prefixE)
  then obtain im0 where "multi_replay ds = Inr im0" "for_each apply_decision zs im0 = Inr im"
    using assms(2) by (auto simp: replay_append and_then_eq_Inr)
  then show ?thesis using replay_requests by blast
qed

text \<open>The ballot of a decision does not matter for its application.\<close>

definition view :: "'v slot_learned \<Rightarrow> int \<times> 'v" where
  "view d = (sl_slot d, sl_value d)"

lemma apply_view: "view d = view e \<Longrightarrow> apply_decision d = apply_decision e"
  by (intro ext) (simp only: apply_decision_def view_def prod.inject)

lemma replay_view: "map view ds = map view es \<Longrightarrow> multi_replay ds = multi_replay es"
proof -
  have "for_each apply_decision ds im = for_each apply_decision es im" if "map view ds = map view es" for im
    using that
  proof (induction ds es arbitrary: im rule: list_induct2')
    case (4 d ds e es)
    then have "view d = view e" and "map view ds = map view es" by (simp_all only: list.map list.inject)
    then have "apply_decision d = apply_decision e" "map view ds = map view es" using apply_view[of d e] by simp_all
    then have "for_each apply_decision ds im1 = for_each apply_decision es im1" for im1 using 4(1) by blast
    then have "for_each apply_decision ds = for_each apply_decision es" by (rule ext)
    then show ?case by (simp only: for_each.simps \<open>apply_decision d = apply_decision e\<close>)
  qed simp_all
  then show "map view ds = map view es \<Longrightarrow> multi_replay ds = multi_replay es" by (simp add: multi_replay_def)
qed

section \<open>The invariant of the machine\<close>

definition applied_ok :: "multi_command multipaxos \<Rightarrow> string \<Rightarrow> multi_command slot_learned list \<Rightarrow> bool" where
  "applied_ok c n ds \<longleftrightarrow> (\<forall>i < length ds. sl_slot (ds ! i) = int i + 1 \<and> multi_learned_decision n (int i + 1) c = Some (ds ! i))"

definition image_ok :: "multi_machine \<Rightarrow> string \<Rightarrow> bool" where
  "image_ok s n \<longleftrightarrow> (\<exists>im. multi_replay (mm_applied s n) = Inr im \<and>
     (mm_loaded n s \<longrightarrow> mm_image s n = im \<and> mm_through s n = int (length (mm_applied s n))))"

definition machine_inv :: "multi_machine \<Rightarrow> bool" where
  "machine_inv s \<longleftrightarrow> multi_inv (mm_cluster s) \<and> recorded (mm_cluster s) \<and> attempts_bounded (mm_cluster s) \<and>
     (\<forall>n. applied_ok (mm_cluster s) n (mm_applied s n)) \<and> (\<forall>n. image_ok s n)"

definition machine_grows :: "multi_machine \<Rightarrow> multi_machine \<Rightarrow> bool" where
  "machine_grows s s' \<longleftrightarrow> mp_evolves (mm_cluster s) (mm_cluster s') \<and> (\<forall>n. prefix (mm_applied s n) (mm_applied s' n))"

lemma machine_grows_refl [simp]: "machine_grows s s"
  by (simp add: machine_grows_def)

lemma machine_grows_trans: "machine_grows s t \<Longrightarrow> machine_grows t u \<Longrightarrow> machine_grows s u"
  unfolding machine_grows_def using mp_evolves_trans prefix_order.trans by blast

definition kept :: "multi_machine \<Rightarrow> multi_machine \<Rightarrow> bool" where
  "kept s s' \<longleftrightarrow> machine_inv s' \<and> machine_grows s s'"

lemma keptD: "kept s s' \<Longrightarrow> machine_inv s'" "kept s s' \<Longrightarrow> machine_grows s s'"
  by (simp_all add: kept_def)

lemma kept_refl: "machine_inv s \<Longrightarrow> kept s s"
  by (simp add: kept_def)

lemma kept_trans: "kept s t \<Longrightarrow> kept t u \<Longrightarrow> kept s u"
  unfolding kept_def using machine_grows_trans by blast

lemma machine_invD:
  assumes "machine_inv s"
  shows "multi_inv (mm_cluster s)" "recorded (mm_cluster s)" "attempts_bounded (mm_cluster s)"
    "applied_ok (mm_cluster s) n (mm_applied s n)" "image_ok s n"
  using assms by (simp_all add: machine_inv_def)

text \<open>Replacing the cluster by one that evolved from it.\<close>

lemma kept_cluster:
  assumes inv: "machine_inv s" and c: "multi_inv c" "recorded c" "attempts_bounded c" "mp_evolves (mm_cluster s) c"
    and vol: "\<And>n. volatile_state c n \<noteq> None \<Longrightarrow> volatile_state (mm_cluster s) n \<noteq> None"
  shows "kept s (s\<lparr>mm_cluster := c\<rparr>)"
proof -
  have "applied_ok c n (mm_applied s n)" for n
    using machine_invD(4)[OF inv, of n] c(4) by (simp add: applied_ok_def mp_evolves_def)
  moreover have "image_ok (s\<lparr>mm_cluster := c\<rparr>) n" for n
    using machine_invD(5)[OF inv, of n] vol[of n] by (auto simp: image_ok_def mm_loaded_def)
  ultimately show ?thesis using c by (simp add: kept_def machine_inv_def machine_grows_def)
qed

lemma kept_record: "machine_inv s \<Longrightarrow> kept s (mm_record ev s)"
  unfolding mm_record_def
proof (rule kept_cluster)
  assume inv: "machine_inv s"
  have t: "traced (mm_cluster s) (record_app ev (mm_cluster s))" using traced_refl[OF machine_invD(2)[OF inv]] by simp
  show "recorded (record_app ev (mm_cluster s))" using t by (simp add: traced_def)
  show "multi_inv (record_app ev (mm_cluster s))" "mp_evolves (mm_cluster s) (record_app ev (mm_cluster s))"
    using mgood_record[OF machine_invD(1)[OF inv]] by (simp_all add: mgood_def)
  show "attempts_bounded (record_app ev (mm_cluster s))" using machine_invD(3)[OF inv] by (simp add: attempts_bounded_def)
qed auto

section \<open>The checks pass\<close>

lemma check_applied_ok: "(\<And>i. i < length ds \<Longrightarrow> sl_slot (ds ! i) = e + int i) \<Longrightarrow> 0 < e \<Longrightarrow> check_applied e ds = Inr ()"
proof (induction ds arbitrary: e)
  case (Cons d ds)
  have d: "sl_slot d = e" using Cons.prems(1)[of 0] by simp
  have "check_applied (e + 1) ds = Inr ()"
  proof (rule Cons.IH)
    show "sl_slot (ds ! i) = e + 1 + int i" if "i < length ds" for i using Cons.prems(1)[of "Suc i"] that by simp
  qed (use Cons.prems(2) in simp)
  then show ?case using d Cons.prems(2) by simp
qed simp

lemma durable_applied_ok: "machine_inv s \<Longrightarrow> durable_applied n s = Inr (mm_applied s n)"
  using check_applied_ok[of "mm_applied s n" 1] machine_invD(4)[of s n] by (simp add: durable_applied_def applied_ok_def)

lemma mm_require_chosen_ok:
  assumes inv: "machine_inv s" and d: "multi_learned_decision n (sl_slot d) (mm_cluster s) = Some d"
  shows "mm_require_chosen n d s = Inr ()"
proof -
  note c = machine_invD(1,2)[OF inv]
  have ok: "decision_ok (mm_cluster s) d" by (rule learned_decisionD(2)[OF c(1) d])
  obtain l where l: "map_of (mp_chosen (mm_cluster s)) (sl_slot d) = Some l"
  proof -
    have "multi_learned_decision n (sl_slot d) (mm_cluster s) \<noteq> None" using d by simp
    then have "map_of (mp_chosen (mm_cluster s)) (sl_slot d) \<noteq> None" using c(2) unfolding recorded_def by blast
    then show thesis using that by blast
  qed
  have "sl_value l = sl_value d"
    using multi_agree[OF c(1)] multi_invD(7)[OF c(1) l] ok unfolding decision_ok_def by metis
  then show ?thesis using d l evidence_found[OF c(1) ok] by (simp add: mm_require_chosen_def)
qed

lemma applied_require_ok: "machine_inv s \<Longrightarrow> for_each (\<lambda>d _. mm_require_chosen n d s) (mm_applied s n) () = Inr ()"
proof (rule for_each_unit)
  fix d u assume inv: "machine_inv s" and "d \<in> set (mm_applied s n)"
  then obtain i where i: "i < length (mm_applied s n)" "d = mm_applied s n ! i" by (auto simp: in_set_conv_nth)
  then have "sl_slot d = int i + 1" "multi_learned_decision n (int i + 1) (mm_cluster s) = Some d"
    using machine_invD(4)[OF inv, of n] unfolding applied_ok_def by blast+
  then have "multi_learned_decision n (sl_slot d) (mm_cluster s) = Some d" by (simp only:)
  then show "mm_require_chosen n d s = Inr ()" by (rule mm_require_chosen_ok[OF inv])
qed

lemma machine_loads:
  assumes inv: "machine_inv s"
  shows "outcome {} (\<lambda>s'. kept s s' \<and> mm_loaded n s' \<and> mm_applied s' = mm_applied s \<and>
      persistent_state (mm_cluster s') = persistent_state (mm_cluster s) \<and> mp_node_ids (mm_cluster s') = mp_node_ids (mm_cluster s) \<and>
      sim_alive (mm_cluster s') = sim_alive (mm_cluster s)) (machine n s)"
proof (cases "mm_loaded n s")
  case True
  then show ?thesis using kept_refl[OF inv] machine_invD(5)[OF inv, of n]
    by (auto simp: machine_def durable_applied_ok[OF inv] applied_require_ok[OF inv] image_ok_def)
next
  case False
  obtain im where im: "multi_replay (mm_applied s n) = Inr im" using machine_invD(5)[OF inv, of n] by (auto simp: image_ok_def)
  let ?c = "(mm_cluster s)\<lparr>volatile_state := (volatile_state (mm_cluster s))(n := Some ())\<rparr>"
  let ?s = "s\<lparr>mm_cluster := ?c, mm_image := (mm_image s)(n := im), mm_through := (mm_through s)(n := int (length (mm_applied s n)))\<rparr>"
  have g: "mgood (mm_cluster s) ?c" by (rule mgood_frame[OF mgood_refl[OF machine_invD(1)[OF inv]]]) simp_all
  have "payload_recorded ?c p = payload_recorded (mm_cluster s) p" for p by (rule payload_recorded_same) simp
  then have "recorded ?c" using machine_invD(2)[OF inv] by (simp add: recorded_def multi_learned_decision_def)
  moreover have "applied_ok ?c m (mm_applied s m)" for m using machine_invD(4)[OF inv, of m] by (simp add: applied_ok_def multi_learned_decision_def)
  moreover have "image_ok ?s m" for m using machine_invD(5)[OF inv, of m] im by (auto simp: image_ok_def mm_loaded_def)
  moreover have "attempts_bounded ?c" using machine_invD(3)[OF inv] by (simp add: attempts_bounded_def)
  ultimately have k: "kept s ?s" using g by (simp add: kept_def machine_inv_def machine_grows_def mgood_def)
  have "kept s (mm_record ev ?s)" for ev by (rule kept_trans[OF k kept_record[OF keptD(1)[OF k]]])
  then show ?thesis using False im
    by (simp add: machine_def durable_applied_ok[OF inv] applied_require_ok[OF inv] mm_record_def mm_loaded_def)
qed

section \<open>Application\<close>

definition next_slot :: "string \<Rightarrow> multi_machine \<Rightarrow> int" where
  "next_slot n s = int (length (mm_applied s n)) + 1"

text \<open>What applying slots leaves alone.\<close>

definition applied_more :: "string \<Rightarrow> multi_command slot_learned list \<Rightarrow> multi_machine \<Rightarrow> multi_machine \<Rightarrow> bool" where
  "applied_more n ds s s' \<longleftrightarrow> kept s s' \<and> (mm_loaded n s \<longrightarrow> mm_loaded n s') \<and>
     mm_applied s' = (mm_applied s)(n := mm_applied s n @ ds) \<and> persistent_state (mm_cluster s') = persistent_state (mm_cluster s) \<and>
     mp_node_ids (mm_cluster s') = mp_node_ids (mm_cluster s) \<and> sim_alive (mm_cluster s') = sim_alive (mm_cluster s)"

lemma applied_more_trans: "applied_more n ds s t \<Longrightarrow> applied_more n es t u \<Longrightarrow> applied_more n (ds @ es) s u"
  unfolding applied_more_def by (elim conjE, intro conjI, erule kept_trans) simp_all

lemma learned_same: "persistent_state c = persistent_state c' \<Longrightarrow> multi_learned_decision n k c = multi_learned_decision n k c'"
  by (simp add: multi_learned_decision_def)

lemma apply_slot_ok:
  assumes inv: "machine_inv s" and load: "mm_loaded n s" and d: "multi_learned_decision n (next_slot n s) (mm_cluster s) = Some d"
  shows "outcome {ClientRequestConflict} (applied_more n [d] s) (apply_slot n d s)"
proof -
  have slot: "sl_slot d = next_slot n s" by (rule learned_decisionD(1)[OF machine_invD(1)[OF inv] d])
  have chosen: "mm_require_chosen n d s = Inr ()" by (rule mm_require_chosen_ok[OF inv]) (simp add: slot d)
  have rep: "multi_replay (mm_applied s n) = Inr (mm_image s n)" using machine_invD(5)[OF inv, of n] load by (auto simp: image_ok_def)
  show ?thesis
  proof (cases "apply_decision d (mm_image s n)")
    case (Inl e)
    then have "e = ClientRequestConflict" by (auto simp: apply_decision_def split: multi_command.splits option.splits if_splits)
    then show ?thesis using Inl chosen by (simp add: apply_slot_def)
  next
    case (Inr im)
    let ?s = "s\<lparr>mm_image := (mm_image s)(n := im), mm_applied := (mm_applied s)(n := mm_applied s n @ [d]),
      mm_through := (mm_through s)(n := sl_slot d)\<rparr>"
    have "applied_ok (mm_cluster s) n (mm_applied s n @ [d])"
      using machine_invD(4)[OF inv, of n] d slot unfolding applied_ok_def next_slot_def
      by (auto simp: nth_append less_Suc_eq)
    then have "applied_ok (mm_cluster ?s) m (mm_applied ?s m)" for m using machine_invD(4)[OF inv, of m] by simp
    moreover have "multi_replay (mm_applied s n @ [d]) = Inr im" using rep Inr by (simp add: replay_append)
    then have "image_ok ?s m" for m using machine_invD(5)[OF inv, of m] slot by (auto simp: image_ok_def mm_loaded_def next_slot_def)
    ultimately have k: "kept s ?s" using machine_invD(1,2,3)[OF inv] by (simp add: kept_def machine_inv_def machine_grows_def)
    have "kept s (mm_record ev ?s)" for ev by (rule kept_trans[OF k kept_record[OF keptD(1)[OF k]]])
    then show ?thesis using Inr chosen load by (simp add: apply_slot_def applied_more_def mm_record_def mm_loaded_def)
  qed
qed

lemma apply_slots_ok:
  assumes "machine_inv s" and "mm_loaded n s"
    and "\<And>i. i < length ds \<Longrightarrow> multi_learned_decision n (next_slot n s + int i) (mm_cluster s) = Some (ds ! i)"
  shows "outcome {ClientRequestConflict} (applied_more n ds s) (for_each (apply_slot n) ds s)"
  using assms
proof (induction ds arbitrary: s)
  case Nil
  then show ?case using kept_refl by (simp add: applied_more_def)
next
  case (Cons d ds)
  have "multi_learned_decision n (next_slot n s) (mm_cluster s) = Some d" using Cons.prems(3)[of 0] by simp
  from apply_slot_ok[OF Cons.prems(1,2) this] show ?case unfolding for_each.simps outcome_and_then
  proof (rule outcome_weaken)
    fix t assume t: "applied_more n [d] s t"
    have next_t: "next_slot n t = next_slot n s + 1" using t by (simp add: applied_more_def next_slot_def)
    have "outcome {ClientRequestConflict} (applied_more n ds t) (for_each (apply_slot n) ds t)"
    proof (rule Cons.IH)
      show "machine_inv t" "mm_loaded n t" using t Cons.prems(2) keptD(1) by (auto simp: applied_more_def)
      have same: "multi_learned_decision n k (mm_cluster t) = multi_learned_decision n k (mm_cluster s)" for k
        by (rule learned_same) (use t in \<open>simp add: applied_more_def\<close>)
      show "multi_learned_decision n (next_slot n t + int i) (mm_cluster t) = Some (ds ! i)" if "i < length ds" for i
        using Cons.prems(3)[of "Suc i"] that by (simp add: same next_t algebra_simps)
    qed
    then show "outcome {ClientRequestConflict} (applied_more n (d # ds) s) (for_each (apply_slot n) ds t)"
      by (rule outcome_weaken) (use applied_more_trans[OF t] in simp)
  qed
qed

lemma ready_learned:
  assumes "i < length (ready_decisions n s)"
  shows "multi_learned_decision n (next_slot n s + int i) (mm_cluster s) = Some (ready_decisions n s ! i)"
proof (cases "mp_learned (persistent_state (mm_cluster s) n)")
  case None
  then show ?thesis using assms by (simp add: ready_decisions_def prefix_from.simps)
next
  case (Some L)
  then show ?thesis using assms prefix_from_nth[of i L "next_slot n s"]
    by (simp add: ready_decisions_def multi_learned_decision_def next_slot_def)
qed

lemma ready_stops: "multi_learned_decision n (next_slot n s + int (length (ready_decisions n s))) (mm_cluster s) = None"
  using prefix_from_stops[of _ "next_slot n s"]
  by (auto simp: ready_decisions_def multi_learned_decision_def next_slot_def split: option.split)

lemma recover_decisions_live:
  assumes "multi_inv c" and "n \<in> set (mp_node_ids c)" and "is_alive c n" and "0 < k"
  shows "outcome {} (mgood c) (recover_decisions n k c)"
proof -
  let ?c = "update_node n (\<lambda>nd. nd\<lparr>mn_generation := mn_generation nd + 1, mn_attempt := 0, mn_recovery := Some k\<rparr>) c"
  have g: "mgood c ?c" by (rule mgood_node[OF assms(1)]) (simp add: multi_invD(5)[OF assms(1)])
  have "outcome {} (mgood c) (retry_recovery n ?c)"
    by (rule mgood_outcome[OF g retry_recovery_good[OF mgoodD(1)[OF g]]]) (use assms(2) in simp)
  then show ?thesis using assms(3,4) mgood_refl[OF assms(1)] by (simp add: recover_decisions_def)
qed

lemma sends_alive: "outcome UNIV (\<lambda>u. sim_alive u = sim_alive t) (for_each (\<lambda>peer. send_msg src peer p) peers (t :: 'v multipaxos))"
proof (rule outcome_for_each)
  fix peer and u :: "'v multipaxos" assume "sim_alive u = sim_alive t"
  then show "outcome UNIV (\<lambda>u. sim_alive u = sim_alive t) (send_msg src peer p u)"
    by (intro outcome_mono[OF sent_outcome]) (auto simp: sent_def elim!: core_frameE)
qed simp

lemma recover_decisions_alive:
  fixes c :: "'v multipaxos"
  shows "outcome UNIV (\<lambda>c'. sim_alive c' = sim_alive c) (recover_decisions n k c)"
proof -
  have node: "sim_alive (update_node n f t) = sim_alive t" for f and t :: "'v multipaxos" by (simp add: update_node_def)
  have send: "outcome UNIV (\<lambda>u. sim_alive u = sim_alive c) (for_each (\<lambda>peer. send_msg n peer p) peers t)" if "sim_alive t = sim_alive c" for p peers and t :: "'v multipaxos"
    using sends_alive[where t = t and src = n and p = p and peers = peers] that by simp
  have retry: "outcome UNIV (\<lambda>c'. sim_alive c' = sim_alive c) (retry_recovery n t)" if "sim_alive t = sim_alive c" for t :: "'v multipaxos"
    using that by (auto simp: retry_recovery_def Let_def node sim_schedule_def split: option.split intro!: send)
  show ?thesis using retry by (simp add: recover_decisions_def node)
qed

lemma kept_recover:
  assumes inv: "machine_inv s" and n: "n \<in> set (mm_nodes s)" and live: "is_alive (mm_cluster s) n" and "0 < k"
  shows "outcome {} (\<lambda>c. kept s (s\<lparr>mm_cluster := c\<rparr>) \<and> sim_alive c = sim_alive (mm_cluster s)) (recover_decisions n k (mm_cluster s))"
proof -
  note c = machine_invD(1,2,3)[OF inv]
  have "outcome {} (\<lambda>c. ((mgood (mm_cluster s) c \<and> traced (mm_cluster s) c) \<and> mcalm 5 (mm_cluster s) c) \<and> sim_alive c = sim_alive (mm_cluster s))
      (recover_decisions n k (mm_cluster s))"
    by (intro outcome_and recover_decisions_live[OF c(1) n live assms(4)] recover_decisions_traced[OF c(2)] recover_decisions_calm[OF c(3)]
        recover_decisions_alive)
  then show ?thesis
  proof (rule outcome_weaken)
    fix t assume t: "((mgood (mm_cluster s) t \<and> traced (mm_cluster s) t) \<and> mcalm 5 (mm_cluster s) t) \<and> sim_alive t = sim_alive (mm_cluster s)"
    have "kept s (s\<lparr>mm_cluster := t\<rparr>)"
      by (rule kept_cluster[OF inv]) (use t in \<open>simp_all add: mgood_def traced_def mcalm_def\<close>)
    then show "kept s (s\<lparr>mm_cluster := t\<rparr>) \<and> sim_alive t = sim_alive (mm_cluster s)" using t by blast
  qed
qed

lemma blocked_on_ok: "machine_inv s \<Longrightarrow> n \<in> set (mm_nodes s) \<Longrightarrow> \<exists>gap. blocked_on n s = Inr gap"
  by (auto simp: blocked_on_def mm_last_applied_def mm_applied_of_def mm_require_node_def durable_applied_ok Let_def)

lemma kept_gap: "machine_inv s \<Longrightarrow> kept s (record_gap n gap s)"
  by (auto simp: record_gap_def kept_refl kept_record split: option.split)

lemma record_gap_same [simp]:
  "mm_applied (record_gap n gap s) = mm_applied s" "mp_node_ids (mm_cluster (record_gap n gap s)) = mp_node_ids (mm_cluster s)"
  "sim_alive (mm_cluster (record_gap n gap s)) = sim_alive (mm_cluster s)"
  by (auto simp: record_gap_def mm_record_def split: option.split)

text \<open>\<open>apply_ready\<close> on a live member: it applies everything learned up to the first gap.\<close>

lemma apply_ready_ok:
  assumes inv: "machine_inv s" and n: "n \<in> set (mm_nodes s)" and live: "is_alive (mm_cluster s) n"
  shows "outcome {ClientRequestConflict} (\<lambda>(ds, s'). kept s s' \<and> ds = ready_decisions n s \<and>
      mm_applied s' = (mm_applied s)(n := mm_applied s n @ ds) \<and> sim_alive (mm_cluster s') = sim_alive (mm_cluster s)) (apply_ready n s)"
proof -
  obtain s1 where s1: "machine n s = Inr s1" "kept s s1" "mm_loaded n s1" "mm_applied s1 = mm_applied s"
      "persistent_state (mm_cluster s1) = persistent_state (mm_cluster s)" "mm_nodes s1 = mm_nodes s" "sim_alive (mm_cluster s1) = sim_alive (mm_cluster s)"
    using machine_loads[OF inv, of n] by (auto simp: outcome_Inr_iff)
  note inv1 = keptD(1)[OF s1(2)]
  have ready: "ready_decisions n s1 = ready_decisions n s" by (simp add: ready_decisions_def s1)
  have rest: "outcome {ClientRequestConflict} (\<lambda>(ds, s'). kept s s' \<and> ds = ready_decisions n s \<and>
        mm_applied s' = (mm_applied s)(n := mm_applied s n @ ds) \<and> sim_alive (mm_cluster s') = sim_alive (mm_cluster s))
      (and_then (blocked_on n s2) (\<lambda>gap. let s3 = record_gap n gap s2
         in and_then (recover_decisions n (int (length (mm_applied s3 n)) + 1) (mm_cluster s3)) (\<lambda>c. Inr (ready_decisions n s1, s3\<lparr>mm_cluster := c\<rparr>))))"
    if s2: "applied_more n (ready_decisions n s1) s1 s2" for s2
  proof -
    have k2: "kept s s2" using s2 kept_trans[OF s1(2)] by (simp add: applied_more_def)
    have n2: "n \<in> set (mm_nodes s2)" "is_alive (mm_cluster s2) n" using s2 s1 n live by (simp_all add: applied_more_def is_alive_def)
    obtain gap where gap: "blocked_on n s2 = Inr gap" using blocked_on_ok[OF keptD(1)[OF k2] n2(1)] by blast
    have k3: "kept s (record_gap n gap s2)" by (rule kept_trans[OF k2 kept_gap[OF keptD(1)[OF k2]]])
    have "outcome {} (\<lambda>c. kept (record_gap n gap s2) (record_gap n gap s2\<lparr>mm_cluster := c\<rparr>) \<and> sim_alive c = sim_alive (mm_cluster (record_gap n gap s2)))
        (recover_decisions n (int (length (mm_applied s2 n)) + 1) (mm_cluster (record_gap n gap s2)))"
      by (rule kept_recover[OF keptD(1)[OF k3]]) (use n2 in \<open>simp_all add: is_alive_def\<close>)
    then have "outcome {} (\<lambda>c. kept s (record_gap n gap s2\<lparr>mm_cluster := c\<rparr>) \<and> sim_alive c = sim_alive (mm_cluster s2))
        (recover_decisions n (int (length (mm_applied s2 n)) + 1) (mm_cluster (record_gap n gap s2)))"
      by (rule outcome_weaken) (use kept_trans[OF k3] in simp)
    then show ?thesis using s2 s1(4,7)
      by (simp add: gap ready applied_more_def Let_def) (rule outcome_allow)
  qed
  have "outcome {ClientRequestConflict} (applied_more n (ready_decisions n s1) s1) (for_each (apply_slot n) (ready_decisions n s1) s1)"
    by (rule apply_slots_ok[OF inv1 s1(3) ready_learned])
  from outcome_weaken[OF this rest] show ?thesis
    using n live s1(1) durable_applied_ok[OF inv1, of n]
    by (simp add: apply_ready_def mm_require_alive_def mm_require_node_def Let_def)
qed

section \<open>The safety check of the machine\<close>

lemma applied_decided:
  assumes inv: "machine_inv s" and "d \<in> set (mm_applied s n)"
  shows "multi_learned_decision n (sl_slot d) (mm_cluster s) = Some d" "mp_decided (mm_cluster s) (sl_slot d) (sl_proposal d) (sl_value d)"
proof -
  obtain i where "i < length (mm_applied s n)" "d = mm_applied s n ! i" using assms(2) by (auto simp: in_set_conv_nth)
  then have "sl_slot d = int i + 1" "multi_learned_decision n (int i + 1) (mm_cluster s) = Some d"
    using machine_invD(4)[OF inv, of n] unfolding applied_ok_def by blast+
  then show l: "multi_learned_decision n (sl_slot d) (mm_cluster s) = Some d" by (simp only:)
  show "mp_decided (mm_cluster s) (sl_slot d) (sl_proposal d) (sl_value d)"
    using learned_decisionD(2)[OF machine_invD(1)[OF inv] l] by (simp add: decision_ok_def)
qed

definition reference_ok :: "multi_machine \<Rightarrow> (int \<times> multi_command) list \<Rightarrow> bool" where
  "reference_ok s ref \<longleftrightarrow> (\<forall>k v. map_of ref k = Some v \<longrightarrow> (\<exists>b. mp_decided (mm_cluster s) k b v))"

lemma check_reference_ok:
  assumes inv: "machine_inv s" and d: "d \<in> set (mm_applied s n)" and ref: "reference_ok s ref"
  shows "outcome {} (reference_ok s) (check_reference n s d ref)"
proof -
  note dec = applied_decided[OF inv d]
  have chosen: "mm_require_chosen n d s = Inr ()" by (rule mm_require_chosen_ok[OF inv dec(1)])
  show ?thesis
  proof (cases "map_of ref (sl_slot d)")
    case None
    then have "reference_ok s (setdefault (sl_slot d) (sl_value d) ref)"
      using ref dec(2) unfolding reference_ok_def map_of_setdefault by auto
    then show ?thesis using None chosen by (simp add: check_reference_def)
  next
    case (Some v)
    then obtain b where "mp_decided (mm_cluster s) (sl_slot d) b v" using ref by (auto simp: reference_ok_def)
    from multi_agree[OF machine_invD(1)[OF inv] this dec(2)] show ?thesis using Some chosen ref by (simp add: check_reference_def)
  qed
qed

lemma check_machine_ok:
  assumes inv: "machine_inv s" and ref: "reference_ok s ref"
  shows "outcome {} (reference_ok s) (check_machine s n ref)"
proof -
  have "outcome {} (reference_ok s) (for_each (check_reference n s) (mm_applied s n) ref)"
    by (rule outcome_for_each) (use ref check_reference_ok[OF inv] in blast)+
  moreover obtain im where "multi_replay (mm_applied s n) = Inr im" "mm_loaded n s \<longrightarrow> mm_image s n = im \<and> mm_through s n = int (length (mm_applied s n))"
    using machine_invD(5)[OF inv, of n] by (auto simp: image_ok_def)
  ultimately show ?thesis
    by (auto simp: check_machine_def durable_applied_ok[OF inv] dict_same_def elim!: outcome_weaken)
qed

lemma mm_assert_safety_ok:
  assumes "machine_inv s"
  shows "mm_assert_safety s = Inr ()"
proof -
  have "outcome {} (reference_ok s) (for_each (check_machine s) (mm_nodes s) [])"
    by (rule outcome_for_each) (simp add: reference_ok_def, rule check_machine_ok[OF assms])
  then show ?thesis using multi_assert_safety_ok[OF machine_invD(1)[OF assms]] by (auto simp: mm_assert_safety_def outcome_Inr_iff)
qed

section \<open>Reachable states\<close>

inductive machine_step :: "multi_machine \<Rightarrow> multi_machine \<Rightarrow> bool" where
  cluster: "multipaxos_step (mm_cluster s) c \<Longrightarrow> machine_step s (s\<lparr>mm_cluster := c\<rparr>)"
| load: "machine n s = Inr s' \<Longrightarrow> machine_step s s'"
| slot: "mm_loaded n s \<Longrightarrow> multi_learned_decision n (next_slot n s) (mm_cluster s) = Some d \<Longrightarrow> apply_slot n d s = Inr s' \<Longrightarrow>
    machine_step s s'"
| ready: "apply_ready n s = Inr (ds, s') \<Longrightarrow> machine_step s s'"

definition machine_start :: "multi_machine \<Rightarrow> bool" where
  "machine_start s \<longleftrightarrow> (\<exists>plan names ids c. MultiPaxosCluster (sim_init plan names (\<lambda>_. fresh_multi)) ids True = Inr c \<and>
     MultiPaxosStateMachine \<lparr>mm_cluster = c, mm_applied = (\<lambda>_. []), mm_image = (\<lambda>_. empty_machine), mm_through = (\<lambda>_. 0)\<rparr> = Inr s)"

definition machine_reachable :: "multi_machine \<Rightarrow> bool" where
  "machine_reachable s \<longleftrightarrow> (\<exists>s0. machine_start s0 \<and> machine_step\<^sup>*\<^sup>* s0 s)"

text \<open>A cluster built over durable state: nothing is queued, every learned slot has been recovered.\<close>

lemma built_recorded:
  fixes s s1 :: "'v multipaxos"
  assumes inv: "multi_inv s1" and queue: "sim_queue s1 = []" and dom: "\<And>k. map_of (mp_chosen s1) k \<noteq> None \<longleftrightarrow> (\<exists>b v. mp_decided s1 k b v)"
  shows "recorded s1"
proof -
  have "map_of (mp_chosen s1) k \<noteq> None \<and> sl_slot l = k" if "multi_learned_decision n k s1 = Some l" for n k l
    using learned_decisionD[OF inv that] dom[of k] unfolding decision_ok_def by blast
  then show ?thesis using queue unfolding recorded_def by (metis empty_iff empty_set option.exhaust)
qed

lemma built_decided:
  assumes "mp_node_ids s1 = mp_node_ids s" and "\<And>a. mp_history (persistent_state s1 a) = mp_history (persistent_state s a)"
  shows "mp_decided s1 = mp_decided s"
  using assms by (intro ext) (simp add: mp_decided_def mp_votes_def[abs_def])

lemma cluster_built_tracked:
  fixes s :: "'v multipaxos"
  assumes inv: "multi_inv s" and ids: "mp_node_ids s = ids" "ids \<noteq> []"
    and s1: "MultiPaxosCluster (sim_init plan names (persistent_state s)) ids learn = Inr s1"
  shows "multi_inv s1 \<and> recorded s1 \<and> attempts_bounded s1 \<and> mp_node_ids s1 = ids \<and> mp_learn_decisions s1 = learn \<and>
    (\<forall>a. persistent_state s1 a = (if a \<in> set ids then init_learned learn (persistent_state s a) else persistent_state s a))"
proof -
  have b: "multi_inv s1" "mp_node_ids s1 = ids" "sim_queue s1 = []" "mp_learn_decisions s1 = learn" "\<And>n. mp_nodes s1 n = fresh_node"
    "\<And>a. persistent_state s1 a = (if a \<in> set ids then init_learned learn (persistent_state s a) else persistent_state s a)"
    "\<And>k. map_of (mp_chosen s1) k \<noteq> None \<longleftrightarrow> (\<exists>b v. mp_decided s k b v)"
    using cluster_built[OF inv ids, of plan names learn] s1 by auto
  have "mp_decided s1 = mp_decided s" by (rule built_decided) (simp_all add: b(2,6) ids)
  then have "recorded s1" using built_recorded[OF b(1,3)] b(7) by simp
  moreover have "attempts_bounded s1" by (simp add: attempts_bounded_def b(5) fresh_node_def RECOVERY_ATTEMPTS_def)
  ultimately show ?thesis using b by simp
qed

lemma machine_start_inv: "machine_start s \<Longrightarrow> machine_inv s"
proof -
  assume "machine_start s"
  then obtain plan names ids c where c: "MultiPaxosCluster (sim_init plan names (\<lambda>_. fresh_multi)) ids True = Inr c"
    and s: "s = \<lparr>mm_cluster = c, mm_applied = (\<lambda>_. []), mm_image = (\<lambda>_. empty_machine), mm_through = (\<lambda>_. 0)\<rparr>"
    by (auto simp: machine_start_def MultiPaxosStateMachine_def and_then_eq_Inr split: if_splits)
  have ids: "distinct ids" "ids \<noteq> []" using c by (auto simp: MultiPaxosCluster_def card_distinct split: if_splits)
  let ?e = "simulator.extend (sim_init plan names (\<lambda>_. fresh_multi)) (multipaxos.fields ids True (\<lambda>_. fresh_node) [])\<lparr>sim_handlers := ids\<rparr> :: multi_command multipaxos"
  have e: "mp_node_ids ?e = ids" "persistent_state ?e = (\<lambda>_. fresh_multi)" by (simp_all add: sim_init_def simulator.defs multipaxos.defs)
  have "multi_inv c \<and> recorded c \<and> attempts_bounded c"
    using cluster_built_tracked[OF fresh_multi_inv[OF ids(1)] e(1) ids(2), of plan names True c] c unfolding e(2) by blast
  moreover have "image_ok s n" for n by (simp add: image_ok_def s multi_replay_def)
  ultimately show ?thesis by (simp add: machine_inv_def s applied_ok_def)
qed

lemma kept_step: "machine_step s s' \<Longrightarrow> machine_inv s \<Longrightarrow> kept s s'"
proof (induction rule: machine_step.induct)
  case (cluster s c)
  note inv = machine_invD(1,2,3)[OF cluster(2)]
  have t: "tracked (mm_cluster s) c" by (rule tracked_step[OF cluster(1) inv(1,2)])
  show ?case
    by (rule kept_cluster[OF cluster(2)])
      (use t multi_step_bounded[OF cluster(1) inv(3)] in \<open>auto simp: tracked_def mgood_def\<close>)
next
  case (load n s s')
  then show ?case using machine_loads[of s n] by simp
next
  case (slot n s d s')
  then show ?case using apply_slot_ok[of s n d] by (simp add: applied_more_def)
next
  case (ready n s ds s')
  then have "n \<in> set (mm_nodes s)" "is_alive (mm_cluster s) n"
    by (auto simp: apply_ready_def and_then_eq_Inr mm_require_alive_def mm_require_node_def split: if_splits)
  then show ?case using apply_ready_ok[of s n] ready by auto
qed

lemma kept_steps: "machine_step\<^sup>*\<^sup>* s s' \<Longrightarrow> machine_inv s \<Longrightarrow> kept s s'"
proof (induction rule: rtranclp_induct)
  case base
  then show ?case by (rule kept_refl)
next
  case (step y z)
  then show ?case using kept_trans kept_step keptD(1) by blast
qed

lemma machine_reachable_inv: "machine_reachable s \<Longrightarrow> machine_inv s"
  unfolding machine_reachable_def using machine_start_inv kept_steps keptD(1) by blast

lemma machine_reachable_steps: "machine_reachable s \<Longrightarrow> machine_step\<^sup>*\<^sup>* s s' \<Longrightarrow> machine_reachable s'"
  unfolding machine_reachable_def by (meson rtranclp_trans)

section \<open>Replicas agree\<close>

text \<open>Two applied prefixes, of any two nodes at any two moments of a run, agree on what they share.\<close>

lemma applied_view_agree:
  assumes k: "kept s s'" and inv: "machine_inv s" and i: "i < length (mm_applied s n)" "i < length (mm_applied s' m)"
  shows "view (mm_applied s n ! i) = view (mm_applied s' m ! i)"
proof -
  let ?d = "mm_applied s n ! i" and ?e = "mm_applied s' m ! i"
  have slots: "sl_slot ?d = int i + 1" "sl_slot ?e = int i + 1"
    using machine_invD(4)[OF inv, of n] machine_invD(4)[OF keptD(1)[OF k], of m] i unfolding applied_ok_def by blast+
  have "?d \<in> set (mm_applied s n)" "?e \<in> set (mm_applied s' m)" using i by simp_all
  then have d: "mp_decided (mm_cluster s) (int i + 1) (sl_proposal ?d) (sl_value ?d)" and e: "mp_decided (mm_cluster s') (int i + 1) (sl_proposal ?e) (sl_value ?e)"
    using applied_decided(2)[OF inv] applied_decided(2)[OF keptD(1)[OF k]] slots by metis+
  have "mp_evolves (mm_cluster s) (mm_cluster s')" using keptD(2)[OF k] by (simp add: machine_grows_def)
  from mp_decided_stable[OF this d] have "mp_decided (mm_cluster s') (int i + 1) (sl_proposal ?d) (sl_value ?d)" .
  from multi_agree[OF machine_invD(1)[OF keptD(1)[OF k]] this e] show ?thesis by (simp add: view_def slots)
qed

lemma comparable_views:
  assumes "kept s s'" and "machine_inv s"
  shows "prefix (map view (mm_applied s n)) (map view (mm_applied s' m)) \<or> prefix (map view (mm_applied s' m)) (map view (mm_applied s n))"
proof -
  let ?a = "map view (mm_applied s n)" and ?b = "map view (mm_applied s' m)"
  have agree: "?a ! i = ?b ! i" if "i < length ?a" "i < length ?b" for i using applied_view_agree[OF assms] that by simp
  show ?thesis
  proof (cases "length ?a \<le> length ?b")
    case True
    then have "?a = take (length ?a) ?b" using agree by (intro nth_equalityI) simp_all
    then show ?thesis by (metis take_is_prefix)
  next
    case False
    then have "?b = take (length ?b) ?a" using agree by (intro nth_equalityI) simp_all
    then show ?thesis by (metis take_is_prefix)
  qed
qed

section \<open>Exactly once\<close>

text \<open>The operations a list of decisions executes: every distinct request once, at its first slot.\<close>

fun executed :: "multi_request set \<Rightarrow> multi_command slot_learned list \<Rightarrow> multi_operation list" where
  "executed seen [] = []"
| "executed seen (d # ds) =
     (case sl_value d of
        ClientCommand r \<Rightarrow> if r \<in> seen then executed seen ds else mr_operation r # executed (insert r seen) ds
      | Bare operation \<Rightarrow> operation # executed seen ds
      | _ \<Rightarrow> executed seen ds)"

definition kv_after :: "multi_command slot_learned list \<Rightarrow> (string \<times> string) list" where
  "kv_after ds = fold apply_operation (executed {} ds) []"

lemma executed_snoc:
  "executed seen (ds @ [d]) = executed seen ds @
     executed (seen \<union> {r. \<exists>e \<in> set ds. sl_value e = ClientCommand r}) [d]"
proof (induction ds arbitrary: seen)
  case (Cons e ds)
  show ?case
  proof (cases "sl_value e")
    case (ClientCommand r)
    let ?later = "seen \<union> {r. \<exists>e \<in> set (e # ds). sl_value e = ClientCommand r}"
    show ?thesis
    proof (cases "r \<in> seen")
      case True
      have "seen \<union> {r. \<exists>e \<in> set ds. sl_value e = ClientCommand r} = ?later" using ClientCommand True by auto
      then have "executed seen (ds @ [d]) = executed seen ds @ executed ?later [d]" using Cons.IH[of seen] by (simp only:)
      moreover have "executed seen ((e # ds) @ [d]) = executed seen (ds @ [d])" "executed seen (e # ds) = executed seen ds"
        using ClientCommand True by simp_all
      ultimately show ?thesis by (simp only:)
    next
      case False
      have "insert r seen \<union> {r. \<exists>e \<in> set ds. sl_value e = ClientCommand r} = ?later" using ClientCommand by auto
      then have "executed (insert r seen) (ds @ [d]) = executed (insert r seen) ds @ executed ?later [d]" using Cons.IH[of "insert r seen"] by (simp only:)
      moreover have "executed seen ((e # ds) @ [d]) = mr_operation r # executed (insert r seen) (ds @ [d])"
        "executed seen (e # ds) = mr_operation r # executed (insert r seen) ds"
        using ClientCommand False by simp_all
      ultimately show ?thesis by (simp only: append_Cons)
    qed
  qed (use Cons.IH[of seen] in simp_all)
qed simp

text \<open>\<open>first_at ds i r\<close>: the first decision of \<open>ds\<close> that holds the request \<open>r\<close> is the one at \<open>i\<close>.\<close>

definition first_at :: "multi_command slot_learned list \<Rightarrow> nat \<Rightarrow> multi_request \<Rightarrow> bool" where
  "first_at ds i r \<longleftrightarrow> i < length ds \<and> sl_value (ds ! i) = ClientCommand r \<and> (\<forall>j < i. sl_value (ds ! j) \<noteq> ClientCommand r)"

lemma first_at_snoc: "first_at ds i r \<Longrightarrow> first_at (ds @ [d]) i r"
  unfolding first_at_def by (auto simp: nth_append)

definition entry_ok :: "multi_command slot_learned list \<Rightarrow> multi_request \<Rightarrow> applied_request \<Rightarrow> bool" where
  "entry_ok ds r a \<longleftrightarrow> ar_request a = r \<and> (\<exists>i. first_at ds i r \<and> ar_slot a = sl_slot (ds ! i) \<and>
     ar_result a = operation_result (mr_operation r) (kv_after (take i ds)))"

lemma entry_ok_snoc: "entry_ok ds r a \<Longrightarrow> entry_ok (ds @ [d]) r a"
proof -
  assume "entry_ok ds r a"
  then obtain i where i: "first_at ds i r" and a: "ar_request a = r" "ar_slot a = sl_slot (ds ! i)"
    "ar_result a = operation_result (mr_operation r) (kv_after (take i ds))" by (auto simp: entry_ok_def)
  have "i < length ds" using i by (simp add: first_at_def)
  then have "(ds @ [d]) ! i = ds ! i" "take i (ds @ [d]) = take i ds" by (simp_all add: nth_append)
  then show ?thesis unfolding entry_ok_def using first_at_snoc[OF i] a by (intro conjI exI[of _ i]) simp_all
qed

definition replayed :: "multi_command slot_learned list \<Rightarrow> machine_image \<Rightarrow> bool" where
  "replayed ds im \<longleftrightarrow> mi_kv im = kv_after ds \<and>
     (\<forall>(k, a) \<in> set (mi_requests im). k = identity (ar_request a) \<and> entry_ok ds (ar_request a) a) \<and>
     (\<forall>r. (\<exists>e \<in> set ds. sl_value e = ClientCommand r) \<longrightarrow> (\<exists>a. map_of (mi_requests im) (identity r) = Some a \<and> ar_request a = r))"

lemma kv_after_snoc:
  "kv_after (ds @ [d]) = (case sl_value d of
     ClientCommand r \<Rightarrow> if \<exists>e \<in> set ds. sl_value e = ClientCommand r then kv_after ds else apply_operation (mr_operation r) (kv_after ds)
   | command \<Rightarrow> apply_multipaxos_command command (kv_after ds))"
  by (cases "sl_value d") (simp_all add: kv_after_def executed_snoc)

lemma replayed_entries:
  "replayed ds im \<Longrightarrow> (k, a) \<in> set (mi_requests im) \<Longrightarrow> k = identity (ar_request a) \<and> entry_ok ds (ar_request a) a"
  unfolding replayed_def by blast

lemma replayed_step:
  assumes "replayed ds im" and step: "apply_decision d im = Inr im'"
  shows "replayed (ds @ [d]) im'"
proof (cases "sl_value d")
  case (ClientCommand r)
  note rep = assms(1)[unfolded replayed_def] and entries = replayed_entries[OF assms(1)]
  show ?thesis
  proof (cases "map_of (mi_requests im) (identity r)")
    case (Some a)
    have same: "im' = im" "ar_request a = r" using step ClientCommand Some by (auto simp: apply_decision_def split: if_splits)
    have "entry_ok ds r a" using entries[OF map_of_SomeD[OF Some]] same(2) by simp
    then obtain i where "first_at ds i r" by (auto simp: entry_ok_def)
    then have seen: "\<exists>e \<in> set ds. sl_value e = ClientCommand r" using nth_mem unfolding first_at_def by blast
    have "mi_kv im = kv_after (ds @ [d])" using rep ClientCommand seen by (simp add: kv_after_snoc)
    moreover have "\<forall>(k, a) \<in> set (mi_requests im). k = identity (ar_request a) \<and> entry_ok (ds @ [d]) (ar_request a) a"
      using entries entry_ok_snoc by blast
    moreover have "\<exists>a. map_of (mi_requests im) (identity q) = Some a \<and> ar_request a = q"
      if "\<exists>e \<in> set (ds @ [d]). sl_value e = ClientCommand q" for q
      using that rep ClientCommand Some same(2) by auto
    ultimately show ?thesis unfolding replayed_def same(1) by blast
  next
    case None
    let ?a = "\<lparr>ar_request = r, ar_slot = sl_slot d, ar_result = operation_result (mr_operation r) (mi_kv im)\<rparr>"
    have im': "mi_kv im' = apply_operation (mr_operation r) (mi_kv im)" "mi_requests im' = mi_requests im @ [(identity r, ?a)]"
      using step ClientCommand None by (auto simp: apply_decision_def split: if_splits)
    have new: "\<not> (\<exists>e \<in> set ds. sl_value e = ClientCommand r)" using rep None by auto
    have kv: "mi_kv im = kv_after ds" using rep by blast
    have "entry_ok (ds @ [d]) r ?a"
    proof -
      have "sl_value (ds ! j) \<noteq> ClientCommand r" if "j < length ds" for j using new nth_mem[OF that] by blast
      then have "first_at (ds @ [d]) (length ds) r" using ClientCommand by (simp add: first_at_def nth_append)
      moreover have "ar_slot ?a = sl_slot ((ds @ [d]) ! length ds)" by simp
      moreover have "ar_result ?a = operation_result (mr_operation r) (kv_after (take (length ds) (ds @ [d])))" by (simp add: kv)
      ultimately show ?thesis unfolding entry_ok_def by (metis applied_request.select_convs(1))
    qed
    then have "\<forall>(k, a) \<in> set (mi_requests im'). k = identity (ar_request a) \<and> entry_ok (ds @ [d]) (ar_request a) a"
      using entries entry_ok_snoc unfolding im'(2) by auto
    moreover have "mi_kv im' = kv_after (ds @ [d])" using ClientCommand new by (simp add: kv_after_snoc im' kv)
    moreover have "\<exists>a. map_of (mi_requests im') (identity q) = Some a \<and> ar_request a = q"
      if "\<exists>e \<in> set (ds @ [d]). sl_value e = ClientCommand q" for q
    proof (cases "q = r")
      case True
      then show ?thesis using None by (simp add: im'(2) map_add_Some_iff)
    next
      case False
      then have "\<exists>e \<in> set ds. sl_value e = ClientCommand q" using that ClientCommand by auto
      then obtain a where "map_of (mi_requests im) (identity q) = Some a" "ar_request a = q" using rep by blast
      then show ?thesis by (simp add: im'(2) map_add_Some_iff)
    qed
    ultimately show ?thesis unfolding replayed_def by blast
  qed
next
  case (Bare operation)
  then have "im' = im\<lparr>mi_kv := apply_operation operation (mi_kv im)\<rparr>" using step by (simp add: apply_decision_def)
  then show ?thesis using assms(1) Bare entry_ok_snoc unfolding replayed_def by (fastforce simp: kv_after_snoc)
next
  case NoOp
  then have "im' = im\<lparr>mi_kv := mi_kv im\<rparr>" using step by (simp add: apply_decision_def)
  then show ?thesis using assms(1) NoOp entry_ok_snoc unfolding replayed_def by (fastforce simp: kv_after_snoc)
next
  case (OtherValue x)
  then have "im' = im\<lparr>mi_kv := mi_kv im\<rparr>" using step by (simp add: apply_decision_def)
  then show ?thesis using assms(1) OtherValue entry_ok_snoc unfolding replayed_def by (fastforce simp: kv_after_snoc)
qed

lemma replay_replayed: "multi_replay ds = Inr im \<Longrightarrow> replayed ds im"
proof (induction ds arbitrary: im rule: rev_induct)
  case Nil
  then show ?case by (auto simp: multi_replay_def replayed_def kv_after_def empty_machine_def)
next
  case (snoc d ds)
  then obtain im0 where "multi_replay ds = Inr im0" "apply_decision d im0 = Inr im" by (auto simp: replay_append and_then_eq_Inr)
  then show ?case using snoc.IH replayed_step by blast
qed

end
