(* ===== verification/MultiPaxos_Service.thy ===== *)
theory MultiPaxos_Service
  imports MultiPaxos_Client MultiPaxos_Machine_Safety
begin

text \<open>
  The service on top of Multi-Paxos: what the machine and the client adapter promise. The client
  operations are shown to keep the machine's invariant; a completed request has one slot and one
  result, whichever nodes report it; what \<open>execute\<close> returns is backed by the node's durable prefix.
\<close>

section \<open>Reading the machine\<close>

lemma machine_image_loaded: "machine_inv s \<Longrightarrow> mm_loaded n s \<Longrightarrow> multi_replay (mm_applied s n) = Inr (mm_image s n)"
  using machine_invD(5)[of s n] by (auto simp: image_ok_def)

lemma mm_read:
  assumes inv: "machine_inv s" and n: "n \<in> set (mm_nodes s)" and live: "is_alive (mm_cluster s) n"
  shows "\<exists>im t. multi_replay (mm_applied s n) = Inr im \<and> kept s t \<and> mm_applied t = mm_applied s \<and>
    mm_state n s = Inr (mi_kv im, t) \<and> mm_client_requests n s = Inr (mi_requests im, t)"
proof -
  obtain t where t: "machine n s = Inr t" "kept s t" "mm_loaded n t" "mm_applied t = mm_applied s"
    using machine_loads[OF inv, of n] by (auto simp: outcome_Inr_iff)
  have "multi_replay (mm_applied s n) = Inr (mm_image t n)" using machine_image_loaded[OF keptD(1)[OF t(2)] t(3)] t(4) by simp
  moreover have "mm_require_alive n s = Inr ()" using n live by (simp add: mm_require_alive_def mm_require_node_def)
  ultimately show ?thesis using t by (intro exI[of _ "mm_image t n"] exI[of _ t]) (simp add: mm_state_def mm_client_requests_def)
qed

section \<open>The client operations keep the machine\<close>

lemma authorized_ok: "multi_inv c \<Longrightarrow> \<exists>live. authorized n expected c = Inr live"
  by (cases "is_alive c n \<and> has_leader_authority n c") (auto simp: authorized_def promised_ballot_ok)

lemma set_cluster_machine [simp]: "mc_machine (set_cluster c s) = (mc_machine s)\<lparr>mm_cluster := c\<rparr>"
  by (simp add: set_cluster_def)

lemma client_outcome_ok:
  assumes inv: "machine_inv (mc_machine s)"
  shows "outcome {} (\<lambda>(res, t). cr_status res = status \<and> cr_slot res = slot \<and> cr_value res = v \<and>
      kept (mc_machine s) (mc_machine t) \<and> mm_applied (mc_machine t) = mm_applied (mc_machine s))
    (client_outcome status n request slot v ballot s)"
proof -
  obtain live where "authorized n None (mc_cluster s) = Inr live" using authorized_ok machine_invD(1)[OF inv] by blast
  moreover have "kept (mc_machine s) ((mc_machine s)\<lparr>mm_cluster := record_app ev (mc_cluster s)\<rparr>)" for ev
    using kept_record[OF inv] by (simp add: mm_record_def)
  ultimately show ?thesis by (simp add: client_outcome_def Let_def)
qed

abbreviation client_kept :: "multi_client \<Rightarrow> client_result \<times> multi_client \<Rightarrow> bool" where
  "client_kept s \<equiv> \<lambda>(res, t). kept (mc_machine s) (mc_machine t)"

text \<open>What a completed (or applied) observation rests on.\<close>

definition evidence_of :: "string \<Rightarrow> multi_request \<Rightarrow> multi_client \<Rightarrow> client_result \<times> multi_client \<Rightarrow> bool" where
  "evidence_of n request s = (\<lambda>(res, t). cr_status res = COMPLETED \<or> cr_status res = APPLIED \<longrightarrow>
     (\<exists>im a. multi_replay (mm_applied (mc_machine t) n) = Inr im \<and> map_of (mi_requests im) (identity request) = Some a \<and>
        ar_request a = request \<and> cr_slot res = Some (ar_slot a) \<and> cr_value res = ar_result a))"

definition observed :: "string \<Rightarrow> multi_request \<Rightarrow> multi_client \<Rightarrow> client_result \<times> multi_client \<Rightarrow> bool" where
  "observed n request s x \<longleftrightarrow> client_kept s x \<and> evidence_of n request s x"

lemma client_outcome_observed:
  assumes k: "kept (mc_machine s) (mc_machine u)"
    and ev: "status = COMPLETED \<or> status = APPLIED \<Longrightarrow> (\<exists>im a. multi_replay (mm_applied (mc_machine u) n) = Inr im \<and>
        map_of (mi_requests im) (identity request) = Some a \<and> ar_request a = request \<and> slot = Some (ar_slot a) \<and> v = ar_result a)"
  shows "outcome UNIV (observed n request s) (client_outcome status n request slot v ballot u)"
proof (rule outcome_mono[OF client_outcome_ok[OF keptD(1)[OF k]]])
  fix x :: "client_result \<times> multi_client"
  assume x: "case x of (res, t) \<Rightarrow> cr_status res = status \<and> cr_slot res = slot \<and> cr_value res = v \<and>
      kept (mc_machine u) (mc_machine t) \<and> mm_applied (mc_machine t) = mm_applied (mc_machine u)"
  obtain res t where rt: "x = (res, t)" by (cases x)
  have "kept (mc_machine s) (mc_machine t)" using x kept_trans[OF k] by (simp add: rt)
  moreover have "evidence_of n request s x"
    unfolding evidence_of_def rt prod.case
  proof
    assume "cr_status res = COMPLETED \<or> cr_status res = APPLIED"
    then have "status = COMPLETED \<or> status = APPLIED" using x by (simp add: rt)
    from ev[OF this] show "\<exists>im a. multi_replay (mm_applied (mc_machine t) n) = Inr im \<and> map_of (mi_requests im) (identity request) = Some a \<and>
        ar_request a = request \<and> cr_slot res = Some (ar_slot a) \<and> cr_value res = ar_result a"
      using x by (simp add: rt)
  qed
  ultimately show "observed n request s x" by (simp add: observed_def rt)
qed simp

lemma observe_request_observed:
  assumes k: "kept (mc_machine s) (mc_machine u)" and n: "n \<in> set (mp_node_ids (mc_cluster u))" and live: "is_alive (mc_cluster u) n"
  shows "outcome UNIV (observed n request s) (observe_request n request ack u)"
proof -
  obtain im t where im: "multi_replay (mm_applied (mc_machine u) n) = Inr im" "kept (mc_machine u) t" "mm_applied t = mm_applied (mc_machine u)"
    "mm_client_requests n (mc_machine u) = Inr (mi_requests im, t)" using mm_read[OF keptD(1)[OF k] n live] by blast
  have kt: "kept (mc_machine s) t" by (rule kept_trans[OF k im(2)])
  have plain: "outcome UNIV (observed n request s) (client_outcome status n request slot v ballot (u\<lparr>mc_machine := t\<rparr>))"
    if "status \<noteq> COMPLETED" "status \<noteq> APPLIED" for status slot v ballot
    by (rule client_outcome_observed) (use kt that in simp_all)
  have complete: "outcome UNIV (observed n request s) (client_outcome status n request (Some (ar_slot a)) (ar_result a) ballot (u\<lparr>mc_machine := t, mc_journal := j\<rparr>))"
    if "map_of (mi_requests im) (identity request) = Some a" "ar_request a = request" for status a ballot j
    by (rule client_outcome_observed) (use kt that im(1,3) in auto)
  show ?thesis
  proof (cases "map_of (mi_requests im) (identity request)")
    case None
    then show ?thesis by (auto simp: observe_request_def im(4) Let_def split: list.split intro!: plain)
  next
    case (Some a)
    show ?thesis
    proof (cases "ar_request a = request")
      case True
      have body: "outcome UNIV (observed n request s) (if sl_value d \<noteq> ClientCommand request then Inl AssertionError
          else and_then J (\<lambda>j. client_outcome status n request (Some (ar_slot a)) (ar_result a) ballot (u\<lparr>mc_machine := t, mc_journal := j\<rparr>)))"
        for d J status ballot
        using outcome_any[of "\<lambda>j. outcome UNIV (observed n request s) (client_outcome status n request (Some (ar_slot a)) (ar_result a) ballot
          (u\<lparr>mc_machine := t, mc_journal := j\<rparr>))" J] complete[OF Some True] by simp
      have "outcome UNIV (observed n request s) (and_then A (\<lambda>applied. and_then (I applied) (\<lambda>d. if sl_value d \<noteq> ClientCommand request then Inl AssertionError
          else and_then J (\<lambda>j. client_outcome status n request (Some (ar_slot a)) (ar_result a) (B d) (u\<lparr>mc_machine := t, mc_journal := j\<rparr>)))))"
        for A :: "multi_command slot_learned list result" and I J status B
        unfolding outcome_and_then[of _ _ A] outcome_and_then[of _ _ "I _"] by (rule outcome_any, rule outcome_any, rule body)
      then show ?thesis by (simp add: observe_request_def im(4) Let_def Some True del: outcome_and_then)
    next
      case False
      then show ?thesis using plain[of CONFLICT] by (simp add: observe_request_def im(4) Let_def Some)
    qed
  qed
qed

lemma observed_start: "kept (mc_machine s) (mc_machine u) \<Longrightarrow> observed n request u x \<Longrightarrow> observed n request s x"
  using kept_trans unfolding observed_def evidence_of_def by (cases x) auto

lemma authorized_live: "authorized n expected c = Inr True \<Longrightarrow> is_alive c n"
  by (auto simp: authorized_def split: if_splits)

lemma apply_ready_live:
  assumes "machine_inv s" and "n \<in> set (mm_nodes s)" and "is_alive (mm_cluster s) n"
  shows "outcome {ClientRequestConflict} (\<lambda>(ds, t). kept s t \<and> is_alive (mm_cluster t) n) (apply_ready n s)"
  by (rule outcome_weaken[OF apply_ready_ok[OF assms]]) (use assms(3) in \<open>auto simp: is_alive_def\<close>)

lemma poll_observed:
  assumes inv: "machine_inv (mc_machine s)"
  shows "outcome UNIV (observed n request s) (poll n request expected apply_first ack s)"
proof -
  have plain: "outcome UNIV (observed n request s) (client_outcome status n request None None None s)"
    if "status \<noteq> COMPLETED" "status \<noteq> APPLIED" for status
    by (rule client_outcome_observed[OF kept_refl[OF inv]]) (use that in simp)
  have observe: "outcome UNIV (observed n request s)
      (and_then (if apply_first then and_then (apply_ready n (mc_machine s)) (\<lambda>(_, m). Inr (s\<lparr>mc_machine := m\<rparr>)) else Inr s)
        (observe_request n request ack))"
    if n: "n \<in> set (mp_node_ids (mc_cluster s))" and live: "is_alive (mc_cluster s) n"
  proof (cases apply_first)
    case True
    have "outcome UNIV (\<lambda>(ds, m). kept (mc_machine s) m \<and> is_alive (mm_cluster m) n) (apply_ready n (mc_machine s))"
      using apply_ready_live[OF inv n live] by (rule outcome_mono) simp_all
    then have "outcome UNIV (\<lambda>x. outcome UNIV (observed n request s) (observe_request n request ack (s\<lparr>mc_machine := snd x\<rparr>))) (apply_ready n (mc_machine s))"
    proof (rule outcome_weaken)
      fix x assume x: "case x of (ds, m) \<Rightarrow> kept (mc_machine s) m \<and> is_alive (mm_cluster m) n"
      obtain ds m where dm: "x = (ds, m)" by (cases x)
      have "mp_node_ids (mm_cluster m) = mp_node_ids (mc_cluster s)" using x keptD(2) by (auto simp: dm machine_grows_def mp_evolves_def)
      then show "outcome UNIV (observed n request s) (observe_request n request ack (s\<lparr>mc_machine := snd x\<rparr>))"
        using x n by (intro observe_request_observed) (simp_all add: dm)
    qed
    then show ?thesis using True by (simp add: case_prod_beta)
  next
    case False
    then show ?thesis using observe_request_observed[OF kept_refl[OF inv] n live] by simp
  qed
  show ?thesis
  proof (cases "authorized n expected (mc_cluster s)")
    case (Inr ok)
    then show ?thesis using plain observe authorized_live[of n expected "mc_cluster s"]
      by (auto simp: poll_def Inr split: sum.split simp del: outcome_and_then)
  qed (simp add: poll_def)
qed

lemma kept_op:
  assumes inv: "machine_inv s" and g: "outcome E (mgood (mm_cluster s)) m" and t: "outcome UNIV (traced (mm_cluster s)) m"
    and c: "outcome UNIV (mcalm 5 (mm_cluster s)) m"
  shows "outcome UNIV (\<lambda>c. kept s (s\<lparr>mm_cluster := c\<rparr>)) m"
proof (rule outcome_mono[OF outcome_and[OF outcome_and[OF g t] c]])
  fix x assume x: "(mgood (mm_cluster s) x \<and> traced (mm_cluster s) x) \<and> mcalm 5 (mm_cluster s) x"
  show "kept s (s\<lparr>mm_cluster := x\<rparr>)"
    by (rule kept_cluster[OF inv]) (use x in \<open>simp_all add: mgood_def traced_def mcalm_def\<close>)
qed simp

lemma propose_kept: "machine_inv s \<Longrightarrow> outcome UNIV (\<lambda>c. kept s (s\<lparr>mm_cluster := c\<rparr>)) (propose n k v (mm_cluster s))"
  by (rule kept_op[OF _ propose_good propose_traced propose_calm]) (simp_all add: machine_invD)

lemma retry_proposal_kept: "machine_inv s \<Longrightarrow> outcome UNIV (\<lambda>c. kept s (s\<lparr>mm_cluster := c\<rparr>)) (retry_proposal n k (mm_cluster s))"
  by (rule kept_op[OF _ retry_proposal_good retry_proposal_traced retry_proposal_calm]) (simp_all add: machine_invD)

lemma propose_request_observed:
  assumes "kept (mc_machine s) (mc_machine u)"
  shows "outcome UNIV (observed n request s) (propose_request n request slot u)"
proof -
  note inv = keptD(1)[OF assms]
  have after: "outcome UNIV (\<lambda>c. outcome UNIV (observed n request s) (client_outcome status n request k None None (set_cluster c u))) m"
    if "outcome UNIV (\<lambda>c. kept (mc_machine u) ((mc_machine u)\<lparr>mm_cluster := c\<rparr>)) m" "status \<noteq> COMPLETED" "status \<noteq> APPLIED" for m status k
    using that(1) by (rule outcome_weaken) (intro client_outcome_observed, use that kept_trans[OF assms] in simp_all)
  have plain: "outcome UNIV (observed n request s) (client_outcome PENDING n request k None None u)" for k
    by (rule client_outcome_observed[OF assms]) simp
  show ?thesis
    using after[OF propose_kept[OF inv]] after[OF retry_proposal_kept[OF inv]] plain
    by (auto simp: propose_request_def Let_def split: list.split)
qed

lemma submit_observed:
  assumes inv: "machine_inv (mc_machine s)"
  shows "outcome UNIV (observed n request s) (submit n request slot s)"
proof -
  have j: "outcome UNIV (observed n request s) (client_outcome status n request None None None (s\<lparr>mc_journal := j\<rparr>))"
    if "status \<noteq> COMPLETED" "status \<noteq> APPLIED" for status j
    by (rule client_outcome_observed) (use kept_refl[OF inv] that in simp_all)
  have submitted: "outcome UNIV (observed n request s) (and_then (poll n request None False False (s\<lparr>mc_journal := j\<rparr>)) (\<lambda>(seen, s2).
      if cr_status seen = APPLIED \<or> cr_status seen = CHOSEN then Inr (seen, s2) else propose_request n request slot s2))" for j
    unfolding outcome_and_then
  proof (rule outcome_weaken)
    show "outcome UNIV (observed n request (s\<lparr>mc_journal := j\<rparr>)) (poll n request None False False (s\<lparr>mc_journal := j\<rparr>))"
      by (rule poll_observed) (simp add: inv)
    fix x assume x: "observed n request (s\<lparr>mc_journal := j\<rparr>) x"
    have "observed n request s x" by (rule observed_start[OF _ x]) (simp add: kept_refl[OF inv])
    then show "outcome UNIV (observed n request s) (case x of (seen, s2) \<Rightarrow>
        if cr_status seen = APPLIED \<or> cr_status seen = CHOSEN then Inr (seen, s2) else propose_request n request slot s2)"
      using propose_request_observed by (auto simp: observed_def)
  qed
  have "outcome UNIV (observed n request s) (and_then (authorized n None (mc_cluster s)) (\<lambda>ok.
      if \<not> ok then client_outcome LEADERSHIP_UNAVAILABLE n request None None None (s\<lparr>mc_journal := j\<rparr>)
      else and_then (poll n request None False False (s\<lparr>mc_journal := j\<rparr>)) (\<lambda>(seen, s2).
        if cr_status seen = APPLIED \<or> cr_status seen = CHOSEN then Inr (seen, s2) else propose_request n request slot s2)))" for j
    unfolding outcome_and_then[of _ _ "authorized _ _ _"] by (rule outcome_any) (simp add: j submitted del: outcome_and_then)
  moreover have "outcome UNIV (observed n request s) (client_outcome CONFLICT n request None None None s)"
    by (rule client_outcome_observed[OF kept_refl[OF inv]]) simp
  ultimately show ?thesis using j
    by (auto simp: submit_def Let_def simp del: outcome_and_then split: sum.split option.split)
qed

lemma repair_prefix_kept:
  assumes inv: "machine_inv (mc_machine s)"
  shows "outcome UNIV (\<lambda>t. kept (mc_machine s) (mc_machine t)) (repair_prefix n s)"
proof -
  have loop: "outcome UNIV (\<lambda>c. kept (mc_machine s) ((mc_machine s)\<lparr>mm_cluster := c\<rparr>)) (for_each (repair_slot n open_slots) ks (mc_cluster s))" for open_slots ks
  proof (rule outcome_for_each)
    show "kept (mc_machine s) ((mc_machine s)\<lparr>mm_cluster := mc_cluster s\<rparr>)" using kept_refl[OF inv] by simp
  next
    fix k c assume c: "kept (mc_machine s) ((mc_machine s)\<lparr>mm_cluster := c\<rparr>)"
    have step: "outcome UNIV (\<lambda>c'. kept (mc_machine s) ((mc_machine s)\<lparr>mm_cluster := c'\<rparr>)) m"
      if "outcome UNIV (\<lambda>c'. kept ((mc_machine s)\<lparr>mm_cluster := c\<rparr>) ((mc_machine s)\<lparr>mm_cluster := c\<rparr>\<lparr>mm_cluster := c'\<rparr>)) m" for m
      using that by (rule outcome_weaken) (use kept_trans[OF c] in simp)
    show "outcome UNIV (\<lambda>c. kept (mc_machine s) ((mc_machine s)\<lparr>mm_cluster := c\<rparr>)) (repair_slot n open_slots k c)"
      using step[OF propose_kept[OF keptD(1)[OF c]]] step[OF retry_proposal_kept[OF keptD(1)[OF c]]] c
      by (simp add: repair_slot_def)
  qed
  have "outcome UNIV (\<lambda>l. outcome UNIV (\<lambda>t. kept (mc_machine s) (mc_machine t)) (let start = l + 1; stop = min (high_water n (mc_cluster s) + 1) (start + 16);
      open_slots = fst ` set (pending_proposals n (mc_cluster s))
      in and_then (for_each (repair_slot n open_slots) [start..stop - 1] (mc_cluster s)) (\<lambda>c. Inr (set_cluster c s)))) (mm_last_applied n (mc_machine s))"
    by (rule outcome_any) (simp add: Let_def loop)
  then have "outcome UNIV (\<lambda>t. kept (mc_machine s) (mc_machine t)) (if \<not> ok then Inr s else and_then (mm_last_applied n (mc_machine s)) (\<lambda>l.
      let start = l + 1; stop = min (high_water n (mc_cluster s) + 1) (start + 16); open_slots = fst ` set (pending_proposals n (mc_cluster s))
      in and_then (for_each (repair_slot n open_slots) [start..stop - 1] (mc_cluster s)) (\<lambda>c. Inr (set_cluster c s))))" for ok
    using kept_refl[OF inv] by (simp only: outcome_and_then[of _ _ "mm_last_applied _ _"] outcome_simps split: if_split) simp
  then show ?thesis unfolding repair_prefix_def outcome_and_then[of _ _ "authorized _ _ _"] by (rule outcome_any)
qed

lemma apply_everywhere_kept:
  assumes inv: "machine_inv (mc_machine s)"
  shows "outcome UNIV (\<lambda>t. kept (mc_machine s) (mc_machine t)) (apply_everywhere s)"
  unfolding apply_everywhere_def
proof (rule outcome_for_each)
  show "kept (mc_machine s) (mc_machine s)" by (rule kept_refl[OF inv])
next
  fix peer and t :: multi_client
  assume peer: "peer \<in> set (mp_node_ids (mc_cluster s))" and t: "kept (mc_machine s) (mc_machine t)"
  have ids: "peer \<in> set (mp_node_ids (mc_cluster t))" using peer keptD(2)[OF t] by (simp add: machine_grows_def mp_evolves_def)
  show "outcome UNIV (\<lambda>t. kept (mc_machine s) (mc_machine t)) (if is_alive (mc_cluster t) peer
      then and_then (apply_ready peer (mc_machine t)) (\<lambda>(_, m). Inr (t\<lparr>mc_machine := m\<rparr>)) else Inr t)"
  proof (cases "is_alive (mc_cluster t) peer")
    case True
    from outcome_mono[OF apply_ready_ok[OF keptD(1)[OF t] ids True], of "\<lambda>x. kept (mc_machine s) (snd x)" UNIV] show ?thesis
      using True kept_trans[OF t] by (simp add: case_prod_beta)
  qed (use t in simp)
qed

section \<open>Running and executing\<close>

lemma cluster_steps: "multipaxos_step\<^sup>*\<^sup>* (mm_cluster s) c \<Longrightarrow> machine_step\<^sup>*\<^sup>* s (s\<lparr>mm_cluster := c\<rparr>)"
proof (induction rule: rtranclp_induct)
  case (step c d)
  have "machine_step (s\<lparr>mm_cluster := c\<rparr>) (s\<lparr>mm_cluster := c\<rparr>\<lparr>mm_cluster := d\<rparr>)" by (rule machine_step.cluster) (simp add: step(2))
  then show ?case using step(3) by simp
qed simp

lemma run_kept:
  assumes inv: "machine_inv s"
  shows "\<exists>r. sim_run multipaxos_callbacks (Some k) (mm_cluster s) = Some r \<and> outcome UNIV (\<lambda>(_, c). kept s (s\<lparr>mm_cluster := c\<rparr>)) r"
proof (cases "k < 0")
  case False
  obtain r where r: "run_loop multipaxos_callbacks (Some k) 0 (mm_cluster s) = Some r"
    using mp_quiet.run_loop_returns[OF machine_invD(3)[OF inv]] by blast
  have "outcome UNIV (\<lambda>(_, c). kept s (s\<lparr>mm_cluster := c\<rparr>)) r"
  proof (cases r)
    case (Inr x)
    obtain i c where x: "x = (i, c)" by (cases x)
    have "multipaxos_step\<^sup>*\<^sup>* (mm_cluster s) c"
      by (rule multi_network_steps[OF run_loop_steps]) (use r Inr x in simp)
    from kept_steps[OF cluster_steps[OF this] inv] show ?thesis by (simp add: Inr x)
  qed simp
  then show ?thesis using False r by (simp add: sim_run_def)
qed (simp add: sim_run_def)

lemma pump_round_observed:
  assumes inv: "machine_inv (mc_machine s)"
  shows "\<exists>r. pump_round n request events s = Some r \<and> outcome UNIV (observed n request s) r"
proof (cases "repair_prefix n s")
  case (Inr s1)
  have k1: "kept (mc_machine s) (mc_machine s1)" using repair_prefix_kept[OF inv, of n] Inr by simp
  obtain r where r: "sim_run multipaxos_callbacks (Some events) (mc_cluster s1) = Some r"
    "outcome UNIV (\<lambda>(_, c). kept (mc_machine s1) ((mc_machine s1)\<lparr>mm_cluster := c\<rparr>)) r" using run_kept[OF keptD(1)[OF k1]] by blast
  show ?thesis
  proof (cases r)
    case (Inr x)
    obtain i c where x: "x = (i, c)" by (cases x)
    let ?s2 = "set_cluster c s1"
    have k2: "kept (mc_machine s) (mc_machine ?s2)" using kept_trans[OF k1] r(2) by (simp add: Inr x)
    have "outcome UNIV (observed n request s) (and_then (apply_everywhere ?s2) (poll n request None True True))"
      unfolding outcome_and_then
    proof (rule outcome_weaken[OF apply_everywhere_kept[OF keptD(1)[OF k2]]])
      fix t :: multi_client
      assume "kept (mc_machine ?s2) (mc_machine t)"
      then have t: "kept (mc_machine s) (mc_machine t)" by (rule kept_trans[OF k2])
      show "outcome UNIV (observed n request s) (poll n request None True True t)"
        by (rule outcome_weaken[OF poll_observed[OF keptD(1)[OF t]]]) (rule observed_start[OF t])
    qed
    then show ?thesis using \<open>repair_prefix n s = Inr s1\<close> r(1) Inr x by (simp add: pump_round_def)
  qed (use Inr r(1) in \<open>simp add: pump_round_def\<close>)
qed (simp add: pump_round_def)

text \<open>A report of \<open>execute\<close>: never one of the two transient statuses, and backed by evidence.\<close>

definition reported :: "string \<Rightarrow> multi_request \<Rightarrow> multi_client \<Rightarrow> client_result \<times> multi_client \<Rightarrow> bool" where
  "reported n request s x \<longleftrightarrow> observed n request s x \<and> cr_status (fst x) \<noteq> SUBMITTED \<and> cr_status (fst x) \<noteq> PENDING"

lemma client_outcome_reported:
  assumes "kept (mc_machine s) (mc_machine u)"
  shows "outcome UNIV (reported n request s) (client_outcome QUORUM_UNAVAILABLE n request slot None None u)"
proof -
  have "outcome UNIV (observed n request s) (client_outcome QUORUM_UNAVAILABLE n request slot None None u)"
    by (rule client_outcome_observed[OF assms]) simp
  moreover have "outcome UNIV (\<lambda>x. cr_status (fst x) = QUORUM_UNAVAILABLE) (client_outcome QUORUM_UNAVAILABLE n request slot None None u)"
    by (rule outcome_mono[OF client_outcome_ok[OF keptD(1)[OF assms]]]) auto
  ultimately show ?thesis by (rule outcome_mono[OF outcome_and]) (auto simp: reported_def)
qed

lemma execute_rounds_reported:
  assumes "observed n request s start"
  shows "\<exists>r. execute_rounds rounds n request events start = Some r \<and> outcome UNIV (reported n request s) r"
  using assms
proof (induction rounds arbitrary: start)
  case 0
  obtain res u where start: "start = (res, u)" by (cases start)
  have "kept (mc_machine s) (mc_machine u)" using 0 by (simp add: observed_def start)
  from client_outcome_reported[OF this] show ?case using 0 by (auto simp: start) (simp add: reported_def)
next
  case (Suc rounds)
  obtain res u where start: "start = (res, u)" by (cases start)
  have u: "kept (mc_machine s) (mc_machine u)" using Suc.prems by (simp add: start observed_def)
  obtain r where r: "pump_round n request events u = Some r" "outcome UNIV (observed n request u) r"
    using pump_round_observed[OF keptD(1)[OF u]] by blast
  show ?case
  proof (cases r)
    case (Inl e)
    then show ?thesis using r Suc.prems by (auto simp: start reported_def)
  next
    case (Inr x)
    obtain polled t where x: "x = (polled, t)" by (cases x)
    have o: "observed n request s x" using observed_start[OF u] r(2) by (simp add: Inr)
    then have t: "kept (mc_machine s) (mc_machine t)" by (simp add: observed_def x)
    show ?thesis
    proof (cases "submit n request None t")
      case (Inl e)
      then show ?thesis using r \<open>r = Inr x\<close> x Suc.prems o by (auto simp: start reported_def)
    next
      case (Inr later)
      have "observed n request s later"
        using observed_start[OF t] submit_observed[OF keptD(1)[OF t], of n request None] Inr by simp
      from Suc.IH[OF this] show ?thesis using r \<open>r = Inr x\<close> x Suc.prems o Inr by (auto simp: start reported_def)
    qed
  qed
qed

lemma execute_reported:
  assumes inv: "machine_inv (mc_machine s)"
  shows "\<exists>r. execute n request max_rounds events s = Some r \<and> outcome UNIV (reported n request s) r"
proof (cases "submit n request None s")
  case (Inr start)
  have "observed n request s start" using submit_observed[OF inv, of n request None] Inr by simp
  from execute_rounds_reported[OF this] show ?thesis by (simp add: execute_def Inr)
qed (simp add: execute_def)

text \<open>A node without leader authority is not asked to do anything.\<close>

lemma execute_unauthorized:
  assumes "0 < max_rounds" and "0 < events" and "n \<in> set (mp_node_ids (mc_cluster s))"
    and "journal_register request (mc_journal s) = Inr j" and "check_local_identity n request (mc_cluster s) = Inr ()"
    and auth: "authorized n None (mc_cluster s) = Inr False"
  shows "\<exists>res t. execute n request max_rounds events s = Some (Inr (res, t)) \<and> cr_status res = LEADERSHIP_UNAVAILABLE \<and>
    cr_value res = None \<and> mc_journal t = j \<and> mm_applied (mc_machine t) = mm_applied (mc_machine s) \<and>
    persistent_state (mc_cluster t) = persistent_state (mc_cluster s) \<and> sim_queue (mc_cluster t) = sim_queue (mc_cluster s)"
proof -
  obtain rounds where rounds: "nat max_rounds = Suc rounds" using assms(1) by (metis gr0_implies_Suc zero_less_nat_eq)
  have "\<exists>res t. submit n request None s = Inr (res, t) \<and> cr_status res = LEADERSHIP_UNAVAILABLE \<and>
    cr_value res = None \<and> mc_journal t = j \<and> mm_applied (mc_machine t) = mm_applied (mc_machine s) \<and>
    persistent_state (mc_cluster t) = persistent_state (mc_cluster s) \<and> sim_queue (mc_cluster t) = sim_queue (mc_cluster s)"
    using assms by (simp add: submit_def Let_def client_outcome_def set_cluster_def record_event_def)
  then show ?thesis using assms(1,2) by (auto simp: execute_def rounds)
qed

section \<open>One result per request\<close>

lemma evidence_unique:
  assumes k: "kept s s'" and inv: "machine_inv s"
    and a: "multi_replay (mm_applied s n) = Inr im" "map_of (mi_requests im) i = Some a"
    and b: "multi_replay (mm_applied s' m) = Inr im'" "map_of (mi_requests im') i = Some b"
  shows "a = b"
proof -
  have same: "a = b"
    if p: "prefix (map view ds) (map view es)" and ds: "multi_replay ds = Inr i1" "map_of (mi_requests i1) i = Some a"
      and es: "multi_replay es = Inr i2" "map_of (mi_requests i2) i = Some b" for ds es i1 i2 a b
  proof -
    have "map view ds = map view (take (length ds) es)" using p by (metis length_map prefix_def append_eq_conv_conj take_map)
    then have "multi_replay (take (length ds) es) = Inr i1" using replay_view ds(1) by metis
    moreover obtain i0 where "multi_replay (take (length ds) es) = Inr i0" "\<forall>k r. map_of (mi_requests i0) k = Some r \<longrightarrow> map_of (mi_requests i2) k = Some r"
      using replay_prefix[OF take_is_prefix es(1)] by blast
    ultimately have "map_of (mi_requests i2) i = Some a" using ds(2) by (cases i) auto
    then show ?thesis using es(2) by simp
  qed
  from comparable_views[OF k inv, of n m] show ?thesis
    using same[OF _ a b] same[OF _ b a] by blast
qed

section \<open>Reachable client states\<close>

inductive client_step :: "multi_client \<Rightarrow> multi_client \<Rightarrow> bool" where
  machine: "machine_step (mc_machine s) m \<Longrightarrow> client_step s (s\<lparr>mc_machine := m\<rparr>)"
| submit: "submit n request slot s = Inr (res, t) \<Longrightarrow> client_step s t"
| poll: "poll n request expected apply_first acknowledge s = Inr (res, t) \<Longrightarrow> client_step s t"
| execute: "execute n request max_rounds events s = Some (Inr (res, t)) \<Longrightarrow> client_step s t"

definition client_reachable :: "multi_client \<Rightarrow> bool" where
  "client_reachable s \<longleftrightarrow> (\<exists>s0. machine_start (mc_machine s0) \<and> mc_journal s0 = ClientJournal \<and> client_step\<^sup>*\<^sup>* s0 s)"

lemma client_step_kept: "client_step s t \<Longrightarrow> machine_inv (mc_machine s) \<Longrightarrow> kept (mc_machine s) (mc_machine t)"
proof (induction rule: client_step.induct)
  case (machine s m)
  then show ?case using kept_step by simp
next
  case (submit n request slot s res t)
  then show ?case using submit_observed[of s n request slot] by (simp add: observed_def)
next
  case (poll n request expected apply_first acknowledge s res t)
  then show ?case using poll_observed[of s n request expected apply_first acknowledge] by (simp add: observed_def)
next
  case (execute n request max_rounds events s res t)
  then show ?case using execute_reported[of s n request max_rounds events] by (auto simp: reported_def observed_def)
qed

lemma client_steps_kept: "client_step\<^sup>*\<^sup>* s t \<Longrightarrow> machine_inv (mc_machine s) \<Longrightarrow> kept (mc_machine s) (mc_machine t)"
proof (induction rule: rtranclp_induct)
  case base
  then show ?case by (rule kept_refl)
next
  case (step y z)
  then show ?case using kept_trans client_step_kept keptD(1) by blast
qed

lemma client_reachable_inv: "client_reachable s \<Longrightarrow> machine_inv (mc_machine s)"
  unfolding client_reachable_def using machine_start_inv client_steps_kept keptD(1) by blast

lemma client_reachable_steps: "client_reachable s \<Longrightarrow> client_step\<^sup>*\<^sup>* s t \<Longrightarrow> client_reachable t"
  unfolding client_reachable_def by (meson rtranclp_trans)

section \<open>Example run\<close>

text \<open>In a cluster of two, \<open>a\<close> leads and decides an append request at slot 1.\<close>

definition svc_request :: multi_request where
  "svc_request = \<lparr>mr_client = ''c'', mr_id = 1, mr_operation_id = ''o'', mr_operation = Append ''x'' ''1''\<rparr>"

definition svc_cluster :: "multi_command multipaxos" where
  "svc_cluster = projr (MultiPaxosCluster (sim_init [] (\<lambda>_. '''') (\<lambda>_. fresh_multi)) [''a'', ''b''] True)"

definition svc_start :: multi_machine where
  "svc_start = projr (MultiPaxosStateMachine
     \<lparr>mm_cluster = svc_cluster, mm_applied = (\<lambda>_. []), mm_image = (\<lambda>_. empty_machine), mm_through = (\<lambda>_. 0)\<rparr>)"

definition run_of :: "multi_command multipaxos \<Rightarrow> multi_command multipaxos" where
  "run_of c = snd (projr (the (sim_run multipaxos_callbacks None c)))"

definition svc_leading :: "multi_command multipaxos" where
  "svc_leading = run_of (snd (projr (prepare_leadership ''a'' None svc_cluster)))"

definition svc_first :: "multi_command multipaxos" where
  "svc_first = run_of (projr (propose ''a'' 1 (ClientCommand svc_request) svc_leading))"

definition svc_decided :: multi_machine where
  "svc_decided = svc_start\<lparr>mm_cluster := svc_first\<rparr>"

definition svc_applied :: multi_machine where
  "svc_applied = snd (projr (apply_ready ''a'' svc_decided))"

definition svc_replica :: multi_machine where
  "svc_replica = snd (projr (apply_ready ''b'' svc_applied))"

definition runs :: "multi_command multipaxos \<Rightarrow> bool" where
  "runs c = (case sim_run multipaxos_callbacks None c of Some (Inr _) \<Rightarrow> True | _ \<Rightarrow> False)"

lemma svc_ok:
  "\<not> isl (MultiPaxosCluster (sim_init [] (\<lambda>_. '''') (\<lambda>_. fresh_multi) ::
      (multi_command multi_msg, multi_command multi_event, multi_command multi_durable, unit) simulator) [''a'', ''b''] True)"
  "\<not> isl (MultiPaxosStateMachine \<lparr>mm_cluster = svc_cluster, mm_applied = (\<lambda>_. []), mm_image = (\<lambda>_. empty_machine), mm_through = (\<lambda>_. 0)\<rparr>)"
  "\<not> isl (prepare_leadership ''a'' None svc_cluster)" "runs (snd (projr (prepare_leadership ''a'' None svc_cluster)))"
  "\<not> isl (propose ''a'' 1 (ClientCommand svc_request) svc_leading)" "runs (projr (propose ''a'' 1 (ClientCommand svc_request) svc_leading))"
  by code_simp+

lemma svc_applied_ok: "\<not> isl (apply_ready ''a'' svc_decided)" "\<not> isl (apply_ready ''b'' svc_applied)"
  by code_simp+

lemma svc_ids: "mp_node_ids svc_cluster = [''a'', ''b'']" "mp_node_ids svc_leading = [''a'', ''b'']"
  by code_simp+

lemma svc_values:
  "map sl_value (mm_applied svc_replica ''a'') = [ClientCommand svc_request]"
  "map sl_value (mm_applied svc_replica ''b'') = [ClientCommand svc_request]"
  "mi_kv (mm_image svc_replica ''b'') = [(''x'', ''1'')]"
  by code_simp+

lemma svc_b: "''b'' \<in> set (mm_nodes svc_applied)" "is_alive (mm_cluster svc_applied) ''b''"
  by code_simp+

lemma svc_lengths: "length (mm_applied svc_applied ''a'') = 1" "length (mm_applied svc_replica ''b'') = 1"
  by code_simp+

lemma runs_steps: "runs c \<Longrightarrow> multipaxos_step\<^sup>*\<^sup>* c (run_of c)"
  unfolding runs_def run_of_def
proof -
  assume r: "case sim_run multipaxos_callbacks None c of Some (Inr _) \<Rightarrow> True | _ \<Rightarrow> False"
  obtain n c' where run: "run_loop multipaxos_callbacks None 0 c = Some (Inr (n, c'))"
    using r by (cases "sim_run multipaxos_callbacks None c") (auto simp: sim_run_def split: sum.splits)
  from multi_network_steps[OF run_loop_steps[OF run]] show "multipaxos_step\<^sup>*\<^sup>* c (snd (projr (the (sim_run multipaxos_callbacks None c))))"
    by (simp add: sim_run_def run)
qed

lemma svc_steps: "multipaxos_step\<^sup>*\<^sup>* svc_cluster svc_first"
proof -
  have "prepare_leadership ''a'' None svc_cluster = Inr (fst (projr (prepare_leadership ''a'' None svc_cluster)),
      snd (projr (prepare_leadership ''a'' None svc_cluster)))" using svc_ok(3) by simp
  from multipaxos_step.prepare[OF _ this] have 1: "multipaxos_step svc_cluster (snd (projr (prepare_leadership ''a'' None svc_cluster)))"
    by (simp add: svc_ids)
  have "propose ''a'' 1 (ClientCommand svc_request) svc_leading = Inr (projr (propose ''a'' 1 (ClientCommand svc_request) svc_leading))"
    using svc_ok(5) by simp
  from multipaxos_step.propose[OF _ this] have 2: "multipaxos_step svc_leading (projr (propose ''a'' 1 (ClientCommand svc_request) svc_leading))"
    by (simp add: svc_ids)
  have "multipaxos_step\<^sup>*\<^sup>* svc_cluster svc_leading" unfolding svc_leading_def by (rule converse_rtranclp_into_rtranclp[OF 1 runs_steps[OF svc_ok(4)]])
  also have "multipaxos_step\<^sup>*\<^sup>* svc_leading svc_first" unfolding svc_first_def by (rule converse_rtranclp_into_rtranclp[OF 2 runs_steps[OF svc_ok(6)]])
  finally show ?thesis .
qed

lemma svc_reachable: "machine_start svc_start" "machine_step\<^sup>*\<^sup>* svc_start svc_applied" "machine_reachable svc_applied" "machine_step\<^sup>*\<^sup>* svc_applied svc_replica"
proof -
  have c: "MultiPaxosCluster (sim_init [] (\<lambda>_. '''') (\<lambda>_. fresh_multi)) [''a'', ''b''] True = Inr svc_cluster"
    unfolding svc_cluster_def using svc_ok(1) by simp
  have m: "MultiPaxosStateMachine \<lparr>mm_cluster = svc_cluster, mm_applied = (\<lambda>_. []), mm_image = (\<lambda>_. empty_machine), mm_through = (\<lambda>_. 0)\<rparr> = Inr svc_start"
    unfolding svc_start_def using svc_ok(2) by simp
  then have "svc_start = \<lparr>mm_cluster = svc_cluster, mm_applied = (\<lambda>_. []), mm_image = (\<lambda>_. empty_machine), mm_through = (\<lambda>_. 0)\<rparr>"
    unfolding MultiPaxosStateMachine_def and_then_eq_Inr by (metis sum.inject(2) sum.distinct(1) and_then_eq_Inr)
  then have "mm_cluster svc_start = svc_cluster" by (rule ssubst) (rule multi_machine.select_convs(1))
  show start: "machine_start svc_start" using c m unfolding machine_start_def by blast
  have "machine_step\<^sup>*\<^sup>* svc_start svc_decided"
    unfolding svc_decided_def by (rule cluster_steps) (simp add: \<open>mm_cluster svc_start = svc_cluster\<close> svc_steps)
  moreover
  have "apply_ready ''a'' svc_decided = Inr (fst (projr (apply_ready ''a'' svc_decided)), svc_applied)"
    unfolding svc_applied_def using svc_applied_ok(1) by simp
  from machine_step.ready[OF this] have "machine_step svc_decided svc_applied" .
  ultimately show d: "machine_step\<^sup>*\<^sup>* svc_start svc_applied" by (rule rtranclp.rtrancl_into_rtrancl)
  show "machine_reachable svc_applied" unfolding machine_reachable_def using start d by blast
  have "apply_ready ''b'' svc_applied = Inr (fst (projr (apply_ready ''b'' svc_applied)), svc_replica)"
    unfolding svc_replica_def using svc_applied_ok(2) by simp
  from machine_step.ready[OF this] show "machine_step\<^sup>*\<^sup>* svc_applied svc_replica" by blast
qed

definition svc_client :: multi_client where
  "svc_client = \<lparr>mc_machine = svc_applied, mc_journal = ClientJournal\<rparr>"

definition svc_submitted :: "client_result \<times> multi_client" where
  "svc_submitted = projr (submit ''a'' svc_request None svc_client)"

definition svc_polled :: "client_result \<times> multi_client" where
  "svc_polled = projr (poll ''a'' svc_request None True True (snd svc_submitted))"

definition svc_again :: "client_result \<times> multi_client" where
  "svc_again = projr (poll ''a'' svc_request None False False (snd svc_polled))"

lemma svc_submitted_ok: "\<not> isl (submit ''a'' svc_request None svc_client)"
  by code_simp

lemma svc_polled_ok: "\<not> isl (poll ''a'' svc_request None True True (snd svc_submitted))"
  by code_simp

lemma svc_polled_result: "cr_status (fst svc_polled) = COMPLETED" "cr_slot (fst svc_polled) = Some 1"
  by code_simp+

lemma svc_again_ok: "\<not> isl (poll ''a'' svc_request None False False (snd svc_polled))"
  by code_simp

lemma svc_again_result: "cr_status (fst svc_again) = APPLIED"
  by code_simp

lemma svc_client_reachable: "client_reachable svc_client" "client_reachable (snd svc_submitted)"
proof -
  have "client_step\<^sup>*\<^sup>* \<lparr>mc_machine = svc_start, mc_journal = ClientJournal\<rparr> \<lparr>mc_machine = m, mc_journal = ClientJournal\<rparr>"
    if "machine_step\<^sup>*\<^sup>* svc_start m" for m
    using that
  proof (induction rule: rtranclp_induct)
    case (step y z)
    have "client_step \<lparr>mc_machine = y, mc_journal = ClientJournal\<rparr> (\<lparr>mc_machine = y, mc_journal = ClientJournal\<rparr>\<lparr>mc_machine := z\<rparr>)"
      by (rule client_step.machine) (simp add: step(2))
    then show ?case using step(3) by simp
  qed simp
  moreover have "machine_step\<^sup>*\<^sup>* svc_start svc_applied" by (rule svc_reachable(2))
  ultimately have "client_step\<^sup>*\<^sup>* \<lparr>mc_machine = svc_start, mc_journal = ClientJournal\<rparr> svc_client" unfolding svc_client_def by blast
  moreover have "machine_start (mc_machine \<lparr>mc_machine = svc_start, mc_journal = ClientJournal\<rparr>)" "mc_journal \<lparr>mc_machine = svc_start, mc_journal = ClientJournal\<rparr> = ClientJournal"
    using svc_reachable(1) by simp_all
  ultimately show c: "client_reachable svc_client" unfolding client_reachable_def by blast
  have "submit ''a'' svc_request None svc_client = Inr (fst svc_submitted, snd svc_submitted)"
    unfolding svc_submitted_def using svc_submitted_ok by simp
  from client_step.submit[OF this] show "client_reachable (snd svc_submitted)" using client_reachable_steps[OF c] by blast
qed

section \<open>Properties\<close>

text \<open>C6. Replicas of the Multi-Paxos machine agree. Over every run of the network, the leader operations and
  application, each node's durable applied prefix only grows; the prefixes of any two nodes, now or
  at any later time, hold the same values at the same slots as far as both reach; equally long ones
  replay to the same key/value state and request table; and the machine's \<open>assert_safety\<close> passes.\<close>

theorem machine_replicas_agree:
  assumes "machine_reachable s" and "machine_step\<^sup>*\<^sup>* s s'"
  shows "prefix (mm_applied s n) (mm_applied s' n) \<and>
    (prefix (map view (mm_applied s n)) (map view (mm_applied s' m)) \<or> prefix (map view (mm_applied s' m)) (map view (mm_applied s n))) \<and>
    (length (mm_applied s n) = length (mm_applied s' m) \<longrightarrow>
       (\<exists>im. multi_replay (mm_applied s n) = Inr im \<and> multi_replay (mm_applied s' m) = Inr im)) \<and>
    mm_assert_safety s' = Inr ()"
proof -
  have inv: "machine_inv s" by (rule machine_reachable_inv[OF assms(1)])
  have k: "kept s s'" by (rule kept_steps[OF assms(2) inv])
  have "\<exists>im. multi_replay (mm_applied s n) = Inr im \<and> multi_replay (mm_applied s' m) = Inr im"
    if len: "length (mm_applied s n) = length (mm_applied s' m)"
  proof -
    have "map view (mm_applied s n) = map view (mm_applied s' m)"
      using comparable_views[OF k inv, of n m] len by (metis length_map prefix_length_prefix prefix_order.refl prefix_order.antisym le_refl)
    then have "multi_replay (mm_applied s n) = multi_replay (mm_applied s' m)" by (rule replay_view)
    then show ?thesis using machine_invD(5)[OF inv, of n] by (auto simp: image_ok_def)
  qed
  then show ?thesis
    using comparable_views[OF k inv, of n m] keptD(2)[OF k] mm_assert_safety_ok[OF keptD(1)[OF k]] by (simp add: machine_grows_def)
qed

theorem machine_replicas_agree_witness:
  "machine_reachable svc_applied \<and> machine_step\<^sup>*\<^sup>* svc_applied svc_replica \<and>
   (\<exists>im. multi_replay (mm_applied svc_applied ''a'') = Inr im \<and> multi_replay (mm_applied svc_replica ''b'') = Inr im)"
proof -
  have "length (mm_applied svc_applied ''a'') = length (mm_applied svc_replica ''b'')" using svc_lengths by simp
  then show ?thesis
    using machine_replicas_agree[OF svc_reachable(3,4), of "''a''" "''b''"] svc_reachable(3,4) by blast
qed

text \<open>C14. \<open>apply_ready\<close> on a live member of a reachable machine raises nothing but
  \<open>ClientRequestConflict\<close>. When it returns, it returns the learned decisions from the first unapplied
  slot up to the first gap, the node's durable prefix is extended by exactly these, and no further
  slot was ready.\<close>

theorem apply_ready_applies:
  assumes "machine_reachable s" and "n \<in> set (mm_nodes s)" and "is_alive (mm_cluster s) n"
  shows "outcome {ClientRequestConflict} (\<lambda>(ds, s').
      mm_applied s' = (mm_applied s)(n := mm_applied s n @ ds) \<and>
      (\<forall>i < length ds. multi_learned_decision n (int (length (mm_applied s n)) + int i + 1) (mm_cluster s) = Some (ds ! i)) \<and>
      multi_learned_decision n (int (length (mm_applied s' n)) + 1) (mm_cluster s) = None)
    (apply_ready n s)"
proof (rule outcome_weaken[OF apply_ready_ok[OF machine_reachable_inv[OF assms(1)] assms(2,3)]])
  fix x assume x: "case x of (ds, s') \<Rightarrow> kept s s' \<and> ds = ready_decisions n s \<and>
      mm_applied s' = (mm_applied s)(n := mm_applied s n @ ds) \<and> sim_alive (mm_cluster s') = sim_alive (mm_cluster s)"
  obtain ds s' where ds: "x = (ds, s')" by (cases x)
  have eq: "ds = ready_decisions n s" "mm_applied s' = (mm_applied s)(n := mm_applied s n @ ds)" using x by (simp_all add: ds)
  show "case x of (ds, s') \<Rightarrow> mm_applied s' = (mm_applied s)(n := mm_applied s n @ ds) \<and>
      (\<forall>i < length ds. multi_learned_decision n (int (length (mm_applied s n)) + int i + 1) (mm_cluster s) = Some (ds ! i)) \<and>
      multi_learned_decision n (int (length (mm_applied s' n)) + 1) (mm_cluster s) = None"
    using eq ready_learned[of _ n s] ready_stops[of n s] by (simp add: ds next_slot_def add.commute add.left_commute)
qed

theorem apply_ready_applies_witness:
  "machine_reachable svc_applied \<and> ''b'' \<in> set (mm_nodes svc_applied) \<and> is_alive (mm_cluster svc_applied) ''b'' \<and>
   mm_applied svc_replica ''b'' = mm_applied svc_applied ''b'' @ fst (projr (apply_ready ''b'' svc_applied))"
proof -
  have r: "apply_ready ''b'' svc_applied = Inr (fst (projr (apply_ready ''b'' svc_applied)), svc_replica)"
    unfolding svc_replica_def using svc_applied_ok(2) by simp
  have b: "''b'' \<in> set (mm_nodes svc_applied)" "is_alive (mm_cluster svc_applied) ''b''" by (rule svc_b)+
  from outcomeD[OF apply_ready_applies[OF svc_reachable(3) b] r] show ?thesis using svc_reachable(3) b by simp
qed

text \<open>C8. Requests take effect exactly once. When replaying a list of decisions succeeds, the key/value state is
  what executing each distinct request once, at its first slot, and each bare operation gives; every
  request in the list has its entry in the request table, which names that first slot and the result
  read from the state just before it.\<close>

theorem replay_exactly_once:
  assumes "multi_replay ds = Inr im"
  shows "mi_kv im = fold apply_operation (executed {} ds) [] \<and>
    (\<forall>r. (\<exists>d \<in> set ds. sl_value d = ClientCommand r) \<longleftrightarrow>
       (\<exists>a. map_of (mi_requests im) (identity r) = Some a \<and> ar_request a = r \<and>
          (\<exists>i. first_at ds i r \<and> ar_slot a = sl_slot (ds ! i) \<and>
             ar_result a = operation_result (mr_operation r) (fold apply_operation (executed {} (take i ds)) []))))"
proof -
  have rep: "replayed ds im" by (rule replay_replayed[OF assms])
  show ?thesis
    unfolding kv_after_def[symmetric]
  proof (intro conjI allI iffI)
    show "mi_kv im = kv_after ds" using rep by (simp add: replayed_def)
  next
    fix r assume d: "\<exists>d \<in> set ds. sl_value d = ClientCommand r"
    obtain a where a: "map_of (mi_requests im) (identity r) = Some a" "ar_request a = r" using rep d unfolding replayed_def by blast
    have "entry_ok ds (ar_request a) a" using replayed_entries[OF rep map_of_SomeD[OF a(1)]] by blast
    then have "\<exists>i. first_at ds i r \<and> ar_slot a = sl_slot (ds ! i) \<and> ar_result a = operation_result (mr_operation r) (kv_after (take i ds))"
      unfolding entry_ok_def a(2) by blast
    with a show "\<exists>a. map_of (mi_requests im) (identity r) = Some a \<and> ar_request a = r \<and>
        (\<exists>i. first_at ds i r \<and> ar_slot a = sl_slot (ds ! i) \<and> ar_result a = operation_result (mr_operation r) (kv_after (take i ds)))"
      by (intro exI[of _ a] conjI)
  next
    fix r assume "\<exists>a. map_of (mi_requests im) (identity r) = Some a \<and> ar_request a = r \<and>
        (\<exists>i. first_at ds i r \<and> ar_slot a = sl_slot (ds ! i) \<and> ar_result a = operation_result (mr_operation r) (kv_after (take i ds)))"
    then obtain i where "first_at ds i r" by blast
    then show "\<exists>d \<in> set ds. sl_value d = ClientCommand r" using nth_mem[of i ds] by (auto simp: first_at_def)
  qed
qed

theorem replay_exactly_once_witness:
  "(case multi_replay [SlotLearnedDecision 1 (PN 1 ''a'') (ClientCommand svc_request), SlotLearnedDecision 2 (PN 2 ''b'') (ClientCommand svc_request)] of
      Inl _ \<Rightarrow> False
    | Inr im \<Rightarrow> mi_kv im = [(''x'', ''1'')])"
proof -
  let ?ds = "[SlotLearnedDecision 1 (PN 1 ''a'') (ClientCommand svc_request), SlotLearnedDecision 2 (PN 2 ''b'') (ClientCommand svc_request)]"
  have "\<not> isl (multi_replay ?ds)" by code_simp
  then obtain im where im: "multi_replay ?ds = Inr im" by (cases "multi_replay ?ds") auto
  have "fold apply_operation (executed {} ?ds) [] = [(''x'', ''1'')]" by (simp add: svc_request_def)
  then show ?thesis using replay_exactly_once[OF im] im by simp
qed

text \<open>C7. A request has one result. In every reachable state of a client, whatever the network, the nodes and the
  client did before and do in between: when \<open>poll\<close> reports a request as applied or completed at some
  node, and later at the same or another node again, both reports name the same slot and the same
  result.\<close>

theorem client_result_unique:
  assumes "client_reachable s" and "poll n request expected apply_first acknowledge s = Inr (res, t)"
    and "client_step\<^sup>*\<^sup>* t s'" and "poll m request expected' apply_first' acknowledge' s' = Inr (res', t')"
    and "cr_status res \<in> {APPLIED, COMPLETED}" and "cr_status res' \<in> {APPLIED, COMPLETED}"
  shows "cr_slot res = cr_slot res' \<and> cr_value res = cr_value res'"
proof -
  have inv: "machine_inv (mc_machine s)" by (rule client_reachable_inv[OF assms(1)])
  have o1: "observed n request s (res, t)" using poll_observed[OF inv] assms(2) by (metis outcomeD)
  then have k1: "kept (mc_machine s) (mc_machine t)" by (simp add: observed_def)
  have k2: "kept (mc_machine t) (mc_machine s')" by (rule client_steps_kept[OF assms(3) keptD(1)[OF k1]])
  have o2: "observed m request s' (res', t')" using poll_observed[OF keptD(1)[OF k2]] assms(4) by (metis outcomeD)
  then have k3: "kept (mc_machine t) (mc_machine t')" using kept_trans[OF k2] by (simp add: observed_def)
  obtain im a where a: "multi_replay (mm_applied (mc_machine t) n) = Inr im" "map_of (mi_requests im) (identity request) = Some a"
    "cr_slot res = Some (ar_slot a)" "cr_value res = ar_result a" using o1 assms(5) by (auto simp: observed_def evidence_of_def)
  obtain im' b where b: "multi_replay (mm_applied (mc_machine t') m) = Inr im'" "map_of (mi_requests im') (identity request) = Some b"
    "cr_slot res' = Some (ar_slot b)" "cr_value res' = ar_result b" using o2 assms(6) by (auto simp: observed_def evidence_of_def)
  have "a = b" by (rule evidence_unique[OF k3 keptD(1)[OF k1] a(1,2) b(1,2)])
  then show ?thesis using a b by simp
qed

theorem client_result_unique_witness:
  "client_reachable (snd svc_submitted) \<and> cr_status (fst svc_polled) = COMPLETED \<and> cr_status (fst svc_again) = APPLIED \<and>
   cr_slot (fst svc_again) = Some 1"
proof -
  have p: "poll ''a'' svc_request None True True (snd svc_submitted) = Inr (fst svc_polled, snd svc_polled)"
    unfolding svc_polled_def using svc_polled_ok by simp
  have q: "poll ''a'' svc_request None False False (snd svc_polled) = Inr (fst svc_again, snd svc_again)"
    unfolding svc_again_def using svc_again_ok by simp
  show ?thesis
    using client_result_unique[OF svc_client_reachable(2) p rtranclp.rtrancl_refl q] svc_polled_result svc_again_result svc_client_reachable(2)
    by simp
qed

text \<open>C15. What \<open>execute\<close> reports. From every reachable state of a client the bounded pump ends. It raises
  \<open>ValueError\<close> on a non-positive bound and \<open>KeyError\<close> on an unknown node. On a node without leader
  authority it reports \<open>LEADERSHIP_UNAVAILABLE\<close> and leaves every durable state, applied prefix and
  the queue as they were. Whatever it returns, the status is never \<open>SUBMITTED\<close> or \<open>PENDING\<close>, and
  \<open>APPLIED\<close> or \<open>COMPLETED\<close> is reported only for a request that the node's durable applied prefix
  replays, with the slot and the result of that replay.\<close>

theorem execute_result:
  assumes "client_reachable s"
  shows "\<exists>r. execute n request max_rounds events s = Some r \<and>
    (max_rounds \<le> 0 \<or> events \<le> 0 \<longrightarrow> r = Inl ValueError) \<and>
    (0 < max_rounds \<and> 0 < events \<and> n \<notin> set (mp_node_ids (mc_cluster s)) \<longrightarrow> r = Inl KeyError) \<and>
    (\<forall>j. 0 < max_rounds \<and> 0 < events \<and> n \<in> set (mp_node_ids (mc_cluster s)) \<and>
       journal_register request (mc_journal s) = Inr j \<and> check_local_identity n request (mc_cluster s) = Inr () \<and>
       authorized n None (mc_cluster s) = Inr False \<longrightarrow>
       (\<exists>res t. r = Inr (res, t) \<and> cr_status res = LEADERSHIP_UNAVAILABLE \<and> cr_value res = None \<and> mc_journal t = j \<and>
          mm_applied (mc_machine t) = mm_applied (mc_machine s) \<and>
          persistent_state (mc_cluster t) = persistent_state (mc_cluster s) \<and> sim_queue (mc_cluster t) = sim_queue (mc_cluster s))) \<and>
    (\<forall>res t. r = Inr (res, t) \<longrightarrow> client_reachable t \<and> cr_status res \<noteq> SUBMITTED \<and> cr_status res \<noteq> PENDING \<and>
       (cr_status res = APPLIED \<or> cr_status res = COMPLETED \<longrightarrow>
         (\<exists>im a. multi_replay (mm_applied (mc_machine t) n) = Inr im \<and> map_of (mi_requests im) (identity request) = Some a \<and>
            ar_request a = request \<and> cr_slot res = Some (ar_slot a) \<and> cr_value res = ar_result a)))"
proof -
  obtain r where r: "execute n request max_rounds events s = Some r" "outcome UNIV (reported n request s) r"
    using execute_reported[OF client_reachable_inv[OF assms]] by blast
  have bounds: "max_rounds \<le> 0 \<or> events \<le> 0 \<longrightarrow> r = Inl ValueError" using r(1) by (auto simp: execute_def)
  have node: "0 < max_rounds \<and> 0 < events \<and> n \<notin> set (mp_node_ids (mc_cluster s)) \<longrightarrow> r = Inl KeyError"
    using r(1) by (auto simp: execute_def submit_def)
  have result: "client_reachable t \<and> reported n request s (res, t)" if "r = Inr (res, t)" for res t
  proof -
    have "client_step s t" by (rule client_step.execute) (use r(1) that in simp)
    then show ?thesis using client_reachable_steps[OF assms] r(2) that by auto
  qed
  show ?thesis
  proof (intro exI[of _ r] conjI bounds node r(1) allI impI, goal_cases)
    case (1 j)
    then show ?case using execute_unauthorized[of max_rounds events n s request j] r(1) by auto
  qed (use result in \<open>auto simp: reported_def observed_def evidence_of_def\<close>)
qed

definition svc_executed :: "client_result \<times> multi_client" where
  "svc_executed = projr (the (execute ''a'' svc_request 8 64 svc_client))"

lemma svc_executed_ok:
  "case execute ''a'' svc_request 8 64 svc_client of Some (Inr _) \<Rightarrow> True | _ \<Rightarrow> False" "cr_status (fst svc_executed) = COMPLETED"
  by code_simp+

theorem execute_result_witness:
  "client_reachable svc_client \<and> cr_status (fst svc_executed) = COMPLETED \<and>
   (\<exists>im a. multi_replay (mm_applied (mc_machine (snd svc_executed)) ''a'') = Inr im \<and>
      map_of (mi_requests im) (identity svc_request) = Some a \<and> cr_slot (fst svc_executed) = Some (ar_slot a))"
proof -
  have e: "execute ''a'' svc_request 8 64 svc_client = Some (Inr svc_executed)"
    using svc_executed_ok(1) by (auto simp: svc_executed_def split: option.splits sum.splits)
  obtain res t where rt: "svc_executed = (res, t)" by (cases svc_executed)
  from execute_result[OF svc_client_reachable(1), of "''a''" svc_request 8 64] show ?thesis
    using svc_executed_ok(2) svc_client_reachable(1) unfolding e rt by auto
qed

end
