(* ===== verification/Log_Index.thy ===== *)
theory Log_Index
  imports Prelude
begin

text \<open>
  The retained suffix of a Raft log addressed by absolute index, \<^verbatim>\<open>src/src/distlab/log_index.py\<close>,
  with the log entry of \<^verbatim>\<open>src/src/distlab/raft.py\<close>. Compaction is
  shown to be invisible to every reader above the boundary, and the merge of an AppendEntries
  payload to be the one that \<open>merge_spec\<close> and \<open>merge_conflict\<close> specify.
\<close>

section \<open>Entries and views\<close>

datatype 'c log_entry = LogEntry (le_term: int) (le_command: 'c)

definition make_log_entry :: "int \<Rightarrow> 'c \<Rightarrow> 'c log_entry result" where
  "make_log_entry t c = (if t < 0 then Inl ValueError else Inr (LogEntry t c))"

record 'c log_view =
  lv_base_index :: int
  lv_base_term :: int
  lv_entries :: "'c log_entry list"

definition RaftLogView :: "int \<Rightarrow> int \<Rightarrow> 'c log_entry list \<Rightarrow> 'c log_view result" where
  "RaftLogView base_index base_term entries =
     (if base_index < 0 then Inl ValueError
      else if base_term < 0 then Inl ValueError
      else if base_index = 0 \<and> base_term \<noteq> 0 then Inl ValueError
      else Inr \<lparr>lv_base_index = base_index, lv_base_term = base_term, lv_entries = entries\<rparr>)"

definition uncompacted :: "'c log_entry list \<Rightarrow> 'c log_view result" where
  "uncompacted entries = RaftLogView 0 0 entries"

definition first_retained_index :: "'c log_view \<Rightarrow> int" where
  "first_retained_index v = lv_base_index v + 1"

definition last_index :: "'c log_view \<Rightarrow> int" where
  "last_index v = lv_base_index v + int (length (lv_entries v))"

definition last_term :: "'c log_view \<Rightarrow> int" where
  "last_term v = (if lv_entries v = [] then lv_base_term v else le_term (last (lv_entries v)))"

section \<open>Access by absolute index\<close>

definition entry_at :: "'c log_view \<Rightarrow> int \<Rightarrow> 'c log_entry result" where
  "entry_at v index =
     (if index \<le> lv_base_index v then Inl IndexError
      else if index > last_index v then Inl IndexError
      else Inr (lv_entries v ! nat (index - lv_base_index v - 1)))"

definition term_at :: "'c log_view \<Rightarrow> int \<Rightarrow> int result" where
  "term_at v index =
     (if index = lv_base_index v then Inr (lv_base_term v)
      else and_then (entry_at v index) (\<lambda>e. Inr (le_term e)))"

definition suffix_from :: "'c log_view \<Rightarrow> int \<Rightarrow> 'c log_entry list result" where
  "suffix_from v index =
     (if index < first_retained_index v then Inl IndexError
      else if index > last_index v + 1 then Inl IndexError
      else Inr (drop (nat (index - first_retained_index v)) (lv_entries v)))"

definition compact_through :: "'c log_view \<Rightarrow> int \<Rightarrow> 'c log_view result" where
  "compact_through v index =
     (if index < lv_base_index v then Inl IndexError
      else if index > last_index v then Inl IndexError
      else if index = lv_base_index v then Inr v
      else and_then (term_at v index) (\<lambda>boundary_term.
        RaftLogView index boundary_term (drop (nat (index - lv_base_index v)) (lv_entries v))))"

definition prefix_matches :: "'c log_view \<Rightarrow> int \<Rightarrow> int \<Rightarrow> bool result" where
  "prefix_matches v index t =
     (if t < 0 then Inl ValueError
      else if index < lv_base_index v \<or> index > last_index v then Inr False
      else and_then (term_at v index) (\<lambda>u. Inr (u = t)))"

section \<open>Merging an AppendEntries payload\<close>

text \<open>The \<open>while\<close> loop of \<open>merge_after\<close> from position \<open>insert_at\<close>, with the final \<open>extend\<close>:
  overlapping entries of equal term are skipped, the first conflicting term truncates the
  retained list.\<close>

fun merge_loop :: "'c log_entry list \<Rightarrow> nat \<Rightarrow> 'c log_entry list \<Rightarrow> 'c log_entry list result" where
  "merge_loop retained insert_at [] = Inr retained"
| "merge_loop retained insert_at (candidate # rest) =
     (if insert_at < length retained then
        (let existing = retained ! insert_at
         in if le_term existing \<noteq> le_term candidate then Inr (take insert_at retained @ candidate # rest)
            else if existing \<noteq> candidate then Inl LogMatchingViolation
            else merge_loop retained (insert_at + 1) rest)
      else Inr (retained @ candidate # rest))"

definition merge_after :: "'c log_view \<Rightarrow> int \<Rightarrow> 'c log_entry list \<Rightarrow> 'c log_entry list result" where
  "merge_after v prev_index incoming =
     (if prev_index < lv_base_index v \<or> prev_index > last_index v then Inl IndexError
      else if incoming = [] then Inr (lv_entries v)
      else merge_loop (lv_entries v) (nat (prev_index - lv_base_index v)) incoming)"

section \<open>Well-formed views\<close>

definition view_ok :: "'c log_view \<Rightarrow> bool" where
  "view_ok v \<longleftrightarrow> 0 \<le> lv_base_index v \<and> 0 \<le> lv_base_term v \<and>
     (lv_base_index v = 0 \<longrightarrow> lv_base_term v = 0) \<and> (\<forall>e \<in> set (lv_entries v). 0 \<le> le_term e)"

lemma RaftLogView_ok:
  "RaftLogView b t es = Inr v \<Longrightarrow> (\<And>e. e \<in> set es \<Longrightarrow> 0 \<le> le_term e) \<Longrightarrow>
   view_ok v \<and> lv_base_index v = b \<and> lv_base_term v = t \<and> lv_entries v = es"
  by (auto simp: RaftLogView_def view_ok_def split: if_splits)

lemma RaftLogView_total:
  "view_ok \<lparr>lv_base_index = b, lv_base_term = t, lv_entries = es\<rparr> \<Longrightarrow>
   RaftLogView b t es = Inr \<lparr>lv_base_index = b, lv_base_term = t, lv_entries = es\<rparr>"
  by (auto simp: RaftLogView_def view_ok_def)

lemma entry_at_ok:
  "lv_base_index v < i \<Longrightarrow> i \<le> last_index v \<Longrightarrow>
   entry_at v i = Inr (lv_entries v ! nat (i - lv_base_index v - 1)) \<and>
   lv_entries v ! nat (i - lv_base_index v - 1) \<in> set (lv_entries v)"
  by (auto simp: entry_at_def last_index_def intro!: nth_mem)

lemma term_at_total:
  assumes "lv_base_index v \<le> i" and "i \<le> last_index v" and "view_ok v"
  shows "\<exists>t. term_at v i = Inr t \<and> 0 \<le> t"
  using assms entry_at_ok[of v i] by (cases "i = lv_base_index v") (auto simp: term_at_def view_ok_def)

lemma term_at_last: "term_at v (last_index v) = Inr (last_term v)"
  using entry_at_ok[of v "last_index v"]
  by (cases "lv_entries v" rule: rev_cases)
    (auto simp: term_at_def last_term_def last_index_def nth_append)

lemma last_term_nonneg: "view_ok v \<Longrightarrow> 0 \<le> last_term v"
  by (auto simp: view_ok_def last_term_def)

lemma last_index_nonneg: "view_ok v \<Longrightarrow> 0 \<le> last_index v"
  by (simp add: view_ok_def last_index_def)

lemma prefix_matches_total:
  assumes "view_ok v" and "0 \<le> t"
  shows "\<exists>b. prefix_matches v i t = Inr b \<and> (b \<longrightarrow> lv_base_index v \<le> i \<and> i \<le> last_index v \<and> term_at v i = Inr t)"
  using assms term_at_total[of v i] by (auto simp: prefix_matches_def not_less)

section \<open>Compaction\<close>

lemma compact_ok:
  assumes "view_ok v" and "compact_through v i = Inr w"
  shows "view_ok w \<and> lv_base_index w = i \<and> lv_base_index v \<le> i \<and> i \<le> last_index v \<and>
    term_at v i = Inr (lv_base_term w) \<and> lv_entries w = drop (nat (i - lv_base_index v)) (lv_entries v)"
proof (cases "i = lv_base_index v")
  case True
  then show ?thesis using assms by (auto simp: compact_through_def term_at_def split: if_splits)
next
  case False
  then obtain t where t: "term_at v i = Inr t" "lv_base_index v \<le> i" "i \<le> last_index v"
    and w: "RaftLogView i t (drop (nat (i - lv_base_index v)) (lv_entries v)) = Inr w"
    using assms(2) by (auto simp: compact_through_def and_then_eq_Inr split: if_splits)
  then show ?thesis
    using RaftLogView_ok[OF w] assms(1) by (auto simp: view_ok_def dest: in_set_dropD)
qed

lemma last_index_compact:
  "view_ok v \<Longrightarrow> compact_through v i = Inr w \<Longrightarrow> last_index w = last_index v"
  by (frule (1) compact_ok) (auto simp: last_index_def)

lemma entry_at_compact:
  assumes "view_ok v" and "compact_through v i = Inr w" and "i < j"
  shows "entry_at w j = entry_at v j"
proof -
  note ok = compact_ok[OF assms(1,2)] and li = last_index_compact[OF assms(1,2)]
  have "lv_entries w ! nat (j - i - 1) = lv_entries v ! nat (j - lv_base_index v - 1)" if "j \<le> last_index v"
  proof -
    have "nat (i - lv_base_index v) + nat (j - i - 1) = nat (j - lv_base_index v - 1)"
      using ok assms(3) by linarith
    moreover have "nat (i - lv_base_index v) \<le> length (lv_entries v)"
      using ok unfolding last_index_def by linarith
    ultimately show ?thesis using ok by (metis nth_drop)
  qed
  then show ?thesis using ok li assms(3) by (auto simp: entry_at_def)
qed

text \<open>C28. Log compaction is transparent: after \<open>compact_through(i)\<close> the last index and last term
  (what votes compare) are unchanged, and every read at or above \<open>i\<close> (term, entry, suffix,
  AppendEntries prefix check), successful or raising, has the same result as on the full log.\<close>

theorem compaction_transparent:
  assumes "view_ok v" and "compact_through v i = Inr w"
  shows "last_index w = last_index v \<and> last_term w = last_term v \<and>
    term_at w i = term_at v i \<and>
    (\<forall>j > i. entry_at w j = entry_at v j \<and> term_at w j = term_at v j \<and> suffix_from w j = suffix_from v j \<and>
       (\<forall>t. prefix_matches w j t = prefix_matches v j t))"
proof -
  note ok = compact_ok[OF assms] and li = last_index_compact[OF assms]
  have ti: "term_at w i = term_at v i" using ok by (simp add: term_at_def)
  have ej: "entry_at w j = entry_at v j" if "i < j" for j using entry_at_compact[OF assms that] .
  have tj: "term_at w j = term_at v j" if "i < j" for j
    using ej[OF that] ok that by (simp add: term_at_def)
  have "last_term w = last_term v"
  proof -
    have "term_at w (last_index v) = term_at v (last_index v)"
      using tj ti ok by (cases "i = last_index v") auto
    then show ?thesis using term_at_last[of v] term_at_last[of w] li by simp
  qed
  moreover have "suffix_from w j = suffix_from v j" if "i < j" for j
  proof -
    have "nat (j - (i + 1)) + nat (i - lv_base_index v) = nat (j - (lv_base_index v + 1))"
      using ok that by linarith
    then show ?thesis using ok li that by (simp add: suffix_from_def first_retained_index_def)
  qed
  moreover have "prefix_matches w j t = prefix_matches v j t" if "i < j" for j t
    using ok li tj[OF that] that by (simp add: prefix_matches_def)
  ultimately show ?thesis using li ti ej tj by blast
qed

theorem compaction_transparent_witness:
  "view_ok \<lparr>lv_base_index = 0, lv_base_term = 0, lv_entries = [LogEntry 1 ''x'', LogEntry 2 ''y'']\<rparr> \<and>
   compact_through \<lparr>lv_base_index = 0, lv_base_term = 0, lv_entries = [LogEntry 1 ''x'', LogEntry 2 ''y'']\<rparr> 1 =
     Inr \<lparr>lv_base_index = 1, lv_base_term = 1, lv_entries = [LogEntry 2 ''y'']\<rparr> \<and>
   last_term \<lparr>lv_base_index = 1, lv_base_term = 1, lv_entries = [LogEntry 2 ''y'']\<rparr> =
     last_term \<lparr>lv_base_index = 0, lv_base_term = 0, lv_entries = [LogEntry 1 ''x'', LogEntry 2 ''y'']\<rparr>"
proof -
  have v: "view_ok \<lparr>lv_base_index = 0, lv_base_term = 0, lv_entries = [LogEntry 1 ''x'', LogEntry 2 ''y'']\<rparr>"
    by (simp add: view_ok_def)
  have c: "compact_through \<lparr>lv_base_index = 0, lv_base_term = 0, lv_entries = [LogEntry 1 ''x'', LogEntry 2 ''y'']\<rparr> 1 =
     Inr \<lparr>lv_base_index = 1, lv_base_term = 1, lv_entries = [LogEntry 2 ''y'']\<rparr>"
    by (simp add: compact_through_def term_at_def entry_at_def last_index_def RaftLogView_def)
  show ?thesis using compaction_transparent[OF v c] v c by blast
qed

section \<open>The merge\<close>

text \<open>What a merge at position \<open>k\<close> must yield: the payload is present from \<open>k\<close> on, the prefix
  before \<open>k\<close> is untouched, and nothing is lost beyond the payload unless a term conflicts.\<close>

definition merge_spec :: "'c log_entry list \<Rightarrow> nat \<Rightarrow> 'c log_entry list \<Rightarrow> 'c log_entry list" where
  "merge_spec log k incoming =
     (if \<exists>i < length incoming. k + i < length log \<and> le_term (log ! (k + i)) \<noteq> le_term (incoming ! i)
      then take k log @ incoming
      else take k log @ incoming @ drop (k + length incoming) log)"

definition merge_conflict :: "'c log_entry list \<Rightarrow> nat \<Rightarrow> 'c log_entry list \<Rightarrow> bool" where
  "merge_conflict log k incoming \<longleftrightarrow>
     (\<exists>i < length incoming. k + i < length log \<and> log ! (k + i) \<noteq> incoming ! i \<and>
        (\<forall>j \<le> i. le_term (log ! (k + j)) = le_term (incoming ! j)))"

lemma less_Suc_split: "(\<exists>i < Suc n. P i) \<longleftrightarrow> P 0 \<or> (\<exists>i < n. P (Suc i))"
  using less_Suc_eq_0_disj by auto

lemma le_Suc_split: "(\<forall>j \<le> Suc i. P j) \<longleftrightarrow> P 0 \<and> (\<forall>j \<le> i. P (Suc j))"
  by (metis Suc_le_mono le0 not0_implies_Suc)

lemma merge_conflict_Cons:
  assumes "k < length log"
  shows "merge_conflict log k (c # cs) \<longleftrightarrow> le_term (log ! k) = le_term c \<and>
    (log ! k \<noteq> c \<or> merge_conflict log (Suc k) cs)"
  using assms unfolding merge_conflict_def
  by (auto simp: less_Suc_split le_Suc_split simp del: ex_simps all_simps)

lemma merge_spec_Cons:
  assumes "k < length log" and "log ! k = c"
  shows "merge_spec log k (c # cs) = merge_spec log (Suc k) cs"
  using assms by (auto simp: merge_spec_def less_Suc_split take_Suc_conv_app_nth)

lemma merge_loop_spec:
  "k \<le> length log \<Longrightarrow> merge_loop log k incoming =
     (if merge_conflict log k incoming then Inl LogMatchingViolation else Inr (merge_spec log k incoming))"
proof (induction log k incoming rule: merge_loop.induct)
  case (1 log k)
  then show ?case by (auto simp: merge_spec_def merge_conflict_def)
next
  case (2 log k c cs)
  show ?case
  proof (cases "k < length log")
    case False
    then show ?thesis using 2(2) by (auto simp: merge_spec_def merge_conflict_def)
  next
    case True
    consider (conflict) "le_term (log ! k) \<noteq> le_term c"
      | (clash) "le_term (log ! k) = le_term c" "log ! k \<noteq> c"
      | (same) "log ! k = c" by metis
    then show ?thesis
    proof cases
      case conflict
      then have "merge_spec log k (c # cs) = take k log @ c # cs"
        using True by (auto simp: merge_spec_def less_Suc_split)
      then show ?thesis using True conflict by (simp add: Let_def merge_conflict_Cons)
    next
      case clash
      then show ?thesis using True by (simp add: Let_def merge_conflict_Cons)
    next
      case same
      have "merge_loop log (k + 1) cs =
          (if merge_conflict log (k + 1) cs then Inl LogMatchingViolation else Inr (merge_spec log (k + 1) cs))"
        using 2(1)[OF True refl] same True by simp
      then show ?thesis
        using True same by (simp add: Let_def merge_conflict_Cons merge_spec_Cons)
    qed
  qed
qed

lemma merge_after_eq:
  "merge_after v prev incoming =
     (if prev < lv_base_index v \<or> last_index v < prev then Inl IndexError
      else if merge_conflict (lv_entries v) (nat (prev - lv_base_index v)) incoming
      then Inl LogMatchingViolation
      else Inr (merge_spec (lv_entries v) (nat (prev - lv_base_index v)) incoming))"
proof -
  have "nat (prev - lv_base_index v) \<le> length (lv_entries v)" if "prev \<le> last_index v"
    using that by (simp add: last_index_def)
  then show ?thesis
    by (auto simp: merge_after_def merge_loop_spec) (auto simp: merge_conflict_def merge_spec_def)
qed

text \<open>C29. \<open>merge_after\<close> on every branch: an out-of-range prefix is an \<open>IndexError\<close>; an entry of
  the payload that differs from a retained one of the same index and term, met before any term
  conflict, is a \<open>LogMatchingViolation\<close>; otherwise the retained log keeps its prefix, then holds
  the whole payload, and keeps its own tail exactly when no term conflicted.\<close>

theorem merge_after_correct:
  "merge_after v prev incoming =
     (if prev < lv_base_index v \<or> last_index v < prev then Inl IndexError
      else if merge_conflict (lv_entries v) (nat (prev - lv_base_index v)) incoming
      then Inl LogMatchingViolation
      else Inr (merge_spec (lv_entries v) (nat (prev - lv_base_index v)) incoming))"
  by (rule merge_after_eq)

lemma merge_spec_nth:
  assumes "k \<le> length log"
  shows "take k (merge_spec log k incoming) = take k log"
    "take (length incoming) (drop k (merge_spec log k incoming)) = incoming"
    "k + length incoming \<le> length (merge_spec log k incoming)"
  using assms by (auto simp: merge_spec_def min_absorb2)

lemma merge_result:
  assumes "merge_after v prev incoming = Inr log"
  shows "set log \<subseteq> set (lv_entries v) \<union> set incoming"
    "prev + int (length incoming) \<le> lv_base_index v + int (length log)"
proof -
  let ?k = "nat (prev - lv_base_index v)"
  have r: "lv_base_index v \<le> prev" "prev \<le> last_index v" "log = merge_spec (lv_entries v) ?k incoming"
    using assms unfolding merge_after_eq by (auto split: if_splits)
  show "set log \<subseteq> set (lv_entries v) \<union> set incoming"
    unfolding r(3) merge_spec_def by (auto dest: in_set_takeD in_set_dropD)
  have "?k \<le> length (lv_entries v)" using r by (simp add: last_index_def)
  from merge_spec_nth(3)[OF this, of incoming] show "prev + int (length incoming) \<le> lv_base_index v + int (length log)"
    unfolding r(3) using r(1) by linarith
qed

text \<open>A retransmitted AppendEntries is harmless: once a payload has been merged, merging it
  again at the same position changes nothing and cannot raise.\<close>

lemma merge_idempotent:
  assumes "merge_after v prev incoming = Inr log"
  shows "merge_after (v\<lparr>lv_entries := log\<rparr>) prev incoming = Inr log"
proof -
  let ?k = "nat (prev - lv_base_index v)"
  have r: "lv_base_index v \<le> prev" "prev \<le> last_index v" "log = merge_spec (lv_entries v) ?k incoming"
    using assms unfolding merge_after_eq by (auto split: if_splits)
  have k: "?k \<le> length (lv_entries v)" using r by (simp add: last_index_def)
  note m = merge_spec_nth[OF k, of incoming, folded r(3)]
  have same: "log ! (?k + i) = incoming ! i" if "i < length incoming" for i
  proof -
    have "take (length incoming) (drop ?k log) ! i = log ! (?k + i)" using that m(3) by simp
    then show ?thesis unfolding m(2) by simp
  qed
  have "\<not> merge_conflict log ?k incoming" using same by (auto simp: merge_conflict_def)
  moreover have "merge_spec log ?k incoming = log"
  proof -
    have "take ?k log @ take (length incoming) (drop ?k log) @ drop (?k + length incoming) log = log"
      by (metis append_take_drop_id drop_drop add.commute)
    then show ?thesis using same unfolding m(2) by (auto simp: merge_spec_def)
  qed
  moreover have "prev \<le> lv_base_index v + int (length log)" using m(3) r(1) by linarith
  ultimately show ?thesis using r(1) by (simp add: merge_after_eq last_index_def)
qed

end
