(* ===== verification/Raft.thy ===== *)
theory Raft
  imports Quiescence Quorums Log_Index
begin

text \<open>
  The Raft core, \<^verbatim>\<open>src/src/distlab/raft.py\<close>: roles, messages with their constructor checks, the
  node's durable state (term, vote, retained log with its compaction boundary) and volatile
  state, election timers, pre-vote, elections, AppendEntries with log merge and commit
  propagation, the cluster's leader table and leadership lifecycle, and the log-matching check.

  \<open>volatile_state[n]\<close> is \<open>None\<close> after a crash; every read of the source supplies the default it
  stores in \<open>_reset_volatile_defaults\<close>, so reading an absent entry and reading the defaults
  agree, and \<open>vol\<close> returns them. Leadership observers are named; \<open>rf_notified\<close> collects what
  each of them is called with. What an observer does with an event is not part of this file of
  the source and is not modelled here.
\<close>

section \<open>Roles, messages, state\<close>

datatype raft_role = FOLLOWER | CANDIDATE | LEADER

datatype lifecycle_kind = ACQUIRED | RETIRED

datatype lifecycle_event =
  LifecycleEvent (lc_kind: lifecycle_kind) (lc_generation: int) (lc_node: string) (lc_term: int) (lc_reason: string)

datatype 'c raft_msg =
    RequestVote int string int int
  | RequestVoteResponse int string bool
  | PreVote int string int int
  | PreVoteResponse int string int bool
  | AppendEntries int string int int "'c log_entry list" int
  | AppendEntriesResponse int string bool int
  | ElectionTimeout int "int option"
  | ForeignPayload string

definition make_request_vote :: "int \<Rightarrow> string \<Rightarrow> int \<Rightarrow> int \<Rightarrow> 'c raft_msg result" where
  "make_request_vote t cand lli llt =
     (if t < 0 then Inl ValueError else if lli < 0 then Inl ValueError
      else if llt < 0 then Inl ValueError else Inr (RequestVote t cand lli llt))"

definition make_pre_vote :: "int \<Rightarrow> string \<Rightarrow> int \<Rightarrow> int \<Rightarrow> 'c raft_msg result" where
  "make_pre_vote t cand lli llt =
     (if t \<le> 0 then Inl ValueError else if lli < 0 then Inl ValueError
      else if llt < 0 then Inl ValueError else Inr (PreVote t cand lli llt))"

definition make_pre_vote_response :: "int \<Rightarrow> string \<Rightarrow> int \<Rightarrow> bool \<Rightarrow> 'c raft_msg result" where
  "make_pre_vote_response t voter prospective granted =
     (if t < 0 then Inl ValueError else if prospective \<le> 0 then Inl ValueError
      else Inr (PreVoteResponse t voter prospective granted))"

definition make_append_entries ::
  "int \<Rightarrow> string \<Rightarrow> int \<Rightarrow> int \<Rightarrow> 'c log_entry list \<Rightarrow> int \<Rightarrow> 'c raft_msg result" where
  "make_append_entries t leader prev_index prev_term entries leader_commit =
     (if t < 0 then Inl ValueError else if prev_index < 0 then Inl ValueError
      else if prev_term < 0 then Inl ValueError else if leader_commit < 0 then Inl ValueError
      else if prev_index = 0 \<and> prev_term \<noteq> 0 then Inl ValueError
      else Inr (AppendEntries t leader prev_index prev_term entries leader_commit))"

definition make_append_response :: "int \<Rightarrow> string \<Rightarrow> bool \<Rightarrow> int \<Rightarrow> 'c raft_msg result" where
  "make_append_response t follower success match_index =
     (if t < 0 then Inl ValueError else if match_index < 0 then Inl ValueError
      else Inr (AppendEntriesResponse t follower success match_index))"

record 'c raft_durable =
  rf_term :: int
  rf_voted :: "string option"
  rf_log :: "'c log_entry list"
  rf_base_index :: int
  rf_base_term :: int

definition fresh_raft :: "'c raft_durable" where
  "fresh_raft = \<lparr>rf_term = 0, rf_voted = None, rf_log = [], rf_base_index = 0, rf_base_term = 0\<rparr>"

record raft_volatile =
  rf_role :: raft_role
  rf_votes :: "string set"
  rf_pre_vote_term :: "int option"
  rf_pre_votes :: "string set"
  rf_commit :: int

definition volatile_defaults :: raft_volatile where
  "volatile_defaults = \<lparr>rf_role = FOLLOWER, rf_votes = {}, rf_pre_vote_term = None,
     rf_pre_votes = {}, rf_commit = 0\<rparr>"

text \<open>The trace records of this layer, and of the layers above it that write to the same trace
  (commit recovery, state machine, key/value store).\<close>

datatype 'c raft_event =
    EvCommitIndex string int int string
  | EvTimeoutReset string int int string
  | EvLeaderAcquired string int int string
  | EvLeaderRetired string int int string
  | EvRaftRestart string int "string option" int int int int
  | EvPreVoteStart string int int int int
  | EvElectionStart string int int int
  | EvStepDown string int string
  | EvRaftEnvelope string string string string "string option" string
  | EvTimeoutStale string int int
  | EvTimeoutRejected string int "int option" "int option" string
  | EvTimeout string int
  | EvPreVote string string int int bool bool int int int int
  | EvVote string string int bool bool int int int int
  | EvAppendEntries string string int int int int int int bool int
  | EvAppendResponse string string int bool int
  | EvTermAdvance string int
  | EvPersistTermVote string int "string option"
  | EvPersistLog string int int "'c log_entry list"
  | EvLeader string int
  | EvTermBarrier string int int
  | EvStateMachineApply string int int 'c
  | EvStateMachineCompact string int int int int int
  | EvKvControlNoop string "int option" string
  | EvKvApply string "int option" string "string option" "string option" "string option" "int option" bool bool
  | EvSnapshotPersist string int int int int "int option"
  | EvLogCompact string int int int int int
  | EvSnapshotInstall string int int int int int int int int "int option"

record 'c raft = "('c raft_msg, 'c raft_event, 'c raft_durable, raft_volatile) simulator" +
  rf_node_ids :: "string list"
  leaders_by_term :: "int \<Rightarrow> string option"
  leadership_generation :: int
  active_generations :: "(string \<times> int \<times> int) list"
  rf_observers :: "string list"
  rf_notified :: "(string \<times> lifecycle_event) list"
  rf_timeout :: "string \<Rightarrow> int option"
  rf_timer_generation :: "string \<Rightarrow> int"
  rf_timer_deadline :: "string \<Rightarrow> int option"

fun raft_type_name :: "'c raft_msg \<Rightarrow> string" where
  "raft_type_name (RequestVote _ _ _ _) = ''RequestVote''"
| "raft_type_name (RequestVoteResponse _ _ _) = ''RequestVoteResponse''"
| "raft_type_name (PreVote _ _ _ _) = ''PreVote''"
| "raft_type_name (PreVoteResponse _ _ _ _) = ''PreVoteResponse''"
| "raft_type_name (AppendEntries _ _ _ _ _ _) = ''AppendEntries''"
| "raft_type_name (AppendEntriesResponse _ _ _ _) = ''AppendEntriesResponse''"
| "raft_type_name (ElectionTimeout _ _) = ''_ElectionTimeout''"
| "raft_type_name (ForeignPayload name) = name"

section \<open>Reading a node\<close>

definition vol :: "'c raft \<Rightarrow> string \<Rightarrow> raft_volatile" where
  "vol s n = (case volatile_state s n of None \<Rightarrow> volatile_defaults | Some v \<Rightarrow> v)"

definition set_vol :: "string \<Rightarrow> (raft_volatile \<Rightarrow> raft_volatile) \<Rightarrow> 'c raft \<Rightarrow> 'c raft" where
  "set_vol n f s = s\<lparr>volatile_state := (volatile_state s)(n \<mapsto> f (vol s n))\<rparr>"

definition current_term :: "'c raft \<Rightarrow> string \<Rightarrow> int" where
  "current_term s n = rf_term (persistent_state s n)"

definition voted_for :: "'c raft \<Rightarrow> string \<Rightarrow> string option" where
  "voted_for s n = rf_voted (persistent_state s n)"

definition role :: "'c raft \<Rightarrow> string \<Rightarrow> raft_role" where
  "role s n = rf_role (vol s n)"

definition commit_index :: "'c raft \<Rightarrow> string \<Rightarrow> int" where
  "commit_index s n = rf_commit (vol s n)"

definition log_view_of :: "'c raft_durable \<Rightarrow> 'c log_view" where
  "log_view_of d = \<lparr>lv_base_index = rf_base_index d, lv_base_term = rf_base_term d, lv_entries = rf_log d\<rparr>"

text \<open>\<open>log_view\<close> re-runs the check of the boundary that \<open>_validate_persistent_log\<close> makes at
  construction and restart; \<open>log_view_valid\<close> in \<open>Raft_Election\<close> shows that it passes in every
  reachable state, so the readers below use the view directly.\<close>

abbreviation log_view :: "'c raft \<Rightarrow> string \<Rightarrow> 'c log_view" where
  "log_view s n \<equiv> log_view_of (persistent_state s n)"

definition last_log_index :: "'c raft \<Rightarrow> string \<Rightarrow> int" where
  "last_log_index s n = last_index (log_view s n)"

definition last_log_term :: "'c raft \<Rightarrow> string \<Rightarrow> int" where
  "last_log_term s n = last_term (log_view s n)"

definition rf_peers :: "'c raft \<Rightarrow> string \<Rightarrow> string list" where
  "rf_peers s n = filter (\<lambda>peer. peer \<noteq> n) (rf_node_ids s)"

definition has_majority :: "'c raft \<Rightarrow> nat \<Rightarrow> bool" where
  "has_majority s votes \<longleftrightarrow> quorum_size (rf_node_ids s) \<le> votes"

definition candidate_log_is_up_to_date :: "'c raft \<Rightarrow> string \<Rightarrow> int \<Rightarrow> int \<Rightarrow> bool" where
  "candidate_log_is_up_to_date s n lli llt =
     (if llt \<noteq> last_log_term s n then llt > last_log_term s n else lli \<ge> last_log_index s n)"

definition validate_persistent_log :: "'c raft_durable \<Rightarrow> unit result" where
  "validate_persistent_log d =
     and_then (RaftLogView (rf_base_index d) (rf_base_term d) (rf_log d)) (\<lambda>_. Inr ())"

section \<open>Leadership lifecycle\<close>

definition notify :: "lifecycle_event \<Rightarrow> 'c raft \<Rightarrow> 'c raft" where
  "notify ev s = s\<lparr>rf_notified := rf_notified s @ map (\<lambda>ob. (ob, ev)) (rf_observers s)\<rparr>"

definition register_leadership_observer :: "string \<Rightarrow> bool \<Rightarrow> 'c raft \<Rightarrow> 'c raft result" where
  "register_leadership_observer ob replay_active s =
     (if ob \<in> set (rf_observers s) then Inl ValueError
      else
        (let s1 = s\<lparr>rf_observers := rf_observers s @ [ob]\<rparr>
         in if \<not> replay_active then Inr s1
            else Inr (s1\<lparr>rf_notified := rf_notified s1 @
              map (\<lambda>(n, t, g). (ob, LifecycleEvent ACQUIRED g n t ''observer-replay''))
                (sort_key (\<lambda>(n, t, g). g) (active_generations s1))\<rparr>)))"

definition notify_leader_retired :: "string \<Rightarrow> int \<Rightarrow> string \<Rightarrow> 'c raft \<Rightarrow> 'c raft" where
  "notify_leader_retired n t reason s =
     (case map_of (active_generations s) n of
        None \<Rightarrow> s
      | Some (t0, g) \<Rightarrow>
          if t0 \<noteq> t then s
          else notify (LifecycleEvent RETIRED g n t reason)
                 (record_app (EvLeaderRetired n t g reason)
                   (s\<lparr>active_generations := AList.delete n (active_generations s)\<rparr>)))"

definition notify_leader_acquired :: "string \<Rightarrow> int \<Rightarrow> string \<Rightarrow> 'c raft \<Rightarrow> 'c raft" where
  "notify_leader_acquired n t reason s =
     (let acquire = (\<lambda>s.
            let g = leadership_generation s + 1
            in notify (LifecycleEvent ACQUIRED g n t reason)
                 (record_app (EvLeaderAcquired n t g reason)
                   (s\<lparr>leadership_generation := g,
                      active_generations := AList.update n (t, g) (active_generations s)\<rparr>)))
      in case map_of (active_generations s) n of
           None \<Rightarrow> acquire s
         | Some (t0, g0) \<Rightarrow>
             if t0 = t then s
             else acquire (notify_leader_retired n t0 ''leader-generation-superseded'' s))"

definition record_leader :: "int \<Rightarrow> string \<Rightarrow> 'c raft \<Rightarrow> 'c raft result" where
  "record_leader t n s =
     (case leaders_by_term s t of
        Some m \<Rightarrow> if m \<noteq> n then Inl ElectionSafetyViolation
                  else Inr (s\<lparr>leaders_by_term := (leaders_by_term s)(t \<mapsto> n)\<rparr>)
      | None \<Rightarrow> Inr (s\<lparr>leaders_by_term := (leaders_by_term s)(t \<mapsto> n)\<rparr>))"

section \<open>Log matching\<close>

definition logs_match :: "'c log_view \<Rightarrow> 'c log_view \<Rightarrow> unit result" where
  "logs_match l r =
     (let shared = min (last_index l) (last_index r);
          overlap_start = max (lv_base_index l) (lv_base_index r);
          retained_start = max (first_retained_index l) (first_retained_index r)
      in for_each (\<lambda>index _.
           and_then (term_at l index) (\<lambda>left_term.
           and_then (term_at r index) (\<lambda>right_term.
             if left_term \<noteq> right_term then Inr ()
             else for_each (\<lambda>prefix_index _.
                    and_then (entry_at l prefix_index) (\<lambda>a.
                    and_then (entry_at r prefix_index) (\<lambda>b.
                      if a \<noteq> b then Inl LogMatchingViolation else Inr ())))
                  [retained_start..index] ())))
         [overlap_start..shared] ())"

fun pairs :: "'a list \<Rightarrow> ('a \<times> 'a) list" where
  "pairs [] = []"
| "pairs (x # xs) = map (Pair x) xs @ pairs xs"

definition assert_log_matching :: "'c raft \<Rightarrow> unit result" where
  "assert_log_matching s =
     for_each (\<lambda>(a, b) _. logs_match (log_view s a) (log_view s b)) (pairs (rf_node_ids s)) ()"

section \<open>Timers, terms and votes\<close>

definition reset_election_timeout :: "string \<Rightarrow> string \<Rightarrow> 'c raft \<Rightarrow> 'c raft" where
  "reset_election_timeout n reason s =
     (case rf_timeout s n of
        None \<Rightarrow> s
      | Some timeout \<Rightarrow>
          if role s n = LEADER then s
          else
            (let g = rf_timer_generation s n + 1;
                 deadline = sim_time s + timeout;
                 s1 = s\<lparr>rf_timer_generation := (rf_timer_generation s)(n := g),
                        rf_timer_deadline := (rf_timer_deadline s)(n := Some deadline)\<rparr>
             in sim_schedule \<lparr>msg_src = n, msg_dst = n, msg_payload = ElectionTimeout g (Some deadline),
                    msg_ordinal = 0, msg_delivery_dst = None\<rparr> timeout
                  (record_app (EvTimeoutReset n g deadline reason) s1)))"

definition clear_pre_vote :: "string \<Rightarrow> 'c raft \<Rightarrow> 'c raft" where
  "clear_pre_vote n s = set_vol n (\<lambda>v. v\<lparr>rf_pre_vote_term := None, rf_pre_votes := {}\<rparr>) s"

definition persist_term_and_vote :: "string \<Rightarrow> int \<Rightarrow> string option \<Rightarrow> 'c raft \<Rightarrow> 'c raft" where
  "persist_term_and_vote n t v s =
     record_app (EvPersistTermVote n t v)
       (set_durable n (\<lambda>d. d\<lparr>rf_term := t, rf_voted := v\<rparr>) s)"

definition persist_log :: "string \<Rightarrow> 'c log_entry list \<Rightarrow> 'c raft \<Rightarrow> 'c raft" where
  "persist_log n log s =
     (let s1 = set_durable n (\<lambda>d. d\<lparr>rf_log := log\<rparr>) s; d = persistent_state s1 n
      in record_app (EvPersistLog n (rf_base_index d) (rf_base_term d) log) s1)"

definition advance_term :: "string \<Rightarrow> int \<Rightarrow> bool \<Rightarrow> 'c raft \<Rightarrow> 'c raft" where
  "advance_term n t rearm_if_leader s =
     (if t \<le> current_term s n then s
      else
        (let previous_term = current_term s n;
             was_leader = (role s n = LEADER);
             s1 = persist_term_and_vote n t None s;
             s2 = set_vol n (\<lambda>v. v\<lparr>rf_role := FOLLOWER, rf_votes := {}\<rparr>) s1;
             s3 = clear_pre_vote n s2;
             s4 = (if was_leader then notify_leader_retired n previous_term ''higher-term-observed'' s3 else s3);
             s5 = record_app (EvTermAdvance n t) s4
         in if rearm_if_leader \<and> was_leader then reset_election_timeout n ''term-advance'' s5 else s5))"

definition advance_commit_index :: "string \<Rightarrow> int \<Rightarrow> string \<Rightarrow> 'c raft \<Rightarrow> 'c raft result" where
  "advance_commit_index n index source s =
     (if index < 0 then Inl ValueError
      else if index > last_log_index s n then Inl ValueError
      else
        (let previous = commit_index s n
         in if index \<le> previous then Inr s
            else Inr (record_app (EvCommitIndex n previous index source)
                       (set_vol n (\<lambda>v. v\<lparr>rf_commit := index\<rparr>) s))))"

section \<open>Elections\<close>

definition become_leader :: "string \<Rightarrow> int \<Rightarrow> 'c raft \<Rightarrow> 'c raft result" where
  "become_leader n t s =
     (if t \<noteq> current_term s n \<or> role s n \<noteq> CANDIDATE then Inr s
      else and_then (record_leader t n s) (\<lambda>s1.
        let s2 = clear_pre_vote n (set_vol n (\<lambda>v. v\<lparr>rf_role := LEADER\<rparr>) s1);
            s3 = s2\<lparr>rf_timer_generation := (rf_timer_generation s2)(n := rf_timer_generation s2 n + 1),
                    rf_timer_deadline := (rf_timer_deadline s2)(n := None)\<rparr>
        in Inr (notify_leader_acquired n t ''election-won'' (record_app (EvLeader n t) s3))))"

definition start_election :: "string \<Rightarrow> 'c raft \<Rightarrow> 'c raft result" where
  "start_election n s =
     (if \<not> is_alive s n then Inl RuntimeError
      else
        (let s1 = clear_pre_vote n s;
             t = current_term s1 n + 1;
             s2 = persist_term_and_vote n t (Some n) s1;
             s3 = set_vol n (\<lambda>v. v\<lparr>rf_role := CANDIDATE, rf_votes := {n}\<rparr>) s2;
             s4 = record_app (EvElectionStart n t (last_log_index s3 n) (last_log_term s3 n)) s3;
             s5 = reset_election_timeout n ''election-start'' s4
         in if has_majority s5 1 then become_leader n t s5
            else and_then (make_request_vote t n (last_log_index s5 n) (last_log_term s5 n)) (\<lambda>request.
              for_each (\<lambda>peer. send_msg n peer request) (rf_peers s5 n) s5)))"

definition start_pre_vote :: "string \<Rightarrow> 'c raft \<Rightarrow> 'c raft result" where
  "start_pre_vote n s =
     (if \<not> is_alive s n then Inl RuntimeError
      else if role s n = LEADER then Inr s
      else
        (let prospective = current_term s n + 1;
             s1 = set_vol n (\<lambda>v. v\<lparr>rf_pre_vote_term := Some prospective, rf_pre_votes := {n}\<rparr>) s;
             s2 = record_app (EvPreVoteStart n prospective (current_term s1 n)
                    (last_log_index s1 n) (last_log_term s1 n)) s1
         in if has_majority s2 1 then start_election n (clear_pre_vote n s2)
            else
              (let s3 = reset_election_timeout n ''pre-vote-start'' s2
               in and_then (make_pre_vote prospective n (last_log_index s3 n) (last_log_term s3 n)) (\<lambda>request.
                    for_each (\<lambda>peer. send_msg n peer request) (rf_peers s3 n) s3))))"

definition step_down :: "string \<Rightarrow> string \<Rightarrow> 'c raft \<Rightarrow> (bool \<times> 'c raft) result" where
  "step_down n reason s =
     (if reason = [] then Inl ValueError
      else if \<not> is_alive s n then Inl RuntimeError
      else if role s n \<noteq> LEADER then Inr (False, s)
      else
        (let t = current_term s n;
             s1 = clear_pre_vote n (set_vol n (\<lambda>v. v\<lparr>rf_role := FOLLOWER, rf_votes := {}\<rparr>) s);
             s2 = notify_leader_retired n t reason s1;
             s3 = record_app (EvStepDown n (current_term s2 n) reason) s2
         in Inr (True, reset_election_timeout n reason s3)))"

definition send_append_entries ::
  "string \<Rightarrow> string \<Rightarrow> int option \<Rightarrow> 'c log_entry list \<Rightarrow> int option \<Rightarrow> 'c raft \<Rightarrow> 'c raft result" where
  "send_append_entries n peer prev_log_index entries leader_commit s =
     (if \<not> is_alive s n then Inl RuntimeError
      else if role s n \<noteq> LEADER then Inl RuntimeError
      else if peer \<notin> set (rf_peers s n) then Inl ValueError
      else
        (let prev = (case prev_log_index of None \<Rightarrow> last_log_index s n | Some i \<Rightarrow> i)
         in if prev < rf_base_index (persistent_state s n) \<or> prev > last_log_index s n then Inl ValueError
            else
              (let commit = (case leader_commit of None \<Rightarrow> commit_index s n | Some c \<Rightarrow> c)
               in if commit < 0 \<or> commit > last_log_index s n then Inl ValueError
                  else
                    and_then (term_at (log_view s n) prev) (\<lambda>prev_term.
                    and_then (make_append_entries (current_term s n) n prev prev_term entries commit) (\<lambda>request.
                      send_msg n peer request s)))))"

section \<open>Message handlers\<close>

fun claimed_source :: "string \<Rightarrow> 'c raft_msg \<Rightarrow> string option" where
  "claimed_source n (ElectionTimeout _ _) = Some n"
| "claimed_source n (PreVote _ c _ _) = Some c"
| "claimed_source n (PreVoteResponse _ v _ _) = Some v"
| "claimed_source n (RequestVote _ c _ _) = Some c"
| "claimed_source n (RequestVoteResponse _ v _) = Some v"
| "claimed_source n (AppendEntries _ l _ _ _ _) = Some l"
| "claimed_source n (AppendEntriesResponse _ f _ _) = Some f"
| "claimed_source n (ForeignPayload _) = None"

text \<open>The reason for which an envelope is rejected, and the source its payload claims.\<close>

definition envelope_check ::
  "'c raft \<Rightarrow> string \<Rightarrow> 'c raft_msg message \<Rightarrow> string option \<times> string option" where
  "envelope_check s n m =
     (if msg_dst m \<noteq> n then (Some ''destination-identity-mismatch'', None)
      else
        (let claimed = claimed_source n (msg_payload m)
         in if (case claimed of None \<Rightarrow> False | Some c \<Rightarrow> c \<notin> set (rf_node_ids s))
            then (Some ''unknown-source-principal'', claimed)
            else if msg_dst m \<notin> set (rf_node_ids s) then (Some ''unknown-destination-principal'', claimed)
            else if (case claimed of None \<Rightarrow> False | Some c \<Rightarrow> msg_src m \<noteq> c)
            then (Some ''source-identity-mismatch'', claimed)
            else (None, claimed)))"

definition handle_election_timeout :: "string \<Rightarrow> int \<Rightarrow> int option \<Rightarrow> 'c raft \<Rightarrow> 'c raft result" where
  "handle_election_timeout n g deadline s =
     (if g \<noteq> rf_timer_generation s n then
        Inr (record_app (EvTimeoutStale n g (rf_timer_generation s n)) s)
      else
        (let expected = rf_timer_deadline s n
         in if deadline \<noteq> expected then
              Inr (record_app (EvTimeoutRejected n g deadline expected ''deadline-mismatch'') s)
            else if (case expected of None \<Rightarrow> True | Some d \<Rightarrow> sim_time s < d) then
              Inr (record_app (EvTimeoutRejected n g deadline expected ''early-delivery'') s)
            else if role s n = LEADER then Inr s
            else start_pre_vote n (record_app (EvTimeout n g) s)))"

definition handle_pre_vote :: "string \<Rightarrow> string \<Rightarrow> int \<Rightarrow> string \<Rightarrow> int \<Rightarrow> int \<Rightarrow> 'c raft \<Rightarrow> 'c raft result" where
  "handle_pre_vote n src t cand lli llt s =
     (let up_to_date = candidate_log_is_up_to_date s n lli llt;
          grant = (t \<ge> current_term s n + 1 \<and> up_to_date);
          s1 = record_app (EvPreVote n cand t (current_term s n) grant up_to_date lli llt
                 (last_log_index s n) (last_log_term s n)) s
      in and_then (make_pre_vote_response (current_term s1 n) n t grant) (\<lambda>response.
           send_msg n src response s1))"

definition handle_pre_vote_response ::
  "string \<Rightarrow> int \<Rightarrow> string \<Rightarrow> int \<Rightarrow> bool \<Rightarrow> 'c raft \<Rightarrow> 'c raft result" where
  "handle_pre_vote_response n t voter prospective granted s =
     (if t > current_term s n then Inr (advance_term n t True s)
      else if rf_pre_vote_term (vol s n) \<noteq> Some prospective \<or> prospective \<noteq> current_term s n + 1
           \<or> role s n = LEADER then Inr s
      else if \<not> granted then Inr s
      else
        (let s1 = set_vol n (\<lambda>v. v\<lparr>rf_pre_votes := insert voter (rf_pre_votes v)\<rparr>) s
         in if has_majority s1 (card (rf_pre_votes (vol s1 n)))
            then start_election n (clear_pre_vote n s1) else Inr s1))"

definition handle_request_vote ::
  "string \<Rightarrow> string \<Rightarrow> int \<Rightarrow> string \<Rightarrow> int \<Rightarrow> int \<Rightarrow> 'c raft \<Rightarrow> 'c raft result" where
  "handle_request_vote n src t cand lli llt s =
     (let retired_leader = (role s n = LEADER \<and> t > current_term s n);
          s1 = (if t > current_term s n then advance_term n t False s else s);
          up_to_date = candidate_log_is_up_to_date s1 n lli llt;
          grant = (t = current_term s1 n \<and> up_to_date \<and>
                   (voted_for s1 n = None \<or> voted_for s1 n = Some cand));
          s2 = (if grant
                then reset_election_timeout n ''vote-granted''
                       (clear_pre_vote n
                         (set_vol n (\<lambda>v. v\<lparr>rf_role := FOLLOWER\<rparr>)
                           (persist_term_and_vote n t (Some cand) s1)))
                else s1);
          s3 = (if retired_leader \<and> \<not> grant
                then reset_election_timeout n ''higher-term-vote-rejected'' s2 else s2);
          s4 = record_app (EvVote n cand t grant up_to_date lli llt
                 (last_log_index s3 n) (last_log_term s3 n)) s3
      in send_msg n src (RequestVoteResponse (current_term s4 n) n grant) s4)"

definition handle_request_vote_response :: "string \<Rightarrow> int \<Rightarrow> string \<Rightarrow> bool \<Rightarrow> 'c raft \<Rightarrow> 'c raft result" where
  "handle_request_vote_response n t voter granted s =
     (if t > current_term s n then Inr (advance_term n t True s)
      else if t \<noteq> current_term s n \<or> role s n \<noteq> CANDIDATE then Inr s
      else if \<not> granted then Inr s
      else
        (let s1 = set_vol n (\<lambda>v. v\<lparr>rf_votes := insert voter (rf_votes v)\<rparr>) s
         in if has_majority s1 (card (rf_votes (vol s1 n))) then become_leader n t s1 else Inr s1))"

definition merge_entries :: "string \<Rightarrow> int \<Rightarrow> 'c log_entry list \<Rightarrow> 'c raft \<Rightarrow> 'c raft result" where
  "merge_entries n prev entries s =
     (if entries = [] then Inr s
      else and_then (merge_after (log_view s n) prev entries) (\<lambda>log. Inr (persist_log n log s)))"

text \<open>The part of \<open>_handle_append_entries\<close> for a request of the current term; it returns
  \<open>(success, match_index)\<close> with the state.\<close>

definition accept_append ::
  "string \<Rightarrow> bool \<Rightarrow> int \<Rightarrow> int \<Rightarrow> string \<Rightarrow> int \<Rightarrow> int \<Rightarrow> 'c log_entry list \<Rightarrow> int \<Rightarrow> 'c raft \<Rightarrow>
   (bool \<times> int \<times> 'c raft) result" where
  "accept_append n was_leader previous_term t leader prev prev_term entries leader_commit s =
     (let s1 = clear_pre_vote n (set_vol n (\<lambda>v. v\<lparr>rf_role := FOLLOWER, rf_votes := {}\<rparr>) s);
          s2 = (if was_leader \<and> t = previous_term
                then notify_leader_retired n previous_term ''append-entries'' s1 else s1);
          s3 = reset_election_timeout n ''append-entries'' s2
      in and_then (prefix_matches (log_view s3 n) prev prev_term) (\<lambda>matches.
           if \<not> matches then Inr (False, 0, s3)
           else
             and_then (merge_entries n prev entries s3) (\<lambda>s4.
               let match_index = prev + int (length entries)
               in and_then (if leader_commit > commit_index s4 n
                            then advance_commit_index n (min leader_commit match_index) leader s4
                            else Inr s4) (\<lambda>s5.
                  and_then (assert_log_matching s5) (\<lambda>_. Inr (True, match_index, s5))))))"

definition handle_append_entries ::
  "string \<Rightarrow> string \<Rightarrow> int \<Rightarrow> string \<Rightarrow> int \<Rightarrow> int \<Rightarrow> 'c log_entry list \<Rightarrow> int \<Rightarrow> 'c raft \<Rightarrow> 'c raft result" where
  "handle_append_entries n src t leader prev prev_term entries leader_commit s =
     (let previous_term = current_term s n;
          was_leader = (role s n = LEADER);
          s1 = (if t > current_term s n then advance_term n t False s else s)
      in and_then (if t = current_term s1 n
                   then accept_append n was_leader previous_term t leader prev prev_term entries leader_commit s1
                   else Inr (False, 0, s1)) (\<lambda>(success, match_index, s2).
           let s3 = record_app (EvAppendEntries n leader t prev prev_term (int (length entries))
                      leader_commit (commit_index s2 n) success match_index) s2
           in and_then (make_append_response (current_term s3 n) n success match_index) (\<lambda>response.
                send_msg n src response s3)))"

definition handle_append_entries_response ::
  "string \<Rightarrow> int \<Rightarrow> string \<Rightarrow> bool \<Rightarrow> int \<Rightarrow> 'c raft \<Rightarrow> 'c raft result" where
  "handle_append_entries_response n t follower success match_index s =
     (if t > current_term s n then Inr (advance_term n t True s)
      else Inr (record_app (EvAppendResponse n follower t success match_index) s))"

definition rf_dispatch :: "string \<Rightarrow> string \<Rightarrow> 'c raft_msg \<Rightarrow> 'c raft \<Rightarrow> 'c raft result" where
  "rf_dispatch n src payload s =
     (case payload of
        ElectionTimeout g deadline \<Rightarrow> handle_election_timeout n g deadline s
      | PreVote t cand lli llt \<Rightarrow> handle_pre_vote n src t cand lli llt s
      | PreVoteResponse t voter prospective granted \<Rightarrow> handle_pre_vote_response n t voter prospective granted s
      | RequestVote t cand lli llt \<Rightarrow> handle_request_vote n src t cand lli llt s
      | RequestVoteResponse t voter granted \<Rightarrow> handle_request_vote_response n t voter granted s
      | AppendEntries t leader prev prev_term entries leader_commit \<Rightarrow>
          handle_append_entries n src t leader prev prev_term entries leader_commit s
      | AppendEntriesResponse t follower success match_index \<Rightarrow>
          handle_append_entries_response n t follower success match_index s
      | ForeignPayload name \<Rightarrow> Inl TypeError)"

definition rf_handle_message :: "string \<Rightarrow> 'c raft \<Rightarrow> 'c raft_msg message \<Rightarrow> 'c raft result" where
  "rf_handle_message n s m =
     (let s1 = set_vol n (\<lambda>v. v) s
      in case envelope_check s1 n m of
           (Some reason, claimed) \<Rightarrow>
             Inr (record_app (EvRaftEnvelope n (msg_src m) (msg_dst m)
               (raft_type_name (msg_payload m)) claimed reason) s1)
         | (None, claimed) \<Rightarrow> rf_dispatch n (msg_src m) (msg_payload m) s1)"

section \<open>Crash, restart, construction\<close>

definition rf_handle_crash :: "string \<Rightarrow> 'c raft \<Rightarrow> 'c raft result" where
  "rf_handle_crash n s =
     Inr (if role s n = LEADER then notify_leader_retired n (current_term s n) ''node-crash'' s else s)"

definition rf_handle_restart :: "string \<Rightarrow> 'c raft \<Rightarrow> 'c raft result" where
  "rf_handle_restart n s =
     (let s1 = (case map_of (active_generations s) n of
                  None \<Rightarrow> s | Some (t, g) \<Rightarrow> notify_leader_retired n t ''node-restart'' s)
      in and_then (validate_persistent_log (persistent_state s1 n)) (\<lambda>_.
           let s2 = s1\<lparr>rf_timer_generation := (rf_timer_generation s1)(n := rf_timer_generation s1 n + 1),
                       rf_timer_deadline := (rf_timer_deadline s1)(n := None)\<rparr>;
               s3 = set_vol n (\<lambda>v. v) s2;
               d = persistent_state s3 n;
               s4 = record_app (EvRaftRestart n (current_term s3 n) (voted_for s3 n) (rf_base_index d)
                      (rf_base_term d) (last_log_index s3 n) (last_log_term s3 n)) s3
           in Inr (reset_election_timeout n ''restart'' s4)))"

definition raft_callbacks :: "('c raft_msg, 'c raft) callbacks" where
  "raft_callbacks = \<lparr>on_message = rf_handle_message,
     on_crash = (\<lambda>n. Some (rf_handle_crash n)), on_restart = (\<lambda>n. Some (rf_handle_restart n))\<rparr>"

definition RaftCluster ::
  "('c raft_msg, 'c raft_event, 'c raft_durable, raft_volatile) simulator \<Rightarrow> string list \<Rightarrow>
   (string \<times> int) list option \<Rightarrow> 'c raft result" where
  "RaftCluster sim node_ids election_timeouts =
     (if node_ids = [] then Inl ValueError
      else if card (set node_ids) \<noteq> length node_ids then Inl ValueError
      else if (case election_timeouts of None \<Rightarrow> False | Some ts \<Rightarrow> fst ` set ts \<noteq> set node_ids) then Inl ValueError
      else if (case election_timeouts of None \<Rightarrow> False | Some ts \<Rightarrow> (\<exists>t \<in> snd ` set ts. t \<le> 0)) then Inl ValueError
      else
        (let s = simulator.extend sim (raft.fields node_ids Map.empty 0 [] [] []
                   (\<lambda>n. case election_timeouts of None \<Rightarrow> None | Some ts \<Rightarrow> map_of ts n)
                   (\<lambda>_. 0) (\<lambda>_. None))
         in and_then (for_each (\<lambda>n s. and_then (validate_persistent_log (persistent_state s n)) (\<lambda>_.
                        Inr (set_vol n (\<lambda>v. v) s))) node_ids s) (\<lambda>s1.
            and_then (for_each sim_register node_ids s1) (\<lambda>s2.
              Inr (fold (\<lambda>n. reset_election_timeout n ''initial'') node_ids s2)))))"

end
