(* ===== verification/Raft_Election.thy ===== *)
theory Raft_Election
  imports Raft
begin

text \<open>
  Election Safety of the Raft core over every behaviour of the simulated network, and the
  lemmas behind it. Votes of past terms are not kept by a node; they are read off the trace,
  where \<open>_persist_term_and_vote\<close> records each durable vote (\<open>raft-persist-term-vote\<close>).
\<close>

section \<open>Votes\<close>

definition cast :: "'c raft \<Rightarrow> string \<Rightarrow> int \<Rightarrow> string \<Rightarrow> bool" where
  "cast s n t c \<longleftrightarrow> (\<exists>time. (time, TApp (EvPersistTermVote n t (Some c))) \<in> set (sim_trace s))"

definition elected :: "'c raft \<Rightarrow> int \<Rightarrow> string \<Rightarrow> bool" where
  "elected s t n \<longleftrightarrow> (\<exists>Q. majority (rf_node_ids s) Q \<and> (\<forall>v \<in> Q. cast s v t n))"

section \<open>The invariant\<close>

fun rf_payload_ok :: "'c raft \<Rightarrow> string \<Rightarrow> 'c raft_msg \<Rightarrow> bool" where
  "rf_payload_ok s dst (RequestVote t cand lli llt) \<longleftrightarrow> True"
| "rf_payload_ok s dst (RequestVoteResponse t voter granted) \<longleftrightarrow> (granted \<longrightarrow> cast s voter t dst)"
| "rf_payload_ok s dst (PreVote t cand lli llt) \<longleftrightarrow> 0 < t"
| "rf_payload_ok s dst (PreVoteResponse t voter prospective granted) \<longleftrightarrow> True"
| "rf_payload_ok s dst (AppendEntries t leader prev prev_term entries leader_commit) \<longleftrightarrow>
     0 \<le> prev \<and> 0 \<le> prev_term \<and> 0 \<le> leader_commit \<and> (\<forall>e \<in> set entries. 0 \<le> le_term e)"
| "rf_payload_ok s dst (AppendEntriesResponse t follower success match_index) \<longleftrightarrow> True"
| "rf_payload_ok s dst (ElectionTimeout g deadline) \<longleftrightarrow> True"
| "rf_payload_ok s dst (ForeignPayload name) \<longleftrightarrow> False"

definition rf_message_ok :: "'c raft \<Rightarrow> 'c raft_msg message \<Rightarrow> bool" where
  "rf_message_ok s m \<longleftrightarrow> msg_delivery_dst m = None \<and> msg_dst m \<in> set (rf_node_ids s) \<and>
     set (rf_node_ids s) \<subseteq> set (sim_handlers s) \<and> rf_payload_ok s (msg_dst m) (msg_payload m)"

definition durable_ok :: "'c raft \<Rightarrow> string \<Rightarrow> bool" where
  "durable_ok s n \<longleftrightarrow> 0 \<le> current_term s n \<and> view_ok (log_view s n) \<and>
     (\<forall>t c. cast s n t c \<longrightarrow> t \<le> current_term s n \<and> (t = current_term s n \<longrightarrow> voted_for s n = Some c)) \<and>
     (\<forall>c. voted_for s n = Some c \<longrightarrow> cast s n (current_term s n) c) \<and>
     (\<forall>t c c'. cast s n t c \<longrightarrow> cast s n t c' \<longrightarrow> c = c')"

definition role_ok :: "'c raft \<Rightarrow> string \<Rightarrow> bool" where
  "role_ok s n \<longleftrightarrow>
     (role s n = CANDIDATE \<longrightarrow> rf_votes (vol s n) \<subseteq> {v \<in> set (rf_node_ids s). cast s v (current_term s n) n}) \<and>
     (role s n = LEADER \<longrightarrow> leaders_by_term s (current_term s n) = Some n)"

definition raft_inv :: "'c raft \<Rightarrow> bool" where
  "raft_inv s \<longleftrightarrow> distinct (rf_node_ids s) \<and> set (rf_node_ids s) \<subseteq> set (sim_handlers s) \<and>
     dom (rf_timeout s) \<subseteq> set (rf_node_ids s) \<and>
     (\<forall>n. durable_ok s n) \<and> (\<forall>n. role_ok s n) \<and>
     (\<forall>t n. leaders_by_term s t = Some n \<longrightarrow> elected s t n) \<and>
     (\<forall>d \<in> set (sim_queue s). rf_message_ok s (sd_message d))"

definition rf_evolves :: "'c raft \<Rightarrow> 'c raft \<Rightarrow> bool" where
  "rf_evolves s s' \<longleftrightarrow> rf_node_ids s' = rf_node_ids s \<and> sim_handlers s' = sim_handlers s \<and>
     rf_timeout s' = rf_timeout s \<and>
     set (sim_trace s) \<subseteq> set (sim_trace s') \<and>
     (\<forall>t n. leaders_by_term s t = Some n \<longrightarrow> leaders_by_term s' t = Some n) \<and>
     (\<forall>n. current_term s n \<le> current_term s' n)"

definition rgood :: "'c raft \<Rightarrow> 'c raft \<Rightarrow> bool" where
  "rgood s s' \<longleftrightarrow> raft_inv s' \<and> rf_evolves s s'"

section \<open>Stability\<close>

lemma rf_evolves_refl [simp]: "rf_evolves s s"
  by (simp add: rf_evolves_def)

lemma rf_evolves_trans: "rf_evolves s t \<Longrightarrow> rf_evolves t u \<Longrightarrow> rf_evolves s u"
  unfolding rf_evolves_def by (auto intro: order_trans)

lemma rgood_refl: "raft_inv s \<Longrightarrow> rgood s s"
  by (simp add: rgood_def)

lemma rgood_trans: "rgood s t \<Longrightarrow> rgood t u \<Longrightarrow> rgood s u"
  unfolding rgood_def by (auto intro: rf_evolves_trans)

lemma rgoodD: "rgood s s' \<Longrightarrow> raft_inv s'" "rgood s s' \<Longrightarrow> rf_evolves s s'"
  "rgood s s' \<Longrightarrow> rf_node_ids s' = rf_node_ids s"
  by (simp_all add: rgood_def rf_evolves_def)

lemma outcome_rgood_trans: "rgood s t \<Longrightarrow> outcome E (rgood t) m \<Longrightarrow> outcome E (rgood s) m"
  by (erule outcome_weaken) (rule rgood_trans)

lemma cast_stable: "rf_evolves s s' \<Longrightarrow> cast s n t c \<Longrightarrow> cast s' n t c"
  unfolding rf_evolves_def cast_def by blast

lemma elected_stable: "rf_evolves s s' \<Longrightarrow> elected s t n \<Longrightarrow> elected s' t n"
  unfolding elected_def using cast_stable by (metis rf_evolves_def)

lemma rf_payload_stable: "rf_evolves s s' \<Longrightarrow> rf_payload_ok s dst m \<Longrightarrow> rf_payload_ok s' dst m"
  by (cases m) (auto intro: cast_stable)

lemma rf_message_stable: "rf_evolves s s' \<Longrightarrow> rf_message_ok s m \<Longrightarrow> rf_message_ok s' m"
  unfolding rf_message_ok_def by (auto intro: rf_payload_stable simp: rf_evolves_def)

lemma raft_invD:
  assumes "raft_inv s"
  shows "distinct (rf_node_ids s)" "set (rf_node_ids s) \<subseteq> set (sim_handlers s)"
    "durable_ok s n" "role_ok s n" "leaders_by_term s t = Some n \<Longrightarrow> elected s t n"
    "d \<in> set (sim_queue s) \<Longrightarrow> rf_message_ok s (sd_message d)"
    "0 \<le> current_term s n" "view_ok (log_view s n)" "dom (rf_timeout s) \<subseteq> set (rf_node_ids s)"
  using assms unfolding raft_inv_def durable_ok_def by blast+

text \<open>Election Safety proper: two majorities of one term share a voter, who voted once.\<close>

lemma elected_unique:
  assumes "raft_inv s" and "elected s t n" and "elected s t m"
  shows "n = m"
proof -
  obtain P Q where "majority (rf_node_ids s) P" "\<And>v. v \<in> P \<Longrightarrow> cast s v t n"
    "majority (rf_node_ids s) Q" "\<And>v. v \<in> Q \<Longrightarrow> cast s v t m"
    using assms(2,3) unfolding elected_def by blast
  then obtain v where "cast s v t n" "cast s v t m" using maj.quorum_meet by blast
  then show ?thesis using raft_invD(3)[OF assms(1), of v] unfolding durable_ok_def by blast
qed

text \<open>The invariant along an evolution, once the touched node is accounted for.\<close>

lemma rgood_intro:
  assumes inv: "raft_inv s" and ev: "rf_evolves s s'"
    and durable: "\<And>n. durable_ok s' n" and role: "\<And>n. role_ok s' n"
    and lead: "\<And>t n. leaders_by_term s' t = Some n \<Longrightarrow> leaders_by_term s t = Some n \<or> elected s' t n"
    and queue: "\<And>d. d \<in> set (sim_queue s') \<Longrightarrow> d \<in> set (sim_queue s) \<or> rf_message_ok s' (sd_message d)"
  shows "rgood s s'"
proof -
  have "elected s' t n" if "leaders_by_term s' t = Some n" for t n
    using lead[OF that] raft_invD(5)[OF inv] elected_stable[OF ev] by blast
  moreover have "rf_message_ok s' (sd_message d)" if "d \<in> set (sim_queue s')" for d
    using queue[OF that] raft_invD(6)[OF inv] rf_message_stable[OF ev] by blast
  moreover have "distinct (rf_node_ids s')" "set (rf_node_ids s') \<subseteq> set (sim_handlers s')"
      "dom (rf_timeout s') \<subseteq> set (rf_node_ids s')"
    using raft_invD(1,2,9)[OF inv] ev by (auto simp: rf_evolves_def)
  ultimately have "raft_inv s'" using durable role unfolding raft_inv_def by blast
  with ev show ?thesis by (simp add: rgood_def)
qed

text \<open>Changes outside the durable records, the volatile records, the leader table and the votes.\<close>

lemma rf_frame:
  assumes inv: "raft_inv s" and same: "rf_node_ids s' = rf_node_ids s" "sim_handlers s' = sim_handlers s"
      "persistent_state s' = persistent_state s" "vol s' = vol s" "leaders_by_term s' = leaders_by_term s"
      "rf_timeout s' = rf_timeout s"
    and trace: "set (sim_trace s) \<subseteq> set (sim_trace s')" and cast: "\<And>n t c. cast s' n t c = cast s n t c"
    and queue: "\<And>d. d \<in> set (sim_queue s') \<Longrightarrow> d \<in> set (sim_queue s) \<or> rf_message_ok s (sd_message d)"
  shows "rgood s s'"
proof (rule rgood_intro[OF inv])
  have terms: "current_term s' n = current_term s n" "voted_for s' n = voted_for s n" "role s' n = role s n" for n
    by (simp_all add: current_term_def voted_for_def role_def same)
  show ev: "rf_evolves s s'" using same trace by (simp add: rf_evolves_def terms)
  show "durable_ok s' n" for n
    using raft_invD(3)[OF inv, of n] unfolding durable_ok_def cast terms same .
  show "role_ok s' n" for n using raft_invD(4)[OF inv, of n] unfolding role_ok_def cast terms same .
  show "d \<in> set (sim_queue s) \<or> rf_message_ok s' (sd_message d)" if "d \<in> set (sim_queue s')" for d
    using queue[OF that] rf_message_stable[OF ev] by blast
qed (simp add: same)

lemma raft_views [simp]:
  "current_term (record_event ev s) n = current_term s n"
  "voted_for (record_event ev s) n = voted_for s n"
  "vol (record_event ev s) n = vol s n"
  "role (record_event ev s) n = role s n"
  "commit_index (record_event ev s) n = commit_index s n"
  "rf_node_ids (record_event ev s) = rf_node_ids s"
  "leaders_by_term (record_event ev s) = leaders_by_term s"
  "active_generations (record_event ev s) = active_generations s"
  "rf_timeout (record_event ev s) = rf_timeout s"
  by (simp_all add: current_term_def voted_for_def vol_def role_def commit_index_def record_event_def)

lemma vol_views [simp]:
  "current_term (set_vol k f s) n = current_term s n"
  "voted_for (set_vol k f s) n = voted_for s n"
  "vol (set_vol k f s) n = (if n = k then f (vol s k) else vol s n)"
  "role (set_vol k f s) n = (if n = k then rf_role (f (vol s k)) else role s n)"
  "persistent_state (set_vol k f s) = persistent_state s"
  "rf_node_ids (set_vol k f s) = rf_node_ids s"
  "sim_handlers (set_vol k f s) = sim_handlers s"
  "sim_trace (set_vol k f s) = sim_trace s"
  "sim_queue (set_vol k f s) = sim_queue s"
  "sim_alive (set_vol k f s) = sim_alive s"
  "sim_time (set_vol k f s) = sim_time s"
  "leaders_by_term (set_vol k f s) = leaders_by_term s"
  "active_generations (set_vol k f s) = active_generations s"
  "rf_timeout (set_vol k f s) = rf_timeout s"
  "cast (set_vol k f s) n t c = cast s n t c"
  by (simp_all add: set_vol_def current_term_def voted_for_def vol_def role_def cast_def)

lemma cast_record [simp]:
  "cast (record_event ev s) n t c \<longleftrightarrow> cast s n t c \<or> ev = TApp (EvPersistTermVote n t (Some c))"
  by (auto simp: cast_def)

section \<open>Building blocks\<close>

lemma rf_record:
  assumes "raft_inv s" and "\<And>n t c. ev \<noteq> TApp (EvPersistTermVote n t (Some c))"
  shows "rgood s (record_event ev s)"
  using assms by (intro rf_frame) (auto simp: fun_eq_iff)

lemma rf_send:
  assumes "raft_inv s" and "rf_payload_ok s dst m" and "dst \<in> set (rf_node_ids s)"
  shows "outcome {} (rgood s) (send_msg n dst m s)"
proof (rule outcome_weaken[OF sent_outcome])
  fix s' assume sent: "sent n dst m s s'"
  then obtain sq q os tr where
    s': "s' = s\<lparr>sim_sequence := sq, sim_queue := q, send_ordinals := os, sim_trace := sim_trace s @ tr\<rparr>"
    and tr: "\<And>x e. x \<in> set tr \<Longrightarrow> snd x \<noteq> TApp e"
    unfolding sent_def by (blast elim: core_frameE)
  have "cast s' k t c = cast s k t c" for k t c using tr by (force simp: s' cast_def)
  moreover have "vol s' = vol s" by (simp add: s' vol_def fun_eq_iff)
  ultimately show "rgood s s'"
    using assms sent raft_invD(2)[OF assms(1)]
    by (intro rf_frame) (auto simp: s' sent_def rf_message_ok_def)
qed

lemma rf_broadcast:
  assumes "raft_inv s" and "\<And>dst. rf_payload_ok s dst m"
  shows "outcome {} (rgood s) (for_each (\<lambda>peer. send_msg n peer m) (rf_peers s k) s)"
proof (rule outcome_for_each)
  show "rgood s s" using assms(1) by (rule rgood_refl)
next
  fix peer t assume "peer \<in> set (rf_peers s k)" and t: "rgood s t"
  then have "rf_payload_ok t peer m" "peer \<in> set (rf_node_ids t)"
    using assms(2) rf_payload_stable[OF rgoodD(2)[OF t]] rgoodD(3)[OF t] by (auto simp: rf_peers_def)
  then show "outcome {} (rgood s) (send_msg n peer m t)"
    using rf_send[OF rgoodD(1)[OF t]] outcome_rgood_trans[OF t] by blast
qed

lemma rf_reset_timeout:
  assumes "raft_inv s"
  shows "rgood s (reset_election_timeout n reason s)"
proof (cases "rf_timeout s n = None \<or> role s n = LEADER")
  case True
  then show ?thesis using rgood_refl[OF assms] by (auto simp: reset_election_timeout_def split: option.split)
next
  case False
  then obtain d where d: "rf_timeout s n = Some d" "role s n \<noteq> LEADER" by auto
  let ?g = "rf_timer_generation s n + 1" and ?dl = "sim_time s + d"
  let ?s1 = "s\<lparr>rf_timer_generation := (rf_timer_generation s)(n := ?g),
    rf_timer_deadline := (rf_timer_deadline s)(n := Some ?dl)\<rparr>"
  let ?m = "\<lparr>msg_src = n, msg_dst = n, msg_payload = ElectionTimeout ?g (Some ?dl), msg_ordinal = 0, msg_delivery_dst = None\<rparr>"
  let ?s2 = "record_app (EvTimeoutReset n ?g ?dl reason) ?s1"
  have "n \<in> set (rf_node_ids s)" using raft_invD(9)[OF assms] d(1) by blast
  then have "rgood s (sim_schedule ?m d ?s2)"
  proof (intro rf_frame[OF assms])
    show "cast (sim_schedule ?m d ?s2) k t c = cast s k t c" for k t c
      by (auto simp: sim_schedule_def Let_def cast_def)
    show "vol (sim_schedule ?m d ?s2) = vol s" by (simp add: vol_def fun_eq_iff)
    show "e \<in> set (sim_queue s) \<or> rf_message_ok s (sd_message e)"
      if "e \<in> set (sim_queue (sim_schedule ?m d ?s2))" for e
      using sim_queue_schedule[OF that] raft_invD(2)[OF assms] \<open>n \<in> set (rf_node_ids s)\<close> by (auto simp: rf_message_ok_def)
  qed (auto simp: sim_schedule_def Let_def)
  then show ?thesis using d by (simp add: reset_election_timeout_def Let_def)
qed

lemma rf_set_vol:
  assumes inv: "raft_inv s"
    and cand: "rf_role (f (vol s n)) = CANDIDATE \<Longrightarrow>
      rf_votes (f (vol s n)) \<subseteq> {v \<in> set (rf_node_ids s). cast s v (current_term s n) n}"
    and lead: "rf_role (f (vol s n)) = LEADER \<Longrightarrow> leaders_by_term s (current_term s n) = Some n"
  shows "rgood s (set_vol n f s)"
proof (rule rgood_intro[OF inv])
  show "rf_evolves s (set_vol n f s)" by (simp add: rf_evolves_def)
  show "durable_ok (set_vol n f s) k" for k using raft_invD(3)[OF inv, of k] by (simp add: durable_ok_def)
  show "role_ok (set_vol n f s) k" for k
    using raft_invD(4)[OF inv, of k] cand lead by (simp add: role_ok_def)
qed simp_all

lemma rf_set_vol_same_role:
  assumes "raft_inv s" and "\<And>v. rf_role (f v) = rf_role v" and "\<And>v. rf_votes (f v) = rf_votes v"
  shows "rgood s (set_vol n f s)"
  using raft_invD(4)[OF assms(1), of n] assms(2,3)
  by (intro rf_set_vol[OF assms(1)]) (simp_all add: role_ok_def role_def)

lemma rf_clear_pre_vote: "raft_inv s \<Longrightarrow> rgood s (clear_pre_vote n s)"
  unfolding clear_pre_vote_def by (rule rf_set_vol_same_role) simp_all

lemma rf_notify: "raft_inv s \<Longrightarrow> rgood s (notify ev s)"
  unfolding notify_def by (intro rf_frame) (auto simp: vol_def cast_def fun_eq_iff)

lemma rf_active: "raft_inv s \<Longrightarrow> rgood s (s\<lparr>active_generations := a\<rparr>)"
  "raft_inv s \<Longrightarrow> rgood s (s\<lparr>leadership_generation := g, active_generations := a\<rparr>)"
  "raft_inv s \<Longrightarrow> rgood s (s\<lparr>rf_timer_generation := x, rf_timer_deadline := y\<rparr>)"
  by (intro rf_frame; auto simp: vol_def cast_def fun_eq_iff)+

lemma rgood_step: "rgood s t \<Longrightarrow> (raft_inv t \<Longrightarrow> rgood t u) \<Longrightarrow> rgood s u"
  using rgood_trans rgoodD(1) by blast

lemma rf_notify_retired:
  assumes inv: "raft_inv s"
  shows "rgood s (notify_leader_retired n t reason s)"
proof -
  have "rgood s (notify ev (record_app (EvLeaderRetired n t g reason) (s\<lparr>active_generations := a\<rparr>)))" for ev g a
    by (rule rgood_step[OF rgood_step[OF rf_active(1)[OF inv] rf_record] rf_notify]) auto
  then show ?thesis
    using rgood_refl[OF inv] by (auto simp: notify_leader_retired_def split: option.split)
qed

lemma rf_notify_acquired:
  assumes inv: "raft_inv s"
  shows "rgood s (notify_leader_acquired n t reason s)"
proof -
  have *: "rgood s' (notify ev (record_app (EvLeaderAcquired n t g reason)
      (s'\<lparr>leadership_generation := h, active_generations := a\<rparr>)))" if "raft_inv s'" for s' :: "'a raft" and ev g h a
    by (rule rgood_step[OF rgood_step[OF rf_active(2)[OF that] rf_record] rf_notify]) auto
  note r = rf_notify_retired[OF inv]
  show ?thesis
    unfolding notify_leader_acquired_def Let_def
    using *[OF inv] rgood_trans[OF r *[OF rgoodD(1)[OF r]]] rgood_refl[OF inv]
    by (simp split: option.split)
qed

section \<open>Votes and terms\<close>

text \<open>A durable vote together with the role change that follows it: the term does not go back,
  a vote of the current term is not replaced by another, and the node ends as a follower or as a
  candidate that holds its own vote only.\<close>

lemma rf_vote:
  assumes inv: "raft_inv s" and ids: "n \<in> set (rf_node_ids s)"
    and t: "current_term s n < t \<or> t = current_term s n \<and> v \<noteq> None \<and> (voted_for s n = None \<or> voted_for s n = v)"
    and role: "rf_role (f (vol s n)) = FOLLOWER \<or> v = Some n \<and> rf_role (f (vol s n)) = CANDIDATE \<and> rf_votes (f (vol s n)) = {n}"
  shows "rgood s (set_vol n f (persist_term_and_vote n t v s))" 
proof -
  define s' where "s' = set_vol n f (persist_term_and_vote n t v s)"
  have ct: "current_term s' k = (if k = n then t else current_term s k)" for k
    by (simp add: s'_def persist_term_and_vote_def current_term_def)
  have vf: "voted_for s' k = (if k = n then v else voted_for s k)" for k
    by (simp add: s'_def persist_term_and_vote_def voted_for_def)
  have ca: "cast s' k u c \<longleftrightarrow> cast s k u c \<or> k = n \<and> u = t \<and> v = Some c" for k u c
    by (auto simp: s'_def persist_term_and_vote_def cast_def)
  have lv: "log_view s' k = log_view s k" for k
    by (simp add: s'_def persist_term_and_vote_def log_view_of_def)
  have vl: "vol s' k = (if k = n then f (vol s n) else vol s k)" for k
    by (simp add: s'_def persist_term_and_vote_def vol_def set_vol_def)
  have rest: "rf_node_ids s' = rf_node_ids s" "sim_handlers s' = sim_handlers s"
    "leaders_by_term s' = leaders_by_term s" "sim_queue s' = sim_queue s" "rf_timeout s' = rf_timeout s"
    by (simp_all add: s'_def persist_term_and_vote_def set_durable_def)
  have "set (sim_trace s) \<subseteq> set (sim_trace s')" by (auto simp: s'_def persist_term_and_vote_def)
  then have ev: "rf_evolves s s'" using t unfolding rf_evolves_def ct rest by auto
  note dn = raft_invD(3)[OF inv, of n, unfolded durable_ok_def]
  have "rgood s s'"
  proof (rule rgood_intro[OF inv ev])
    show "durable_ok s' k" for k
    proof (cases "k = n")
      case False
      then show ?thesis using raft_invD(3)[OF inv, of k] by (simp add: durable_ok_def ct vf ca lv)
    next
      case True
      have old: "u \<le> t \<and> (u = t \<longrightarrow> v = Some c)" if "cast s n u c" for u c
      proof -
        have "u \<le> current_term s n" "u = current_term s n \<Longrightarrow> voted_for s n = Some c" using dn that by blast+
        then show ?thesis using t by auto
      qed
      have one: "c = c'" if "cast s n u c \<or> u = t \<and> v = Some c" "cast s n u c' \<or> u = t \<and> v = Some c'" for u c c'
      proof -
        have "c = c'" if "cast s n u c" "cast s n u c'" using dn that by blast
        moreover have "c = c'" if "v = Some c" "v = Some c'" using that by simp
        ultimately show ?thesis using that old[of u c] old[of u c'] by blast
      qed
      show ?thesis unfolding True durable_ok_def ct vf ca lv
        using dn t old one by auto
    qed
    show "role_ok s' k" for k
    proof (cases "k = n")
      case False
      have "role s' k = role s k" using False by (simp add: role_def vl)
      then show ?thesis using False raft_invD(4)[OF inv, of k] by (auto simp: role_ok_def ct ca vl rest)
    next
      case True
      have "role s' n = rf_role (f (vol s n))" "vol s' n = f (vol s n)" by (simp_all add: role_def vl)
      with role show ?thesis unfolding True role_ok_def ct ca rest
      proof (elim disjE conjE)
        assume "v = Some n" "rf_votes (f (vol s n)) = {n}" "rf_role (f (vol s n)) = CANDIDATE"
          "role s' n = rf_role (f (vol s n))" "vol s' n = f (vol s n)"
        then show "(role s' n = CANDIDATE \<longrightarrow> rf_votes (vol s' n) \<subseteq>
            {w \<in> set (rf_node_ids s). cast s w (if n = n then t else current_term s n) n \<or>
              w = n \<and> (if n = n then t else current_term s n) = t \<and> v = Some n}) \<and>
          (role s' n = LEADER \<longrightarrow> leaders_by_term s (if n = n then t else current_term s n) = Some n)"
          using ids by simp
      qed simp
    qed
    show "leaders_by_term s u = Some k \<or> elected s' u k" if "leaders_by_term s' u = Some k" for u k
      using that by (simp add: rest)
    show "d \<in> set (sim_queue s) \<or> rf_message_ok s' (sd_message d)" if "d \<in> set (sim_queue s')" for d
      using that by (simp add: rest)
  qed
  then show ?thesis by (simp only: s'_def)
qed

lemma rf_advance_term:
  assumes inv: "raft_inv s" and ids: "n \<in> set (rf_node_ids s)"
  shows "rgood s (advance_term n t rearm s)"
proof (cases "t \<le> current_term s n")
  case True
  then show ?thesis using rgood_refl[OF inv] by (simp add: advance_term_def)
next
  case False
  let ?s2 = "set_vol n (\<lambda>v. v\<lparr>rf_role := FOLLOWER, rf_votes := {}\<rparr>) (persist_term_and_vote n t None s)"
  have g2: "rgood s ?s2" using False by (intro rf_vote[OF inv ids]) auto
  have g3: "rgood s (clear_pre_vote n ?s2)" by (rule rgood_step[OF g2 rf_clear_pre_vote])
  define s4 where "s4 = (if role s n = LEADER
    then notify_leader_retired n (current_term s n) ''higher-term-observed'' (clear_pre_vote n ?s2) else clear_pre_vote n ?s2)"
  have g4: "rgood s s4" using g3 rgood_step[OF g3 rf_notify_retired] by (simp add: s4_def)
  have g5: "rgood s (record_app (EvTermAdvance n t) s4)" by (rule rgood_step[OF g4 rf_record]) auto
  have g6: "rgood s (reset_election_timeout n ''term-advance'' (record_app (EvTermAdvance n t) s4))"
    by (rule rgood_step[OF g5 rf_reset_timeout])
  show ?thesis using False g5 g6 unfolding s4_def by (cases "role s n = LEADER") (simp_all add: advance_term_def Let_def)
qed

lemma current_term_notify [simp]: "current_term (notify ev s) n = current_term s n"
  "current_term (notify_leader_retired k t r s) n = current_term s n"
  "current_term (clear_pre_vote k s) n = current_term s n"
  "current_term (reset_election_timeout k r s) n = current_term s n"
  by (simp_all add: notify_def notify_leader_retired_def clear_pre_vote_def reset_election_timeout_def
      current_term_def Let_def split: option.split)

lemma current_term_advance: "current_term s n < t \<Longrightarrow> current_term (advance_term n t r s) n = t"
  by (simp add: advance_term_def Let_def) (simp add: persist_term_and_vote_def current_term_def)

section \<open>Winning an election\<close>

lemma rf_become_leader:
  assumes inv: "raft_inv s" and ids: "n \<in> set (rf_node_ids s)"
    and maj: "role s n = CANDIDATE \<Longrightarrow> has_majority s (card (rf_votes (vol s n)))"
  shows "outcome {} (rgood s) (become_leader n t s)"
proof (cases "t \<noteq> current_term s n \<or> role s n \<noteq> CANDIDATE")
  case True
  then show ?thesis using rgood_refl[OF inv] by (simp add: become_leader_def)
next
  case False
  then have t: "t = current_term s n" and cand: "role s n = CANDIDATE" by auto
  have el: "elected s t n"
    using raft_invD(4)[OF inv, of n] maj[OF cand] cand t
    unfolding elected_def majority_def has_majority_def role_ok_def by blast
  let ?s1 = "s\<lparr>leaders_by_term := (leaders_by_term s)(t \<mapsto> n)\<rparr>"
  have uniq: "m = n" if "leaders_by_term s t = Some m" for m
    using elected_unique[OF inv el] raft_invD(5)[OF inv that] by blast
  then have rec: "record_leader t n s = Inr ?s1" by (auto simp: record_leader_def split: option.split)
  have g1: "rgood s ?s1"
  proof (rule rgood_intro[OF inv])
    show ev: "rf_evolves s ?s1" using uniq by (auto simp: rf_evolves_def current_term_def)
    show "durable_ok ?s1 k" for k
      using raft_invD(3)[OF inv, of k] by (simp add: durable_ok_def current_term_def voted_for_def cast_def)
    show "role_ok ?s1 k" for k
      using raft_invD(4)[OF inv, of k] uniq t
      by (auto simp: role_ok_def role_def vol_def current_term_def cast_def)
    show "leaders_by_term s u = Some k \<or> elected ?s1 u k" if "leaders_by_term ?s1 u = Some k" for u k
      using that el elected_stable[OF ev] by (auto split: if_splits)
  qed simp
  have g2: "rgood s (set_vol n (\<lambda>v. v\<lparr>rf_role := LEADER\<rparr>) ?s1)"
    by (rule rgood_step[OF g1 rf_set_vol]) (auto simp: t current_term_def)
  note g3 = rgood_step[OF g2 rf_clear_pre_vote]
  note g4 = rgood_step[OF g3 rf_active(3)]
  have g5: "rgood s (record_app (EvLeader n t) ((clear_pre_vote n (set_vol n (\<lambda>v. v\<lparr>rf_role := LEADER\<rparr>) ?s1))
      \<lparr>rf_timer_generation := x, rf_timer_deadline := y\<rparr>))" for x y
    by (rule rgood_step[OF g4 rf_record]) auto
  show ?thesis using False rec rgood_step[OF g5 rf_notify_acquired] by (simp add: become_leader_def Let_def)
qed

lemma alive_views [simp]:
  "is_alive (record_event ev s) n = is_alive s n"
  "is_alive (set_vol k f s) n = is_alive s n"
  "is_alive (clear_pre_vote k s) n = is_alive s n"
  by (simp_all add: is_alive_def record_event_def set_vol_def clear_pre_vote_def)

lemma persist_votes [simp]:
  "rf_node_ids (persist_term_and_vote n t v s) = rf_node_ids s"
  "vol (persist_term_and_vote n t v s) = vol s"
  by (simp_all add: persist_term_and_vote_def set_durable_def vol_def record_event_def fun_eq_iff)

lemma timeout_views [simp]:
  "rf_node_ids (reset_election_timeout n r s) = rf_node_ids s"
  "vol (reset_election_timeout n r s) = vol s"
  "role (reset_election_timeout n r s) k = role s k"
  "persistent_state (reset_election_timeout n r s) = persistent_state s"
  by (auto simp: reset_election_timeout_def Let_def sim_schedule_def vol_def role_def record_event_def fun_eq_iff
      split: option.split)

lemma requests_made:
  assumes "raft_inv s"
  shows "make_request_vote (current_term s n + 1) c (last_log_index s k) (last_log_term s k) =
      Inr (RequestVote (current_term s n + 1) c (last_log_index s k) (last_log_term s k))"
    "make_pre_vote (current_term s n + 1) c (last_log_index s k) (last_log_term s k) =
      Inr (PreVote (current_term s n + 1) c (last_log_index s k) (last_log_term s k))"
  using raft_invD(7)[OF assms, of n] last_index_nonneg[OF raft_invD(8)[OF assms, of k]]
    last_term_nonneg[OF raft_invD(8)[OF assms, of k]]
  by (simp_all add: make_request_vote_def make_pre_vote_def last_log_index_def last_log_term_def)

lemma rf_start_election:
  assumes inv: "raft_inv s" and ids: "n \<in> set (rf_node_ids s)" and alive: "is_alive s n"
  shows "outcome {} (rgood s) (start_election n s)"
proof -
  define s1 where "s1 = clear_pre_vote n s"
  define t where "t = current_term s1 n + 1"
  define s3 where "s3 = set_vol n (\<lambda>v. v\<lparr>rf_role := CANDIDATE, rf_votes := {n}\<rparr>) (persist_term_and_vote n t (Some n) s1)"
  define s4 where "s4 = record_app (EvElectionStart n t (last_log_index s3 n) (last_log_term s3 n)) s3"
  define s5 where "s5 = reset_election_timeout n ''election-start'' s4"
  have g1: "rgood s s1" unfolding s1_def by (rule rf_clear_pre_vote[OF inv])
  have i1: "n \<in> set (rf_node_ids s1)" using ids rgoodD(3)[OF g1] by simp
  have g3: "rgood s1 s3" unfolding s3_def by (rule rf_vote[OF rgoodD(1)[OF g1] i1]) (auto simp: t_def)
  have g4: "rgood s3 s4" unfolding s4_def by (rule rf_record[OF rgoodD(1)[OF g3]]) auto
  have i4: "n \<in> set (rf_node_ids s4)" using i1 rgoodD(3)[OF g3] rgoodD(3)[OF g4] by simp
  have g5: "rgood s4 s5" unfolding s5_def by (rule rf_reset_timeout[OF rgoodD(1)[OF g4]])
  have gs: "rgood s s5" using g1 g3 g4 g5 by (blast intro: rgood_trans)
  note i5 = rgoodD(1)[OF gs]
  have n5: "n \<in> set (rf_node_ids s5)" using ids rgoodD(3)[OF gs] by simp
  have "vol s5 n = (vol s1 n)\<lparr>rf_role := CANDIDATE, rf_votes := {n}\<rparr>" by (simp add: s5_def s4_def s3_def)
  then have lead: "has_majority s5 1 \<Longrightarrow> outcome {} (rgood s5) (become_leader n t s5)"
    by (intro rf_become_leader[OF i5 n5]) simp
  have ct: "t = current_term s1 n + 1" by (simp add: t_def)
  have "current_term s5 n = t" by (simp add: s5_def s4_def s3_def persist_term_and_vote_def current_term_def)
  then have "0 \<le> t" using raft_invD(7)[OF i5, of n] by simp
  then have req: "make_request_vote t n (last_log_index s5 n) (last_log_term s5 n) =
      (Inr (RequestVote t n (last_log_index s5 n) (last_log_term s5 n)) :: 'a raft_msg result)"
    using last_index_nonneg[OF raft_invD(8)[OF i5, of n]] last_term_nonneg[OF raft_invD(8)[OF i5, of n]]
    by (simp add: make_request_vote_def last_log_index_def last_log_term_def)
  have bc: "outcome {} (rgood s5) (for_each (\<lambda>peer. send_msg n peer (RequestVote t n (last_log_index s5 n) (last_log_term s5 n)))
      (rf_peers s5 n) s5)"
    by (rule rf_broadcast[OF i5]) simp
  have "start_election n s = (if has_majority s5 1 then become_leader n t s5
      else and_then (make_request_vote t n (last_log_index s5 n) (last_log_term s5 n)) (\<lambda>request.
        for_each (\<lambda>peer. send_msg n peer request) (rf_peers s5 n) s5))"
    using alive unfolding start_election_def Let_def
    by (simp only: s1_def[symmetric] t_def[symmetric] s3_def[symmetric] s4_def[symmetric] s5_def[symmetric] not_True_eq_False if_False)
  then show ?thesis using outcome_rgood_trans[OF gs lead] outcome_rgood_trans[OF gs bc] req by simp
qed

lemma rf_start_pre_vote:
  assumes inv: "raft_inv s" and ids: "n \<in> set (rf_node_ids s)" and alive: "is_alive s n"
  shows "outcome {} (rgood s) (start_pre_vote n s)"
proof (cases "role s n = LEADER")
  case True
  then show ?thesis using alive rgood_refl[OF inv] by (simp add: start_pre_vote_def)
next
  case False
  define p where "p = current_term s n + 1"
  define s1 where "s1 = set_vol n (\<lambda>v. v\<lparr>rf_pre_vote_term := Some p, rf_pre_votes := {n}\<rparr>) s"
  define s2 where "s2 = record_app (EvPreVoteStart n p (current_term s1 n) (last_log_index s1 n) (last_log_term s1 n)) s1"
  define s3 where "s3 = reset_election_timeout n ''pre-vote-start'' s2"
  have g1: "rgood s s1" unfolding s1_def by (rule rf_set_vol_same_role[OF inv]) auto
  have g2: "rgood s s2" unfolding s2_def by (rule rgood_step[OF g1 rf_record]) auto
  have n2: "n \<in> set (rf_node_ids s2)" using ids rgoodD(3)[OF g2] by simp
  have gc: "rgood s (clear_pre_vote n s2)" by (rule rgood_step[OF g2 rf_clear_pre_vote])
  have "is_alive (clear_pre_vote n s2) n" using alive by (simp add: s2_def s1_def)
  then have el: "outcome {} (rgood s) (start_election n (clear_pre_vote n s2))"
    using rf_start_election[OF rgoodD(1)[OF gc]] ids rgoodD(3)[OF gc] by (intro outcome_rgood_trans[OF gc]) simp
  have g3: "rgood s s3" unfolding s3_def by (rule rgood_step[OF g2 rf_reset_timeout])
  have p3: "p = current_term s3 n + 1" by (simp add: p_def s3_def s2_def s1_def)
  have req: "make_pre_vote p n (last_log_index s3 n) (last_log_term s3 n) =
      (Inr (PreVote p n (last_log_index s3 n) (last_log_term s3 n)) :: 'a raft_msg result)"
    unfolding p3 by (rule requests_made(2)[OF rgoodD(1)[OF g3]])
  have "0 < p" using raft_invD(7)[OF inv, of n] by (simp add: p_def)
  then have bc: "outcome {} (rgood s) (for_each (\<lambda>peer. send_msg n peer (PreVote p n (last_log_index s3 n) (last_log_term s3 n)))
      (rf_peers s3 n) s3)"
    by (intro outcome_rgood_trans[OF g3 rf_broadcast[OF rgoodD(1)[OF g3]]]) simp
  have "start_pre_vote n s = (if has_majority s2 1 then start_election n (clear_pre_vote n s2)
      else and_then (make_pre_vote p n (last_log_index s3 n) (last_log_term s3 n)) (\<lambda>request.
        for_each (\<lambda>peer. send_msg n peer request) (rf_peers s3 n) s3))"
    using alive False unfolding start_pre_vote_def Let_def
    by (simp only: p_def[symmetric] s1_def[symmetric] s2_def[symmetric] s3_def[symmetric] not_True_eq_False if_False)
  then show ?thesis using el bc req by simp
qed

section \<open>Handlers\<close>

lemma rf_handle_timeout:
  assumes "raft_inv s" and "n \<in> set (rf_node_ids s)" and "is_alive s n"
  shows "outcome {} (rgood s) (handle_election_timeout n g deadline s)"
proof -
  have rec: "rgood s (record_app ev s)" if "\<And>n t c. ev \<noteq> EvPersistTermVote n t (Some c)" for ev
    using assms(1) that by (intro rf_record) auto
  let ?s1 = "record_app (EvTimeout n g) s"
  have g: "rgood s ?s1" by (rule rec) simp
  have "outcome {} (rgood s) (start_pre_vote n ?s1)"
    using assms by (intro outcome_rgood_trans[OF g rf_start_pre_vote[OF rgoodD(1)[OF g]]]) simp_all
  then show ?thesis
    using rec rgood_refl[OF assms(1)] by (auto simp: handle_election_timeout_def Let_def)
qed

lemma rf_handle_pre_vote:
  assumes "raft_inv s" and "src \<in> set (rf_node_ids s)" and "0 < t"
  shows "outcome {} (rgood s) (handle_pre_vote n src t cand lli llt s)"
proof -
  have g: "rgood s (record_app (EvPreVote n cand t x grant u lli llt a b) s)" for x grant u a b
    using assms(1) by (intro rf_record) auto
  have "0 \<le> current_term s n" by (rule raft_invD(7)[OF assms(1)])
  moreover have "outcome {} (rgood s) (send_msg n src (PreVoteResponse ct n t gr)
      (record_app (EvPreVote n cand t x grant u lli llt a b) s))" for ct gr x grant u a b
    using assms(2) rgoodD(3)[OF g] by (intro outcome_rgood_trans[OF g rf_send[OF rgoodD(1)[OF g]]]) simp_all
  ultimately show ?thesis using assms(3) by (simp add: handle_pre_vote_def Let_def make_pre_vote_response_def)
qed

lemma rf_handle_pre_vote_response:
  assumes inv: "raft_inv s" and ids: "n \<in> set (rf_node_ids s)" and alive: "is_alive s n"
  shows "outcome {} (rgood s) (handle_pre_vote_response n t voter p granted s)"
proof -
  define s1 where "s1 = set_vol n (\<lambda>v. v\<lparr>rf_pre_votes := insert voter (rf_pre_votes v)\<rparr>) s"
  have g1: "rgood s s1" unfolding s1_def by (rule rf_set_vol_same_role[OF inv]) auto
  have gc: "rgood s (clear_pre_vote n s1)" by (rule rgood_step[OF g1 rf_clear_pre_vote])
  have "outcome {} (rgood s) (start_election n (clear_pre_vote n s1))"
    using alive ids rgoodD(3)[OF gc]
    by (intro outcome_rgood_trans[OF gc rf_start_election[OF rgoodD(1)[OF gc]]]) (simp_all add: s1_def)
  then show ?thesis
    using g1 rgood_refl[OF inv] rf_advance_term[OF inv ids]
    by (simp add: handle_pre_vote_response_def Let_def flip: s1_def)
qed

lemma rf_handle_request_vote:
  assumes inv: "raft_inv s" and ids: "n \<in> set (rf_node_ids s)" and src: "cand \<in> set (rf_node_ids s)"
  shows "outcome {} (rgood s) (handle_request_vote n cand t cand lli llt s)"
proof -
  define s1 where "s1 = (if t > current_term s n then advance_term n t False s else s)"
  define up where "up = candidate_log_is_up_to_date s1 n lli llt"
  define grant where "grant = (t = current_term s1 n \<and> up \<and> (voted_for s1 n = None \<or> voted_for s1 n = Some cand))"
  define sv where "sv = set_vol n (\<lambda>v. v\<lparr>rf_role := FOLLOWER\<rparr>) (persist_term_and_vote n t (Some cand) s1)"
  define s2 where "s2 = (if grant then reset_election_timeout n ''vote-granted'' (clear_pre_vote n sv) else s1)"
  define s3 where "s3 = (if (role s n = LEADER \<and> t > current_term s n) \<and> \<not> grant
    then reset_election_timeout n ''higher-term-vote-rejected'' s2 else s2)"
  define s4 where "s4 = record_app (EvVote n cand t grant up lli llt (last_log_index s3 n) (last_log_term s3 n)) s3"
  have g1: "rgood s s1" using rf_advance_term[OF inv ids] rgood_refl[OF inv] by (simp add: s1_def)
  have n1: "n \<in> set (rf_node_ids s1)" using ids rgoodD(3)[OF g1] by simp
  have g2: "rgood s s2"
  proof (cases grant)
    case True
    then have gv: "rgood s1 sv"
      unfolding sv_def by (intro rf_vote[OF rgoodD(1)[OF g1] n1]) (auto simp: grant_def)
    have gc: "rgood s (clear_pre_vote n sv)" by (rule rgood_step[OF rgood_trans[OF g1 gv] rf_clear_pre_vote])
    show ?thesis unfolding s2_def using True rgood_step[OF gc rf_reset_timeout] by simp
  qed (simp add: s2_def g1)
  have g3: "rgood s s3"
    unfolding s3_def using g2 rgood_step[OF g2 rf_reset_timeout] by simp
  have g4: "rgood s s4" unfolding s4_def by (rule rgood_step[OF g3 rf_record]) auto
  have "cast s4 n (current_term s4 n) cand" if grant
  proof -
    have "t = current_term s1 n" using that by (simp add: grant_def)
    moreover have "current_term s4 n = t"
      using that by (simp add: s4_def s3_def s2_def sv_def persist_term_and_vote_def current_term_def clear_pre_vote_def)
    moreover have "voted_for s4 n = Some cand"
      using that by (simp add: s4_def s3_def s2_def sv_def persist_term_and_vote_def voted_for_def clear_pre_vote_def)
    ultimately show ?thesis using raft_invD(3)[OF rgoodD(1)[OF g4], of n] by (simp add: durable_ok_def)
  qed
  then have send: "outcome {} (rgood s) (send_msg n cand (RequestVoteResponse (current_term s4 n) n grant) s4)"
    using src rgoodD(3)[OF g4] by (intro outcome_rgood_trans[OF g4 rf_send[OF rgoodD(1)[OF g4]]]) simp_all
  show ?thesis
    using send unfolding handle_request_vote_def Let_def
    by (simp only: s1_def[symmetric] up_def[symmetric] grant_def[symmetric] sv_def[symmetric]
        s2_def[symmetric] s3_def[symmetric] s4_def[symmetric])
qed

lemma rf_handle_vote_response:
  assumes inv: "raft_inv s" and ids: "n \<in> set (rf_node_ids s)" "voter \<in> set (rf_node_ids s)"
    and cast: "granted \<Longrightarrow> cast s voter t n"
  shows "outcome {} (rgood s) (handle_request_vote_response n t voter granted s)"
proof (cases "t = current_term s n \<and> role s n = CANDIDATE \<and> granted")
  case False
  then show ?thesis
    using rgood_refl[OF inv] rf_advance_term[OF inv ids(1)] by (auto simp: handle_request_vote_response_def)
next
  case True
  define s1 where "s1 = set_vol n (\<lambda>v. v\<lparr>rf_votes := insert voter (rf_votes v)\<rparr>) s"
  have g1: "rgood s s1"
    unfolding s1_def using True cast ids raft_invD(4)[OF inv, of n]
    by (intro rf_set_vol[OF inv]) (auto simp: role_ok_def role_def)
  have "outcome {} (rgood s) (become_leader n t s1)" if "has_majority s1 (card (rf_votes (vol s1 n)))"
    using that ids rgoodD(3)[OF g1] by (intro outcome_rgood_trans[OF g1 rf_become_leader[OF rgoodD(1)[OF g1]]]) simp_all
  then show ?thesis using True g1 by (simp add: handle_request_vote_response_def Let_def flip: s1_def)
qed

lemma rf_store:
  assumes inv: "raft_inv s" and keep: "\<And>d. rf_term (f d) = rf_term d" "\<And>d. rf_voted (f d) = rf_voted d"
    and view: "view_ok (log_view_of (f (persistent_state s n)))"
  shows "rgood s (set_durable n f s)"
proof (rule rgood_intro[OF inv])
  have ct: "current_term (set_durable n f s) k = current_term s k" "voted_for (set_durable n f s) k = voted_for s k" for k
    using keep by (simp_all add: current_term_def voted_for_def)
  have ca: "cast (set_durable n f s) k t c = cast s k t c" for k t c by (simp add: cast_def)
  have vl: "vol (set_durable n f s) k = vol s k" "role (set_durable n f s) k = role s k" for k
    by (simp_all add: vol_def role_def)
  have rest: "rf_node_ids (set_durable n f s) = rf_node_ids s" "leaders_by_term (set_durable n f s) = leaders_by_term s"
      "rf_timeout (set_durable n f s) = rf_timeout s"
    by (simp_all add: set_durable_def)
  show "rf_evolves s (set_durable n f s)" by (simp add: rf_evolves_def rest ct)
  show "durable_ok (set_durable n f s) k" for k
    using raft_invD(3)[OF inv, of k] view by (simp add: durable_ok_def ct ca)
  show "role_ok (set_durable n f s) k" for k
    using raft_invD(4)[OF inv, of k] by (simp add: role_ok_def ct ca vl rest)
qed (simp_all add: set_durable_def)

lemma rf_persist_log:
  assumes inv: "raft_inv s" and log: "\<And>e. e \<in> set log \<Longrightarrow> 0 \<le> le_term e"
  shows "rgood s (persist_log n log s)"
proof -
  have "rgood s (set_durable n (\<lambda>d. d\<lparr>rf_log := log\<rparr>) s)"
    using raft_invD(8)[OF inv, of n] log by (intro rf_store[OF inv]) (auto simp: view_ok_def log_view_of_def)
  from rgood_step[OF this rf_record] show ?thesis by (simp add: persist_log_def Let_def)
qed

lemma rf_merge_entries:
  assumes inv: "raft_inv s" and pos: "\<And>e. e \<in> set entries \<Longrightarrow> 0 \<le> le_term e"
    and prev: "lv_base_index (log_view s n) \<le> prev" "prev \<le> last_index (log_view s n)"
  shows "outcome {LogMatchingViolation} (\<lambda>s'. rgood s s' \<and> prev + int (length entries) \<le> last_log_index s' n)
    (merge_entries n prev entries s)"
proof (cases "entries = []")
  case True
  then show ?thesis using rgood_refl[OF inv] prev by (simp add: merge_entries_def last_log_index_def)
next
  case False
  show ?thesis
  proof (cases "merge_after (log_view s n) prev entries")
    case (Inl e)
    then have "e = LogMatchingViolation"
      using prev unfolding merge_after_eq by (auto split: if_splits)
    then show ?thesis using Inl False by (simp add: merge_entries_def)
  next
    case (Inr log)
    note m = merge_result[OF Inr]
    have "\<And>e. e \<in> set log \<Longrightarrow> 0 \<le> le_term e"
      using m(1) pos raft_invD(8)[OF inv, of n] unfolding view_ok_def by blast
    from rf_persist_log[OF inv this] m(2) show ?thesis
      using Inr False
      by (simp add: merge_entries_def persist_log_def Let_def last_log_index_def last_index_def log_view_of_def)
  qed
qed

lemma logs_match_total: "outcome {LogMatchingViolation} (\<lambda>_. True) (logs_match l r)"
proof -
  have entry: "\<exists>e. entry_at v i = Inr e" if "lv_base_index v < i" "i \<le> last_index v" for v :: "'a log_view" and i
    using entry_at_ok[OF that] by blast
  have trm: "\<exists>t. term_at v i = Inr t" if "lv_base_index v \<le> i" "i \<le> last_index v" for v :: "'a log_view" and i
    using entry[of v i] that by (cases "i = lv_base_index v") (auto simp: term_at_def)
  have inner: "outcome {LogMatchingViolation} (\<lambda>_. True)
     (and_then (term_at l index) (\<lambda>left_term.
           and_then (term_at r index) (\<lambda>right_term.
             if left_term \<noteq> right_term then Inr ()
             else for_each (\<lambda>prefix_index _.
                    and_then (entry_at l prefix_index) (\<lambda>a.
                    and_then (entry_at r prefix_index) (\<lambda>b.
                      if a \<noteq> b then Inl LogMatchingViolation else Inr ())))
                  [max (first_retained_index l) (first_retained_index r)..index] ())))"
    if "index \<in> set [max (lv_base_index l) (lv_base_index r)..min (last_index l) (last_index r)]" for index
  proof -
    have idx: "lv_base_index l \<le> index" "lv_base_index r \<le> index" "index \<le> last_index l" "index \<le> last_index r"
      using that by auto
    have loop: "outcome {LogMatchingViolation} (\<lambda>_. True) (for_each (\<lambda>prefix_index _.
                    and_then (entry_at l prefix_index) (\<lambda>a.
                    and_then (entry_at r prefix_index) (\<lambda>b.
                      if a \<noteq> b then Inl LogMatchingViolation else Inr ())))
                  [max (first_retained_index l) (first_retained_index r)..index] ())"
    proof (rule outcome_for_each)
      fix p u assume "p \<in> set [max (first_retained_index l) (first_retained_index r)..index]"
      then have "lv_base_index l < p" "p \<le> last_index l" "lv_base_index r < p" "p \<le> last_index r"
        using idx by (auto simp: first_retained_index_def)
      then obtain a b where "entry_at l p = Inr a" "entry_at r p = Inr b" using entry by blast
      then show "outcome {LogMatchingViolation} (\<lambda>_. True) (and_then (entry_at l p) (\<lambda>a.
                    and_then (entry_at r p) (\<lambda>b. if a \<noteq> b then Inl LogMatchingViolation else Inr ())))" by simp
    qed simp
    obtain x y where "term_at l index = Inr x" "term_at r index = Inr y" using trm idx by blast
    then show ?thesis using loop by simp
  qed
  show ?thesis unfolding logs_match_def Let_def by (rule outcome_for_each) (use inner in auto)
qed

lemma assert_log_matching_total: "outcome {LogMatchingViolation} (\<lambda>_. True) (assert_log_matching s)"
  unfolding assert_log_matching_def by (rule outcome_for_each) (auto intro: logs_match_total)

lemma rf_advance_commit:
  assumes "raft_inv s"
  shows "outcome {ValueError} (rgood s) (advance_commit_index n index source s)"
    "0 \<le> index \<Longrightarrow> index \<le> last_log_index s n \<Longrightarrow> outcome {} (rgood s) (advance_commit_index n index source s)"
proof -
  have "rgood s (set_vol n (\<lambda>v. v\<lparr>rf_commit := index\<rparr>) s)" by (rule rf_set_vol_same_role[OF assms]) auto
  then have g: "rgood s (record_app (EvCommitIndex n p index source) (set_vol n (\<lambda>v. v\<lparr>rf_commit := index\<rparr>) s))" for p
    by (rule rgood_step) (auto intro: rf_record)
  show "outcome {ValueError} (rgood s) (advance_commit_index n index source s)"
    "0 \<le> index \<Longrightarrow> index \<le> last_log_index s n \<Longrightarrow> outcome {} (rgood s) (advance_commit_index n index source s)"
    using g rgood_refl[OF assms] by (auto simp: advance_commit_index_def Let_def)
qed

lemma rf_accept_append:
  assumes inv: "raft_inv s" and ids: "n \<in> set (rf_node_ids s)" and pos: "0 \<le> prev" "0 \<le> prev_term" "0 \<le> commit"
    and entries: "\<And>e. e \<in> set entries \<Longrightarrow> 0 \<le> le_term e"
  shows "outcome {LogMatchingViolation} (\<lambda>(success, match_index, s'). rgood s s' \<and> 0 \<le> match_index)
    (accept_append n was_leader pt t leader prev prev_term entries commit s)"
proof -
  define s1 where "s1 = clear_pre_vote n (set_vol n (\<lambda>v. v\<lparr>rf_role := FOLLOWER, rf_votes := {}\<rparr>) s)"
  define s2 where "s2 = (if was_leader \<and> t = pt then notify_leader_retired n pt ''append-entries'' s1 else s1)"
  define s3 where "s3 = reset_election_timeout n ''append-entries'' s2"
  have g0: "rgood s (set_vol n (\<lambda>v. v\<lparr>rf_role := FOLLOWER, rf_votes := {}\<rparr>) s)" by (rule rf_set_vol[OF inv]) auto
  have g1: "rgood s s1" unfolding s1_def by (rule rgood_step[OF g0 rf_clear_pre_vote])
  have g2: "rgood s s2" unfolding s2_def using g1 rgood_step[OF g1 rf_notify_retired] by simp
  have g3: "rgood s s3" unfolding s3_def using rgood_step[OF g2 rf_reset_timeout] by simp
  note i3 = rgoodD(1)[OF g3]
  obtain b where b: "prefix_matches (log_view s3 n) prev prev_term = Inr b"
    "b \<Longrightarrow> lv_base_index (log_view s3 n) \<le> prev" "b \<Longrightarrow> prev \<le> last_index (log_view s3 n)"
    using prefix_matches_total[OF raft_invD(8)[OF i3] pos(2), of n prev] by blast
  let ?m = "prev + int (length entries)"
  have body: "outcome {LogMatchingViolation} (\<lambda>(success, match_index, s'). rgood s s' \<and> 0 \<le> match_index)
    (and_then (merge_entries n prev entries s3) (\<lambda>s4.
       and_then (if commit > commit_index s4 n then advance_commit_index n (min commit ?m) leader s4 else Inr s4) (\<lambda>s5.
         and_then (assert_log_matching s5) (\<lambda>_. Inr (True, ?m, s5)))))" if b
  proof (simp only: outcome_and_then outcome_simps, rule outcome_weaken[OF rf_merge_entries[OF i3 entries b(2,3)[OF that]]])
    fix s4 assume s4: "rgood s3 s4 \<and> ?m \<le> last_log_index s4 n"
    have "outcome {LogMatchingViolation} (rgood s4)
        (if commit > commit_index s4 n then advance_commit_index n (min commit ?m) leader s4 else Inr s4)"
      using s4 pos rf_advance_commit(2)[of s4 "min commit ?m" n leader] rgoodD(1) rgood_refl
      by (auto intro: outcome_allow)
    then show "outcome {LogMatchingViolation} (\<lambda>s5. outcome {LogMatchingViolation}
        (\<lambda>_. case (True, ?m, s5) of (success, match_index, s') \<Rightarrow> rgood s s' \<and> 0 \<le> match_index) (assert_log_matching s5))
        (if commit > commit_index s4 n then advance_commit_index n (min commit ?m) leader s4 else Inr s4)"
    proof (rule outcome_weaken)
      fix s5 assume "rgood s4 s5"
      then have "rgood s s5" using g3 s4 by (blast intro: rgood_trans)
      then show "outcome {LogMatchingViolation}
          (\<lambda>_. case (True, ?m, s5) of (success, match_index, s') \<Rightarrow> rgood s s' \<and> 0 \<le> match_index) (assert_log_matching s5)"
        using pos by (intro outcome_weaken[OF assert_log_matching_total]) simp
    qed
  qed
  show ?thesis
    unfolding accept_append_def Let_def s1_def[symmetric] s2_def[symmetric] s3_def[symmetric] b(1) and_then_simps
    using body g3 by (cases b) simp_all
qed

lemma rf_handle_append:
  assumes inv: "raft_inv s" and ids: "n \<in> set (rf_node_ids s)" "src \<in> set (rf_node_ids s)"
    and pos: "0 \<le> prev" "0 \<le> prev_term" "0 \<le> commit" and entries: "\<And>e. e \<in> set entries \<Longrightarrow> 0 \<le> le_term e"
  shows "outcome {LogMatchingViolation} (rgood s) (handle_append_entries n src t leader prev prev_term entries commit s)"
proof -
  define s1 where "s1 = (if t > current_term s n then advance_term n t False s else s)"
  have g1: "rgood s s1" using rf_advance_term[OF inv ids(1)] rgood_refl[OF inv] by (simp add: s1_def)
  have n1: "n \<in> set (rf_node_ids s1)" using ids rgoodD(3)[OF g1] by simp
  have fin: "outcome {LogMatchingViolation} (rgood s) (and_then (make_append_response (current_term s3 n) n ok mi) (\<lambda>r. send_msg n src r s3))"
    if s3: "rgood s s3" "0 \<le> mi" for s3 ok mi
  proof -
    have "make_append_response (current_term s3 n) n ok mi = Inr (AppendEntriesResponse (current_term s3 n) n ok mi :: 'a raft_msg)"
      using raft_invD(7)[OF rgoodD(1)[OF s3(1)], of n] s3(2) by (simp add: make_append_response_def)
    then show ?thesis
      using outcome_allow[OF outcome_rgood_trans[OF s3(1) rf_send[OF rgoodD(1)[OF s3(1)]]]] ids(2) rgoodD(3)[OF s3(1)] by simp
  qed
  have acc: "outcome {LogMatchingViolation} (\<lambda>(ok, mi, s2). rgood s s2 \<and> 0 \<le> mi)
     (if t = current_term s1 n
      then accept_append n w pt t leader prev prev_term entries commit s1 else Inr (False, 0, s1))" for w pt
  proof (cases "t = current_term s1 n")
    case True
    have "outcome {LogMatchingViolation} (\<lambda>(ok, mi, s2). rgood s s2 \<and> 0 \<le> mi)
       (accept_append n w pt t leader prev prev_term entries commit s1)"
      by (rule outcome_weaken[OF rf_accept_append[OF rgoodD(1)[OF g1] n1 pos entries]])
        (auto intro: rgood_trans[OF g1])
    with True show ?thesis by simp
  qed (simp add: g1)
  show ?thesis
    unfolding handle_append_entries_def Let_def s1_def[symmetric] outcome_and_then
  proof (rule outcome_weaken[OF acc], clarify)
    fix ok :: bool and mi :: int and s2 :: "'a raft" assume s2: "rgood s s2" "0 \<le> mi"
    have "rgood s (record_app (EvAppendEntries n leader t prev prev_term (int (length entries)) commit (commit_index s2 n) ok mi) s2)"
      by (rule rgood_step[OF s2(1) rf_record]) auto
    from fin[OF this s2(2), of ok] show "outcome {LogMatchingViolation} (rgood s)
       (and_then (make_append_response (current_term (record_app (EvAppendEntries n leader t prev prev_term (int (length entries)) commit (commit_index s2 n) ok mi) s2) n) n ok mi)
         (\<lambda>r. send_msg n src r (record_app (EvAppendEntries n leader t prev prev_term (int (length entries)) commit (commit_index s2 n) ok mi) s2)))" .
  qed
qed

lemma rf_handle_append_response:
  assumes "raft_inv s" and "n \<in> set (rf_node_ids s)"
  shows "outcome {} (rgood s) (handle_append_entries_response n t f ok mi s)"
proof -
  have "rgood s (record_app (EvAppendResponse n f t ok mi) s)" using assms(1) by (rule rf_record) auto
  then show ?thesis using rf_advance_term[OF assms] by (simp add: handle_append_entries_response_def)
qed

lemma envelope_passed:
  assumes "envelope_check s n m = (None, claimed)"
  shows "msg_dst m = n" "n \<in> set (rf_node_ids s)" "claimed = claimed_source n (msg_payload m)"
    "claimed = Some c \<Longrightarrow> c \<in> set (rf_node_ids s) \<and> msg_src m = c"
  using assms by (auto simp: envelope_check_def Let_def split: if_splits option.splits)

lemma rf_handle_message_good:
  assumes inv: "raft_inv s" and ok: "rf_message_ok s m" and alive: "sim_alive s (msg_dst m)"
  shows "outcome {LogMatchingViolation} (rgood s) (rf_handle_message n s m)"
proof -
  define s1 where "s1 = set_vol n (\<lambda>v. v) s"
  have g1: "rgood s s1" unfolding s1_def by (rule rf_set_vol_same_role[OF inv]) auto
  note i1 = rgoodD(1)[OF g1]
  have pay: "rf_payload_ok s1 (msg_dst m) (msg_payload m)"
    using rf_message_stable[OF rgoodD(2)[OF g1] ok] by (simp add: rf_message_ok_def)
  show ?thesis
  proof (cases "envelope_check s1 n m")
    case (Pair r claimed)
    show ?thesis
    proof (cases r)
      case (Some reason)
      have "rgood s1 (record_app (EvRaftEnvelope n (msg_src m) (msg_dst m) (raft_type_name (msg_payload m)) claimed reason) s1)"
        by (rule rf_record[OF i1]) auto
      then show ?thesis
        using rgood_trans[OF g1] Pair Some by (simp add: rf_handle_message_def Let_def flip: s1_def)
    next
      case None
      note e = envelope_passed[OF Pair[unfolded None]]
      have al: "is_alive s1 n" using alive e(1) by (simp add: s1_def is_alive_def)
      have "outcome {LogMatchingViolation} (rgood s1) (rf_dispatch n (msg_src m) (msg_payload m) s1)"
        using pay e al
        by (cases "msg_payload m")
          (auto simp: rf_dispatch_def intro!: rf_handle_append[OF i1] outcome_allow[OF rf_handle_timeout[OF i1]]
            outcome_allow[OF rf_handle_pre_vote[OF i1]] outcome_allow[OF rf_handle_pre_vote_response[OF i1]]
            outcome_allow[OF rf_handle_request_vote[OF i1]] outcome_allow[OF rf_handle_vote_response[OF i1]]
            outcome_allow[OF rf_handle_append_response[OF i1]])
      from outcome_rgood_trans[OF g1 this] show ?thesis
        using Pair None by (simp add: rf_handle_message_def Let_def flip: s1_def)
    qed
  qed
qed

lemma rf_handle_crash_good: "raft_inv s \<Longrightarrow> outcome {} (rgood s) (rf_handle_crash n s)"
  by (simp add: rf_handle_crash_def rf_notify_retired rgood_refl)

lemma log_view_valid:
  assumes "raft_inv s"
  shows "RaftLogView (rf_base_index (persistent_state s n)) (rf_base_term (persistent_state s n)) (rf_log (persistent_state s n)) =
    Inr (log_view s n)"
  using RaftLogView_total raft_invD(8)[OF assms, of n] by (simp add: log_view_of_def)

lemma rf_handle_restart_good:
  assumes inv: "raft_inv s"
  shows "outcome {} (rgood s) (rf_handle_restart n s)"
proof -
  define s1 where "s1 = (case map_of (active_generations s) n of
      None \<Rightarrow> s | Some (t, g) \<Rightarrow> notify_leader_retired n t ''node-restart'' s)"
  have g1: "rgood s s1"
    using rgood_refl[OF inv] rf_notify_retired[OF inv] by (auto simp: s1_def split: option.split)
  have v: "validate_persistent_log (persistent_state s1 n) = Inr ()"
    using log_view_valid[OF rgoodD(1)[OF g1], of n] by (simp add: validate_persistent_log_def)
  define s2 where "s2 = s1\<lparr>rf_timer_generation := (rf_timer_generation s1)(n := rf_timer_generation s1 n + 1),
    rf_timer_deadline := (rf_timer_deadline s1)(n := None)\<rparr>"
  have g2: "rgood s s2" unfolding s2_def by (rule rgood_step[OF g1 rf_active(3)])
  define s3 where "s3 = set_vol n (\<lambda>v. v) s2"
  have g3: "rgood s s3" unfolding s3_def by (rule rgood_step[OF g2 rf_set_vol_same_role]) auto
  define s4 where "s4 = record_app (EvRaftRestart n (current_term s3 n) (voted_for s3 n)
    (rf_base_index (persistent_state s3 n)) (rf_base_term (persistent_state s3 n)) (last_log_index s3 n) (last_log_term s3 n)) s3"
  have g4: "rgood s s4" unfolding s4_def by (rule rgood_step[OF g3 rf_record]) auto
  have eq: "rf_handle_restart n s = Inr (reset_election_timeout n ''restart'' s4)"
    unfolding rf_handle_restart_def Let_def s1_def[symmetric] v and_then_simps s2_def[symmetric] s3_def[symmetric] s4_def[symmetric] ..
  then show ?thesis using rgood_step[OF g4 rf_reset_timeout] by simp
qed

end
