(* ===== verification/Raft_Safety.thy ===== *)
theory Raft_Safety
  imports Raft_Election
begin

text \<open>
  Whole executions of the Raft core: the cluster as a \<open>protocol\<close> of the simulator, reachable
  states under the network, elections, AppendEntries and log writes of the higher layers,
  Election Safety and the stability of terms and votes, and termination of \<open>run\<close> without
  election timers.
\<close>

section \<open>Raft as a protocol of the simulator\<close>

lemma rgood_frame:
  assumes "rgood s0 s" and "rf_node_ids s' = rf_node_ids s" "sim_handlers s' = sim_handlers s"
    "persistent_state s' = persistent_state s" "vol s' = vol s" "leaders_by_term s' = leaders_by_term s"
    "rf_timeout s' = rf_timeout s" "sim_trace s' = sim_trace s" "set (sim_queue s') \<subseteq> set (sim_queue s)"
  shows "rgood s0 s'"
  using assms by (intro rgood_trans[OF assms(1) rf_frame[OF rgoodD(1)[OF assms(1)]]]) (auto simp: cast_def)

text \<open>Clearing the volatile record of a crashed node.\<close>

lemma rf_wipe:
  assumes "raft_inv s"
  shows "rgood s (s\<lparr>volatile_state := (volatile_state s)(n := None)\<rparr>)" (is "rgood s ?s'")
proof -
  have v: "vol ?s' k = (if k = n then volatile_defaults else vol s k)" for k by (simp add: vol_def)
  have r: "role ?s' k = (if k = n then FOLLOWER else role s k)" for k by (simp add: role_def v volatile_defaults_def)
  have c: "current_term ?s' k = current_term s k" "voted_for ?s' k = voted_for s k" "cast ?s' k t x = cast s k t x" for k t x
    by (simp_all add: current_term_def voted_for_def cast_def)
  show ?thesis
  proof (rule rgood_intro[OF assms])
    show "rf_evolves s ?s'" by (simp add: rf_evolves_def c)
    show "durable_ok ?s' k" for k using raft_invD(3)[OF assms, of k] by (simp add: durable_ok_def c)
    show "role_ok ?s' k" for k using raft_invD(4)[OF assms, of k] by (simp add: role_ok_def c r v)
  qed simp_all
qed

interpretation rf: protocol raft_callbacks "{LogMatchingViolation}" "rgood s0" rf_message_ok for s0
proof (unfold_locales, goal_cases)
  case (1 s d q t)
  show ?case by (rule rgood_frame[OF 1(1)]) (auto simp: 1(2) vol_def fun_eq_iff)
next
  case (2 s d q t)
  then have "rf_message_ok s (sd_message d)" using raft_invD(6)[OF rgoodD(1)[OF 2(1)], of d] by simp
  moreover have "rf_evolves s (s\<lparr>sim_queue := q, sim_time := t\<rparr>)"
    by (simp add: rf_evolves_def current_term_def)
  ultimately show ?case by (rule rf_message_stable[rotated])
next
  case (3 s ev)
  then show ?case by (intro rgood_step[OF 3(1) rf_record]) auto
next
  case (4 s m ev)
  have "rf_evolves s (record_event ev s)" by (auto simp: rf_evolves_def)
  then show ?case using 4(1) by (rule rf_message_stable)
next
  case (5 s al)
  then show ?case by (rule rgood_frame) (simp_all add: vol_def fun_eq_iff)
next
  case (6 s b)
  then show ?case by (rule rgood_frame) (simp_all add: vol_def fun_eq_iff)
next
  case (7 s b)
  then show ?case by (rule rgood_frame) (simp_all add: vol_def fun_eq_iff)
next
  case (8 s b)
  then show ?case by (rule rgood_frame) (simp_all add: vol_def fun_eq_iff)
next
  case (9 s m)
  then show ?case by (auto simp: rf_message_ok_def effective_dst_def)
next
  case (10 s m)
  from rf_handle_message_good[OF rgoodD(1)[OF 10(1)] 10(2,3)] show ?case
    unfolding raft_callbacks_def callbacks.simps by (rule outcome_rgood_trans[OF 10(1)])
next
  case (11 s n)
  have "outcome {LogMatchingViolation} (\<lambda>t. rgood s0 (t\<lparr>volatile_state := (volatile_state t)(n := None)\<rparr>)) (rf_handle_crash n s)"
    by (rule outcome_allow, rule outcome_weaken[OF outcome_rgood_trans[OF 11 rf_handle_crash_good[OF rgoodD(1)[OF 11]]]])
      (rule rgood_step[OF _ rf_wipe])
  then show ?case by (simp add: raft_callbacks_def call_optional_def)
next
  case (12 s n)
  let ?t = "s\<lparr>volatile_state := (volatile_state s)(n := None)\<rparr>"
  have t: "rgood s0 ?t" by (rule rgood_step[OF 12 rf_wipe])
  have g: "rgood s0 (record_event (TRestart n) ?t)" by (rule rgood_step[OF t rf_record]) auto
  from outcome_allow[OF outcome_rgood_trans[OF g rf_handle_restart_good[OF rgoodD(1)[OF g]]]] show ?case
    by (simp add: raft_callbacks_def call_optional_def)
qed

section \<open>Operations of clients and higher layers\<close>

lemma rf_step_down:
  assumes "raft_inv s"
  shows "outcome {ValueError, RuntimeError} (\<lambda>(b, s'). rgood s s') (step_down n reason s)"
proof -
  define s1 where "s1 = clear_pre_vote n (set_vol n (\<lambda>v. v\<lparr>rf_role := FOLLOWER, rf_votes := {}\<rparr>) s)"
  have "rgood s (set_vol n (\<lambda>v. v\<lparr>rf_role := FOLLOWER, rf_votes := {}\<rparr>) s)" by (rule rf_set_vol[OF assms]) auto
  then have g1: "rgood s s1" unfolding s1_def by (rule rgood_step[OF _ rf_clear_pre_vote])
  have g2: "rgood s (notify_leader_retired n t reason s1)" for t by (rule rgood_step[OF g1 rf_notify_retired])
  have g3: "rgood s (record_app (EvStepDown n u reason) (notify_leader_retired n t reason s1))" for u t
    by (rule rgood_step[OF g2 rf_record]) auto
  show ?thesis
    using rgood_refl[OF assms] rgood_step[OF g3 rf_reset_timeout]
    by (simp add: step_down_def Let_def flip: s1_def)
qed

lemma rf_send_append:
  assumes inv: "raft_inv s" and entries: "\<And>e. e \<in> set entries \<Longrightarrow> 0 \<le> le_term e"
  shows "outcome {ValueError, RuntimeError} (rgood s) (send_append_entries n peer prev entries commit s)"
proof -
  define p where "p = (case prev of None \<Rightarrow> last_log_index s n | Some i \<Rightarrow> i)"
  define c where "c = (case commit of None \<Rightarrow> commit_index s n | Some c \<Rightarrow> c)"
  have send: "outcome {ValueError, RuntimeError} (rgood s) (and_then (make_append_entries (current_term s n) n p pt entries c)
      (\<lambda>request. send_msg n peer request s))" if "peer \<in> set (rf_peers s n)" for pt
    using that entries by (auto simp: make_append_entries_def rf_peers_def intro!: outcome_allow[OF rf_send[OF inv]])
  show ?thesis
  proof (cases "p < rf_base_index (persistent_state s n) \<or> p > last_log_index s n")
    case True
    then show ?thesis unfolding send_append_entries_def Let_def p_def[symmetric] by simp
  next
    case False
    then have "lv_base_index (log_view s n) \<le> p" "p \<le> last_index (log_view s n)"
      by (simp_all add: last_log_index_def log_view_of_def)
    then obtain pt where pt: "term_at (log_view s n) p = Inr pt"
      using term_at_total raft_invD(8)[OF inv, of n] by blast
    have "send_append_entries n peer prev entries commit s =
        (if \<not> is_alive s n then Inl RuntimeError else if role s n \<noteq> LEADER then Inl RuntimeError
         else if peer \<notin> set (rf_peers s n) then Inl ValueError
         else if c < 0 \<or> c > last_log_index s n then Inl ValueError
         else and_then (make_append_entries (current_term s n) n p pt entries c) (\<lambda>request. send_msg n peer request s))"
      using False unfolding send_append_entries_def Let_def p_def[symmetric] c_def[symmetric]
      by (simp only: pt if_False and_then_simps)
    then show ?thesis using send[of pt] by (simp del: outcome_and_then)
  qed
qed

lemma rf_observe: "raft_inv s \<Longrightarrow> outcome {ValueError} (rgood s) (register_leadership_observer ob b s)"
  by (auto simp: register_leadership_observer_def Let_def vol_def cast_def fun_eq_iff intro!: rf_frame)

section \<open>Reachable states\<close>

text \<open>What tests and the layers above do with a cluster: let the simulator take any step, start
  elections and pre-votes, step down, send AppendEntries with any well-formed payload, advance a
  commit index, register observers, and write a node's log and compaction boundary (the
  replication, recovery and snapshot components do), never its term or vote.\<close>

inductive raft_step :: "'c raft \<Rightarrow> 'c raft \<Rightarrow> bool" where
  network: "sim_step raft_callbacks s s' \<Longrightarrow> raft_step s s'"
| elect: "n \<in> set (rf_node_ids s) \<Longrightarrow> start_election n s = Inr s' \<Longrightarrow> raft_step s s'"
| probe: "n \<in> set (rf_node_ids s) \<Longrightarrow> start_pre_vote n s = Inr s' \<Longrightarrow> raft_step s s'"
| resign: "step_down n reason s = Inr (b, s') \<Longrightarrow> raft_step s s'"
| append: "(\<And>e. e \<in> set entries \<Longrightarrow> 0 \<le> le_term e) \<Longrightarrow>
    send_append_entries n peer prev entries commit s = Inr s' \<Longrightarrow> raft_step s s'"
| commit: "advance_commit_index n index source s = Inr s' \<Longrightarrow> raft_step s s'"
| observe: "register_leadership_observer ob b s = Inr s' \<Longrightarrow> raft_step s s'"
| store: "view_ok v \<Longrightarrow> raft_step s (set_durable n (\<lambda>d. d\<lparr>rf_log := lv_entries v,
    rf_base_index := lv_base_index v, rf_base_term := lv_base_term v\<rparr>) s)"

definition raft_start :: "'c raft \<Rightarrow> bool" where
  "raft_start s \<longleftrightarrow> (\<exists>plan names ids timeouts. RaftCluster (sim_init plan names (\<lambda>_. fresh_raft)) ids timeouts = Inr s)"

definition raft_reachable :: "'c raft \<Rightarrow> bool" where
  "raft_reachable s \<longleftrightarrow> (\<exists>s0. raft_start s0 \<and> raft_step\<^sup>*\<^sup>* s0 s)"

lemma raft_step_good: "raft_step s s' \<Longrightarrow> raft_inv s \<Longrightarrow> rgood s s'"
proof (induction rule: raft_step.induct)
  case (network s s')
  then show ?case using rf.step_inv rgood_refl by blast
next
  case (elect n s s')
  then have "is_alive s n" by (auto simp: start_election_def split: if_splits)
  with elect show ?case using rf_start_election[of s n] by simp
next
  case (probe n s s')
  then have "is_alive s n" by (auto simp: start_pre_vote_def split: if_splits)
  with probe show ?case using rf_start_pre_vote[of s n] by simp
next
  case (resign n reason s b s')
  then show ?case using rf_step_down[of s n reason] by simp
next
  case (append entries n peer prev commit s s')
  then show ?case using rf_send_append[of s entries n peer prev commit] by simp
next
  case (commit n index source s s')
  then show ?case using rf_advance_commit(1)[of s n index source] by simp
next
  case (observe ob b s s')
  then show ?case using rf_observe[of s ob b] by simp
next
  case (store v s n)
  then show ?case by (intro rf_store) (simp_all add: log_view_of_def view_ok_def)
qed

lemma raft_steps_good: "raft_step\<^sup>*\<^sup>* s s' \<Longrightarrow> raft_inv s \<Longrightarrow> rgood s s'"
  by (induction rule: rtranclp_induct) (auto intro: rgood_refl rgood_step raft_step_good)

lemma rf_fold_timeouts: "raft_inv s \<Longrightarrow> rgood s (fold (\<lambda>n. reset_election_timeout n r) ns s)"
  by (induction ns arbitrary: s) (auto intro: rgood_refl rgood_step rf_reset_timeout)

lemma raft_register_all:
  assumes "for_each sim_register ids s = Inr s'"
  shows "\<exists>al. s' = s\<lparr>sim_handlers := sim_handlers s @ ids, sim_alive := al\<rparr>"
  using assms
proof (induction ids arbitrary: s)
  case Nil
  then show ?case by (auto intro: exI[of _ "sim_alive s"])
next
  case (Cons n ids)
  then obtain s1 where s1: "sim_register n s = Inr s1" "for_each sim_register ids s1 = Inr s'"
    by (auto simp: and_then_eq_Inr)
  from Cons.IH[OF s1(2)] s1(1) show ?case by (auto simp: sim_register_def split: if_splits)
qed

lemma raft_touch_all:
  assumes "for_each (\<lambda>n s. and_then (f n s) (\<lambda>_. Inr (set_vol n (\<lambda>v. v) s))) ids s = Inr s'"
  shows "vol s' = vol s \<and> (\<exists>vs. s' = s\<lparr>volatile_state := vs\<rparr>)"
  using assms
proof (induction ids arbitrary: s)
  case Nil
  then show ?case by (auto intro: exI[of _ "volatile_state s"])
next
  case (Cons n ids)
  then have "for_each (\<lambda>n s. and_then (f n s) (\<lambda>_. Inr (set_vol n (\<lambda>v. v) s))) ids (set_vol n (\<lambda>v. v) s) = Inr s'"
    by (auto simp: and_then_eq_Inr)
  from Cons.IH[OF this] show ?case by (auto simp: set_vol_def vol_def fun_eq_iff)
qed

lemma raft_cluster_inv:
  assumes "RaftCluster (sim_init plan names (\<lambda>_. fresh_raft)) ids timeouts = Inr s"
  shows "raft_inv s"
proof -
  let ?tm = "\<lambda>n. case timeouts of None \<Rightarrow> None | Some ts \<Rightarrow> map_of ts n"
  let ?s0 = "simulator.extend (sim_init plan names (\<lambda>_. fresh_raft)) (raft.fields ids Map.empty 0 [] [] []
    ?tm (\<lambda>_. 0) (\<lambda>_. None))"
  obtain s1 s2 where s1: "for_each (\<lambda>n s. and_then (validate_persistent_log (persistent_state s n)) (\<lambda>_.
        Inr (set_vol n (\<lambda>v. v) s))) ids ?s0 = Inr s1"
    and s2: "for_each sim_register ids s1 = Inr s2"
    and s: "s = fold (\<lambda>n. reset_election_timeout n ''initial'') ids s2"
    and ids: "distinct ids" and tm: "\<And>ts. timeouts = Some ts \<Longrightarrow> fst ` set ts = set ids"
    using assms card_distinct[of ids]
    by (auto simp: RaftCluster_def Let_def and_then_eq_Inr split: if_splits option.splits)
  have dom: "dom ?tm \<subseteq> set ids"
    using tm by (cases timeouts) (auto simp: dom_map_of_conv_image_fst)
  have v1: "vol s1 = vol ?s0" using raft_touch_all[OF s1] by blast
  have f1: "persistent_state s1 = (\<lambda>_. fresh_raft)" "sim_trace s1 = []" "sim_queue s1 = []" "rf_node_ids s1 = ids"
    "sim_handlers s1 = []" "leaders_by_term s1 = Map.empty" "rf_timeout s1 = ?tm"
    using raft_touch_all[OF s1] by (auto simp: sim_init_def simulator.defs raft.defs)
  have f2: "persistent_state s2 = (\<lambda>_. fresh_raft)" "sim_trace s2 = []" "sim_queue s2 = []" "rf_node_ids s2 = ids"
    "sim_handlers s2 = ids" "leaders_by_term s2 = Map.empty" "rf_timeout s2 = ?tm" "vol s2 = vol s1"
    using raft_register_all[OF s2] f1 by (auto simp: vol_def fun_eq_iff)
  have "vol ?s0 n = volatile_defaults" for n by (simp add: vol_def sim_init_def simulator.defs raft.defs)
  then have "vol s2 n = volatile_defaults" for n using f2(8) v1 by simp
  then have "raft_inv s2"
    using ids dom
    by (simp add: raft_inv_def f2 durable_ok_def role_ok_def role_def cast_def current_term_def voted_for_def
        fresh_raft_def volatile_defaults_def log_view_of_def view_ok_def)
  then show ?thesis unfolding s using rf_fold_timeouts rgoodD(1) by blast
qed

lemma raft_reachable_inv: "raft_reachable s \<Longrightarrow> raft_inv s"
  unfolding raft_reachable_def raft_start_def using raft_cluster_inv raft_steps_good rgoodD(1) by blast

lemma raft_reachable_steps: "raft_reachable s \<Longrightarrow> raft_step\<^sup>*\<^sup>* s s' \<Longrightarrow> raft_reachable s'"
  unfolding raft_reachable_def by (meson rtranclp_trans)

lemma raft_network_steps: "(sim_step raft_callbacks)\<^sup>*\<^sup>* s s' \<Longrightarrow> raft_step\<^sup>*\<^sup>* s s'"
  by (induction rule: rtranclp_induct) (auto intro: rtranclp.rtrancl_into_rtrancl raft_step.network)

section \<open>Silence without timers\<close>

fun raft_rank :: "'c raft_msg \<Rightarrow> nat" where
  "raft_rank (ElectionTimeout _ _) = 5"
| "raft_rank (PreVote _ _ _ _) = 4"
| "raft_rank (PreVoteResponse _ _ _ _) = 3"
| "raft_rank (RequestVote _ _ _ _) = 2"
| "raft_rank (RequestVoteResponse _ _ _) = 1"
| "raft_rank (AppendEntries _ _ _ _ _ _) = 1"
| "raft_rank (AppendEntriesResponse _ _ _ _) = 0"
| "raft_rank (ForeignPayload _) = 0"

definition no_timers :: "'c raft \<Rightarrow> bool" where
  "no_timers s \<longleftrightarrow> rf_timeout s = Map.empty"

definition calm :: "nat \<Rightarrow> 'c raft \<Rightarrow> 'c raft \<Rightarrow> bool" where
  "calm r s t \<longleftrightarrow> emits raft_rank r s t \<and> no_timers t"

lemma calm_same:
  assumes "calm r s t" and "sim_queue u = sim_queue t" "sim_time u = sim_time t" "sim_sequence u = sim_sequence t"
    "fault_plan u = fault_plan t" "link_delays u = link_delays t" "rf_timeout u = rf_timeout t"
  shows "calm r s u"
  using assms(1) unfolding calm_def emits_def no_timers_def sim_wf_def assms(2-7) .

lemma calm_timer: "calm r s t \<Longrightarrow> reset_election_timeout n reason t = t"
  by (simp add: calm_def no_timers_def reset_election_timeout_def)

lemma calm_ops:
  assumes c: "calm r s t"
  shows "calm r s (record_event ev t)" "calm r s (set_durable n h t)" "calm r s (set_vol n f t)"
    "calm r s (clear_pre_vote n t)" "calm r s (notify e t)" "calm r s (persist_term_and_vote n x v t)"
    "calm r s (persist_log n log t)" "calm r s (notify_leader_retired n x reason t)"
    "calm r s (reset_election_timeout n reason t)"
    "calm r s (t\<lparr>rf_timer_generation := g, rf_timer_deadline := dl\<rparr>)" "calm r s (t\<lparr>leaders_by_term := l\<rparr>)"
    "calm r s (t\<lparr>leadership_generation := lg, active_generations := ag\<rparr>)"
proof -
  show "calm r s (reset_election_timeout n reason t)" using c by (simp add: calm_timer)
qed (auto intro!: calm_same[OF c] simp: set_vol_def clear_pre_vote_def notify_def persist_term_and_vote_def
      persist_log_def Let_def notify_leader_retired_def record_event_def set_durable_def split: option.split)

lemma calm_acquired: "calm r s t \<Longrightarrow> calm r s (notify_leader_acquired n x reason t)"
  by (auto simp: notify_leader_acquired_def Let_def split: option.split intro!: calm_ops)

lemma calm_advance: "calm r s t \<Longrightarrow> calm r s (advance_term n x b t)"
  by (auto simp: advance_term_def Let_def intro!: calm_ops)

lemma calm_send: "raft_rank p < r \<Longrightarrow> calm r s t \<Longrightarrow> outcome UNIV (calm r s) (send_msg src dst p t)"
proof (cases "send_msg src dst p t")
  case (Inr u)
  assume r: "raft_rank p < r" and c: "calm r s t"
  have "emits raft_rank r s u" using emits_send[of raft_rank p r s t src dst] r c Inr by (simp add: calm_def)
  moreover have "sent src dst p t u" using sent_outcome[of src dst p t] Inr by simp
  then have "rf_timeout u = rf_timeout t" unfolding sent_def by (auto elim!: core_frameE)
  ultimately show ?thesis using c Inr by (simp add: calm_def no_timers_def)
qed simp

lemma calm_broadcast:
  "raft_rank p < r \<Longrightarrow> calm r s t \<Longrightarrow> outcome UNIV (calm r s) (for_each (\<lambda>peer. send_msg src peer p) peers t)"
  by (rule outcome_for_each) (auto intro: calm_send)

lemma calm_leader: "calm r s t \<Longrightarrow> outcome UNIV (calm r s) (become_leader n x t)"
  by (auto simp: become_leader_def record_leader_def Let_def split: option.split intro!: calm_ops calm_acquired)

lemma calm_election: "3 \<le> r \<Longrightarrow> calm r s t \<Longrightarrow> outcome UNIV (calm r s) (start_election n t)"
  by (auto simp: start_election_def Let_def make_request_vote_def intro!: calm_leader calm_broadcast calm_ops)

lemma calm_pre_vote: "5 \<le> r \<Longrightarrow> calm r s t \<Longrightarrow> outcome UNIV (calm r s) (start_pre_vote n t)"
  by (auto simp: start_pre_vote_def Let_def make_pre_vote_def intro!: calm_election calm_broadcast calm_ops)

lemma calm_commit: "calm r s t \<Longrightarrow> outcome UNIV (calm r s) (advance_commit_index n i src t)"
  by (auto simp: advance_commit_index_def Let_def intro!: calm_ops)

lemma calm_merge: "calm r s t \<Longrightarrow> outcome UNIV (calm r s) (merge_entries n p es t)"
  by (cases "merge_after (log_view t n) p es") (auto simp: merge_entries_def intro!: calm_ops)

lemma calm_accept:
  assumes "calm r s t"
  shows "outcome UNIV (\<lambda>(a, b, u). calm r s u) (accept_append n w pt x l p q es c t)"
proof -
  define t3 where "t3 = reset_election_timeout n ''append-entries''
    (let t1 = clear_pre_vote n (set_vol n (\<lambda>v. v\<lparr>rf_role := FOLLOWER, rf_votes := {}\<rparr>) t)
     in if w \<and> x = pt then notify_leader_retired n pt ''append-entries'' t1 else t1)"
  have t3: "calm r s t3" using assms by (auto simp: t3_def Let_def intro!: calm_ops)
  have fin: "outcome UNIV (\<lambda>(a, b, u). calm r s u) (and_then (assert_log_matching t5) (\<lambda>_. Inr (True, mi, t5)))"
    if "calm r s t5" for t5 mi using that by (cases "assert_log_matching t5") auto
  have com: "outcome UNIV (calm r s) (if c > commit_index t4 n then advance_commit_index n i l t4 else Inr t4)"
    if "calm r s t4" for t4 i using calm_commit[OF that] that by simp
  have "outcome UNIV (\<lambda>(a, b, u). calm r s u) (and_then (merge_entries n p es t3) (\<lambda>t4.
      and_then (if c > commit_index t4 n then advance_commit_index n i l t4 else Inr t4) (\<lambda>t5.
        and_then (assert_log_matching t5) (\<lambda>_. Inr (True, mi, t5)))))" for i mi
    unfolding outcome_and_then[of _ _ "merge_entries n p es t3"]
  proof (rule outcome_weaken[OF calm_merge[OF t3]])
    fix t4 assume "calm r s t4"
    from outcome_weaken[OF com[OF this] fin]
    show "outcome UNIV (\<lambda>(a, b, u). calm r s u)
      (and_then (if c > commit_index t4 n then advance_commit_index n i l t4 else Inr t4) (\<lambda>t5.
        and_then (assert_log_matching t5) (\<lambda>_. Inr (True, mi, t5))))"
      unfolding outcome_and_then[of _ _ "if c > commit_index t4 n then advance_commit_index n i l t4 else Inr t4"] .
  qed
  note body = this[of "min c (p + int (length es))" "p + int (length es)"]
  show ?thesis
    using t3 body unfolding accept_append_def Let_def t3_def[unfolded Let_def, symmetric]
    by (cases "prefix_matches (log_view t3 n) p q") (simp_all del: outcome_and_then)
qed

lemma calm_append: "1 \<le> r \<Longrightarrow> calm r s t \<Longrightarrow> outcome UNIV (calm r s) (handle_append_entries n src x l p q es c t)"
  unfolding handle_append_entries_def Let_def outcome_and_then
  by (rule outcome_weaken[where P = "\<lambda>(a, b, u). calm r s u"])
    (auto simp: make_append_response_def intro!: calm_accept calm_advance calm_send calm_ops)

lemma calm_dispatch: "calm (raft_rank p) s t \<Longrightarrow> outcome UNIV (calm (raft_rank p) s) (rf_dispatch n src p t)"
  by (cases p)
    (auto simp: rf_dispatch_def handle_election_timeout_def handle_pre_vote_def make_pre_vote_response_def
      handle_pre_vote_response_def handle_request_vote_def handle_request_vote_response_def
      handle_append_entries_response_def Let_def
      intro!: calm_append calm_pre_vote calm_send calm_election calm_leader calm_ops calm_advance)

lemma calm_message:
  assumes "no_timers s"
  shows "outcome UNIV (calm (raft_rank (msg_payload m)) s) (rf_handle_message n s m)"
proof -
  have "calm (raft_rank (msg_payload m)) s (set_vol n (\<lambda>v. v) s)"
    using assms by (intro calm_ops) (simp add: calm_def)
  then show ?thesis
    by (auto simp: rf_handle_message_def Let_def split: option.split prod.split intro!: calm_dispatch calm_ops)
qed

interpretation rf_quiet: silencing raft_callbacks no_timers raft_rank
proof (unfold_locales, goal_cases)
  case (1 s n m s')
  then show ?case using calm_message[OF 1(1), of m n] by (simp add: raft_callbacks_def calm_def)
next
  case (2 s n s')
  have "calm 0 s s" using 2(1) by (simp add: calm_def)
  then have "calm 0 s s'"
    using 2(2) by (auto simp: raft_callbacks_def call_optional_def rf_handle_crash_def intro!: calm_ops split: if_splits)
  then show ?case by (simp add: calm_def)
next
  case (3 s n s')
  have "calm 0 s s" using 3(1) by (simp add: calm_def)
  then have "calm 0 s s'"
    using 3(2) by (auto simp: raft_callbacks_def call_optional_def rf_handle_restart_def Let_def and_then_eq_Inr
        intro!: calm_ops split: option.splits)
  then show ?case by (simp add: calm_def)
qed (auto simp: no_timers_def)

section \<open>Example run\<close>

text \<open>Three nodes without timers; \<open>a\<close> starts an election and the network delivers everything.\<close>

definition demo_raft_start :: "string raft" where
  "demo_raft_start = projr (RaftCluster (sim_init [] raft_type_name (\<lambda>_. fresh_raft)) [''a'', ''b'', ''c''] None)"

definition demo_raft_candidate :: "string raft" where
  "demo_raft_candidate = projr (start_election ''a'' demo_raft_start)"

definition demo_raft_leader :: "string raft" where
  "demo_raft_leader = snd (projr (the (sim_run raft_callbacks None demo_raft_candidate)))"

lemmas raft_eval = RaftCluster_def validate_persistent_log_def RaftLogView_def sim_init_def fresh_raft_def
  simulator.defs raft.defs set_vol_def vol_def volatile_defaults_def sim_register_def reset_election_timeout_def
  role_def start_election_def current_term_def clear_pre_vote_def persist_term_and_vote_def has_majority_def
  quorum_size_def make_request_vote_def last_log_index_def last_log_term_def last_index_def last_term_def
  log_view_of_def rf_peers_def sim_send_def sim_schedule_def deliver_rule_def is_alive_def set_durable_def
  record_event_def become_leader_def record_leader_def notify_leader_acquired_def notify_def raft_callbacks_def
  deliver_event_def effective_dst_def rf_handle_message_def envelope_check_def rf_dispatch_def
  handle_request_vote_def advance_term_def candidate_log_is_up_to_date_def voted_for_def
  handle_request_vote_response_def sd_before_def Let_def

lemma demo_raft_start_eq:
  "RaftCluster (sim_init [] raft_type_name (\<lambda>_. fresh_raft)) [''a'', ''b'', ''c''] None = Inr demo_raft_start"
  unfolding demo_raft_start_def by (simp add: raft_eval cong: eval_congs)

lemma demo_raft_candidate_eq: "start_election ''a'' demo_raft_start = Inr demo_raft_candidate"
  unfolding demo_raft_candidate_def demo_raft_start_def by (simp add: raft_eval cong: eval_congs)

lemma demo_raft_facts: "''a'' \<in> set (rf_node_ids demo_raft_start)" "rf_timeout demo_raft_candidate = Map.empty"
  unfolding demo_raft_candidate_def demo_raft_start_def by (simp_all add: raft_eval cong: eval_congs)

lemma demo_raft_run:
  "\<exists>s'. run_loop raft_callbacks None 0 demo_raft_candidate = Some (Inr (4, s')) \<and> role s' ''a'' = LEADER \<and>
     current_term s' ''a'' = 1 \<and> voted_for s' ''b'' = Some ''a'' \<and> current_term s' ''b'' = 1 \<and> is_alive s' ''b''"
  unfolding demo_raft_candidate_def demo_raft_start_def
  by (simp add: raft_eval cong: eval_congs) (subst run_loop.simps, simp add: raft_eval cong: eval_congs)+

lemma demo_raft_run_eq: "run_loop raft_callbacks None 0 demo_raft_candidate = Some (Inr (4, demo_raft_leader))"
  using demo_raft_run by (auto simp: demo_raft_leader_def sim_run_def)

lemma demo_raft_roles: "role demo_raft_leader ''a'' = LEADER" "current_term demo_raft_leader ''a'' = 1"
  "voted_for demo_raft_leader ''b'' = Some ''a''" "current_term demo_raft_leader ''b'' = 1" "is_alive demo_raft_leader ''b''"
  using demo_raft_run by (auto simp: demo_raft_leader_def sim_run_def)

lemma demo_raft_reachable: "raft_reachable demo_raft_candidate" "raft_reachable demo_raft_leader"
  "raft_step\<^sup>*\<^sup>* demo_raft_candidate demo_raft_leader"
proof -
  have start: "raft_reachable demo_raft_start"
    unfolding raft_reachable_def raft_start_def using demo_raft_start_eq by blast
  have "raft_step\<^sup>*\<^sup>* demo_raft_start demo_raft_candidate"
    using demo_raft_candidate_eq demo_raft_facts(1) by (blast intro: r_into_rtranclp raft_step.elect)
  then show p: "raft_reachable demo_raft_candidate" using raft_reachable_steps[OF start] by blast
  show r: "raft_step\<^sup>*\<^sup>* demo_raft_candidate demo_raft_leader"
    using demo_raft_run_eq by (intro raft_network_steps) (rule run_loop_steps)
  with p show "raft_reachable demo_raft_leader" by (rule raft_reachable_steps)
qed

section \<open>Properties\<close>

text \<open>The votes of a term that the trace records, by more than half of the cluster.\<close>

definition majority_voted :: "'c raft \<Rightarrow> int \<Rightarrow> string \<Rightarrow> bool" where
  "majority_voted s t n \<longleftrightarrow> (\<exists>Q \<subseteq> set (rf_node_ids s). length (rf_node_ids s) < 2 * card Q \<and>
     (\<forall>v \<in> Q. \<exists>time. (time, TApp (EvPersistTermVote v t (Some n))) \<in> set (sim_trace s)))"

lemma majority_voted_elected: "majority_voted s t n \<longleftrightarrow> elected s t n"
  unfolding majority_voted_def elected_def majority_def cast_def quorum_size_half by blast

text \<open>C2. Election Safety. The durable votes of more than half of the cluster go to one candidate per
  term: a node that such a majority voted for in a reachable state and one that such a majority voted
  for in the same term then or at any later time are the same node, and each leader is such a node.
  So two leaders of one term, at whatever moments, are one node; and no delivery loop, election or
  pre-vote started in a reachable state raises \<open>ElectionSafetyViolation\<close>.\<close>

theorem raft_election_safety:
  assumes "raft_reachable s" and "raft_step\<^sup>*\<^sup>* s s'"
  shows "(\<forall>t n m. majority_voted s t n \<longrightarrow> majority_voted s' t m \<longrightarrow> n = m) \<and>
    (\<forall>n. role s n = LEADER \<longrightarrow> majority_voted s (current_term s n) n) \<and>
    (\<forall>n m. role s n = LEADER \<longrightarrow> role s' m = LEADER \<longrightarrow> current_term s n = current_term s' m \<longrightarrow> n = m) \<and>
    (\<forall>k. sim_run raft_callbacks k s' \<noteq> Some (Inl ElectionSafetyViolation)) \<and>
    (\<forall>n \<in> set (rf_node_ids s'). start_election n s' \<noteq> Inl ElectionSafetyViolation \<and>
       start_pre_vote n s' \<noteq> Inl ElectionSafetyViolation)"
proof (intro conjI allI ballI impI)
  have inv: "raft_inv s" using assms(1) by (rule raft_reachable_inv)
  have g: "rgood s s'" using raft_steps_good[OF assms(2) inv] .
  note inv' = rgoodD(1)[OF g]
  show vote: "n = m" if "majority_voted s t n" "majority_voted s' t m" for t n m
    using that elected_unique[OF inv' elected_stable[OF rgoodD(2)[OF g]]] unfolding majority_voted_elected by blast
  have lead: "majority_voted x (current_term x n) n" if x: "raft_inv x" "role x n = LEADER" for x :: "'a raft" and n
  proof -
    have "leaders_by_term x (current_term x n) = Some n" using raft_invD(4)[OF x(1), of n] x(2) by (simp add: role_ok_def)
    from raft_invD(5)[OF x(1) this] show ?thesis by (simp only: majority_voted_elected)
  qed
  show "majority_voted s (current_term s n) n" if "role s n = LEADER" for n by (rule lead[OF inv that])
  show "n = m" if l: "role s n = LEADER" "role s' m = LEADER" "current_term s n = current_term s' m" for n m
    using vote[OF lead[OF inv l(1)]] lead[OF inv' l(2)] l(3) by simp
  show "sim_run raft_callbacks k s' \<noteq> Some (Inl ElectionSafetyViolation)" for k
  proof
    assume "sim_run raft_callbacks k s' = Some (Inl ElectionSafetyViolation)"
    then have "run_loop raft_callbacks k 0 s' = Some (Inl ElectionSafetyViolation)" by (auto simp: sim_run_def split: if_splits option.splits)
    from rf.run_loop_outcome[OF this rgood_refl[OF inv']] show False by simp
  qed
  fix n assume n: "n \<in> set (rf_node_ids s')"
  show "start_election n s' \<noteq> Inl ElectionSafetyViolation"
    using rf_start_election[OF inv' n] by (cases "is_alive s' n") (auto simp: outcome_Inr_iff start_election_def)
  show "start_pre_vote n s' \<noteq> Inl ElectionSafetyViolation"
    using rf_start_pre_vote[OF inv' n] by (cases "is_alive s' n") (auto simp: outcome_Inr_iff start_pre_vote_def)
qed

theorem raft_election_safety_witness:
  "raft_reachable demo_raft_leader \<and> role demo_raft_leader ''a'' = LEADER \<and> majority_voted demo_raft_leader 1 ''a''"
  using raft_election_safety[OF demo_raft_reachable(2) rtranclp.rtrancl_refl] demo_raft_reachable(2) demo_raft_roles(1,2) by metis

text \<open>A leader was elected by a majority: for every leader of a reachable state, a majority of
  the cluster has durably recorded its vote for it in its current term.\<close>

lemma raft_leader_quorum:
  assumes "raft_reachable s" and "role s n = LEADER"
  shows "\<exists>Q \<subseteq> set (rf_node_ids s). quorum_size (rf_node_ids s) \<le> card Q \<and>
    (\<forall>v \<in> Q. \<exists>time. (time, TApp (EvPersistTermVote v (current_term s n) (Some n))) \<in> set (sim_trace s))"
proof -
  have inv: "raft_inv s" using assms(1) by (rule raft_reachable_inv)
  have "leaders_by_term s (current_term s n) = Some n"
    using raft_invD(4)[OF inv, of n] assms(2) by (simp add: role_ok_def)
  from raft_invD(5)[OF inv this] show ?thesis unfolding elected_def majority_def cast_def by blast
qed

text \<open>Terms and votes are stable: a node's current term never decreases, crashes and restarts
  included, and while the term stays the same a vote that was cast is never changed or lost.\<close>

lemma raft_vote_stable:
  assumes "raft_reachable s" and "raft_step\<^sup>*\<^sup>* s s'"
  shows "current_term s n \<le> current_term s' n \<and>
    (current_term s' n = current_term s n \<longrightarrow> voted_for s n = Some c \<longrightarrow> voted_for s' n = Some c)"
proof -
  have inv: "raft_inv s" using assms(1) by (rule raft_reachable_inv)
  have g: "rgood s s'" using raft_steps_good[OF assms(2) inv] .
  have "current_term s n \<le> current_term s' n" using rgoodD(2)[OF g] by (simp add: rf_evolves_def)
  moreover have "voted_for s' n = Some c" if "current_term s' n = current_term s n" "voted_for s n = Some c"
  proof -
    have "cast s n (current_term s n) c" using raft_invD(3)[OF inv, of n] that(2) by (simp add: durable_ok_def)
    then have "cast s' n (current_term s n) c" by (rule cast_stable[OF rgoodD(2)[OF g]])
    then show ?thesis using raft_invD(3)[OF rgoodD(1)[OF g], of n] that(1) by (simp add: durable_ok_def)
  qed
  ultimately show ?thesis by blast
qed

text \<open>C26. Running a cluster: from a reachable state, whatever the delivery loop delivers, the only
  exception a handler can raise is \<open>LogMatchingViolation\<close> (never \<open>ElectionSafetyViolation\<close>), and
  a normal return leaves a reachable state. Without election timers the loop always returns, and
  then nothing is left in flight.\<close>

theorem raft_run_outcome:
  assumes "raft_reachable s"
  shows "(\<forall>k r. sim_run raft_callbacks k s = Some r \<longrightarrow>
      outcome {LogMatchingViolation, ValueError} (\<lambda>(n, s'). raft_reachable s') r) \<and>
    (rf_timeout s = Map.empty \<longrightarrow> (\<exists>r. sim_run raft_callbacks None s = Some r \<and>
      outcome {LogMatchingViolation} (\<lambda>(n, s'). raft_reachable s' \<and> sim_queue s' = []) r))"
proof -
  have inv: "rgood s s" using rgood_refl[OF raft_reachable_inv[OF assms]] .
  have step: "outcome {LogMatchingViolation} (\<lambda>(n, s'). raft_reachable s') r"
    if run: "run_loop raft_callbacks k 0 s = Some r" for k r
  proof (cases r)
    case (Inl e)
    then show ?thesis using rf.run_loop_outcome[OF run inv] by simp
  next
    case (Inr x)
    then obtain n s' where "x = (n, s')" by (cases x)
    with run Inr have "run_loop raft_callbacks k 0 s = Some (Inr (n, s'))" by simp
    then show ?thesis
      using Inr \<open>x = (n, s')\<close> raft_reachable_steps[OF assms raft_network_steps[OF run_loop_steps]] by auto
  qed
  have "\<exists>r. sim_run raft_callbacks None s = Some r \<and>
      outcome {LogMatchingViolation} (\<lambda>(n, s'). raft_reachable s' \<and> sim_queue s' = []) r"
    if quiet: "rf_timeout s = Map.empty"
  proof -
    obtain r where r: "run_loop raft_callbacks None 0 s = Some r"
      using rf_quiet.run_loop_returns[of s None 0] quiet by (auto simp: no_timers_def)
    have "outcome {LogMatchingViolation} (\<lambda>(n, s'). sim_queue s' = []) r"
      using run_loop_drains[of raft_callbacks 0 s] r rf.run_loop_outcome[OF r inv] by (cases r) auto
    from outcome_conj[OF step[OF r] this] r show ?thesis
      by (auto simp: sim_run_def case_prod_unfold)
  qed
  moreover have "outcome {LogMatchingViolation, ValueError} (\<lambda>(n, s'). raft_reachable s') r"
    if "sim_run raft_callbacks k s = Some r" for k r
  proof (cases "case k of None \<Rightarrow> False | Some k \<Rightarrow> k < 0")
    case True
    then show ?thesis using that by (auto simp: sim_run_def)
  next
    case False
    then have "run_loop raft_callbacks k 0 s = Some r" using that by (simp add: sim_run_def)
    from outcome_mono[OF step[OF this]] show ?thesis by blast
  qed
  ultimately show ?thesis by blast
qed

theorem raft_run_outcome_witness:
  "raft_reachable demo_raft_candidate \<and> (\<exists>r. sim_run raft_callbacks None demo_raft_candidate = Some r)"
  using raft_run_outcome[OF demo_raft_reachable(1)] demo_raft_reachable(1) demo_raft_facts(2) by blast

section \<open>What the handlers do\<close>

lemma send_keeps:
  assumes "send_msg src dst p s = Inr (s' :: 'c raft)"
  shows "persistent_state s' = persistent_state s" "vol s' = vol s" "set (sim_trace s) \<subseteq> set (sim_trace s')"
proof -
  have "sent src dst p s s'" using sent_outcome[of src dst p s] assms by simp
  then obtain sq q os tr where
    "s' = s\<lparr>sim_sequence := sq, sim_queue := q, send_ordinals := os, sim_trace := sim_trace s @ tr\<rparr>"
    unfolding sent_def by (blast elim: core_frameE)
  then show "persistent_state s' = persistent_state s" "vol s' = vol s" "set (sim_trace s) \<subseteq> set (sim_trace s')"
    by (auto simp: vol_def fun_eq_iff)
qed

lemma keeps_durable [simp]:
  "persistent_state (clear_pre_vote n s) = persistent_state s"
  "persistent_state (notify ev s) = persistent_state s"
  "persistent_state (notify_leader_retired n t r s) = persistent_state s"
  by (auto simp: clear_pre_vote_def notify_def notify_leader_retired_def split: option.split)

lemma keeps_vol [simp]:
  "vol (notify ev s) = vol s"
  "vol (notify_leader_retired n t r s) = vol s"
  by (auto simp: vol_def notify_def notify_leader_retired_def fun_eq_iff split: option.split)

lemma advance_durable:
  "current_term s n < t \<Longrightarrow> persistent_state (advance_term n t b s) = (persistent_state s)(n :=
     (persistent_state s n)\<lparr>rf_term := t, rf_voted := None\<rparr>)"
  by (auto simp: advance_term_def Let_def persist_term_and_vote_def)

lemma clear_vol [simp]: "vol (clear_pre_vote n s) k =
    (if k = n then (vol s n)\<lparr>rf_pre_vote_term := None, rf_pre_votes := {}\<rparr> else vol s k)"
  by (simp add: clear_pre_vote_def)

lemma advance_commit_keeps: "commit_index (advance_term n t b s) k = commit_index s k"
  by (auto simp: advance_term_def Let_def commit_index_def)

text \<open>Operations that record but send nothing.\<close>

definition silent :: "'c raft \<Rightarrow> 'c raft \<Rightarrow> bool" where
  "silent s s' \<longleftrightarrow> (\<exists>tr. sim_trace s' = sim_trace s @ tr \<and> (\<forall>x \<in> set tr. \<forall>src dst ord p act. snd x \<noteq> TSend src dst ord p act))"

lemma silent_refl: "silent s s"
  by (simp add: silent_def)

lemma silent_trans:
  assumes "silent s t" and "silent t u"
  shows "silent s u"
proof -
  obtain x y where "sim_trace t = sim_trace s @ x" "\<forall>e \<in> set x. \<forall>src dst ord p act. snd e \<noteq> TSend src dst ord p act"
    "sim_trace u = sim_trace t @ y" "\<forall>e \<in> set y. \<forall>src dst ord p act. snd e \<noteq> TSend src dst ord p act"
    using assms unfolding silent_def by blast
  then show ?thesis unfolding silent_def by (intro exI[of _ "x @ y"]) auto
qed

lemma silent_same: "sim_trace s' = sim_trace s \<Longrightarrow> silent s s'"
  by (simp add: silent_def)

lemma silent_app: "silent s t \<Longrightarrow> silent s (record_app e t)"
  by (erule silent_trans) (simp add: silent_def record_event_def)

lemma silent_timeout: "silent s (reset_election_timeout n r s)"
  by (auto simp: reset_election_timeout_def Let_def sim_schedule_def record_event_def silent_def split: option.split)

lemma silent_persist: "silent s (persist_term_and_vote n t v s)"
  by (simp add: persist_term_and_vote_def record_event_def silent_def)

lemma silent_vol: "silent s t \<Longrightarrow> silent s (set_vol n f t)" "silent s t \<Longrightarrow> silent s (clear_pre_vote n t)"
  by (simp_all add: silent_def clear_pre_vote_def)

lemma silent_retired: "silent s (notify_leader_retired n t r s)"
  by (auto simp: notify_leader_retired_def notify_def record_event_def silent_def split: option.split)

lemma silent_advance: "silent s (advance_term n t r s)"
proof -
  define s3 where "s3 = clear_pre_vote n (set_vol n (\<lambda>v. v\<lparr>rf_role := FOLLOWER, rf_votes := {}\<rparr>) (persist_term_and_vote n t None s))"
  have 3: "silent s s3" unfolding s3_def by (intro silent_vol silent_persist)
  define s5 where "s5 = record_app (EvTermAdvance n t)
    (if role s n = LEADER then notify_leader_retired n (current_term s n) ''higher-term-observed'' s3 else s3)"
  have 5: "silent s s5" unfolding s5_def using 3 silent_trans[OF 3 silent_retired] by (simp add: silent_app)
  have "advance_term n t r s = (if t \<le> current_term s n then s
      else if r \<and> role s n = LEADER then reset_election_timeout n ''term-advance'' s5 else s5)"
    unfolding s5_def s3_def by (simp add: advance_term_def Let_def)
  then show ?thesis using 5 silent_trans[OF 5 silent_timeout] silent_refl[of s] by simp
qed

text \<open>The records of one call of \<open>send\<close>.\<close>

lemma send_records:
  assumes "send_msg src dst p s = Inr s'"
  shows "\<exists>tr. sim_trace s' = sim_trace s @ tr \<and> (\<exists>time act. (time, TSend src dst (send_ordinals s (src, dst) + 1) p act) \<in> set tr) \<and>
    (\<forall>time src' dst' ord q act. (time, TSend src' dst' ord q act) \<in> set tr \<longrightarrow> src' = src \<and> dst' = dst \<and> q = p)"
  using assms by (auto simp: sim_send_def Let_def sim_schedule_def record_event_def split: if_splits)

text \<open>C25. The vote a node gives: \<open>_handle_request_vote\<close> moves to the higher term, and stores a vote
  for the candidate exactly when the request is not stale, the node has not voted for another
  candidate in that term, and the candidate's log is at least as up to date, comparing last terms
  first and last indices second; the log is never touched. It answers the sender: a
  \<open>RequestVoteResponse\<close> with the new term and exactly this decision is sent to the source of the
  request, and nothing else is sent.\<close>

theorem request_vote_decision:
  assumes "handle_request_vote n src t cand lli llt s = Inr s'"
  shows "let previous = (if t > current_term s n then None else voted_for s n);
             up_to_date = (last_log_term s n < llt \<or> last_log_term s n = llt \<and> last_log_index s n \<le> lli);
             grant = (current_term s n \<le> t \<and> up_to_date \<and> (previous = None \<or> previous = Some cand));
             answer = RequestVoteResponse (max (current_term s n) t) n grant
         in current_term s' n = max (current_term s n) t \<and>
            voted_for s' n = (if grant then Some cand else previous) \<and>
            log_view s' n = log_view s n \<and>
            (\<exists>time a b. (time, TApp (EvVote n cand t grant up_to_date lli llt a b)) \<in> set (sim_trace s')) \<and>
            (\<exists>tr. sim_trace s' = sim_trace s @ tr \<and> (\<exists>time ord act. (time, TSend n src ord answer act) \<in> set tr) \<and>
               (\<forall>time src' dst ord p act. (time, TSend src' dst ord p act) \<in> set tr \<longrightarrow> src' = n \<and> dst = src \<and> p = answer))"
proof -
  define s1 where "s1 = (if t > current_term s n then advance_term n t False s else s)"
  define up where "up = candidate_log_is_up_to_date s1 n lli llt"
  define grant where "grant = (t = current_term s1 n \<and> up \<and> (voted_for s1 n = None \<or> voted_for s1 n = Some cand))"
  define sv where "sv = set_vol n (\<lambda>v. v\<lparr>rf_role := FOLLOWER\<rparr>) (persist_term_and_vote n t (Some cand) s1)"
  define s2 where "s2 = (if grant then reset_election_timeout n ''vote-granted'' (clear_pre_vote n sv) else s1)"
  define s3 where "s3 = (if (role s n = LEADER \<and> t > current_term s n) \<and> \<not> grant
    then reset_election_timeout n ''higher-term-vote-rejected'' s2 else s2)"
  define ev :: "'a raft_event" where "ev = EvVote n cand t grant up lli llt (last_log_index s3 n) (last_log_term s3 n)"
  have send: "send_msg n src (RequestVoteResponse (current_term (record_app ev s3) n) n grant) (record_app ev s3) = Inr s'"
    using assms unfolding handle_request_vote_def Let_def
    by (simp only: s1_def[symmetric] up_def[symmetric] grant_def[symmetric] sv_def[symmetric]
        s2_def[symmetric] s3_def[symmetric] ev_def[symmetric])
  have d1: "persistent_state s1 n = (if t > current_term s n
      then (persistent_state s n)\<lparr>rf_term := t, rf_voted := None\<rparr> else persistent_state s n)"
    by (simp add: s1_def advance_durable)
  have d3: "persistent_state s' n = (if grant then (persistent_state s1 n)\<lparr>rf_term := t, rf_voted := Some cand\<rparr>
      else persistent_state s1 n)"
    using send_keeps(1)[OF send] by (simp add: s3_def s2_def sv_def persist_term_and_vote_def)
  have t1: "current_term s1 n = max (current_term s n) t" "voted_for s1 n = (if t > current_term s n then None else voted_for s n)"
    using d1 by (auto simp: current_term_def voted_for_def)
  have up: "up = (last_log_term s n < llt \<or> last_log_term s n = llt \<and> last_log_index s n \<le> lli)"
    using d1 by (auto simp: up_def candidate_log_is_up_to_date_def last_log_term_def last_log_index_def log_view_of_def)
  have gr: "grant = (current_term s n \<le> t \<and> up \<and> ((if t > current_term s n then None else voted_for s n) = None \<or>
      (if t > current_term s n then None else voted_for s n) = Some cand))"
    unfolding grant_def t1 by auto
  have quiet1: "silent s s1" using silent_advance[of s] silent_refl[of s] by (simp add: s1_def)
  have quiet2: "silent s s2"
    unfolding s2_def sv_def using quiet1 silent_trans[OF quiet1 silent_trans[OF silent_vol(2)[OF silent_vol(1)[OF silent_persist]] silent_timeout]] by simp
  have quiet3: "silent s (record_app ev s3)"
    unfolding s3_def using quiet2 silent_trans[OF quiet2 silent_timeout] by (simp add: silent_app)
  then obtain x where x: "sim_trace (record_app ev s3) = sim_trace s @ x" "\<forall>e \<in> set x. \<forall>src dst ord p act. snd e \<noteq> TSend src dst ord p act"
    unfolding silent_def by blast
  have term3: "current_term (record_app ev s3) n = max (current_term s n) t"
    using d1 gr by (auto simp: s3_def s2_def sv_def persist_term_and_vote_def current_term_def clear_pre_vote_def)
  obtain y where y: "sim_trace s' = sim_trace (record_app ev s3) @ y"
    "\<exists>time ord act. (time, TSend n src ord (RequestVoteResponse (max (current_term s n) t) n grant) act) \<in> set y"
    "\<And>time src' dst ord p act. (time, TSend src' dst ord p act) \<in> set y \<Longrightarrow>
      src' = n \<and> dst = src \<and> p = RequestVoteResponse (max (current_term s n) t) n grant"
    using send_records[OF send] unfolding term3 by blast
  have answer: "\<exists>tr. sim_trace s' = sim_trace s @ tr \<and>
      (\<exists>time ord act. (time, TSend n src ord (RequestVoteResponse (max (current_term s n) t) n grant) act) \<in> set tr) \<and>
      (\<forall>time src' dst ord p act. (time, TSend src' dst ord p act) \<in> set tr \<longrightarrow>
        src' = n \<and> dst = src \<and> p = RequestVoteResponse (max (current_term s n) t) n grant)"
  proof (intro exI[of _ "x @ y"] conjI allI impI)
    show "sim_trace s' = sim_trace s @ x @ y" using x(1) y(1) by simp
    show "\<exists>time ord act. (time, TSend n src ord (RequestVoteResponse (max (current_term s n) t) n grant) act) \<in> set (x @ y)"
      using y(2) by auto
    fix time src' dst ord p act assume "(time, TSend src' dst ord p act) \<in> set (x @ y)"
    then have "(time, TSend src' dst ord p act) \<in> set y" using x(2) by force
    from y(3)[OF this] show "src' = n" "dst = src" "p = RequestVoteResponse (max (current_term s n) t) n grant" by simp_all
  qed
  have "(sim_time s3, TApp ev) \<in> set (sim_trace s')" using send_keeps(3)[OF send] by auto
  moreover have "current_term s' n = max (current_term s n) t"
    using d3 d1 gr by (auto simp: current_term_def)
  moreover have "voted_for s' n = (if grant then Some cand else if t > current_term s n then None else voted_for s n)"
    using d3 t1(2) by (simp add: voted_for_def)
  moreover have "log_view s' n = log_view s n" using d3 d1 by (simp add: log_view_of_def)
  ultimately show ?thesis using answer unfolding Let_def up[symmetric] gr[symmetric] ev_def by blast
qed

theorem request_vote_decision_witness:
  "\<exists>s' :: string raft. handle_request_vote ''b'' ''a'' 1 ''a'' 0 0 demo_raft_start = Inr s' \<and> voted_for s' ''b'' = Some ''a''"
proof -
  obtain s' where s': "handle_request_vote ''b'' ''a'' 1 ''a'' 0 0 demo_raft_start = Inr s'"
    unfolding demo_raft_start_def by (simp add: raft_eval cong: eval_congs)
  have "current_term demo_raft_start ''b'' = 0" "last_log_term demo_raft_start ''b'' = 0" "last_log_index demo_raft_start ''b'' = 0"
    unfolding demo_raft_start_def by (simp_all add: raft_eval cong: eval_congs)
  with request_vote_decision[OF s'] have "voted_for s' ''b'' = Some ''a''" by (simp add: Let_def)
  with s' show ?thesis by blast
qed

lemma restart_effect:
  assumes "validate_persistent_log (persistent_state s n) = Inr ()"
  shows "\<exists>s'. rf_handle_restart n s = Inr s' \<and> persistent_state s' = persistent_state s \<and> vol s' = vol s"
proof -
  define s1 where "s1 = (case map_of (active_generations s) n of
      None \<Rightarrow> s | Some (t, g) \<Rightarrow> notify_leader_retired n t ''node-restart'' s)"
  have s1: "persistent_state s1 = persistent_state s" "vol s1 = vol s" by (auto simp: s1_def split: option.split)
  have w: "vol (t\<lparr>rf_timer_generation := x, rf_timer_deadline := y\<rparr>) = vol t" for t :: "'a raft" and x y
    by (simp add: vol_def fun_eq_iff)
  show ?thesis
    unfolding rf_handle_restart_def Let_def s1_def[symmetric]
    using assms s1 by (auto simp: w fun_eq_iff)
qed

text \<open>Crash and restart of a Raft node: the pair succeeds in every reachable state, keeps every
  node's durable term, vote and log, and the node comes back as a follower with no votes counted
  and commit index zero.\<close>

lemma raft_crash_restart:
  assumes "raft_reachable s" and "n \<in> set (rf_node_ids s)"
  shows "\<exists>s1 s2. sim_crash raft_callbacks n s = Inr s1 \<and> sim_restart raft_callbacks n s1 = Inr s2 \<and>
    persistent_state s2 = persistent_state s \<and> vol s2 n = volatile_defaults \<and> raft_reachable s2"
proof -
  have inv: "raft_inv s" using assms(1) by (rule raft_reachable_inv)
  have n: "n \<in> set (sim_handlers s)" using raft_invD(2)[OF inv] assms(2) by blast
  obtain s1 where s1: "sim_crash raft_callbacks n s = Inr s1" "persistent_state s1 = persistent_state s"
    "sim_handlers s1 = sim_handlers s"
    using n
    by (auto simp: sim_crash_def validate_node_def raft_callbacks_def call_optional_def rf_handle_crash_def
        notify_leader_retired_def notify_def split: option.split)
  have v: "validate_persistent_log (persistent_state s n) = Inr ()"
    using log_view_valid[OF inv, of n] by (simp add: validate_persistent_log_def)
  let ?t = "record_event (TRestart n) (s1\<lparr>sim_alive := (sim_alive s1)(n := True), volatile_state := (volatile_state s1)(n := None)\<rparr>)"
  obtain s2 where s2: "rf_handle_restart n ?t = Inr s2" "persistent_state s2 = persistent_state ?t" "vol s2 = vol ?t"
    using restart_effect[of ?t n] v s1(2) by auto
  moreover have "vol ?t n = volatile_defaults" by (simp add: vol_def)
  ultimately have s2: "sim_restart raft_callbacks n s1 = Inr s2" "persistent_state s2 = persistent_state s" "vol s2 n = volatile_defaults"
    using n s1(2,3) by (simp_all add: sim_restart_def validate_node_def raft_callbacks_def call_optional_def)
  have "raft_step\<^sup>*\<^sup>* s s2"
    using s1(1) s2(1) by (blast intro: rtranclp.rtrancl_into_rtrancl r_into_rtranclp raft_step.network
        sim_step.step_crash sim_step.step_restart)
  then show ?thesis using s1(1) s2 raft_reachable_steps[OF assms(1)] by blast
qed

lemma commit_advance:
  assumes "advance_commit_index n i src s = Inr s'"
  shows "commit_index s' n = max (commit_index s n) i" "persistent_state s' = persistent_state s" "role s' n = role s n"
  using assms by (auto simp: advance_commit_index_def Let_def commit_index_def role_def split: if_splits)

lemma merge_entries_effect:
  assumes "merge_entries n prev entries s = Inr s'" and "prefix_matches (log_view s n) prev pt = Inr True"
  shows "persistent_state s' n = (persistent_state s n)
      \<lparr>rf_log := merge_spec (rf_log (persistent_state s n)) (nat (prev - rf_base_index (persistent_state s n))) entries\<rparr>"
    "vol s' = vol s"
proof -
  have empty: "merge_spec log k [] = log" for log :: "'a log_entry list" and k by (simp add: merge_spec_def)
  have "merge_after (log_view s n) prev entries = Inr log \<Longrightarrow>
      log = merge_spec (rf_log (persistent_state s n)) (nat (prev - rf_base_index (persistent_state s n))) entries" for log
    unfolding merge_after_eq by (auto simp: log_view_of_def split: if_splits)
  then show "persistent_state s' n = (persistent_state s n)
      \<lparr>rf_log := merge_spec (rf_log (persistent_state s n)) (nat (prev - rf_base_index (persistent_state s n))) entries\<rparr>"
    "vol s' = vol s"
    using assms(1) empty
    by (auto simp: merge_entries_def persist_log_def Let_def and_then_eq_Inr vol_def fun_eq_iff split: if_splits)
qed

lemma accept_append_effect:
  assumes "accept_append n w prt t leader prev pt entries commit s = Inr (ok, mi, s')"
  shows "current_term s' n = current_term s n \<and> role s' n = FOLLOWER \<and>
    ok = (prefix_matches (log_view s n) prev pt = Inr True) \<and>
    rf_log (persistent_state s' n) = (if ok then merge_spec (rf_log (persistent_state s n))
        (nat (prev - rf_base_index (persistent_state s n))) entries else rf_log (persistent_state s n)) \<and>
    commit_index s' n = (if ok then max (commit_index s n) (min commit (prev + int (length entries))) else commit_index s n)"
proof -
  define s3 where "s3 = reset_election_timeout n ''append-entries''
    (let s1 = clear_pre_vote n (set_vol n (\<lambda>v. v\<lparr>rf_role := FOLLOWER, rf_votes := {}\<rparr>) s)
     in if w \<and> t = prt then notify_leader_retired n prt ''append-entries'' s1 else s1)"
  have s3: "persistent_state s3 = persistent_state s" "role s3 n = FOLLOWER" "commit_index s3 n = commit_index s n"
    by (auto simp: s3_def Let_def role_def commit_index_def)
  obtain b where b: "prefix_matches (log_view s3 n) prev pt = Inr b"
    using assms unfolding accept_append_def Let_def s3_def[unfolded Let_def, symmetric] by (auto simp: and_then_eq_Inr)
  show ?thesis
  proof (cases b)
    case False
    then show ?thesis
      using assms b s3 unfolding accept_append_def Let_def s3_def[unfolded Let_def, symmetric]
      by (auto simp: current_term_def)
  next
    case True
    then obtain s4 s5 where s4: "merge_entries n prev entries s3 = Inr s4"
      and s5: "(if commit > commit_index s4 n then advance_commit_index n (min commit (prev + int (length entries))) leader s4
        else Inr s4) = Inr s5"
      and r: "ok = True" "s' = s5"
      using assms b unfolding accept_append_def Let_def s3_def[unfolded Let_def, symmetric] by (auto simp: and_then_eq_Inr)
    have "prefix_matches (log_view s3 n) prev pt = Inr True" using b True by simp
    note m = merge_entries_effect[OF s4 this]
    have "commit_index s4 n = commit_index s n" "role s4 n = FOLLOWER"
      using m(2) s3 by (simp_all add: commit_index_def role_def)
    then have "commit_index s5 n = max (commit_index s n) (min commit (prev + int (length entries)))"
      "persistent_state s5 = persistent_state s4" "role s5 n = FOLLOWER"
      using s5 commit_advance[of n _ leader s4 s5] by (auto split: if_splits)
    then show ?thesis using m(1) s3 r b True by (simp add: current_term_def)
  qed
qed

text \<open>C24. AppendEntries on every branch that returns: a stale request changes neither term, log nor
  commit index; otherwise the node adopts the request's term as a follower, and exactly when the
  absolute prefix (index, term) matches its log, its retained log becomes the specified merge and
  its commit index rises to the smaller of the leader's commit and the last merged index, never
  falling.\<close>

theorem append_entries_effect:
  assumes "handle_append_entries n src t leader prev pt entries commit s = Inr (s' :: 'a raft)"
  shows "let d = persistent_state s n; d' = persistent_state s' n;
             accepted = (current_term s n \<le> t \<and> prefix_matches (log_view s n) prev pt = Inr True)
         in current_term s' n = max (current_term s n) t \<and>
            (current_term s n \<le> t \<longrightarrow> role s' n = FOLLOWER) \<and>
            rf_log d' = (if accepted then merge_spec (rf_log d) (nat (prev - rf_base_index d)) entries else rf_log d) \<and>
            commit_index s' n = (if accepted then max (commit_index s n) (min commit (prev + int (length entries)))
                                 else commit_index s n)"
proof -
  define s1 where "s1 = (if t > current_term s n then advance_term n t False s else s)"
  have d1: "persistent_state s1 n = (if t > current_term s n
      then (persistent_state s n)\<lparr>rf_term := t, rf_voted := None\<rparr> else persistent_state s n)"
    by (simp add: s1_def advance_durable)
  have c1: "commit_index s1 n = commit_index s n" by (simp add: s1_def advance_commit_keeps)
  have t1: "current_term s1 n = max (current_term s n) t" using d1 by (auto simp: current_term_def)
  have v1: "log_view s1 n = log_view s n" using d1 by (simp add: log_view_of_def)
  define acc where "acc = (if t = current_term s1 n
      then accept_append n (role s n = LEADER) (current_term s n) t leader prev pt entries commit s1
      else Inr (False, 0, s1))"
  define respond where "respond = (\<lambda>(ok, mi, s2 :: 'a raft). and_then (make_append_response (current_term (record_app
      (EvAppendEntries n leader t prev pt (int (length entries)) commit (commit_index s2 n) ok mi) s2) n) n ok mi)
      (\<lambda>r. send_msg n src r (record_app
      (EvAppendEntries n leader t prev pt (int (length entries)) commit (commit_index s2 n) ok mi) s2)))"
  have run: "and_then acc respond = Inr s'"
    using assms unfolding handle_append_entries_def Let_def s1_def[symmetric] acc_def respond_def .
  obtain ok mi s2 where acc: "acc = Inr (ok, mi, s2)" and fin: "respond (ok, mi, s2) = Inr s'"
    using run unfolding and_then_eq_Inr by (metis prod_cases3)
  have s': "persistent_state s' = persistent_state s2" "vol s' = vol s2"
    using fin by (auto simp: respond_def and_then_eq_Inr fun_eq_iff dest: send_keeps(1,2))
  have e: "current_term s' n = current_term s2 n" "role s' n = role s2 n" "commit_index s' n = commit_index s2 n"
    using s' by (simp_all add: current_term_def role_def commit_index_def)
  show ?thesis
  proof (cases "current_term s n \<le> t")
    case True
    then have "accept_append n (role s n = LEADER) (current_term s n) t leader prev pt entries commit s1 = Inr (ok, mi, s2)"
      using acc t1 by (simp add: acc_def)
    from accept_append_effect[OF this] show ?thesis
      using True t1 c1 d1 unfolding Let_def e s'(1) v1 by auto
  next
    case False
    then have "s2 = s1" using acc t1 by (auto simp: acc_def)
    then show ?thesis using False t1 c1 d1 unfolding Let_def e s'(1) by simp
  qed
qed

theorem append_entries_effect_witness:
  "\<exists>s' :: string raft. handle_append_entries ''b'' ''a'' 1 ''a'' 0 0 [LogEntry 1 ''x''] 1 demo_raft_start = Inr s' \<and>
     rf_log (persistent_state s' ''b'') = [LogEntry 1 ''x''] \<and> commit_index s' ''b'' = 1"
proof -
  obtain s' where s': "handle_append_entries ''b'' ''a'' 1 ''a'' 0 0 [LogEntry 1 ''x''] 1 demo_raft_start = Inr s'"
    unfolding demo_raft_start_def
    by (simp add: raft_eval handle_append_entries_def accept_append_def prefix_matches_def term_at_def merge_entries_def
        merge_after_def persist_log_def commit_index_def advance_commit_index_def assert_log_matching_def logs_match_def
        first_retained_index_def make_append_response_def upto.simps cong: eval_congs)
  have "current_term demo_raft_start ''b'' = 0" "persistent_state demo_raft_start ''b'' = fresh_raft"
    "commit_index demo_raft_start ''b'' = 0"
    unfolding demo_raft_start_def by (simp_all add: raft_eval commit_index_def cong: eval_congs)
  with append_entries_effect[OF s'] have "rf_log (persistent_state s' ''b'') = [LogEntry 1 ''x''] \<and> commit_index s' ''b'' = 1"
    by (simp add: Let_def fresh_raft_def prefix_matches_def term_at_def log_view_of_def last_index_def merge_spec_def)
  with s' show ?thesis by blast
qed

end
