(* ===== verification/Linearizability.thy ===== *)
theory Linearizability
  imports History
begin

unbundle bit_operations_syntax

text \<open>
  The single-key checker of \<^verbatim>\<open>src/src/distlab/linearizability.py\<close>, method \<open>check\<close>: a depth-first
  search over subsets of the completed operations, kept as bit masks of unbounded Python
  integers, with a memo of failed (mask, value) states. The search is a pair of mutually
  recursive functions, the recursive closure \<open>search\<close> and its \<open>for\<close> loop, threading the
  mutable set \<open>failed\<close>; it terminates because every call sets one more bit.

  The specification is independent of the search: \<open>linearization\<close> is a permutation of the
  completed operations that respects real time and is a legal run of a register. The checker is
  shown to be sound and complete for it.
\<close>

section \<open>The checker\<close>

definition apply_completed :: "completed_operation \<Rightarrow> string option \<Rightarrow> string option option" where
  "apply_completed item v =
     (case inv_op (co_inv item) of
        Write (Put k w) \<Rightarrow> if cp_result (co_comp item) = None then Some (Some w) else None
      | Write (Delete k) \<Rightarrow> if cp_result (co_comp item) = None then Some None else None
      | Get k \<Rightarrow> if cp_result (co_comp item) = v then Some v else None)"

definition predecessors :: "completed_operation list \<Rightarrow> int list" where
  "predecessors ops = map (\<lambda>current.
     fold (\<lambda>(index, other) m. if cp_seq (co_comp other) < inv_seq (co_inv current)
        then m OR push_bit index 1 else m) (List.enumerate 0 ops) 0) ops"

text \<open>One iteration of the loop over \<open>operations\<close>; \<open>None\<close> is each of its three \<open>continue\<close>s.\<close>

definition search_step ::
  "completed_operation list \<Rightarrow> int list \<Rightarrow> int \<times> string option \<Rightarrow> nat \<Rightarrow> (int \<times> string option) option" where
  "search_step ops pre = (\<lambda>(m, v) index.
     let bit = push_bit index 1
     in if m AND bit \<noteq> 0 then None
        else if (pre ! index) AND NOT m \<noteq> 0 then None
        else case apply_completed (ops ! index) v of
               None \<Rightarrow> None
             | Some next_value \<Rightarrow> Some (m OR bit, next_value))"

definition unset_bits :: "nat \<Rightarrow> int \<Rightarrow> nat" where
  "unset_bits n m = card {i. i < n \<and> \<not> bit m i}"

lemma bit_tests:
  fixes m p :: int
  shows "m AND 2 ^ i = 0 \<longleftrightarrow> \<not> bit m i"
    "p AND NOT m = 0 \<longleftrightarrow> (\<forall>j. bit p j \<longrightarrow> bit m j)"
    "bit (m OR 2 ^ i) j \<longleftrightarrow> bit m j \<or> j = i"
proof -
  have "m AND 2 ^ i = 0 \<longleftrightarrow> (\<forall>j. \<not> (bit m j \<and> j = i))"
    unfolding bit_eq_iff[of "m AND 2 ^ i"] by (auto simp: bit_simps)
  then show "m AND 2 ^ i = 0 \<longleftrightarrow> \<not> bit m i" by blast
  show "p AND NOT m = 0 \<longleftrightarrow> (\<forall>j. bit p j \<longrightarrow> bit m j)"
    unfolding bit_eq_iff[of "p AND NOT m"] by (auto simp: bit_simps)
  show "bit (m OR 2 ^ i) j \<longleftrightarrow> bit m j \<or> j = i" by (auto simp: bit_simps)
qed

lemma unset_bits_less:
  assumes "i < n" and "\<not> bit m i"
  shows "unset_bits n (m OR 2 ^ i) < unset_bits n m"
proof -
  have "{j. j < n \<and> \<not> bit (m OR 2 ^ i) j} \<subset> {j. j < n \<and> \<not> bit m j}"
    using assms by (auto simp: bit_tests)
  then show ?thesis unfolding unset_bits_def by (intro psubset_card_mono) simp_all
qed

lemma search_step_mask:
  "search_step ops pre (m, v) i = Some st' \<longleftrightarrow>
    \<not> bit m i \<and> (\<forall>j. bit (pre ! i) j \<longrightarrow> bit m j) \<and>
    (\<exists>w. apply_completed (ops ! i) v = Some w \<and> st' = (m OR 2 ^ i, w))"
  by (auto simp: search_step_def Let_def bit_tests split: option.splits)

function search ::
  "completed_operation list \<Rightarrow> int list \<Rightarrow> int \<Rightarrow> int \<times> string option \<Rightarrow> (int \<times> string option) set \<Rightarrow>
   string list option \<times> (int \<times> string option) set"
and search_loop ::
  "completed_operation list \<Rightarrow> int list \<Rightarrow> int \<Rightarrow> int \<times> string option \<Rightarrow> nat \<Rightarrow> (int \<times> string option) set \<Rightarrow>
   string list option \<times> (int \<times> string option) set" where
  "search ops pre full_mask st failed =
     (if fst st = full_mask then (Some [], failed)
      else if st \<in> failed then (None, failed)
      else search_loop ops pre full_mask st 0 failed)"
| "search_loop ops pre full_mask st index failed =
     (if index < length ops then
        (case search_step ops pre st index of
           None \<Rightarrow> search_loop ops pre full_mask st (Suc index) failed
         | Some st' \<Rightarrow>
             (case search ops pre full_mask st' failed of
                (Some rest, failed') \<Rightarrow> (Some (co_id (ops ! index) # rest), failed')
              | (None, failed') \<Rightarrow> search_loop ops pre full_mask st (Suc index) failed'))
      else (None, insert st failed))"
  by pat_completeness auto
termination
proof (relation "measures [case_sum (\<lambda>(ops, pre, full, st, failed). unset_bits (length ops) (fst st))
      (\<lambda>(ops, pre, full, st, i, failed). unset_bits (length ops) (fst st)),
    case_sum (\<lambda>(ops, pre, full, st, failed). Suc (length ops))
      (\<lambda>(ops, pre, full, st, i, failed). length ops - i)]", goal_cases)
  case (4 ops pre full st index failed st')
  then show ?case using unset_bits_less by (cases st) (auto simp: search_step_mask)
qed auto

declare search.simps [simp del] search_loop.simps [simp del]

datatype linearizability_result = LinearizabilityResult (lr_linearizable: bool) (lr_order: "string list")

definition check :: "history \<Rightarrow> linearizability_result result" where
  "check h =
     (let operations = completed h
      in if operations = [] then Inr (LinearizabilityResult True [])
         else if card ((\<lambda>item. ho_key (inv_op (co_inv item))) ` set operations) \<noteq> 1 then Inl InvalidHistory
         else
           (let pre = predecessors operations;
                full_mask = push_bit (length operations) 1 - 1
            in case fst (search operations pre full_mask (0, None) {}) of
                 None \<Rightarrow> Inr (LinearizabilityResult False [])
               | Some order \<Rightarrow> Inr (LinearizabilityResult True order)))"

section \<open>Paths of a memoised search\<close>

text \<open>
  The contract the two searches of the source share: from a state, an index below \<open>n\<close> may be
  selected when \<open>step\<close> allows it, until \<open>goal\<close> holds. A state is dead when no path leads to
  the goal.
\<close>

fun path :: "('s \<Rightarrow> nat \<Rightarrow> 's option) \<Rightarrow> ('s \<Rightarrow> bool) \<Rightarrow> nat \<Rightarrow> 's \<Rightarrow> nat list \<Rightarrow> bool" where
  "path step goal n st [] \<longleftrightarrow> goal st"
| "path step goal n st (i # is) \<longleftrightarrow> i < n \<and> (case step st i of None \<Rightarrow> False | Some st' \<Rightarrow> path step goal n st' is)"

definition dead :: "('s \<Rightarrow> nat \<Rightarrow> 's option) \<Rightarrow> ('s \<Rightarrow> bool) \<Rightarrow> nat \<Rightarrow> 's \<Rightarrow> bool" where
  "dead step goal n st \<longleftrightarrow> (\<forall>is. \<not> path step goal n st is)"

lemma deadI:
  assumes "\<not> goal st" and "\<And>i st'. i < n \<Longrightarrow> step st i = Some st' \<Longrightarrow> dead step goal n st'"
  shows "dead step goal n st"
  unfolding dead_def
proof
  fix "is" show "\<not> path step goal n st is"
    using assms by (cases "is") (auto simp: dead_def split: option.splits)
qed

lemma search_correct:
  defines "dd ops pre full \<equiv> dead (search_step ops pre) (\<lambda>st. fst st = full) (length ops)"
  defines "pp ops pre full \<equiv> path (search_step ops pre) (\<lambda>st. fst st = full) (length ops)"
  shows "search ops pre full st failed = (r, failed') \<Longrightarrow> \<forall>t \<in> failed. dd ops pre full t \<Longrightarrow>
      (\<forall>t \<in> failed'. dd ops pre full t) \<and>
      (case r of None \<Rightarrow> dd ops pre full st
       | Some ids \<Rightarrow> \<exists>is. pp ops pre full st is \<and> ids = map (\<lambda>i. co_id (ops ! i)) is)"
    and "search_loop ops pre full st k failed = (r, failed') \<Longrightarrow> \<forall>t \<in> failed. dd ops pre full t \<Longrightarrow>
      fst st \<noteq> full \<Longrightarrow> \<forall>i < k. \<forall>t. search_step ops pre st i = Some t \<longrightarrow> i < length ops \<longrightarrow> dd ops pre full t \<Longrightarrow>
      (\<forall>t \<in> failed'. dd ops pre full t) \<and>
      (case r of None \<Rightarrow> dd ops pre full st
       | Some ids \<Rightarrow> \<exists>is. pp ops pre full st is \<and> ids = map (\<lambda>i. co_id (ops ! i)) is)"
proof (induction ops pre full st failed and ops pre full st k failed
    arbitrary: r failed' and r failed' rule: search_search_loop.induct)
  case (1 ops pre full st failed)
  show ?case
  proof (cases "fst st = full \<or> st \<in> failed")
    case True
    then show ?thesis using 1(2,3)
      by (auto simp: pp_def intro!: exI[of _ "[]"] simp: search.simps split: if_splits)
  next
    case False
    then show ?thesis using 1 by (simp add: search.simps)
  qed
next
  case (2 ops pre full st k failed)
  show ?case
  proof (cases "k < length ops")
    case False
    then have "\<forall>i < length ops. \<forall>t. search_step ops pre st i = Some t \<longrightarrow> dd ops pre full t"
      using 2(7) by (metis not_less order_less_le_trans)
    then have "dd ops pre full st" unfolding dd_def using 2(6) by (blast intro: deadI)
    then show ?thesis using 2(4,5) False by (auto simp: search_loop.simps)
  next
    case k: True
    show ?thesis
    proof (cases "search_step ops pre st k")
      case None
      then have "\<forall>i < Suc k. \<forall>t. search_step ops pre st i = Some t \<longrightarrow> i < length ops \<longrightarrow> dd ops pre full t"
        using 2(7) by (auto simp: less_Suc_eq)
      then show ?thesis using 2(1)[OF k None] 2(4,5,6) k None by (simp add: search_loop.simps)
    next
      case (Some st')
      obtain q failed1 where q: "search ops pre full st' failed = (q, failed1)" by fastforce
      note ih = 2(2)[OF k Some q 2(5)]
      show ?thesis
      proof (cases q)
        case (Some rest)
        then obtain "is" where "pp ops pre full st' is" "rest = map (\<lambda>i. co_id (ops ! i)) is"
          using ih by auto
        then have "pp ops pre full st (k # is)" "r = Some (map (\<lambda>i. co_id (ops ! i)) (k # is))" "failed' = failed1"
          using 2(4) k Some q \<open>search_step ops pre st k = Some st'\<close> by (simp_all add: pp_def search_loop.simps)
        then show ?thesis using ih by (auto intro!: exI[of _ "k # is"] simp del: path.simps list.map)
      next
        case None
        then have "\<forall>i < Suc k. \<forall>t. search_step ops pre st i = Some t \<longrightarrow> i < length ops \<longrightarrow> dd ops pre full t"
          using 2(7) ih Some by (auto simp: less_Suc_eq)
        moreover have "search_loop ops pre full st (Suc k) failed1 = (r, failed')"
          using 2(4) k Some q None by (simp add: search_loop.simps)
        moreover have "\<forall>t \<in> failed1. dd ops pre full t" using ih by blast
        ultimately show ?thesis by (intro 2(3)[OF k Some q[symmetric] None] 2(6))
      qed
    qed
  qed
qed

section \<open>The specification\<close>

definition precedes :: "completed_operation \<Rightarrow> completed_operation \<Rightarrow> bool" where
  "precedes a b \<longleftrightarrow> cp_seq (co_comp a) < inv_seq (co_inv b)"

fun legal :: "string option \<Rightarrow> completed_operation list \<Rightarrow> bool" where
  "legal v [] \<longleftrightarrow> True"
| "legal v (x # xs) \<longleftrightarrow>
     (case inv_op (co_inv x) of
        Write (Put k w) \<Rightarrow> cp_result (co_comp x) = None \<and> legal (Some w) xs
      | Write (Delete k) \<Rightarrow> cp_result (co_comp x) = None \<and> legal None xs
      | Get k \<Rightarrow> cp_result (co_comp x) = v \<and> legal v xs)"

definition linearization :: "completed_operation list \<Rightarrow> completed_operation list \<Rightarrow> bool" where
  "linearization ops order \<longleftrightarrow>
     mset order = mset ops \<and> sorted_wrt (\<lambda>a b. \<not> precedes b a) order \<and> legal None order"

section \<open>Masks are sets of indices\<close>

lemma bit_fold_enumerate:
  "bit (fold (\<lambda>(ix, x) m. if P x then m OR push_bit ix 1 else m) (List.enumerate k xs) (m0 :: int)) j \<longleftrightarrow>
   bit m0 j \<or> k \<le> j \<and> j < k + length xs \<and> P (xs ! (j - k))"
proof (induction xs arbitrary: k m0 j)
  case (Cons x xs)
  show ?case
    by (cases "j = k") (auto simp: Cons.IH bit_tests nth_Cons' Suc_le_eq not_less_eq_eq)
qed auto

lemma predecessors_bit:
  "i < length ops \<Longrightarrow> bit (predecessors ops ! i) j \<longleftrightarrow> j < length ops \<and> precedes (ops ! j) (ops ! i)"
  by (simp add: predecessors_def bit_fold_enumerate precedes_def)

definition bits :: "int \<Rightarrow> nat set" where
  "bits m = {j. bit m j}"

lemma bits_simps [simp]: "bits 0 = {}" "bits (m OR 2 ^ i) = insert i (bits m)" "bits (2 ^ n - 1) = {..<n}"
proof -
  show "bits (2 ^ n - 1) = {..<n}"
    using bit_mask_iff[of n, where 'a = int] by (auto simp: bits_def mask_eq_exp_minus_1)
qed (auto simp: bits_def bit_tests)

lemma bits_inject: "m = m' \<longleftrightarrow> bits m = bits m'"
  unfolding bits_def bit_eq_iff[of m] by auto

lemma mem_bits: "bit m i \<longleftrightarrow> i \<in> bits m"
  by (simp add: bits_def)

section \<open>Selections of indices\<close>

fun feasible :: "('a \<Rightarrow> 'a \<Rightarrow> bool) \<Rightarrow> 'a set \<Rightarrow> 'a set \<Rightarrow> 'a list \<Rightarrow> bool" where
  "feasible prec A S [] \<longleftrightarrow> True"
| "feasible prec A S (x # xs) \<longleftrightarrow>
     x \<in> A \<and> x \<notin> S \<and> (\<forall>y \<in> A. prec y x \<longrightarrow> y \<in> S) \<and> feasible prec A (insert x S) xs"

lemma feasible_sorted:
  assumes "\<forall>y \<in> A. \<forall>x \<in> A. prec y x \<longrightarrow> y \<in> S \<union> set xs" and "\<forall>x \<in> A. \<not> prec x x"
  shows "feasible prec A S xs \<longleftrightarrow> distinct xs \<and> set xs \<subseteq> A - S \<and> sorted_wrt (\<lambda>a b. \<not> prec b a) xs"
  using assms(1)
proof (induction xs arbitrary: S)
  case (Cons x xs)
  have IH: "feasible prec A (insert x S) xs \<longleftrightarrow> distinct xs \<and> set xs \<subseteq> A - insert x S \<and> sorted_wrt (\<lambda>a b. \<not> prec b a) xs"
    using Cons.IH[of "insert x S"] Cons.prems by auto
  show ?case unfolding feasible.simps IH using Cons.prems assms(2) by auto
qed simp

lemma index_lists:
  assumes "distinct ops"
  shows "(\<exists>is. distinct is \<and> set is \<subseteq> {..<length ops} \<and> P (map ((!) ops) is)) \<longleftrightarrow>
    (\<exists>order. distinct order \<and> set order \<subseteq> set ops \<and> P order)"
proof (intro iffI; elim exE conjE)
  fix "is" assume i: "distinct is" "set is \<subseteq> {..<length ops}" "P (map ((!) ops) is)"
  then have "inj_on ((!) ops) (set is)" using assms
    by (auto simp: inj_on_def) (metis lessThan_iff nth_eq_iff_index_eq subsetD)
  with i show "\<exists>order. distinct order \<and> set order \<subseteq> set ops \<and> P order"
    by (intro exI[of _ "map ((!) ops) is"]) (auto simp: distinct_map)
next
  fix order assume o: "distinct order" "set order \<subseteq> set ops" "P order"
  define g where "g = inv_into {..<length ops} ((!) ops)"
  have im: "x \<in> (!) ops ` {..<length ops}" if "x \<in> set order" for x
    using that o(2) by (metis image_eqI in_set_conv_nth lessThan_iff subsetD)
  have nth: "ops ! g x = x" if "x \<in> set order" for x unfolding g_def by (rule f_inv_into_f[OF im[OF that]])
  have lt: "g x < length ops" if "x \<in> set order" for x using inv_into_into[OF im[OF that]] by (simp add: g_def)
  have "map ((!) ops) (map g order) = order" using nth by (simp add: map_idI)
  moreover have "distinct (map g order)" using o(1) nth by (auto simp: distinct_map intro!: inj_onI) metis
  ultimately show "\<exists>is. distinct is \<and> set is \<subseteq> {..<length ops} \<and> P (map ((!) ops) is)"
    using o lt by (intro exI[of _ "map g order"]) auto
qed

section \<open>Correctness\<close>

lemma legal_step:
  "apply_completed x v = Some w \<Longrightarrow> legal v (x # xs) \<longleftrightarrow> legal w xs"
  "apply_completed x v = None \<Longrightarrow> \<not> legal v (x # xs)"
  by (auto simp: apply_completed_def split: history_operation.splits kv_operation.splits if_splits)

lemma path_iff:
  "bits m \<subseteq> {..<length ops} \<Longrightarrow>
   path (search_step ops (predecessors ops)) (\<lambda>st. fst st = 2 ^ length ops - 1) (length ops) (m, v) is \<longleftrightarrow>
   feasible (\<lambda>j i. precedes (ops ! j) (ops ! i)) {..<length ops} (bits m) is \<and>
   bits m \<union> set is = {..<length ops} \<and> legal v (map ((!) ops) is)"
proof (induction "is" arbitrary: m v)
  case Nil
  show ?case by (simp add: bits_inject[of m])
next
  case (Cons i "is")
  show ?case
  proof (cases "i < length ops \<and> \<not> bit m i \<and> (\<forall>j < length ops. precedes (ops ! j) (ops ! i) \<longrightarrow> bit m j)")
    case False
    then have "\<not> path (search_step ops (predecessors ops)) (\<lambda>st. fst st = 2 ^ length ops - 1) (length ops) (m, v) (i # is)"
      by (auto simp: search_step_mask predecessors_bit split: option.splits)
    with False show ?thesis by (auto simp: bits_def)
  next
    case True
    show ?thesis
    proof (cases "apply_completed (ops ! i) v")
      case None
      then show ?thesis using legal_step(2)[OF None]
        by (auto simp: search_step_mask split: option.splits simp del: legal.simps)
    next
      case (Some w)
      have "search_step ops (predecessors ops) (m, v) i = Some (m OR 2 ^ i, w)"
        using True Some by (auto simp: search_step_mask predecessors_bit)
      then show ?thesis
        using True Cons.IH[of "m OR 2 ^ i" w] Cons.prems legal_step(1)[OF Some]
        by (simp add: bits_def[symmetric] mem_bits del: legal.simps)
    qed
  qed
qed

lemma search_linearization:
  assumes wf: "wf_history h"
  defines "ops \<equiv> completed h"
  defines "p \<equiv> path (search_step ops (predecessors ops)) (\<lambda>st. fst st = 2 ^ length ops - 1) (length ops) (0, None)"
  shows "(\<exists>is. p is \<and> ids = map (\<lambda>i. co_id (ops ! i)) is) \<longleftrightarrow>
    (\<exists>order. linearization ops order \<and> ids = map co_id order)"
proof -
  have d: "distinct ops" using completed_facts(2)[OF wf] by (simp add: ops_def)
  have irr: "\<not> precedes (ops ! i) (ops ! i)" if "i < length ops" for i
    using completed_facts(3)[OF wf, of "ops ! i"] that by (simp add: precedes_def ops_def)
  have "p is \<longleftrightarrow> distinct is \<and> set is = {..<length ops} \<and>
      sorted_wrt (\<lambda>a b. \<not> precedes b a) (map ((!) ops) is) \<and> legal None (map ((!) ops) is)" for "is"
  proof -
    have "set is = {..<length ops} \<Longrightarrow>
        feasible (\<lambda>j i. precedes (ops ! j) (ops ! i)) {..<length ops} {} is \<longleftrightarrow>
        distinct is \<and> sorted_wrt (\<lambda>a b. \<not> precedes (ops ! b) (ops ! a)) is"
      by (subst feasible_sorted) (auto simp: irr)
    then show ?thesis unfolding p_def path_iff[of 0 ops, simplified] by (auto simp: sorted_wrt_map)
  qed
  moreover have "distinct is \<and> set is = {..<length ops} \<longleftrightarrow>
      distinct is \<and> set is \<subseteq> {..<length ops} \<and> length (map ((!) ops) is) = length ops" for "is"
  proof -
    have "set is = {..<length ops}" if "distinct is" "set is \<subseteq> {..<length ops}" "length is = length ops"
      using that by (intro card_subset_eq) (auto simp: distinct_card)
    moreover have "length is = length ops" if "distinct is" "set is = {..<length ops}"
      using that distinct_card[OF that(1)] by simp
    ultimately show ?thesis by auto
  qed
  ultimately have "(\<exists>is. p is \<and> ids = map (\<lambda>i. co_id (ops ! i)) is) \<longleftrightarrow>
      (\<exists>is. distinct is \<and> set is \<subseteq> {..<length ops} \<and> length (map ((!) ops) is) = length ops \<and>
        sorted_wrt (\<lambda>a b. \<not> precedes b a) (map ((!) ops) is) \<and> legal None (map ((!) ops) is) \<and>
        ids = map co_id (map ((!) ops) is))"
    by (simp add: comp_def) blast
  also have "\<dots> \<longleftrightarrow> (\<exists>order. distinct order \<and> set order \<subseteq> set ops \<and> length order = length ops \<and>
      sorted_wrt (\<lambda>a b. \<not> precedes b a) order \<and> legal None order \<and> ids = map co_id order)"
    by (rule index_lists[OF d, where P = "\<lambda>order. length order = length ops \<and>
      sorted_wrt (\<lambda>a b. \<not> precedes b a) order \<and> legal None order \<and> ids = map co_id order"])
  also have "\<dots> \<longleftrightarrow> (\<exists>order. linearization ops order \<and> ids = map co_id order)"
  proof -
    have "distinct order \<and> set order \<subseteq> set ops \<and> length order = length ops \<longleftrightarrow> mset order = mset ops" for order
      using d by (metis (no_types, lifting) card_subset_eq distinct_card finite_set mset_eq_imp_distinct_iff
          mset_eq_length mset_eq_setD order_refl set_eq_iff_mset_eq_distinct)
    then show ?thesis unfolding linearization_def by blast
  qed
  finally show ?thesis .
qed

definition single_key :: "completed_operation list \<Rightarrow> bool" where
  "single_key ops \<longleftrightarrow> (\<forall>a \<in> set ops. \<forall>b \<in> set ops. ho_key (inv_op (co_inv a)) = ho_key (inv_op (co_inv b)))"

lemma card_one_key:
  assumes "ops \<noteq> []"
  shows "card ((\<lambda>x. ho_key (inv_op (co_inv x))) ` set ops) = 1 \<longleftrightarrow> single_key ops"
proof -
  let ?k = "\<lambda>x. ho_key (inv_op (co_inv x))"
  obtain a where a: "a \<in> set ops" using assms by (cases ops) auto
  show ?thesis
  proof
    assume "card (?k ` set ops) = 1"
    then obtain k where k: "?k ` set ops = {k}" by (rule card_1_singletonE)
    have "?k x = k" if "x \<in> set ops" for x using imageI[OF that, of ?k] k by simp
    then show "single_key ops" by (simp add: single_key_def)
  next
    assume sk: "single_key ops"
    have "?k ` set ops = (\<lambda>_. ?k a) ` set ops"
      by (rule image_cong[OF refl]) (rule sk[unfolded single_key_def, rule_format, OF _ a])
    then have "?k ` set ops = {?k a}" using a by (metis empty_iff image_constant_conv)
    then show "card (?k ` set ops) = 1" by simp
  qed
qed

lemma check_cases:
  assumes wf: "wf_history h"
  shows "(\<not> single_key (completed h) \<and> check h = Inl InvalidHistory) \<or>
    (single_key (completed h) \<and> (\<exists>order. linearization (completed h) order \<and>
       check h = Inr (LinearizabilityResult True (map co_id order)))) \<or>
    (single_key (completed h) \<and> (\<nexists>order. linearization (completed h) order) \<and>
       check h = Inr (LinearizabilityResult False []))"
proof -
  let ?ops = "completed h"
  define r where "r = search ?ops (predecessors ?ops) (2 ^ length ?ops - 1) (0, None) {}"
  obtain q failed where q: "r = (q, failed)" by fastforce
  note c = search_correct(1)[OF q[unfolded r_def], simplified]
  have sound: "\<exists>order. linearization ?ops order \<and> ids = map co_id order" if "q = Some ids" for ids
    using c that search_linearization[OF wf, of ids] by simp
  have complete: "\<not> linearization ?ops order" if "q = None" for order
    using c that search_linearization[OF wf, of "map co_id order"] unfolding dead_def by auto
  show ?thesis
  proof (cases "?ops = []")
    case True
    then have "linearization ?ops []" "single_key ?ops" "check h = Inr (LinearizabilityResult True (map co_id []))"
      by (simp_all add: linearization_def single_key_def check_def)
    then show ?thesis by blast
  next
    case False
    then have "check h = (if \<not> single_key ?ops then Inl InvalidHistory
        else case q of None \<Rightarrow> Inr (LinearizabilityResult False []) | Some order \<Rightarrow> Inr (LinearizabilityResult True order))"
      unfolding check_def Let_def using card_one_key[of ?ops] q[unfolded r_def] by simp
    then show ?thesis using sound complete by (cases q) auto
  qed
qed

text \<open>C3. The single-key checker is sound and complete. On every well-formed history it raises
  \<open>InvalidHistory\<close> exactly when the completed operations use several keys; otherwise it returns,
  answers \<open>True\<close> exactly when some permutation of the completed operations respects real-time
  precedence and is a legal run of a register that starts absent, and then its order is the
  list of identifiers of such a permutation. The memo never changes the verdict.\<close>

theorem check_correct:
  assumes "wf_history h"
  shows "(check h = Inl InvalidHistory \<longleftrightarrow> \<not> single_key (completed h)) \<and>
    (\<forall>e. check h = Inl e \<longrightarrow> e = InvalidHistory) \<and>
    (single_key (completed h) \<longrightarrow> (\<exists>r. check h = Inr r \<and>
       (lr_linearizable r \<longleftrightarrow> (\<exists>order. linearization (completed h) order)) \<and>
       (if lr_linearizable r then \<exists>order. linearization (completed h) order \<and> lr_order r = map co_id order
        else lr_order r = [])))"
  using check_cases[OF assms] by (elim disjE conjE exE) auto

definition stale_read :: history where
  "stale_read = projr (for_each perform
     [CallInvoke ''w'' ''c1'' (Write (Put ''k'' ''x'')), CallRespond ''w'' None,
      CallInvoke ''r'' ''c2'' (Get ''k''), CallRespond ''r'' None] OperationHistory)"

lemma stale_read_facts:
  "wf_history stale_read" "single_key (completed stale_read)"
  "check stale_read = Inr (LinearizabilityResult False [])"
proof -
  show "wf_history stale_read" unfolding stale_read_def by (rule performed_projr) code_simp
  show "single_key (completed stale_read)" by code_simp
  show "check stale_read = Inr (LinearizabilityResult False [])" by code_simp
qed

theorem check_correct_witness:
  "(\<exists>r. check stale_read = Inr r) \<and> (\<nexists>order. linearization (completed stale_read) order)"
  using check_correct[OF stale_read_facts(1)] stale_read_facts by simp

end
