(* ===== verification/Pending_Extensions.thy ===== *)
theory Pending_Extensions
  imports Linearizability "HOL-Library.Product_Lexorder"
begin

text \<open>
  Completion extensions, \<open>check_with_pending_extensions\<close> of
  \<^verbatim>\<open>src/src/distlab/linearizability.py\<close>: every completed operation must be selected, pending writes
  may be, and a budget bounds the number of expanded states. The specification
  \<open>extension\<close> is stated on invocations. The checker is sound and complete whenever it returns,
  and it returns whenever the budget covers the (mask, value) states.
\<close>

section \<open>The search\<close>

type_synonym observed = "(string \<times> completed_operation) list"

definition observed_of :: "history \<Rightarrow> observed" where
  "observed_of h = map (\<lambda>item. (co_id item, item)) (completed h)"

definition mask_where :: "(invocation \<Rightarrow> bool) \<Rightarrow> invocation list \<Rightarrow> int" where
  "mask_where P ops = sum_list (map (\<lambda>(index, v). if P v then push_bit index 1 else 0) (List.enumerate 0 ops))"

definition ext_operations :: "history \<Rightarrow> invocation list" where
  "ext_operations h = sort_key (\<lambda>v. (map_of (observed_of h) (inv_id v) = None, inv_seq v))
     (filter (\<lambda>v. map_of (observed_of h) (inv_id v) \<noteq> None \<or> is_write (inv_op v)) (invocations h))"

definition required_mask :: "observed \<Rightarrow> invocation list \<Rightarrow> int" where
  "required_mask observed ops = mask_where (\<lambda>v. map_of observed (inv_id v) \<noteq> None) ops"

definition ext_predecessors :: "observed \<Rightarrow> invocation list \<Rightarrow> int list" where
  "ext_predecessors observed ops = map (\<lambda>current.
     mask_where (\<lambda>other. case map_of observed (inv_id other) of
        None \<Rightarrow> False | Some item \<Rightarrow> cp_seq (co_comp item) < inv_seq current) ops) ops"

definition ext_apply :: "observed \<Rightarrow> invocation \<Rightarrow> string option \<Rightarrow> string option option" where
  "ext_apply observed v val =
     (case map_of observed (inv_id v) of
        Some actual \<Rightarrow> apply_completed actual val
      | None \<Rightarrow> (case inv_op v of Write (Put k w) \<Rightarrow> Some (Some w) | _ \<Rightarrow> Some None))"

definition ext_step ::
  "observed \<Rightarrow> invocation list \<Rightarrow> int list \<Rightarrow> int \<times> string option \<Rightarrow> nat \<Rightarrow> (int \<times> string option) option" where
  "ext_step observed ops pre = (\<lambda>(m, v) index.
     let bit = push_bit index 1
     in if m AND bit \<noteq> 0 \<or> (pre ! index) AND NOT m \<noteq> 0 then None
        else case ext_apply observed (ops ! index) v of
               None \<Rightarrow> None
             | Some next_value \<Rightarrow> Some (m OR bit, next_value))"

lemma ext_step_iff:
  "ext_step observed ops pre (m, v) i = Some st' \<longleftrightarrow>
    \<not> bit m i \<and> (\<forall>j. bit (pre ! i) j \<longrightarrow> bit m j) \<and>
    (\<exists>w. ext_apply observed (ops ! i) v = Some w \<and> st' = (m OR 2 ^ i, w))"
  by (auto simp: ext_step_def Let_def bit_tests split: option.splits)

type_synonym memo = "(int \<times> string option) set"

function ext_search ::
  "observed \<Rightarrow> invocation list \<Rightarrow> int list \<Rightarrow> int \<Rightarrow> int \<Rightarrow> int \<times> string option \<Rightarrow> memo \<times> int \<Rightarrow>
   (string list option \<times> memo \<times> int) result"
and ext_loop ::
  "observed \<Rightarrow> invocation list \<Rightarrow> int list \<Rightarrow> int \<Rightarrow> int \<Rightarrow> int \<times> string option \<Rightarrow> nat \<Rightarrow> memo \<times> int \<Rightarrow>
   (string list option \<times> memo \<times> int) result" where
  "ext_search observed ops pre required max_states st fe =
     (if fst st AND required = required then Inr (Some [], fe)
      else if st \<in> fst fe then Inr (None, fe)
      else if snd fe \<ge> max_states then Inl LinearizabilitySearchExhausted
      else ext_loop observed ops pre required max_states st 0 (fst fe, snd fe + 1))"
| "ext_loop observed ops pre required max_states st index fe =
     (if index < length ops then
        (case ext_step observed ops pre st index of
           None \<Rightarrow> ext_loop observed ops pre required max_states st (Suc index) fe
         | Some st' \<Rightarrow>
             (case ext_search observed ops pre required max_states st' fe of
                Inl e \<Rightarrow> Inl e
              | Inr (Some rest, fe') \<Rightarrow> Inr (Some (inv_id (ops ! index) # rest), fe')
              | Inr (None, fe') \<Rightarrow> ext_loop observed ops pre required max_states st (Suc index) fe'))
      else Inr (None, insert st (fst fe), snd fe))"
  by pat_completeness auto
termination
proof (relation "measures [case_sum (\<lambda>(ob, ops, pre, r, ms, st, fe). unset_bits (length ops) (fst st))
      (\<lambda>(ob, ops, pre, r, ms, st, i, fe). unset_bits (length ops) (fst st)),
    case_sum (\<lambda>(ob, ops, pre, r, ms, st, fe). Suc (length ops))
      (\<lambda>(ob, ops, pre, r, ms, st, i, fe). length ops - i)]", goal_cases)
  case (4 ob ops pre r ms st index fe st')
  then show ?case using unset_bits_less by (cases st) (auto simp: ext_step_iff)
qed auto

declare ext_search.simps [simp del] ext_loop.simps [simp del]

record extension_result =
  ce_linearizable :: bool
  ce_order :: "string list"
  ce_included :: "string list"
  ce_omitted :: "string list"

definition check_with_pending_extensions :: "history \<Rightarrow> int \<Rightarrow> int \<Rightarrow> extension_result result" where
  "check_with_pending_extensions h max_operations max_states =
     (if \<not> (1 \<le> max_operations \<and> max_operations \<le> 64) then Inl ValueError
      else if max_states \<le> 0 then Inl ValueError
      else if list_ex (\<lambda>v. ho_key (inv_op v) = []) (invocations h) then Inl InvalidHistory
      else if card ((\<lambda>v. ho_key (inv_op v)) ` set (invocations h)) > 1 then Inl InvalidHistory
      else if int (length (invocations h)) > max_operations then Inl LinearizabilitySearchExhausted
      else
        (let observed = observed_of h;
             ops = ext_operations h
         in and_then (ext_search observed ops (ext_predecessors observed ops) (required_mask observed ops)
                        max_states (0, None) ({}, 0)) (\<lambda>(found, _).
            case found of
              None \<Rightarrow> Inr \<lparr>ce_linearizable = False, ce_order = [], ce_included = [], ce_omitted = []\<rparr>
            | Some order \<Rightarrow>
                let included = filter (\<lambda>i. map_of observed i = None) order
                in Inr \<lparr>ce_linearizable = True, ce_order = order, ce_included = included,
                     ce_omitted = map inv_id (filter (\<lambda>v. map_of observed (inv_id v) = None \<and>
                        inv_id v \<notin> set included) (invocations h))\<rparr>)))"

section \<open>The specification\<close>

definition responded :: "history \<Rightarrow> invocation \<Rightarrow> completion option" where
  "responded h v = map_of (h_completions h) (inv_id v)"

definition happens_before :: "history \<Rightarrow> invocation \<Rightarrow> invocation \<Rightarrow> bool" where
  "happens_before h a b \<longleftrightarrow> (case responded h a of None \<Rightarrow> False | Some c \<Rightarrow> cp_seq c < inv_seq b)"

fun register_legal :: "history \<Rightarrow> string option \<Rightarrow> invocation list \<Rightarrow> bool" where
  "register_legal h val [] \<longleftrightarrow> True"
| "register_legal h val (v # vs) \<longleftrightarrow>
     (case inv_op v of
        Write (Put k w) \<Rightarrow> register_legal h (Some w) vs
      | Write (Delete k) \<Rightarrow> register_legal h None vs
      | Get k \<Rightarrow> map_option cp_result (responded h v) = Some val \<and> register_legal h val vs)"

definition selectable :: "history \<Rightarrow> invocation \<Rightarrow> bool" where
  "selectable h v \<longleftrightarrow> v \<in> set (invocations h) \<and> (responded h v \<noteq> None \<or> is_write (inv_op v))"

definition ext_legal_order :: "history \<Rightarrow> invocation list \<Rightarrow> bool" where
  "ext_legal_order h order \<longleftrightarrow> distinct order \<and> (\<forall>v \<in> set order. selectable h v) \<and>
     (\<forall>v \<in> set (invocations h). responded h v \<noteq> None \<longrightarrow> v \<in> set order) \<and>
     sorted_wrt (\<lambda>a b. \<not> happens_before h b a) order \<and> register_legal h None order"

section \<open>Soundness and completeness of the search\<close>

lemma ext_search_correct:
  defines "dd ob ops pre req \<equiv> dead (ext_step ob ops pre) (\<lambda>st. fst st AND req = req) (length ops)"
  defines "pp ob ops pre req \<equiv> path (ext_step ob ops pre) (\<lambda>st. fst st AND req = req) (length ops)"
  shows "ext_search ob ops pre req ms st fe = Inr (r, fe') \<Longrightarrow> \<forall>t \<in> fst fe. dd ob ops pre req t \<Longrightarrow>
      (\<forall>t \<in> fst fe'. dd ob ops pre req t) \<and>
      (case r of None \<Rightarrow> dd ob ops pre req st
       | Some ids \<Rightarrow> \<exists>is. pp ob ops pre req st is \<and> ids = map (\<lambda>i. inv_id (ops ! i)) is)"
    and "ext_loop ob ops pre req ms st k fe = Inr (r, fe') \<Longrightarrow> \<forall>t \<in> fst fe. dd ob ops pre req t \<Longrightarrow>
      fst st AND req \<noteq> req \<Longrightarrow> \<forall>i < k. \<forall>t. ext_step ob ops pre st i = Some t \<longrightarrow> i < length ops \<longrightarrow> dd ob ops pre req t \<Longrightarrow>
      (\<forall>t \<in> fst fe'. dd ob ops pre req t) \<and>
      (case r of None \<Rightarrow> dd ob ops pre req st
       | Some ids \<Rightarrow> \<exists>is. pp ob ops pre req st is \<and> ids = map (\<lambda>i. inv_id (ops ! i)) is)"
proof (induction ob ops pre req ms st fe and ob ops pre req ms st k fe
    arbitrary: r fe' and r fe' rule: ext_search_ext_loop.induct)
  case (1 ob ops pre req ms st fe)
  show ?case
  proof (cases "fst st AND req = req \<or> st \<in> fst fe")
    case True
    then show ?thesis using 1(2,3)
      by (auto simp: pp_def ext_search.simps intro!: exI[of _ "[]"] split: if_splits)
  next
    case False
    then have "\<not> snd fe \<ge> ms" using 1(2) by (auto simp: ext_search.simps)
    then show ?thesis using 1 False by (simp add: ext_search.simps)
  qed
next
  case (2 ob ops pre req ms st k fe)
  show ?case
  proof (cases "k < length ops")
    case False
    then have "\<forall>i < length ops. \<forall>t. ext_step ob ops pre st i = Some t \<longrightarrow> dd ob ops pre req t"
      using 2(7) by (metis not_less order_less_le_trans)
    then have "dd ob ops pre req st" unfolding dd_def using 2(6) by (blast intro: deadI)
    then show ?thesis using 2(4,5) False by (auto simp: ext_loop.simps)
  next
    case k: True
    show ?thesis
    proof (cases "ext_step ob ops pre st k")
      case None
      then have "\<forall>i < Suc k. \<forall>t. ext_step ob ops pre st i = Some t \<longrightarrow> i < length ops \<longrightarrow> dd ob ops pre req t"
        using 2(7) by (auto simp: less_Suc_eq)
      then show ?thesis using 2(1)[OF k None] 2(4,5,6) k None by (simp add: ext_loop.simps)
    next
      case (Some st')
      then obtain q fe1 where q: "ext_search ob ops pre req ms st' fe = Inr (q, fe1)"
        using 2(4) k by (auto simp: ext_loop.simps split: sum.splits)
      note ih = 2(2)[OF k Some q 2(5)]
      show ?thesis
      proof (cases q)
        case (Some rest)
        then obtain "is" where "pp ob ops pre req st' is" "rest = map (\<lambda>i. inv_id (ops ! i)) is"
          using ih by auto
        then have "pp ob ops pre req st (k # is)" "r = Some (map (\<lambda>i. inv_id (ops ! i)) (k # is))" "fe' = fe1"
          using 2(4) k Some q \<open>ext_step ob ops pre st k = Some st'\<close> by (simp_all add: pp_def ext_loop.simps)
        then show ?thesis using ih by (auto intro!: exI[of _ "k # is"] simp del: path.simps list.map)
      next
        case None
        then have "\<forall>i < Suc k. \<forall>t. ext_step ob ops pre st i = Some t \<longrightarrow> i < length ops \<longrightarrow> dd ob ops pre req t"
          using 2(7) ih Some by (auto simp: less_Suc_eq)
        moreover have "ext_loop ob ops pre req ms st (Suc k) fe1 = Inr (r, fe')"
          using 2(4) k Some q None by (simp add: ext_loop.simps)
        moreover have "\<forall>t \<in> fst fe1. dd ob ops pre req t" using ih by blast
        ultimately show ?thesis by (intro 2(3)[OF k Some q refl None] 2(6))
      qed
    qed
  qed
qed

lemma mask_where_bit: "bit (mask_where P ops) j \<longleftrightarrow> j < length ops \<and> P (ops ! j)"
proof -
  have "bit (mask_where P (take n ops)) j \<longleftrightarrow> j < n \<and> P (ops ! j)" if "n \<le> length ops" for n j
    using that
  proof (induction n arbitrary: j)
    case (Suc n)
    have "mask_where P (take (Suc n) ops) = mask_where P (take n ops) + (if P (ops ! n) then 2 ^ n else 0)"
      using Suc.prems by (simp add: mask_where_def take_Suc_conv_app_nth enumerate_append_eq)
    also have "\<dots> = mask_where P (take n ops) OR (if P (ops ! n) then 2 ^ n else 0)"
      using Suc by (intro disjunctive_add_eq_or bit_eqI) (auto simp: bit_simps)
    finally show ?case using Suc by (auto simp: bit_simps less_Suc_eq)
  qed (simp add: mask_where_def)
  from this[of "length ops"] show ?thesis by simp
qed

section \<open>Correctness\<close>

lemma observed_responded:
  assumes wf: "wf_history h" and v: "v \<in> set (invocations h)"
  shows "map_of (observed_of h) (inv_id v) = map_option (\<lambda>c. \<lparr>co_inv = v, co_comp = c\<rparr>) (responded h v)"
proof (cases "responded h v")
  case None
  then have "inv_id v \<notin> co_id ` set (completed h)"
    by (auto simp: set_completed[OF wf] responded_def)
  then show ?thesis using None by (auto simp: observed_of_def map_of_eq_None_iff)
next
  case (Some c)
  then have "\<lparr>co_inv = v, co_comp = c\<rparr> \<in> set (completed h)" "co_id \<lparr>co_inv = v, co_comp = c\<rparr> = inv_id v"
    using v by (simp_all add: set_completed[OF wf] responded_def co_id_def)
  moreover have "distinct (map fst (observed_of h))"
    using completed_facts(1)[OF wf] by (simp add: observed_of_def comp_def)
  ultimately show ?thesis using Some
    by (auto simp: observed_of_def intro!: map_of_is_SomeI image_eqI[of _ _ "\<lparr>co_inv = v, co_comp = c\<rparr>"])
qed

lemma ext_operations_facts:
  assumes wf: "wf_history h"
  shows "distinct (ext_operations h)" "set (ext_operations h) = {v. selectable h v}"
  using invocation_facts(3)[OF wf] observed_responded[OF wf]
  by (auto simp: ext_operations_def selectable_def)

lemma required_bits:
  assumes wf: "wf_history h"
  shows "fst st AND required_mask (observed_of h) (ext_operations h) = required_mask (observed_of h) (ext_operations h) \<longleftrightarrow>
    (\<forall>j < length (ext_operations h). responded h (ext_operations h ! j) \<noteq> None \<longrightarrow> bit (fst st) j)"
proof -
  let ?ops = "ext_operations h"
  have "?ops ! j \<in> set (invocations h)" if "j < length ?ops" for j
    using nth_mem[OF that] ext_operations_facts(2)[OF wf] by (simp add: selectable_def)
  then have "\<forall>j. bit (required_mask (observed_of h) ?ops) j \<longleftrightarrow> j < length ?ops \<and> responded h (?ops ! j) \<noteq> None"
    by (auto simp: required_mask_def mask_where_bit observed_responded[OF wf])
  then show ?thesis unfolding bit_eq_iff[of "fst st AND _"] by (auto simp: bit_and_iff)
qed

lemma ext_predecessors_bit:
  assumes wf: "wf_history h" and i: "i < length (ext_operations h)"
  shows "bit (ext_predecessors (observed_of h) (ext_operations h) ! i) j \<longleftrightarrow>
    j < length (ext_operations h) \<and> happens_before h (ext_operations h ! j) (ext_operations h ! i)"
proof -
  have "ext_operations h ! j \<in> set (invocations h)" if "j < length (ext_operations h)"
    using that ext_operations_facts(2)[OF wf] nth_mem[OF that] by (simp add: selectable_def)
  then show ?thesis using i
    by (auto simp: ext_predecessors_def mask_where_bit happens_before_def observed_responded[OF wf] split: option.splits)
qed

lemma register_legal_step:
  assumes wf: "wf_history h" and v: "selectable h v"
  shows "register_legal h val (v # vs) \<longleftrightarrow>
    (case ext_apply (observed_of h) v val of None \<Rightarrow> False | Some w \<Rightarrow> register_legal h w vs)"
proof (cases "responded h v")
  case None
  then show ?thesis using v observed_responded[OF wf, of v]
    by (cases "inv_op v") (auto simp: selectable_def ext_apply_def split: kv_operation.splits)
next
  case (Some c)
  then have "\<lparr>co_inv = v, co_comp = c\<rparr> \<in> set (completed h)"
    using v by (simp add: set_completed[OF wf] responded_def co_id_def selectable_def)
  from completed_facts(5)[OF wf this] Some show ?thesis using v observed_responded[OF wf, of v]
    by (auto simp: selectable_def ext_apply_def apply_completed_def split: kv_operation.splits history_operation.splits)
qed

lemma ext_path_iff:
  assumes wf: "wf_history h"
  defines "ops \<equiv> ext_operations h"
  defines "p \<equiv> path (ext_step (observed_of h) ops (ext_predecessors (observed_of h) ops))
      (\<lambda>st. fst st AND required_mask (observed_of h) ops = required_mask (observed_of h) ops) (length ops)"
  shows "p (m, v) is \<longleftrightarrow>
    feasible (\<lambda>j i. happens_before h (ops ! j) (ops ! i)) {..<length ops} (bits m) is \<and>
    (\<forall>j < length ops. responded h (ops ! j) \<noteq> None \<longrightarrow> j \<in> bits m \<union> set is) \<and>
    register_legal h v (map ((!) ops) is)"
proof (induction "is" arbitrary: m v)
  case Nil
  show ?case by (simp add: p_def ops_def required_bits[OF wf] mem_bits)
next
  case (Cons i "is")
  show ?case
  proof (cases "i < length ops \<and> \<not> bit m i \<and> (\<forall>j < length ops. happens_before h (ops ! j) (ops ! i) \<longrightarrow> bit m j)")
    case False
    then have "\<not> p (m, v) (i # is)"
      by (auto simp: p_def ext_step_iff ops_def ext_predecessors_bit[OF wf] split: option.splits)
    with False show ?thesis by (auto simp: bits_def)
  next
    case True
    then have sel: "selectable h (ops ! i)"
      using ext_operations_facts(2)[OF wf] nth_mem[of i ops] by (simp add: ops_def)
    have "ext_step (observed_of h) ops (ext_predecessors (observed_of h) ops) (m, v) i =
        map_option (\<lambda>w. (m OR 2 ^ i, w)) (ext_apply (observed_of h) (ops ! i) v)"
      using True by (cases "ext_apply (observed_of h) (ops ! i) v")
        (auto simp: ext_step_def Let_def bit_tests ops_def ext_predecessors_bit[OF wf])
    then have "p (m, v) (i # is) \<longleftrightarrow>
        (case ext_apply (observed_of h) (ops ! i) v of None \<Rightarrow> False | Some w \<Rightarrow> p (m OR 2 ^ i, w) is)"
      using True by (auto simp: p_def split: option.splits)
    then show ?thesis
      using True register_legal_step[OF wf sel, of v "map ((!) ops) is"] Cons.IH
      by (simp add: mem_bits del: register_legal.simps split: option.split)
  qed
qed

lemma ext_search_orders:
  assumes wf: "wf_history h"
  defines "ops \<equiv> ext_operations h"
  defines "p \<equiv> path (ext_step (observed_of h) ops (ext_predecessors (observed_of h) ops))
      (\<lambda>st. fst st AND required_mask (observed_of h) ops = required_mask (observed_of h) ops) (length ops) (0, None)"
  shows "(\<exists>is. p is \<and> ids = map (\<lambda>i. inv_id (ops ! i)) is) \<longleftrightarrow>
    (\<exists>order. ext_legal_order h order \<and> ids = map inv_id order)"
proof -
  have d: "distinct ops" and st: "set ops = {v. selectable h v}"
    using ext_operations_facts[OF wf] by (simp_all add: ops_def)
  have irr: "\<not> happens_before h v v" if "selectable h v" for v
    using that completed_facts(3)[OF wf, of "\<lparr>co_inv = v, co_comp = the (responded h v)\<rparr>"]
    by (auto simp: happens_before_def set_completed[OF wf] responded_def co_id_def selectable_def split: option.splits)
  have hb: "\<exists>c. responded h a = Some c" if "happens_before h a b" for a b
    using that by (simp add: happens_before_def split: option.splits)
  have mem: "selectable h (ops ! i)" if "i < length ops" for i using st nth_mem[OF that] by blast
  have req: "(\<forall>j < length ops. responded h (ops ! j) \<noteq> None \<longrightarrow> j \<in> set is) \<longleftrightarrow>
      (\<forall>v \<in> set (invocations h). responded h v \<noteq> None \<longrightarrow> v \<in> set (map ((!) ops) is))"
    if "set is \<subseteq> {..<length ops}" for "is"
  proof -
    have "j \<in> set is \<longleftrightarrow> ops ! j \<in> set (map ((!) ops) is)" if "j < length ops" for j
      using \<open>set is \<subseteq> _\<close> that d by (auto simp: nth_eq_iff_index_eq subset_iff)
    moreover have "(\<forall>v \<in> set (invocations h). responded h v \<noteq> None \<longrightarrow> Q v) \<longleftrightarrow>
        (\<forall>j < length ops. responded h (ops ! j) \<noteq> None \<longrightarrow> Q (ops ! j))" for Q
    proof -
      have "(\<forall>v \<in> set (invocations h). responded h v \<noteq> None \<longrightarrow> Q v) \<longleftrightarrow>
          (\<forall>v \<in> set ops. responded h v \<noteq> None \<longrightarrow> Q v)"
        unfolding st selectable_def by blast
      then show ?thesis unfolding all_set_conv_all_nth[of ops] .
    qed
    ultimately show ?thesis by simp
  qed
  have "p is \<longleftrightarrow> distinct is \<and> set is \<subseteq> {..<length ops} \<and>
      (\<forall>v \<in> set (invocations h). responded h v \<noteq> None \<longrightarrow> v \<in> set (map ((!) ops) is)) \<and>
      sorted_wrt (\<lambda>a b. \<not> happens_before h b a) (map ((!) ops) is) \<and> register_legal h None (map ((!) ops) is)" for "is"
  proof -
    have "feasible (\<lambda>j i. happens_before h (ops ! j) (ops ! i)) {..<length ops} {} is \<longleftrightarrow>
        distinct is \<and> set is \<subseteq> {..<length ops} \<and> sorted_wrt (\<lambda>a b. \<not> happens_before h (ops ! b) (ops ! a)) is"
      if "\<forall>j < length ops. responded h (ops ! j) \<noteq> None \<longrightarrow> j \<in> set is"
      using that by (subst feasible_sorted) (auto simp: irr mem dest!: hb)
    then show ?thesis
      using req[of "is"] ext_path_iff[OF wf, of 0 None "is"] unfolding p_def ops_def[symmetric]
      by (auto simp: sorted_wrt_map simp del: set_map)
  qed
  then have "(\<exists>is. p is \<and> ids = map (\<lambda>i. inv_id (ops ! i)) is) \<longleftrightarrow>
      (\<exists>is. distinct is \<and> set is \<subseteq> {..<length ops} \<and>
        ((\<forall>v \<in> set (invocations h). responded h v \<noteq> None \<longrightarrow> v \<in> set (map ((!) ops) is)) \<and>
        sorted_wrt (\<lambda>a b. \<not> happens_before h b a) (map ((!) ops) is) \<and> register_legal h None (map ((!) ops) is) \<and>
        ids = map inv_id (map ((!) ops) is)))"
    by (simp add: comp_def)
  also have "\<dots> \<longleftrightarrow> (\<exists>order. distinct order \<and> set order \<subseteq> set ops \<and>
      ((\<forall>v \<in> set (invocations h). responded h v \<noteq> None \<longrightarrow> v \<in> set order) \<and>
      sorted_wrt (\<lambda>a b. \<not> happens_before h b a) order \<and> register_legal h None order \<and> ids = map inv_id order))"
    by (rule index_lists[OF d])
  also have "\<dots> \<longleftrightarrow> (\<exists>order. ext_legal_order h order \<and> ids = map inv_id order)"
    unfolding ext_legal_order_def st by auto
  finally show ?thesis .
qed

lemma ext_found:
  assumes wf: "wf_history h"
    and run: "ext_search (observed_of h) (ext_operations h) (ext_predecessors (observed_of h) (ext_operations h))
      (required_mask (observed_of h) (ext_operations h)) ms (0, None) ({}, 0) = Inr (found, fe)"
  shows "case found of None \<Rightarrow> (\<nexists>order. ext_legal_order h order)
    | Some ids \<Rightarrow> (\<exists>order. ext_legal_order h order \<and> ids = map inv_id order)"
proof -
  note c = ext_search_correct(1)[OF run, simplified]
  show ?thesis
  proof (cases found)
    case None
    then show ?thesis
      using c ext_search_orders[OF wf, of "map inv_id order" for order] unfolding dead_def by fastforce
  next
    case (Some ids)
    then show ?thesis using c ext_search_orders[OF wf, of ids] by simp
  qed
qed

lemma pending_observed:
  assumes wf: "wf_history h" and v: "v \<in> set (invocations h)"
  shows "map_of (observed_of h) (inv_id v) = None \<longleftrightarrow> responded h v = None"
  using observed_responded[OF wf v] by simp

lemma omitted_ids:
  assumes wf: "wf_history h" and o: "ext_legal_order h order"
  shows "filter (\<lambda>i. map_of (observed_of h) i = None) (map inv_id order) =
      map inv_id (filter (\<lambda>v. responded h v = None) order)"
    and "filter (\<lambda>v. map_of (observed_of h) (inv_id v) = None \<and>
        inv_id v \<notin> set (map inv_id (filter (\<lambda>v. responded h v = None) order))) (invocations h) =
      filter (\<lambda>v. v \<notin> set order) (pending h)"
proof -
  have sub: "set order \<subseteq> set (invocations h)" using o by (auto simp: ext_legal_order_def selectable_def)
  show "filter (\<lambda>i. map_of (observed_of h) i = None) (map inv_id order) =
      map inv_id (filter (\<lambda>v. responded h v = None) order)"
    using sub pending_observed[OF wf] by (auto simp: filter_map intro!: arg_cong[where f = "map inv_id"] filter_cong)
  have inj: "inj_on inv_id (set (invocations h))" using invocation_facts(1)[OF wf] by (simp add: distinct_map)
  have "inv_id v \<in> set (map inv_id (filter (\<lambda>v. responded h v = None) order)) \<longleftrightarrow> v \<in> set order"
    if "v \<in> set (invocations h)" "responded h v = None" for v
    using that sub inj by (auto simp: inj_on_def)
  then show "filter (\<lambda>v. map_of (observed_of h) (inv_id v) = None \<and>
        inv_id v \<notin> set (map inv_id (filter (\<lambda>v. responded h v = None) order))) (invocations h) =
      filter (\<lambda>v. v \<notin> set order) (pending h)"
    using pending_observed[OF wf]
    by (auto simp: pending_def responded_def[symmetric] simp del: set_map intro!: filter_cong)
qed

lemma ext_check_returns:
  assumes wf: "wf_history h" and r: "check_with_pending_extensions h mo ms = Inr r"
  shows "(ce_linearizable r \<longleftrightarrow> (\<exists>order. ext_legal_order h order)) \<and>
    (if ce_linearizable r then \<exists>order. ext_legal_order h order \<and> ce_order r = map inv_id order \<and>
         ce_included r = map inv_id (filter (\<lambda>v. responded h v = None) order) \<and>
         ce_omitted r = map inv_id (filter (\<lambda>v. v \<notin> set order) (pending h))
     else ce_order r = [] \<and> ce_included r = [] \<and> ce_omitted r = [])"
proof -
  obtain found fe where run: "ext_search (observed_of h) (ext_operations h) (ext_predecessors (observed_of h) (ext_operations h))
      (required_mask (observed_of h) (ext_operations h)) ms (0, None) ({}, 0) = Inr (found, fe)"
    using r by (auto simp: check_with_pending_extensions_def Let_def and_then_eq_Inr split: if_splits)
  note f = ext_found[OF wf run]
  show ?thesis
  proof (cases found)
    case None
    then show ?thesis using r f run
      by (auto simp: check_with_pending_extensions_def Let_def split: if_splits)
  next
    case (Some ids)
    then obtain order where o: "ext_legal_order h order" "ids = map inv_id order" using f by auto
    have "ce_linearizable r" "ce_order r = map inv_id order"
      "ce_included r = map inv_id (filter (\<lambda>v. responded h v = None) order)"
      "ce_omitted r = map inv_id (filter (\<lambda>v. v \<notin> set order) (pending h))"
      using r run Some omitted_ids[OF wf o(1)]
      by (auto simp: check_with_pending_extensions_def Let_def o(2) simp del: set_map split: if_splits)
    then show ?thesis using o(1) by auto
  qed
qed

text \<open>C17. The completion-extension checker is sound and complete whenever it returns: the verdict is
  \<open>True\<close> exactly when the completed operations together with some of the pending writes can be
  ordered legally, respecting every observed response that precedes an invocation; a positive
  answer is such an order, its included pending writes in witness order and the other pending
  invocations in invocation order; a negative answer is empty.\<close>

theorem extension_check_correct:
  assumes "wf_history h" and "check_with_pending_extensions h max_operations max_states = Inr r"
  shows "(ce_linearizable r \<longleftrightarrow> (\<exists>order. ext_legal_order h order)) \<and>
    (if ce_linearizable r then \<exists>order. ext_legal_order h order \<and> ce_order r = map inv_id order \<and>
         ce_included r = map inv_id (filter (\<lambda>v. responded h v = None) order) \<and>
         ce_omitted r = map inv_id (filter (\<lambda>v. v \<notin> set order) (pending h))
     else ce_order r = [] \<and> ce_included r = [] \<and> ce_omitted r = [])"
  by (rule ext_check_returns[OF assms])

definition lost_ack :: history where
  "lost_ack = projr (for_each perform
     [CallInvoke ''w'' ''c1'' (Write (Put ''k'' ''x'')), CallInvoke ''r'' ''c2'' (Get ''k''),
      CallRespond ''r'' (Some ''x'')] OperationHistory)"

lemma lost_ack_facts:
  "wf_history lost_ack"
  "check_with_pending_extensions lost_ack 32 100000 = Inr \<lparr>ce_linearizable = True, ce_order = [''w'', ''r''],
     ce_included = [''w''], ce_omitted = []\<rparr>"
  "check lost_ack = Inr (LinearizabilityResult False [])"
proof -
  show "wf_history lost_ack" unfolding lost_ack_def by (rule performed_projr) code_simp
qed code_simp+

theorem extension_check_correct_witness:
  "\<exists>order. ext_legal_order lost_ack order \<and> map inv_id order = [''w'', ''r'']"
  using extension_check_correct[OF lost_ack_facts(1,2)] by auto

section \<open>The budget\<close>

definition search_states :: "invocation list \<Rightarrow> (int \<times> string option) set" where
  "search_states ops = {m. bits m \<subseteq> {..<length ops}} \<times>
     insert None (\<Union>v \<in> set ops. case inv_op v of Write (Put k w) \<Rightarrow> {Some w} | _ \<Rightarrow> {})"

lemma card_search_states:
  "finite (search_states ops)" "card (search_states ops) \<le> 2 ^ length ops * (length ops + 1)"
proof -
  let ?M = "{m. bits m \<subseteq> {..<length ops}}"
  let ?V = "insert None (\<Union>v \<in> set ops. case inv_op v of Write (Put k w) \<Rightarrow> {Some w} | _ \<Rightarrow> {})"
  let ?put = "\<lambda>v. case inv_op v of Write (Put k w) \<Rightarrow> Some w | _ \<Rightarrow> None"
  have inj: "inj_on bits ?M" by (auto simp: inj_on_def bits_inject[symmetric])
  have sub: "bits ` ?M \<subseteq> Pow {..<length ops}" by auto
  have "finite ?M" using finite_imageD[OF finite_subset[OF sub] inj] by simp
  moreover have "card ?M \<le> 2 ^ length ops" using card_inj_on_le[OF inj sub] by (simp add: card_Pow)
  moreover have "?V \<subseteq> insert None (?put ` set ops)"
    by (auto split: history_operation.splits kv_operation.splits intro!: image_eqI)
  then have "finite ?V" "card ?V \<le> card (insert None (?put ` set ops))"
    by (auto intro: finite_subset card_mono)
  moreover have "card (insert None (?put ` set ops)) \<le> length ops + 1"
    using card_image_le[of "set ops" ?put] card_length[of ops] card_insert_le_m1[of _ "?put ` set ops" None]
    by (simp add: card_insert_if)
  ultimately have "finite (?M \<times> ?V)" "card ?M * card ?V \<le> 2 ^ length ops * (length ops + 1)"
    by (blast intro: finite_cartesian_product, meson le_trans mult_le_mono)
  then show "finite (search_states ops)" "card (search_states ops) \<le> 2 ^ length ops * (length ops + 1)"
    unfolding search_states_def card_cartesian_product .
qed

lemma ext_step_states:
  assumes "ext_step ob ops pre st i = Some st'" and "i < length ops" and "st \<in> search_states ops"
    and "\<forall>(id, item) \<in> set ob. item \<in> {item. co_inv item \<in> set ops}"
  shows "st' \<in> search_states ops" "bits (fst st) \<subset> bits (fst st')"
proof -
  obtain m v where st: "st = (m, v)" by fastforce
  obtain w where w: "ext_apply ob (ops ! i) v = Some w" "st' = (m OR 2 ^ i, w)" "\<not> bit m i"
    using assms(1) unfolding st ext_step_iff by blast
  have "w = v \<or> w = None \<or> (\<exists>u \<in> set ops. \<exists>k x. inv_op u = Write (Put k x) \<and> w = Some x)"
    using w(1) assms(2,4) map_of_SomeD[of ob "inv_id (ops ! i)"]
    by (auto simp: ext_apply_def apply_completed_def dest!: bspec
        split: option.splits history_operation.splits kv_operation.splits if_splits)
  then show "st' \<in> search_states ops"
    using assms(2,3) st w(2) by (force simp: search_states_def)
  show "bits (fst st) \<subset> bits (fst st')" using w st by (auto simp: mem_bits)
qed

definition budget_ok :: "memo \<Rightarrow> memo \<times> int \<Rightarrow> memo \<Rightarrow> bool" where
  "budget_ok U fe anc \<longleftrightarrow> fst fe \<union> anc \<subseteq> U \<and> snd fe \<le> int (card (fst fe \<union> anc))"

lemma ext_search_within:
  shows "int (card (search_states ops)) \<le> ms \<Longrightarrow> \<forall>(id, item) \<in> set ob. co_inv item \<in> set ops \<Longrightarrow>
      st \<in> search_states ops \<Longrightarrow> budget_ok (search_states ops) fe anc \<Longrightarrow> \<forall>t \<in> anc. bits (fst t) \<subset> bits (fst st) \<Longrightarrow>
      \<exists>r fe'. ext_search ob ops pre req ms st fe = Inr (r, fe') \<and> (r = None \<longrightarrow> budget_ok (search_states ops) fe' anc)"
    and "int (card (search_states ops)) \<le> ms \<Longrightarrow> \<forall>(id, item) \<in> set ob. co_inv item \<in> set ops \<Longrightarrow>
      st \<in> search_states ops \<Longrightarrow> budget_ok (search_states ops) fe (insert st anc) \<Longrightarrow> \<forall>t \<in> anc. bits (fst t) \<subset> bits (fst st) \<Longrightarrow>
      \<exists>r fe'. ext_loop ob ops pre req ms st k fe = Inr (r, fe') \<and> (r = None \<longrightarrow> budget_ok (search_states ops) fe' anc)"
proof (induction ob ops pre req ms st fe and ob ops pre req ms st k fe
    arbitrary: anc and anc rule: ext_search_ext_loop.induct)
  case (1 ob ops pre req ms st fe)
  let ?U = "search_states ops"
  show ?case
  proof (cases "fst st AND req = req \<or> st \<in> fst fe")
    case True
    then show ?thesis using 1(5) by (cases fe) (auto simp: ext_search.simps)
  next
    case False
    have fin: "finite ?U" by (rule card_search_states)
    have new: "st \<notin> fst fe \<union> anc" using False 1(6) by auto
    have sub: "insert st (fst fe \<union> anc) \<subseteq> ?U" using 1(4,5) by (auto simp: budget_ok_def)
    then have "card (insert st (fst fe \<union> anc)) \<le> card ?U" by (intro card_mono fin)
    moreover have c: "card (insert st (fst fe \<union> anc)) = Suc (card (fst fe \<union> anc))"
      using new sub fin finite_subset by (subst card_insert_disjoint) auto
    ultimately have ok: "\<not> snd fe \<ge> ms" using 1(2,5) by (simp add: budget_ok_def)
    have "budget_ok ?U (fst fe, snd fe + 1) (insert st anc)" using 1(5) sub c by (simp add: budget_ok_def)
    from 1(1)[OF _ _ ok 1(2,3,4) this 1(6)] False ok show ?thesis by (simp add: ext_search.simps)
  qed
next
  case (2 ob ops pre req ms st k fe)
  let ?U = "search_states ops"
  show ?case
  proof (cases "k < length ops")
    case False
    then show ?thesis using 2(7) by (simp add: ext_loop.simps budget_ok_def insert_absorb)
  next
    case k: True
    show ?thesis
    proof (cases "ext_step ob ops pre st k")
      case None
      from 2(1)[OF k None 2(4-8)] show ?thesis using k None by (simp add: ext_loop.simps)
    next
      case (Some st')
      have st': "st' \<in> ?U" "bits (fst st) \<subset> bits (fst st')"
        using ext_step_states[OF Some k 2(6)] 2(5) by auto
      then have "\<forall>t \<in> insert st anc. bits (fst t) \<subset> bits (fst st')" using 2(8) by auto
      from 2(2)[OF k Some 2(4,5) st'(1) 2(7) this]
      obtain q fe1 where q: "ext_search ob ops pre req ms st' fe = Inr (q, fe1)" "q = None \<longrightarrow> budget_ok ?U fe1 (insert st anc)"
        by blast
      show ?thesis
      proof (cases q)
        case None
        with q(2) have "budget_ok ?U fe1 (insert st anc)" by simp
        from 2(3)[OF k Some q(1) refl None 2(4,5,6) this 2(8)] show ?thesis
          using k Some q(1) None by (simp add: ext_loop.simps)
      qed (use k Some q(1) in \<open>simp add: ext_loop.simps\<close>)
    qed
  qed
qed

lemma observed_operations:
  assumes wf: "wf_history h"
  shows "\<forall>(id, item) \<in> set (observed_of h). co_inv item \<in> set (ext_operations h)"
  using ext_operations_facts(2)[OF wf]
  by (auto simp: observed_of_def set_completed[OF wf] selectable_def responded_def co_id_def)

lemma length_ext_operations: "length (ext_operations h) \<le> length (invocations h)"
  by (simp add: ext_operations_def)

text \<open>C27. The budget is only a budget: on a well-formed single-key history with non-empty keys and
  \<open>n\<close> invocations, a budget of \<open>2^n * (n + 1)\<close> states (with \<open>n\<close> within \<open>max_operations\<close>, which
  the interface caps at 64) always produces a verdict. The memo makes this bound possible: no
  (mask, value) state is expanded twice.\<close>

theorem extension_check_decides:
  assumes "wf_history h" and "1 \<le> max_operations" and "max_operations \<le> 64"
    and "int (length (invocations h)) \<le> max_operations"
    and "\<not> list_ex (\<lambda>v. ho_key (inv_op v) = []) (invocations h)"
    and "card ((\<lambda>v. ho_key (inv_op v)) ` set (invocations h)) \<le> 1"
    and "2 ^ length (invocations h) * (int (length (invocations h)) + 1) \<le> max_states"
  shows "\<exists>r. check_with_pending_extensions h max_operations max_states = Inr r"
proof -
  let ?n = "length (invocations h)" and ?ops = "ext_operations h"
  have "2 ^ length ?ops * (length ?ops + 1) \<le> 2 ^ ?n * (?n + 1)"
    using length_ext_operations[of h] by (intro mult_le_mono power_increasing) auto
  then have "card (search_states ?ops) \<le> 2 ^ ?n * (?n + 1)" using card_search_states(2)[of ?ops] by linarith
  then have "int (card (search_states ?ops)) \<le> int (2 ^ ?n * (?n + 1))" by (rule of_nat_mono)
  then have m: "int (card (search_states ?ops)) \<le> max_states" using assms(7) by (simp add: algebra_simps)
  have pos: "0 < max_states"
    using assms(7) by (smt (verit, best) of_nat_0_le_iff mult_pos_pos zero_less_power)
  have "(0, None) \<in> search_states ?ops" "budget_ok (search_states ?ops) ({}, 0) {}"
    by (simp_all add: search_states_def budget_ok_def)
  from ext_search_within(1)[OF m observed_operations[OF assms(1)] this]
  obtain q fe where "ext_search (observed_of h) ?ops (ext_predecessors (observed_of h) ?ops)
      (required_mask (observed_of h) ?ops) max_states (0, None) ({}, 0) = Inr (q, fe)" by blast
  then show ?thesis using assms(2-6) pos
    by (auto simp: check_with_pending_extensions_def Let_def split: option.split)
qed

theorem extension_check_decides_witness:
  "\<exists>r. check_with_pending_extensions lost_ack 2 12 = Inr r"
proof (rule extension_check_decides)
  have n: "length (invocations lost_ack) = 2" by code_simp
  show "int (length (invocations lost_ack)) \<le> 2" by (simp add: n)
  show "2 ^ length (invocations lost_ack) * (int (length (invocations lost_ack)) + 1) \<le> 12" by (simp add: n)
  show "\<not> list_ex (\<lambda>v. ho_key (inv_op v) = []) (invocations lost_ack)"
    "card ((\<lambda>v. ho_key (inv_op v)) ` set (invocations lost_ack)) \<le> 1" by code_simp+
qed (simp_all add: lost_ack_facts(1))

lemma legal_register:
  assumes wf: "wf_history h" and "set order \<subseteq> set (completed h)"
  shows "legal val order \<Longrightarrow> register_legal h val (map co_inv order)"
  using assms(2)
proof (induction order arbitrary: val)
  case (Cons a order)
  then have "responded h (co_inv a) = Some (co_comp a)"
    by (simp add: set_completed[OF wf] responded_def co_id_def)
  with Cons show ?case by (auto split: history_operation.splits kv_operation.splits)
qed simp

lemma linearization_extends:
  assumes wf: "wf_history h" and l: "linearization (completed h) order"
  shows "ext_legal_order h (map co_inv order)"
proof -
  have st: "set order = set (completed h)" and d: "distinct order"
    using l completed_facts(2)[OF wf] mset_eq_setD mset_eq_imp_distinct_iff unfolding linearization_def by blast+
  have r: "responded h (co_inv a) = Some (co_comp a)" "co_inv a \<in> set (invocations h)" if "a \<in> set order" for a
    using that st by (auto simp: set_completed[OF wf] responded_def co_id_def)
  have "inj_on co_inv (set order)" using r(1) by (metis (full_types) completed_operation.equality inj_onI option.inject unit.exhaust)
  then have "distinct (map co_inv order)" using d by (simp add: distinct_map)
  moreover have "v \<in> set (map co_inv order)" if "v \<in> set (invocations h)" "responded h v = Some c" for v c
  proof -
    have "\<lparr>co_inv = v, co_comp = c\<rparr> \<in> set order"
      unfolding st using that by (simp add: set_completed[OF wf] responded_def co_id_def)
    from imageI[OF this, of co_inv] show ?thesis by simp
  qed
  moreover have "sorted_wrt (\<lambda>a b. \<not> happens_before h b a) (map co_inv order)"
    using l r(1) unfolding linearization_def sorted_wrt_map
    by (auto simp: happens_before_def precedes_def elim!: sorted_wrt_mono_rel[rotated])
  moreover have "register_legal h None (map co_inv order)"
    using legal_register[OF wf] st l by (simp add: linearization_def)
  ultimately show ?thesis using r by (auto simp: ext_legal_order_def selectable_def)
qed

text \<open>The opt-in checker is a conservative extension of the original one: when \<open>check\<close> accepts
  a history and the completion-extension search returns, it accepts too.\<close>

lemma extension_conservative:
  assumes "wf_history h" and "check h = Inr (LinearizabilityResult True ids)"
    and "check_with_pending_extensions h max_operations max_states = Inr r"
  shows "ce_linearizable r"
proof -
  obtain order where "linearization (completed h) order" using check_cases[OF assms(1)] assms(2) by auto
  from linearization_extends[OF assms(1) this] ext_check_returns[OF assms(1,3)] show ?thesis by blast
qed

definition plain_read :: history where
  "plain_read = projr (for_each perform
     [CallInvoke ''r'' ''c2'' (Get ''k''), CallRespond ''r'' None] OperationHistory)"

end
