(* ===== verification/History_Replay.thy ===== *)
theory History_Replay
  imports History
begin

text \<open>
  Sub-histories by replay: the events of a history whose operation is kept are sorted by
  sequence and performed again on an empty history. \<open>project\<close> is \<open>_project\<close> of
  \<^verbatim>\<open>src/src/distlab/history_minimizer.py\<close>; the loop of
  \<^verbatim>\<open>src/src/distlab/multikey_linearizability.py\<close> is the same replay, one history per key. The main
  lemma, \<open>project_result\<close>, says that replay always succeeds on a well-formed history and that
  it keeps operations, results and real-time order: sequence numbers are renumbered by a
  strictly increasing function.
\<close>

datatype history_event = InvEvent invocation | CompEvent completion

fun event_seq :: "history_event \<Rightarrow> int" where
  "event_seq (InvEvent v) = inv_seq v"
| "event_seq (CompEvent c) = cp_seq c"

fun event_id :: "history_event \<Rightarrow> string" where
  "event_id (InvEvent v) = inv_id v"
| "event_id (CompEvent c) = cp_id c"

fun replay_event :: "history_event \<Rightarrow> history \<Rightarrow> history result" where
  "replay_event (InvEvent v) h = and_then (invoke (inv_id v) (inv_client v) (inv_op v) h) (\<lambda>(_, h'). Inr h')"
| "replay_event (CompEvent c) h = and_then (respond (cp_id c) (cp_result c) h) (\<lambda>(_, h'). Inr h')"

definition project :: "history \<Rightarrow> string set \<Rightarrow> history result" where
  "project h keep =
     (let invs = filter (\<lambda>v. inv_id v \<in> keep) (invocations h);
          comps = filter (\<lambda>c. cp_id c \<in> keep) (map co_comp (completed h));
          events = map InvEvent invs @ map CompEvent comps
      in for_each replay_event (sort_key event_seq events) OperationHistory)"

section \<open>Replaying a sorted list of events\<close>

fun inv_of :: "history_event \<Rightarrow> invocation option" where
  "inv_of (InvEvent v) = Some v"
| "inv_of (CompEvent c) = None"

fun comp_of :: "history_event \<Rightarrow> completion option" where
  "comp_of (InvEvent v) = None"
| "comp_of (CompEvent c) = Some c"

definition renum_inv :: "(int \<Rightarrow> int) \<Rightarrow> invocation \<Rightarrow> invocation" where
  "renum_inv f v = v\<lparr>inv_seq := f (inv_seq v)\<rparr>"

definition renum_comp :: "(int \<Rightarrow> int) \<Rightarrow> completion \<Rightarrow> completion" where
  "renum_comp f c = c\<lparr>cp_seq := f (cp_seq c)\<rparr>"

definition renum :: "(int \<Rightarrow> int) \<Rightarrow> completed_operation \<Rightarrow> completed_operation" where
  "renum f item = \<lparr>co_inv = renum_inv f (co_inv item), co_comp = renum_comp f (co_comp item)\<rparr>"

lemma renum_simps [simp]:
  "inv_id (renum_inv f v) = inv_id v" "inv_client (renum_inv f v) = inv_client v" "inv_op (renum_inv f v) = inv_op v"
  "inv_seq (renum_inv f v) = f (inv_seq v)" "cp_id (renum_comp f c) = cp_id c" "cp_result (renum_comp f c) = cp_result c"
  "cp_seq (renum_comp f c) = f (cp_seq c)" "co_inv (renum f item) = renum_inv f (co_inv item)"
  "co_comp (renum f item) = renum_comp f (co_comp item)" "co_id (renum f item) = co_id item"
  by (simp_all add: renum_inv_def renum_comp_def renum_def co_id_def)

definition replayed :: "(int \<Rightarrow> int) \<Rightarrow> history_event list \<Rightarrow> history" where
  "replayed f evs = OperationHistory\<lparr>h_sequence := int (length evs),
     h_invocations := map (\<lambda>v. (inv_id v, renum_inv f v)) (List.map_filter inv_of evs),
     h_completions := map (\<lambda>c. (cp_id c, renum_comp f c)) (List.map_filter comp_of evs)\<rparr>"

definition replayable :: "history_event list \<Rightarrow> bool" where
  "replayable evs \<longleftrightarrow> sorted_wrt (\<lambda>a b. event_seq a < event_seq b) evs \<and>
     distinct (map inv_id (List.map_filter inv_of evs)) \<and> distinct (map cp_id (List.map_filter comp_of evs)) \<and>
     (\<forall>v. InvEvent v \<in> set evs \<longrightarrow> inv_id v \<noteq> [] \<and> inv_client v \<noteq> []) \<and>
     (\<forall>c. CompEvent c \<in> set evs \<longrightarrow> (\<exists>v. InvEvent v \<in> set evs \<and> inv_id v = cp_id c \<and> inv_seq v < cp_seq c \<and>
        (is_write (inv_op v) \<longrightarrow> cp_result c = None)))"

definition rank_in :: "history_event list \<Rightarrow> int \<Rightarrow> int" where
  "rank_in evs s = int (length (filter (\<lambda>e. event_seq e < s) evs))"

lemma map_filter_append: "List.map_filter f (xs @ ys) = List.map_filter f xs @ List.map_filter f ys"
  by (simp add: List.map_filter_def)

lemma map_filter_of [simp]:
  "v \<in> set (List.map_filter inv_of evs) \<longleftrightarrow> InvEvent v \<in> set evs"
  "c \<in> set (List.map_filter comp_of evs) \<longleftrightarrow> CompEvent c \<in> set evs"
proof -
  have "inv_of e = Some v \<longleftrightarrow> e = InvEvent v" "comp_of e = Some c \<longleftrightarrow> e = CompEvent c" for e
    by (cases e; auto)+
  then show "v \<in> set (List.map_filter inv_of evs) \<longleftrightarrow> InvEvent v \<in> set evs"
    "c \<in> set (List.map_filter comp_of evs) \<longleftrightarrow> CompEvent c \<in> set evs"
    by (auto simp: set_map_filter)
qed

lemma rank_at:
  assumes "sorted_wrt (\<lambda>a b. event_seq a < event_seq b) (pre @ e # post)"
  shows "rank_in (pre @ e # post) (event_seq e) = int (length pre)"
proof -
  have "filter (\<lambda>d. event_seq d < event_seq e) pre = pre"
    using assms by (auto simp: sorted_wrt_append intro!: filter_True)
  moreover have "filter (\<lambda>d. event_seq d < event_seq e) post = []"
    using assms by (force simp: sorted_wrt_append filter_empty_conv)
  ultimately show ?thesis by (simp add: rank_in_def)
qed

lemma rank_mono:
  assumes "e \<in> set evs" and "event_seq e < s"
  shows "rank_in evs (event_seq e) < rank_in evs s"
proof -
  have "length (filter (\<lambda>d. event_seq d < event_seq e) evs) =
      length (filter (\<lambda>d. event_seq d < event_seq e) (filter (\<lambda>d. event_seq d < s) evs))"
    using assms(2) by (auto intro!: arg_cong[where f = length] filter_cong)
  also have "\<dots> < length (filter (\<lambda>d. event_seq d < s) evs)"
    using assms by (intro length_filter_less[of e]) auto
  finally show ?thesis by (simp add: rank_in_def)
qed

lemma rank_less_iff:
  assumes "d \<in> set evs" and "e \<in> set evs"
  shows "rank_in evs (event_seq d) < rank_in evs (event_seq e) \<longleftrightarrow> event_seq d < event_seq e"
  using rank_mono[OF assms(1), of "event_seq e"] rank_mono[OF assms(2), of "event_seq d"]
  by (cases "event_seq d" "event_seq e" rule: linorder_cases) auto

lemma replay_step:
  assumes ok: "replayable evs" and evs: "evs = pre @ e # post"
  shows "replay_event e (replayed (rank_in evs) pre) = Inr (replayed (rank_in evs) (pre @ [e]))"
proof -
  let ?f = "rank_in evs"
  have r: "?f (event_seq e) = int (length pre)"
    using ok rank_at[of pre e post] by (simp add: replayable_def evs)
  show ?thesis
  proof (cases e)
    case (InvEvent v)
    have "inv_id v \<notin> inv_id ` set (List.map_filter inv_of pre)"
      using ok unfolding replayable_def evs InvEvent by (auto simp: map_filter_append)
    then have "map_of (h_invocations (replayed ?f pre)) (inv_id v) = None"
      by (auto simp: map_of_eq_None_iff replayed_def image_iff)
    moreover have "inv_id v \<noteq> []" "inv_client v \<noteq> []"
      using ok unfolding replayable_def evs InvEvent by auto
    ultimately show ?thesis
      using r by (cases v) (simp add: invoke_def InvEvent replayed_def next_sequence_def map_filter_append
          renum_inv_def Let_def OperationHistory_def)
  next
    case (CompEvent c)
    have "cp_id c \<notin> cp_id ` set (List.map_filter comp_of pre)"
      using ok unfolding replayable_def evs CompEvent by (auto simp: map_filter_append)
    then have n: "map_of (h_completions (replayed ?f pre)) (cp_id c) = None"
      by (auto simp: map_of_eq_None_iff replayed_def image_iff)
    obtain v where v: "InvEvent v \<in> set evs" "inv_id v = cp_id c" "inv_seq v < cp_seq c"
        "is_write (inv_op v) \<longrightarrow> cp_result c = None"
      using ok unfolding replayable_def evs CompEvent by auto
    have "InvEvent v \<in> set pre"
      using v(1,3) ok unfolding replayable_def evs CompEvent by (force simp: sorted_wrt_append)
    moreover have "distinct (map inv_id (List.map_filter inv_of pre))"
      using ok unfolding replayable_def evs by (auto simp: map_filter_append)
    ultimately have "map_of (h_invocations (replayed ?f pre)) (cp_id c) = Some (renum_inv ?f v)"
      using v(2) by (auto simp: replayed_def comp_def intro!: map_of_is_SomeI rev_image_eqI[of v])
    then show ?thesis
      using r n v(4) by (cases c) (auto simp: respond_def CompEvent replayed_def next_sequence_def map_filter_append
          renum_comp_def Let_def OperationHistory_def)
  qed
qed

lemma replay_all:
  assumes "replayable evs"
  shows "for_each replay_event evs OperationHistory = Inr (replayed (rank_in evs) evs)"
proof -
  have "for_each replay_event pre OperationHistory = Inr (replayed (rank_in evs) pre)" if "evs = pre @ post" for pre post
    using that
  proof (induction pre arbitrary: post rule: rev_induct)
    case Nil
    then show ?case by (simp add: replayed_def OperationHistory_def)
  next
    case (snoc e pre)
    then show ?case using replay_step[OF assms, of pre e post] by (simp add: for_each_append)
  qed
  then show ?thesis by simp
qed

section \<open>Projections of a well-formed history\<close>

definition kept_events :: "history \<Rightarrow> string set \<Rightarrow> history_event list" where
  "kept_events h keep = sort_key event_seq
     (map InvEvent (filter (\<lambda>v. inv_id v \<in> keep) (invocations h)) @
      map CompEvent (filter (\<lambda>c. cp_id c \<in> keep) (map co_comp (completed h))))"

lemma project_events: "project h keep = for_each replay_event (kept_events h keep) OperationHistory"
  by (simp add: project_def kept_events_def)

lemma kept_members:
  "InvEvent v \<in> set (kept_events h keep) \<longleftrightarrow> v \<in> set (invocations h) \<and> inv_id v \<in> keep"
  "CompEvent c \<in> set (kept_events h keep) \<longleftrightarrow> c \<in> co_comp ` set (completed h) \<and> cp_id c \<in> keep"
  by (auto simp: kept_events_def)

lemma completion_seqs:
  assumes wf: "wf_history h"
  shows "distinct (map cp_id (map co_comp (completed h)))" "distinct (map cp_seq (map co_comp (completed h)))"
    "a \<in> set (completed h) \<Longrightarrow> v \<in> set (invocations h) \<Longrightarrow> cp_seq (co_comp a) \<noteq> inv_seq v"
proof -
  have "map cp_id (map co_comp (completed h)) = map co_id (completed h)"
    using completed_facts(4)[OF wf] by simp
  then show i: "distinct (map cp_id (map co_comp (completed h)))" using completed_facts(1)[OF wf] by argo
  have mem: "(co_id a, co_comp a) \<in> set (h_completions h)" if "a \<in> set (completed h)" for a
    using that set_completed[OF wf] by (auto dest: map_of_SomeD)
  have "distinct (map (cp_seq \<circ> snd) (h_completions h))"
    using wf strict_sorted_map[of "cp_seq \<circ> snd"] by (auto simp: wf_history_def wf_completions_def)
  then have "co_comp a = co_comp b" if "a \<in> set (completed h)" "b \<in> set (completed h)"
      "cp_seq (co_comp a) = cp_seq (co_comp b)" for a b
    using mem[OF that(1)] mem[OF that(2)] that(3) by (force simp: distinct_map inj_on_def)
  then have "inj_on cp_seq (set (map co_comp (completed h)))" by (auto simp: inj_on_def)
  moreover have "distinct (map co_comp (completed h))" using i by (subst (asm) distinct_map) blast
  ultimately show "distinct (map cp_seq (map co_comp (completed h)))" by (simp only: distinct_map)
  show "cp_seq (co_comp a) \<noteq> inv_seq v" if "a \<in> set (completed h)" "v \<in> set (invocations h)"
  proof -
    have "cp_seq (co_comp a) \<notin> (inv_seq \<circ> snd) ` set (h_invocations h)"
      using wf mem[OF that(1)] unfolding wf_history_def wf_completions_def by blast
    moreover have "inv_seq v \<in> (inv_seq \<circ> snd) ` set (h_invocations h)"
      using that(2) unfolding invocations_wf[OF wf] by auto
    ultimately show ?thesis by metis
  qed
qed

lemma kept_sorted:
  assumes wf: "wf_history h"
  shows "sorted_wrt (\<lambda>a b. event_seq a < event_seq b) (kept_events h keep)"
proof -
  let ?invs = "filter (\<lambda>v. inv_id v \<in> keep) (invocations h)"
  let ?comps = "filter (\<lambda>c. cp_id c \<in> keep) (map co_comp (completed h))"
  have "distinct (map inv_seq ?invs)" "distinct (map cp_seq ?comps)"
    using strict_sorted_map[OF invocation_facts(2)[OF wf]] completion_seqs(2)[OF wf]
    by (simp_all only: distinct_map_filter)
  moreover have "inv_seq ` set ?invs \<inter> cp_seq ` set ?comps = {}"
    using completion_seqs(3)[OF wf] by fastforce
  moreover have "map event_seq (map InvEvent vs @ map CompEvent cs) = map inv_seq vs @ map cp_seq cs" for vs cs
    by (simp add: comp_def)
  ultimately have "distinct (map event_seq (map InvEvent ?invs @ map CompEvent ?comps))"
    by (metis distinct_append set_map)
  then have "distinct (map event_seq (kept_events h keep))"
    unfolding kept_events_def by (simp only: distinct_map distinct_sort set_sort)
  moreover have "sorted (map event_seq (kept_events h keep))" by (simp add: kept_events_def)
  ultimately show ?thesis by (simp add: strict_sorted_iff sorted_wrt_map[symmetric])
qed

lemma kept_invocations:
  assumes wf: "wf_history h"
  shows "List.map_filter inv_of (kept_events h keep) = filter (\<lambda>v. inv_id v \<in> keep) (invocations h)"
proof (rule map_sorted_distinct_set_unique[where f = inv_seq])
  have a: "sorted_wrt (<) (map inv_seq (invocations h))" by (rule invocation_facts(2)[OF wf])
  have "sorted_wrt (<) (map inv_seq (List.map_filter inv_of evs))"
    if "sorted_wrt (\<lambda>a b. event_seq a < event_seq b) evs" for evs
    using that
  proof (induction evs)
    case (Cons e evs)
    then show ?case by (cases e) (auto dest: bspec)
  qed simp
  from strict_sorted_map[OF this[OF kept_sorted[OF wf]]]
  show "sorted (map inv_seq (List.map_filter inv_of (kept_events h keep)))"
    "distinct (map inv_seq (List.map_filter inv_of (kept_events h keep)))" by blast+
  show "sorted (map inv_seq (filter (\<lambda>v. inv_id v \<in> keep) (invocations h)))"
    "distinct (map inv_seq (filter (\<lambda>v. inv_id v \<in> keep) (invocations h)))"
    using strict_sorted_map[OF a] by (auto simp: sorted_filter distinct_map_filter)
  show "set (List.map_filter inv_of (kept_events h keep)) = set (filter (\<lambda>v. inv_id v \<in> keep) (invocations h))"
    by (auto simp: kept_members)
  then show "inj_on inv_seq (set (List.map_filter inv_of (kept_events h keep)) \<union>
      set (filter (\<lambda>v. inv_id v \<in> keep) (invocations h)))"
    using strict_sorted_map[OF a] by (auto simp: distinct_map inj_on_def)
qed

lemma kept_replayable:
  assumes wf: "wf_history h"
  shows "replayable (kept_events h keep)"
proof -
  have "distinct (map inv_id (List.map_filter inv_of (kept_events h keep)))"
    using invocation_facts(1)[OF wf] by (simp add: kept_invocations[OF wf] distinct_map_filter)
  moreover have "mset (List.map_filter comp_of (kept_events h keep)) =
      mset (filter (\<lambda>c. cp_id c \<in> keep) (map co_comp (completed h)))"
  proof -
    have "mset (List.map_filter comp_of xs) = mset (List.map_filter comp_of ys)" if "mset xs = mset ys" for xs ys
      using that unfolding List.map_filter_def mset_map mset_filter by simp
    moreover have "List.map_filter comp_of (map InvEvent vs @ map CompEvent cs) = cs" for vs cs
      by (simp add: map_filter_append) (induction vs; induction cs; simp)
    ultimately show ?thesis unfolding kept_events_def by (metis mset_sort)
  qed
  then have "mset (map cp_id (List.map_filter comp_of (kept_events h keep))) =
      mset (map cp_id (filter (\<lambda>c. cp_id c \<in> keep) (map co_comp (completed h))))" by (simp only: mset_map)
  then have "distinct (map cp_id (List.map_filter comp_of (kept_events h keep)))"
    using distinct_map_filter[OF completion_seqs(1)[OF wf]] by (metis mset_eq_imp_distinct_iff)
  moreover have "inv_id v \<noteq> [] \<and> inv_client v \<noteq> []" if "InvEvent v \<in> set (kept_events h keep)" for v
    using that wf by (auto simp: kept_members invocations_wf wf_history_def wf_invocations_def)
  moreover have "\<exists>v. InvEvent v \<in> set (kept_events h keep) \<and> inv_id v = cp_id c \<and> inv_seq v < cp_seq c \<and>
      (is_write (inv_op v) \<longrightarrow> cp_result c = None)" if c: "CompEvent c \<in> set (kept_events h keep)" for c
  proof -
    obtain a where a: "a \<in> set (completed h)" "c = co_comp a" "co_id a \<in> keep"
      using c completed_facts(4)[OF wf] by (auto simp: kept_members)
    then show ?thesis
      using completed_facts(3,4,5)[OF wf a(1)] set_completed[OF wf, of a]
      by (intro exI[of _ "co_inv a"]) (auto simp: kept_members co_id_def)
  qed
  ultimately show ?thesis using kept_sorted[OF wf] by (simp add: replayable_def)
qed

lemma replay_wf: "wf_history h \<Longrightarrow> outcome {ValueError, InvalidHistory} wf_history (replay_event e h)"
  using perform_wf[of h "CallInvoke (inv_id v) (inv_client v) (inv_op v)" for v]
    perform_wf[of h "CallRespond (cp_id c) (cp_result c)" for c]
  by (cases e) simp_all

lemma complete_renumbered:
  assumes "\<And>i. map_of (h_completions h') i = (if i \<in> keep then map_option (renum_comp f) (map_of (h_completions h) i) else None)"
  shows "List.map_filter (complete_with h') (map (renum_inv f) (filter (\<lambda>v. inv_id v \<in> keep) vs)) =
    map (renum f) (filter (\<lambda>item. co_id item \<in> keep) (List.map_filter (complete_with h) vs))"
proof (induction vs)
  case (Cons v vs)
  have "complete_with h' (renum_inv f v) = map_option (renum f) (complete_with h v)" if "inv_id v \<in> keep"
    using assms that by (cases "map_of (h_completions h) (inv_id v)") (auto simp: complete_with_def renum_def)
  then show ?case using Cons
    by (auto simp: co_id_def split: option.split) (auto simp: complete_with_def)
qed simp

text \<open>What a projection is: the kept invocations and completed operations, in order, with sequence
  numbers that compare the same way.\<close>

definition projection :: "history \<Rightarrow> string set \<Rightarrow> history \<Rightarrow> (int \<Rightarrow> int) \<Rightarrow> bool" where
  "projection h keep h' f \<longleftrightarrow> wf_history h' \<and>
     invocations h' = map (renum_inv f) (filter (\<lambda>v. inv_id v \<in> keep) (invocations h)) \<and>
     completed h' = map (renum f) (filter (\<lambda>item. co_id item \<in> keep) (completed h)) \<and>
     (\<forall>i. map_of (h_completions h') i = (if i \<in> keep then map_option (renum_comp f) (map_of (h_completions h) i) else None)) \<and>
     (\<forall>a \<in> set (completed h). \<forall>v \<in> set (invocations h). co_id a \<in> keep \<longrightarrow> inv_id v \<in> keep \<longrightarrow>
        f (cp_seq (co_comp a)) < f (inv_seq v) \<longleftrightarrow> cp_seq (co_comp a) < inv_seq v)"

lemma project_result:
  assumes wf: "wf_history h"
  obtains h' f where "project h keep = Inr h'" and "projection h keep h' f"
proof -
  define evs where "evs = kept_events h keep"
  define f where "f = rank_in evs"
  define h' where "h' = replayed f evs"
  have run: "project h keep = Inr h'"
    unfolding project_events h'_def f_def evs_def by (rule replay_all[OF kept_replayable[OF wf]])
  have "outcome {ValueError, InvalidHistory} wf_history (project h keep)"
    unfolding project_events by (rule outcome_for_each[OF wf_empty replay_wf])
  then have wf': "wf_history h'" using run by simp
  have inv: "invocations h' = map (renum_inv f) (filter (\<lambda>v. inv_id v \<in> keep) (invocations h))"
    unfolding invocations_wf[OF wf'] by (simp add: h'_def replayed_def evs_def kept_invocations[OF wf])
  have d: "distinct (map fst (h_completions h'))" using wf' by (simp add: wf_history_def wf_completions_def)
  have iff: "map_of (h_completions h') i = Some c \<longleftrightarrow> i \<in> keep \<and> map_option (renum_comp f) (map_of (h_completions h) i) = Some c"
    for i c
  proof -
    have "map_of (h_completions h') i = Some c \<longleftrightarrow>
        (\<exists>a \<in> set (completed h). co_id a \<in> keep \<and> i = co_id a \<and> c = renum_comp f (co_comp a))"
    proof -
      have "map_of (h_completions h') i = Some c \<longleftrightarrow>
          (\<exists>d. CompEvent d \<in> set evs \<and> i = cp_id d \<and> c = renum_comp f d)"
        unfolding map_of_eq_Some_iff[OF d] by (auto simp: h'_def replayed_def image_iff Bex_def)
      then show ?thesis using completed_facts(4)[OF wf] by (auto simp: evs_def kept_members)
    qed
    also have "\<dots> \<longleftrightarrow> i \<in> keep \<and> map_option (renum_comp f) (map_of (h_completions h) i) = Some c"
    proof -
      have "\<exists>a \<in> set (completed h). co_id a = i \<and> co_comp a = d" if m: "map_of (h_completions h) i = Some d" for d
      proof -
        obtain v where v: "map_of (h_invocations h) i = Some v" using completed_invoked[OF wf m] by blast
        have "inv_id v = i" using wf map_of_SomeD[OF v] by (auto simp: wf_history_def wf_invocations_def)
        then show ?thesis using m v
          by (intro bexI[of _ "\<lparr>co_inv = v, co_comp = d\<rparr>"])
            (auto simp: set_completed[OF wf] co_id_def invocation_facts(4)[OF wf])
      qed
      then show ?thesis by (fastforce simp: set_completed[OF wf])
    qed
    finally show ?thesis .
  qed
  have comp: "map_of (h_completions h') i = (if i \<in> keep then map_option (renum_comp f) (map_of (h_completions h) i) else None)"
    for i
    using iff[of i] by (cases "map_of (h_completions h) i") (auto intro: option.exhaust[of "map_of (h_completions h') i"])
  have "f (cp_seq (co_comp a)) < f (inv_seq v) \<longleftrightarrow> cp_seq (co_comp a) < inv_seq v"
    if "a \<in> set (completed h)" "co_id a \<in> keep" "v \<in> set (invocations h)" "inv_id v \<in> keep" for a v
    using that completed_facts(4)[OF wf that(1)] rank_less_iff[of "CompEvent (co_comp a)" evs "InvEvent v"]
    by (simp add: f_def evs_def kept_members)
  then have "projection h keep h' f"
    using wf' inv comp complete_renumbered[OF comp, of "invocations h"]
    by (simp add: projection_def completed_wf[OF wf] completed_wf[OF wf'])
  with run that show ?thesis by blast
qed

end
