(* ===== verification/Multikey.thy ===== *)
theory Multikey
  imports Pending_Extensions History_Replay
begin

text \<open>
  The multi-key checker, \<^verbatim>\<open>src/src/distlab/multikey_linearizability.py\<close>: the events of a history are
  replayed into one history per key and each is given to the single-key completion-extension
  checker. The source argues by locality of linearizability; here locality is proved for the
  model: the conjunction of the per-key verdicts is the verdict for a key/value store.
\<close>

section \<open>The checker\<close>

datatype mk_event = MkInv invocation | MkComp completed_operation

fun mk_seq :: "mk_event \<Rightarrow> int" where
  "mk_seq (MkInv v) = inv_seq v"
| "mk_seq (MkComp item) = cp_seq (co_comp item)"

fun mk_replay :: "(string \<times> invocation) list \<Rightarrow> mk_event \<Rightarrow> (string \<times> history) list \<Rightarrow> (string \<times> history) list result" where
  "mk_replay by_identity (MkInv v) projected =
     (let key = ho_key (inv_op v)
      in case map_of projected key of
           None \<Rightarrow> Inl KeyError
         | Some ph \<Rightarrow> and_then (invoke (inv_id v) (inv_client v) (inv_op v) ph) (\<lambda>(_, ph').
             Inr (AList.update key ph' projected)))"
| "mk_replay by_identity (MkComp item) projected =
     (case map_of by_identity (co_id item) of
        None \<Rightarrow> Inl KeyError
      | Some v \<Rightarrow>
          (let key = ho_key (inv_op v)
           in case map_of projected key of
                None \<Rightarrow> Inl KeyError
              | Some ph \<Rightarrow> and_then (respond (co_id item) (cp_result (co_comp item)) ph) (\<lambda>(_, ph').
                  Inr (AList.update key ph' projected))))"

definition mk_projected :: "history \<Rightarrow> (string \<times> history) list result" where
  "mk_projected h = for_each (\<lambda>v projected.
     if ho_key (inv_op v) = [] then Inl InvalidHistory
     else Inr (setdefault (ho_key (inv_op v)) OperationHistory projected)) (invocations h) []"

record multikey_result =
  mk_linearizable :: bool
  mk_by_key :: "(string \<times> extension_result) list"

fun check_keys :: "(string \<times> history) list \<Rightarrow> int \<Rightarrow> int \<Rightarrow> string list \<Rightarrow> (string \<times> extension_result) list result" where
  "check_keys projected max_operations max_states [] = Inr []"
| "check_keys projected max_operations max_states (key # keys) =
     (case map_of projected key of
        None \<Rightarrow> Inl KeyError
      | Some ph \<Rightarrow> and_then (check_with_pending_extensions ph max_operations max_states) (\<lambda>r.
          and_then (check_keys projected max_operations max_states keys) (\<lambda>rs. Inr ((key, r) # rs))))"

definition multikey_check :: "history \<Rightarrow> int \<Rightarrow> int \<Rightarrow> int \<Rightarrow> multikey_result result" where
  "multikey_check h max_operations max_keys max_states_per_key =
     (if \<not> (1 \<le> max_operations \<and> max_operations \<le> 64) then Inl ValueError
      else if \<not> (1 \<le> max_keys \<and> max_keys \<le> 64) then Inl ValueError
      else if max_states_per_key \<le> 0 then Inl ValueError
      else if int (length (invocations h)) > max_operations then Inl LinearizabilitySearchExhausted
      else
        (let by_identity = map (\<lambda>v. (inv_id v, v)) (invocations h)
         in and_then (mk_projected h) (\<lambda>projected.
            if int (length projected) > max_keys then Inl LinearizabilitySearchExhausted
            else
              (let events = map MkInv (invocations h) @ map MkComp (completed h)
               in and_then (for_each (mk_replay by_identity) (sort_key mk_seq events) projected) (\<lambda>replayed.
                  and_then (check_keys replayed max_operations max_states_per_key (sort (map fst replayed))) (\<lambda>results.
                    Inr \<lparr>mk_linearizable = list_all (\<lambda>(_, r). ce_linearizable r) results, mk_by_key = results\<rparr>))))))"

section \<open>The specification: a key/value store\<close>

fun kv_legal :: "history \<Rightarrow> (string \<Rightarrow> string option) \<Rightarrow> invocation list \<Rightarrow> bool" where
  "kv_legal h store [] \<longleftrightarrow> True"
| "kv_legal h store (v # vs) \<longleftrightarrow>
     (case inv_op v of
        Write (Put k w) \<Rightarrow> kv_legal h (store(k \<mapsto> w)) vs
      | Write (Delete k) \<Rightarrow> kv_legal h (store(k := None)) vs
      | Get k \<Rightarrow> map_option cp_result (responded h v) = Some (store k) \<and> kv_legal h store vs)"

definition kv_legal_order :: "history \<Rightarrow> invocation list \<Rightarrow> bool" where
  "kv_legal_order h order \<longleftrightarrow> distinct order \<and> (\<forall>v \<in> set order. selectable h v) \<and>
     (\<forall>v \<in> set (invocations h). responded h v \<noteq> None \<longrightarrow> v \<in> set order) \<and>
     sorted_wrt (\<lambda>a b. \<not> happens_before h b a) order \<and> kv_legal h Map.empty order"

definition key_ids :: "history \<Rightarrow> string \<Rightarrow> string set" where
  "key_ids h key = inv_id ` {v \<in> set (invocations h). ho_key (inv_op v) = key}"

definition key_order :: "history \<Rightarrow> string \<Rightarrow> invocation list \<Rightarrow> bool" where
  "key_order h key order \<longleftrightarrow> distinct order \<and> (\<forall>v \<in> set order. selectable h v \<and> ho_key (inv_op v) = key) \<and>
     (\<forall>v \<in> set (invocations h). ho_key (inv_op v) = key \<longrightarrow> responded h v \<noteq> None \<longrightarrow> v \<in> set order) \<and>
     sorted_wrt (\<lambda>a b. \<not> happens_before h b a) order \<and> register_legal h None order"

section \<open>Locality\<close>

lemma kv_legal_local:
  "kv_legal h store order \<longleftrightarrow> (\<forall>key. register_legal h (store key) (filter (\<lambda>v. ho_key (inv_op v) = key) order))"
proof (induction order arbitrary: store)
  case (Cons v order)
  let ?F = "\<lambda>key vs. filter (\<lambda>v. ho_key (inv_op v) = key) vs"
  show ?case
  proof (cases "inv_op v")
    case (Write w)
    define store' where "store' = (case w of Put k x \<Rightarrow> store(k \<mapsto> x) | Delete k \<Rightarrow> store(k := None))"
    have "kv_legal h store (v # order) \<longleftrightarrow> kv_legal h store' order"
      using Write by (simp add: store'_def split: kv_operation.split)
    moreover have "register_legal h (store' key) (?F key order) \<longleftrightarrow> register_legal h (store key) (?F key (v # order))" for key
      using Write by (cases w) (auto simp: store'_def)
    ultimately show ?thesis by (simp only: Cons.IH)
  next
    case (Get k)
    have "register_legal h (store key) (?F key (v # order)) \<longleftrightarrow>
        (key = k \<longrightarrow> map_option cp_result (responded h v) = Some (store k)) \<and> register_legal h (store key) (?F key order)" for key
      using Get by auto
    then show ?thesis using Get Cons.IH[of store] by (simp del: filter.simps register_legal.simps) blast
  qed
qed simp

fun stamp :: "int \<Rightarrow> invocation list \<Rightarrow> (int \<times> invocation) list" where
  "stamp m [] = []"
| "stamp m (v # vs) = (max m (inv_seq v), v) # stamp (max m (inv_seq v)) vs"

lemma stamp_facts:
  "map snd (stamp m vs) = vs"
  "\<forall>(p, v) \<in> set (stamp m vs). m \<le> p \<and> inv_seq v \<le> p"
  "sorted (map fst (stamp m vs))"
proof (induction vs arbitrary: m)
  case (Cons v vs)
  { case 1 show ?case using Cons(1) by simp }
  { case 2 show ?case using Cons(2)[of "max m (inv_seq v)"] by fastforce }
  { case 3 show ?case using Cons(3)[of "max m (inv_seq v)"] Cons(2)[of "max m (inv_seq v)"] by fastforce }
qed simp_all

lemma stamp_before_response:
  assumes "sorted_wrt (\<lambda>a b. \<not> happens_before h b a) vs" and "\<forall>v \<in> set vs. \<not> happens_before h v v"
    and "\<forall>v \<in> set vs. \<forall>c. responded h v = Some c \<longrightarrow> m \<le> cp_seq c"
  shows "\<forall>(p, v) \<in> set (stamp m vs). \<forall>c. responded h v = Some c \<longrightarrow> p \<le> cp_seq c"
  using assms
proof (induction vs arbitrary: m)
  case (Cons v vs)
  have "inv_seq v \<le> cp_seq c" if "u \<in> set (v # vs)" "responded h u = Some c" for u c
  proof -
    have "\<not> happens_before h u v" using Cons.prems(1,2) that(1) by auto
    then show ?thesis using that(2) by (simp add: happens_before_def)
  qed
  then have "\<forall>u \<in> set (v # vs). \<forall>c. responded h u = Some c \<longrightarrow> max m (inv_seq v) \<le> cp_seq c"
    using Cons.prems(3) by auto
  then show ?case using Cons.IH[of "max m (inv_seq v)"] Cons.prems(1,2) by simp
qed simp

lemma key_order_filter:
  assumes "kv_legal_order h order"
  shows "key_order h key (filter (\<lambda>v. ho_key (inv_op v) = key) order)"
  using assms unfolding kv_legal_order_def key_order_def
  by (auto simp: kv_legal_local sorted_wrt_filter)

lemma filter_concat_by:
  assumes "distinct ks" and "\<forall>k \<in> set ks. \<forall>x \<in> set (g k). f x = k"
  shows "filter (\<lambda>x. f x = k) (concat (map g ks)) = (if k \<in> set ks then g k else [])"
  using assms
proof (induction ks)
  case (Cons a ks)
  have "filter (\<lambda>x. f x = k) (g a) = (if k = a then g a else [])"
    using Cons.prems(2) by (auto simp: filter_empty_conv intro: filter_True)
  then show ?case using Cons by auto
qed simp

lemma distinct_by_filter: "(\<And>k. distinct (filter (\<lambda>x. f x = k) xs)) \<Longrightarrow> distinct xs"
proof (induction xs)
  case (Cons x xs)
  have "distinct (filter (\<lambda>y. f y = k) xs)" for k using Cons.prems[of k] by (simp split: if_splits)
  moreover have "x \<notin> set xs" using Cons.prems[of "f x"] by simp
  ultimately show ?case using Cons.IH by simp
qed simp

lemma selectable_irrefl: "wf_history h \<Longrightarrow> selectable h v \<Longrightarrow> \<not> happens_before h v v"
  using completed_facts(3)[of h "\<lparr>co_inv = v, co_comp = the (responded h v)\<rparr>"]
  by (auto simp: happens_before_def set_completed responded_def co_id_def selectable_def split: option.splits)

lemma merge_key_orders:
  assumes wf: "wf_history h" and o: "\<And>v. v \<in> set (invocations h) \<Longrightarrow> key_order h (ho_key (inv_op v)) (ord (ho_key (inv_op v)))"
  shows "\<exists>order. kv_legal_order h order"
proof -
  define ks where "ks = remdups (map (\<lambda>v. ho_key (inv_op v)) (invocations h))"
  define C where "C = concat (map (\<lambda>k. stamp (-1) (ord k)) ks)"
  define G where "G = sort_key fst C"
  have ord: "key_order h k (ord k)" if "k \<in> set ks" for k using that o by (auto simp: ks_def)
  have snds: "snd ` set (stamp (-1) (ord k)) = set (ord k)" for k
    using arg_cong[OF stamp_facts(1)[of "-1" "ord k"], of set] by simp
  have keyed: "\<forall>k \<in> set ks. \<forall>x \<in> set (stamp (-1) (ord k)). ho_key (inv_op (snd x)) = k"
    using ord snds unfolding key_order_def by (metis image_eqI)
  have filt: "filter (\<lambda>v. ho_key (inv_op v) = k) (map snd G) = (if k \<in> set ks then ord k else [])" for k
  proof -
    have "filter (\<lambda>x. ho_key (inv_op (snd x)) = k) G = (if k \<in> set ks then stamp (-1) (ord k) else [])"
      unfolding G_def C_def filter_sort filter_concat_by[OF _ keyed, of k, unfolded ks_def, simplified, folded ks_def]
      using stamp_facts(3)[of "-1" "ord k"] by (simp add: sort_key_id_if_sorted ks_def)
    then show ?thesis by (simp add: filter_map comp_def stamp_facts(1))
  qed
  have mem: "v \<in> snd ` set G \<longleftrightarrow> ho_key (inv_op v) \<in> set ks \<and> v \<in> set (ord (ho_key (inv_op v)))" for v
    using arg_cong[OF filt[of "ho_key (inv_op v)"], of "\<lambda>xs. v \<in> set xs"] by (auto split: if_splits)
  have sel: "selectable h v" if "v \<in> snd ` set G" for v
    using that ord[of "ho_key (inv_op v)"] unfolding mem key_order_def by blast
  have count: "distinct (map snd G)"
  proof (rule distinct_by_filter[where f = "\<lambda>v. ho_key (inv_op v)"])
    fix k show "distinct (filter (\<lambda>v. ho_key (inv_op v) = k) (map snd G))"
      unfolding filt using ord[of k] by (simp add: key_order_def)
  qed
  have pts: "inv_seq v \<le> p \<and> (\<forall>c. responded h v = Some c \<longrightarrow> p \<le> cp_seq c)" if pv: "(p, v) \<in> set G" for p v
  proof -
    obtain k where k: "k \<in> set ks" "(p, v) \<in> set (stamp (-1) (ord k))" using pv by (auto simp: G_def C_def)
    have ko: "key_order h k (ord k)" by (rule ord[OF k(1)])
    have "-1 \<le> cp_seq c" if "u \<in> set (ord k)" "responded h u = Some c" for u c
    proof -
      have "u \<in> set (invocations h)" using ko that(1) by (auto simp: key_order_def selectable_def)
      then have "0 \<le> inv_seq u" using wf by (auto simp: invocations_wf wf_history_def wf_invocations_def)
      moreover have "\<not> happens_before h u u" using selectable_irrefl[OF wf] ko that(1) by (auto simp: key_order_def)
      ultimately show ?thesis using that(2) by (simp add: happens_before_def)
    qed
    moreover have "\<forall>u \<in> set (ord k). \<not> happens_before h u u"
      using selectable_irrefl[OF wf] ko by (auto simp: key_order_def)
    ultimately show ?thesis
      using stamp_before_response[of h "ord k" "-1"] stamp_facts(2)[of "-1" "ord k"] ko k(2) unfolding key_order_def by blast
  qed
  have "sorted_wrt (\<lambda>a b. \<not> happens_before h (snd b) (snd a)) G"
  proof -
    have "sorted_wrt (\<lambda>a b. fst a \<le> fst b) G" using sorted_sort_key[of fst C] by (simp add: G_def sorted_map)
    then show ?thesis
    proof (rule sorted_wrt_mono_rel[rotated])
      fix a b assume ab: "a \<in> set G" "b \<in> set G" "fst a \<le> fst b"
      have "inv_seq (snd a) \<le> fst a" "\<forall>c. responded h (snd b) = Some c \<longrightarrow> fst b \<le> cp_seq c"
        using pts[of "fst a" "snd a"] pts[of "fst b" "snd b"] ab by simp_all
      then show "\<not> happens_before h (snd b) (snd a)"
        using ab(3) by (auto simp: happens_before_def split: option.splits)
    qed
  qed
  moreover have "v \<in> snd ` set G" if "v \<in> set (invocations h)" "responded h v \<noteq> None" for v
  proof -
    have "v \<in> set (ord (ho_key (inv_op v)))" using o[OF that(1)] that unfolding key_order_def by blast
    moreover have "ho_key (inv_op v) \<in> set ks" using that(1) by (simp add: ks_def)
    ultimately show ?thesis unfolding mem by blast
  qed
  moreover have "kv_legal h Map.empty (map snd G)"
  proof -
    have "register_legal h None (if k \<in> set ks then ord k else [])" for k
      using ord[of k] by (simp add: key_order_def)
    then show ?thesis unfolding kv_legal_local filt by simp
  qed
  ultimately have "kv_legal_order h (map snd G)"
    using count sel unfolding kv_legal_order_def sorted_wrt_map by auto
  then show ?thesis ..
qed

lemma kv_local:
  assumes wf: "wf_history h"
  shows "(\<exists>order. kv_legal_order h order) \<longleftrightarrow>
    (\<forall>v \<in> set (invocations h). \<exists>order. key_order h (ho_key (inv_op v)) order)"
proof
  assume "\<exists>order. kv_legal_order h order"
  then show "\<forall>v \<in> set (invocations h). \<exists>order. key_order h (ho_key (inv_op v)) order"
    using key_order_filter by blast
next
  assume ex: "\<forall>v \<in> set (invocations h). \<exists>order. key_order h (ho_key (inv_op v)) order"
  have "key_order h (ho_key (inv_op v)) (SOME order. key_order h (ho_key (inv_op v)) order)"
    if "v \<in> set (invocations h)" for v
    by (rule someI_ex) (rule ex[rule_format, OF that])
  then show "\<exists>order. kv_legal_order h order"
    by (rule merge_key_orders[OF wf, where ord = "\<lambda>key. SOME order. key_order h key order"])
qed

section \<open>Each projected history carries the orders of its key\<close>

lemma key_ids_iff: "wf_history h \<Longrightarrow> v \<in> set (invocations h) \<Longrightarrow> inv_id v \<in> key_ids h key \<longleftrightarrow> ho_key (inv_op v) = key"
  using invocation_facts(1)[of h] by (auto simp: key_ids_def distinct_map inj_on_def)

lemma projection_reads:
  assumes p: "projection h keep h' f" and wf: "wf_history h"
    and a: "a \<in> set (invocations h)" "inv_id a \<in> keep"
  shows "responded h' (renum_inv f a) = map_option (renum_comp f) (responded h a)"
    and "b \<in> set (invocations h) \<Longrightarrow> inv_id b \<in> keep \<Longrightarrow>
      happens_before h' (renum_inv f a) (renum_inv f b) \<longleftrightarrow> happens_before h a b"
proof -
  show r: "responded h' (renum_inv f a) = map_option (renum_comp f) (responded h a)"
    using p a unfolding projection_def responded_def by simp
  assume b: "b \<in> set (invocations h)" "inv_id b \<in> keep"
  show "happens_before h' (renum_inv f a) (renum_inv f b) \<longleftrightarrow> happens_before h a b"
  proof (cases "responded h a")
    case (Some c)
    then have "\<lparr>co_inv = a, co_comp = c\<rparr> \<in> set (completed h)"
      using a by (simp add: set_completed[OF wf] responded_def co_id_def)
    then have "f (cp_seq c) < f (inv_seq b) \<longleftrightarrow> cp_seq c < inv_seq b"
      using p a b unfolding projection_def by (fastforce simp: co_id_def)
    then show ?thesis using Some r by (simp add: happens_before_def)
  qed (simp add: happens_before_def r)
qed

lemma projection_legal:
  assumes p: "projection h keep h' f" and wf: "wf_history h"
  shows "\<forall>v \<in> set vs. v \<in> set (invocations h) \<and> inv_id v \<in> keep \<Longrightarrow>
    register_legal h' val (map (renum_inv f) vs) \<longleftrightarrow> register_legal h val vs"
proof (induction vs arbitrary: val)
  case (Cons v vs)
  then have "responded h' (renum_inv f v) = map_option (renum_comp f) (responded h v)"
    using projection_reads(1)[OF p wf] by simp
  then show ?case using Cons by (auto simp: option.map_comp comp_def split: history_operation.splits kv_operation.splits)
qed simp

lemma projection_orders:
  assumes p: "projection h (key_ids h key) h' f" and wf: "wf_history h"
  shows "(\<exists>order. ext_legal_order h' order) \<longleftrightarrow> (\<exists>order. key_order h key order)"
proof -
  let ?keep = "key_ids h key" and ?R = "renum_inv f"
  define K where "K = {v \<in> set (invocations h). inv_id v \<in> ?keep}"
  have invs: "set (invocations h') = ?R ` K" using p by (auto simp: projection_def K_def)
  have K: "v \<in> K \<longleftrightarrow> v \<in> set (invocations h) \<and> ho_key (inv_op v) = key" for v
    using key_ids_iff[OF wf] by (auto simp: K_def)
  have inj: "inj_on ?R K"
    using invocation_facts(1)[OF wf] by (auto simp: inj_on_def distinct_map K_def) (metis renum_simps(1))
  have r: "responded h' (?R v) = None \<longleftrightarrow> responded h v = None" if "v \<in> K" for v
    using projection_reads(1)[OF p wf, of v] that by (simp add: K_def)
  have sel: "selectable h' (?R v) \<longleftrightarrow> selectable h v" if "v \<in> K" for v
  proof -
    have "?R v \<in> set (invocations h')" "v \<in> set (invocations h)" using that invs by (auto simp: K_def)
    then show ?thesis using r[OF that] by (simp add: selectable_def)
  qed
  have iff: "ext_legal_order h' (map ?R order) \<longleftrightarrow> key_order h key order" if sub: "set order \<subseteq> K" for order
  proof -
    have "distinct (map ?R order) \<longleftrightarrow> distinct order"
      using inj_on_subset[OF inj sub] by (simp add: distinct_map)
    moreover have "(\<forall>v \<in> set (map ?R order). selectable h' v) \<longleftrightarrow> (\<forall>v \<in> set order. selectable h v \<and> ho_key (inv_op v) = key)"
    proof -
      have "\<forall>v \<in> set order. (selectable h' (?R v) \<longleftrightarrow> selectable h v) \<and> ho_key (inv_op v) = key"
        using sub sel K by blast
      then show ?thesis by simp
    qed
    moreover have "(\<forall>v \<in> set (invocations h'). responded h' v \<noteq> None \<longrightarrow> v \<in> set (map ?R order)) \<longleftrightarrow>
        (\<forall>v \<in> set (invocations h). ho_key (inv_op v) = key \<longrightarrow> responded h v \<noteq> None \<longrightarrow> v \<in> set order)"
    proof -
      have "?R v \<in> ?R ` set order \<longleftrightarrow> v \<in> set order" if "v \<in> K" for v
        using inj_on_image_mem_iff[OF inj that sub] .
      then have "(\<forall>v \<in> K. responded h' (?R v) \<noteq> None \<longrightarrow> ?R v \<in> ?R ` set order) \<longleftrightarrow>
          (\<forall>v \<in> K. responded h v \<noteq> None \<longrightarrow> v \<in> set order)"
        by (intro ball_cong refl) (simp only: r not_False_eq_True)
      also have "\<dots> \<longleftrightarrow> (\<forall>v \<in> set (invocations h). ho_key (inv_op v) = key \<longrightarrow> responded h v \<noteq> None \<longrightarrow> v \<in> set order)"
        using K by blast
      finally show ?thesis unfolding invs ball_simps(9) set_map .
    qed
    moreover have "sorted_wrt (\<lambda>a b. \<not> happens_before h' b a) (map ?R order) \<longleftrightarrow>
        sorted_wrt (\<lambda>a b. \<not> happens_before h b a) order"
      unfolding sorted_wrt_map using projection_reads(2)[OF p wf] sub
      by (intro iffI; elim sorted_wrt_mono_rel[rotated]) (auto simp: K_def)
    moreover have "register_legal h' None (map ?R order) \<longleftrightarrow> register_legal h None order"
      using projection_legal[OF p wf, of order] sub by (auto simp: K_def)
    ultimately show ?thesis unfolding ext_legal_order_def key_order_def by blast
  qed
  show ?thesis
  proof
    assume "\<exists>order. ext_legal_order h' order"
    then obtain o' where o': "ext_legal_order h' o'" ..
    then have sub: "\<forall>v \<in> set o'. v \<in> ?R ` K" using invs by (auto simp: ext_legal_order_def selectable_def)
    then have "map ?R (map (inv_into K ?R) o') = o'" unfolding map_map by (intro map_idI) (simp add: f_inv_into_f)
    moreover have "set (map (inv_into K ?R) o') \<subseteq> K" using sub by (auto intro: inv_into_into)
    ultimately show "\<exists>order. key_order h key order" using iff o' by metis
  next
    assume "\<exists>order. key_order h key order"
    then obtain order where o: "key_order h key order" ..
    then have "set order \<subseteq> K" using K by (auto simp: key_order_def selectable_def)
    then show "\<exists>order. ext_legal_order h' order" using iff o by blast
  qed
qed

section \<open>The replay loop\<close>

fun plain :: "mk_event \<Rightarrow> history_event" where
  "plain (MkInv v) = InvEvent v"
| "plain (MkComp item) = CompEvent (co_comp item)"

fun mk_key :: "mk_event \<Rightarrow> string" where
  "mk_key (MkInv v) = ho_key (inv_op v)"
| "mk_key (MkComp item) = ho_key (inv_op (co_inv item))"

definition well_keyed :: "(string \<times> invocation) list \<Rightarrow> mk_event \<Rightarrow> bool" where
  "well_keyed by_identity e \<longleftrightarrow> (case e of MkInv v \<Rightarrow> True
     | MkComp item \<Rightarrow> cp_id (co_comp item) = co_id item \<and> map_of by_identity (co_id item) = Some (co_inv item))"

lemma mk_replay_plain:
  assumes "well_keyed by_identity e" and "map_of projected (mk_key e) = Some ph"
  shows "mk_replay by_identity e projected =
    and_then (replay_event (plain e) ph) (\<lambda>ph'. Inr (AList.update (mk_key e) ph' projected))"
  using assms by (cases e) (auto simp: well_keyed_def Let_def and_then_assoc intro!: arg_cong[where f = "and_then _"])

lemma mk_replay_by_key:
  assumes "\<forall>e \<in> set evs. well_keyed by_identity e" and "\<forall>e \<in> set evs. mk_key e \<in> fst ` set projected"
    and "\<And>key ph. map_of projected key = Some ph \<Longrightarrow>
      \<exists>ph'. for_each replay_event (map plain (filter (\<lambda>e. mk_key e = key) evs)) ph = Inr ph'"
  shows "\<exists>projected'. for_each (mk_replay by_identity) evs projected = Inr projected' \<and>
    map fst projected' = map fst projected \<and>
    (\<forall>key ph. map_of projected key = Some ph \<longrightarrow>
       for_each replay_event (map plain (filter (\<lambda>e. mk_key e = key) evs)) ph = Inr (the (map_of projected' key)))"
  using assms
proof (induction evs arbitrary: projected)
  case Nil
  then show ?case by auto
next
  case (Cons e evs)
  obtain ph where ph: "map_of projected (mk_key e) = Some ph"
    using Cons.prems(2) by (auto simp: image_iff dest: weak_map_of_SomeI)
  then obtain ph1 where ph1: "replay_event (plain e) ph = Inr ph1"
    using Cons.prems(3)[OF ph] by (auto simp: and_then_eq_Inr)
  let ?p = "AList.update (mk_key e) ph1 projected"
  have step: "mk_replay by_identity e projected = Inr ?p"
    using mk_replay_plain[OF _ ph] Cons.prems(1) ph1 by simp
  have keys: "map fst ?p = map fst projected"
    using Cons.prems(2) by (simp add: update_keys)
  have look: "map_of ?p key = (if key = mk_key e then Some ph1 else map_of projected key)" for key
    by (simp add: update_conv)
  have "\<exists>ph'. for_each replay_event (map plain (filter (\<lambda>e. mk_key e = key) evs)) q = Inr ph'"
    if "map_of ?p key = Some q" for key q
  proof (cases "key = mk_key e")
    case True
    then show ?thesis using that Cons.prems(3)[OF ph] ph1 by (simp add: look)
  next
    case False
    then show ?thesis using that Cons.prems(3)[of key q] by (simp add: look)
  qed
  moreover have "\<forall>d \<in> set evs. mk_key d \<in> fst ` set ?p"
    using Cons.prems(2) arg_cong[OF keys, of set] by simp
  ultimately obtain p' where p': "for_each (mk_replay by_identity) evs ?p = Inr p'" "map fst p' = map fst ?p"
    "\<forall>key q. map_of ?p key = Some q \<longrightarrow>
       for_each replay_event (map plain (filter (\<lambda>e. mk_key e = key) evs)) q = Inr (the (map_of p' key))"
    using Cons.IH[of ?p] Cons.prems(1) by auto
  show ?case
  proof (intro exI[of _ p'] conjI allI impI)
    show "for_each (mk_replay by_identity) (e # evs) projected = Inr p'" using step p'(1) by simp
    show "map fst p' = map fst projected" using p'(2) keys by simp
    fix key q assume "map_of projected key = Some q"
    then show "for_each replay_event (map plain (filter (\<lambda>e. mk_key e = key) (e # evs))) q = Inr (the (map_of p' key))"
      using p'(3) ph ph1 look[of key] by (cases "key = mk_key e") auto
  qed
qed

lemma map_sort_key: "map g (sort_key (f \<circ> g) xs) = sort_key f (map g xs)"
proof (induction xs)
  case (Cons x xs)
  have "map g (insort_key (f \<circ> g) y ys) = insort_key f (g y) (map g ys)" for y ys
    by (induction ys) auto
  then show ?case unfolding sort_key_simps list.map Cons[symmetric] .
qed simp

lemma plain_seq: "mk_seq = event_seq \<circ> plain"
proof
  fix e show "mk_seq e = (event_seq \<circ> plain) e" by (cases e) auto
qed

lemma key_events:
  assumes wf: "wf_history h"
  shows "map plain (filter (\<lambda>e. mk_key e = key) (sort_key mk_seq (map MkInv (invocations h) @ map MkComp (completed h)))) =
    kept_events h (key_ids h key)"
proof -
  have "filter (\<lambda>v. ho_key (inv_op v) = key) (invocations h) = filter (\<lambda>v. inv_id v \<in> key_ids h key) (invocations h)"
    using key_ids_iff[OF wf] by (auto intro!: filter_cong)
  moreover have "filter (\<lambda>item. ho_key (inv_op (co_inv item)) = key) (completed h) =
      filter (\<lambda>item. cp_id (co_comp item) \<in> key_ids h key) (completed h)"
    using key_ids_iff[OF wf] completed_facts(4)[OF wf] by (intro filter_cong) (auto simp: set_completed[OF wf] co_id_def)
  ultimately show ?thesis
    unfolding kept_events_def plain_seq filter_sort map_sort_key
    by (simp add: filter_map comp_def)
qed

section \<open>Correctness\<close>

lemma mk_projected_spec:
  "outcome {InvalidHistory} (\<lambda>d. distinct (map fst d) \<and> set (map fst d) = (\<lambda>v. ho_key (inv_op v)) ` set (invocations h) \<and>
     (\<forall>key ph. map_of d key = Some ph \<longrightarrow> ph = OperationHistory)) (mk_projected h)"
proof -
  have "outcome {InvalidHistory} (\<lambda>d. distinct (map fst d) \<and> set (map fst d) = set (map fst d0) \<union> (\<lambda>v. ho_key (inv_op v)) ` set vs \<and>
     (\<forall>key ph. map_of d key = Some ph \<longrightarrow> ph = OperationHistory))
     (for_each (\<lambda>v projected. if ho_key (inv_op v) = [] then Inl InvalidHistory
        else Inr (setdefault (ho_key (inv_op v)) OperationHistory projected)) vs d0)"
    if "distinct (map fst d0)" "\<forall>key ph. map_of d0 key = Some ph \<longrightarrow> ph = OperationHistory" for vs d0
    using that
  proof (induction vs arbitrary: d0)
    case (Cons v vs)
    let ?d = "setdefault (ho_key (inv_op v)) OperationHistory d0"
    have "distinct (map fst ?d)" "\<forall>key ph. map_of ?d key = Some ph \<longrightarrow> ph = OperationHistory"
      using Cons.prems by (auto simp: distinct_setdefault map_of_setdefault split: if_splits)
    from Cons.IH[OF this] show ?case by (auto elim!: outcome_weaken)
  qed simp
  from this[of "[]" "invocations h"] show ?thesis by (simp add: mk_projected_def)
qed

lemma check_keys_results:
  "check_keys projected mo ms keys = Inr rs \<Longrightarrow> map fst rs = keys \<and>
   (\<forall>(key, r) \<in> set rs. \<exists>ph. map_of projected key = Some ph \<and> check_with_pending_extensions ph mo ms = Inr r)"
  by (induction keys arbitrary: rs) (auto simp: and_then_eq_Inr split: option.splits)

lemma multikey_parts:
  assumes wf: "wf_history h" and r: "multikey_check h mo mk ms = Inr r"
  obtains ks where "set ks = (\<lambda>v. ho_key (inv_op v)) ` set (invocations h)"
    "map fst (mk_by_key r) = sort ks" "distinct ks"
    "mk_linearizable r \<longleftrightarrow> (\<forall>(key, x) \<in> set (mk_by_key r). ce_linearizable x)"
    "\<And>key x. (key, x) \<in> set (mk_by_key r) \<Longrightarrow>
       \<exists>ph f. projection h (key_ids h key) ph f \<and> check_with_pending_extensions ph mo ms = Inr x"
proof -
  let ?by = "map (\<lambda>v. (inv_id v, v)) (invocations h)"
  let ?evs = "sort_key mk_seq (map MkInv (invocations h) @ map MkComp (completed h))"
  obtain d p' where d: "mk_projected h = Inr d" and p': "for_each (mk_replay ?by) ?evs d = Inr p'"
    and rs: "check_keys p' mo ms (sort (map fst p')) = Inr (mk_by_key r)"
    and lin: "mk_linearizable r \<longleftrightarrow> list_all (\<lambda>(_, r). ce_linearizable r) (mk_by_key r)"
    using r by (auto simp: multikey_check_def Let_def and_then_eq_Inr split: if_splits)
  have dd: "distinct (map fst d)" "set (map fst d) = (\<lambda>v. ho_key (inv_op v)) ` set (invocations h)"
    "map_of d key = Some ph \<Longrightarrow> ph = OperationHistory" for key ph
    using mk_projected_spec[of h] d by auto
  have "map_of ?by (inv_id v) = Some v" if "v \<in> set (invocations h)" for v
    using that invocation_facts(1)[OF wf] by (intro map_of_is_SomeI) (auto simp: comp_def)
  then have wk: "\<forall>e \<in> set ?evs. well_keyed ?by e"
    using completed_facts(4)[OF wf] by (auto simp: well_keyed_def set_completed[OF wf] co_id_def)
  have kk: "\<forall>e \<in> set ?evs. mk_key e \<in> fst ` set d"
    using dd(2) by (auto simp: set_completed[OF wf])
  have proj: "\<exists>ph' f. for_each replay_event (map plain (filter (\<lambda>e. mk_key e = key) ?evs)) OperationHistory = Inr ph' \<and>
      projection h (key_ids h key) ph' f" for key
    unfolding key_events[OF wf] project_events[symmetric] using project_result[OF wf, of "key_ids h key"] by metis
  then have ex: "\<exists>ph'. for_each replay_event (map plain (filter (\<lambda>e. mk_key e = key) ?evs)) ph = Inr ph'"
    if "map_of d key = Some ph" for key ph
    using dd(3)[OF that] by metis
  obtain q where q: "for_each (mk_replay ?by) ?evs d = Inr q" "map fst q = map fst d"
    "\<forall>key ph. map_of d key = Some ph \<longrightarrow>
       for_each replay_event (map plain (filter (\<lambda>e. mk_key e = key) ?evs)) ph = Inr (the (map_of q key))"
    using mk_replay_by_key[OF wk kk ex] by blast
  have eq: "q = p'" using q(1) p' by simp
  have "\<exists>ph f. projection h (key_ids h key) ph f \<and> check_with_pending_extensions ph mo ms = Inr x"
    if kx: "(key, x) \<in> set (mk_by_key r)" for key x
  proof -
    obtain ph where ph: "map_of p' key = Some ph" "check_with_pending_extensions ph mo ms = Inr x"
      using check_keys_results[OF rs] kx by blast
    have "key \<in> set (map fst d)" using ph(1) q(2) eq by (metis image_set map_of_SomeD fst_conv image_eqI)
    then obtain ph0 where ph0: "map_of d key = Some ph0" by (auto simp: map_of_eq_None_iff[symmetric] simp del: map_of_eq_None_iff dest: weak_map_of_SomeI)
    then show ?thesis using q(3)[rule_format, OF ph0] proj[of key] ph eq dd(3)[OF ph0] by auto
  qed
  moreover have "map fst (mk_by_key r) = sort (map fst p')" using check_keys_results[OF rs] by simp
  ultimately show ?thesis
    by (intro that[of "map fst d"]) (use dd(1,2) q(2) eq lin in \<open>simp_all add: list_all_iff case_prod_unfold\<close>)
qed

text \<open>C16. Locality, proved for the program: whenever the multi-key checker returns on a well-formed
  history, its verdict is \<open>True\<close> exactly when the completed operations and some pending writes
  of \<^emph>\<open>all\<close> keys together have one legal order as a key/value store that respects real time; it
  reports each key of the history once, in sorted order.\<close>

theorem multikey_check_correct:
  assumes "wf_history h" and "multikey_check h max_operations max_keys max_states_per_key = Inr r"
  shows "(mk_linearizable r \<longleftrightarrow> (\<exists>order. kv_legal_order h order)) \<and>
    map fst (mk_by_key r) = sorted_list_of_set ((\<lambda>v. ho_key (inv_op v)) ` set (invocations h))"
proof -
  obtain ks where p: "set ks = (\<lambda>v. ho_key (inv_op v)) ` set (invocations h)"
    "map fst (mk_by_key r) = sort ks" "distinct ks"
    "mk_linearizable r \<longleftrightarrow> (\<forall>(key, x) \<in> set (mk_by_key r). ce_linearizable x)"
    "\<And>key x. (key, x) \<in> set (mk_by_key r) \<Longrightarrow>
       \<exists>ph f. projection h (key_ids h key) ph f \<and> check_with_pending_extensions ph max_operations max_states_per_key = Inr x"
    by (rule multikey_parts[OF assms]) (rule that)
  have each: "ce_linearizable x \<longleftrightarrow> (\<exists>order. key_order h key order)" if kx: "(key, x) \<in> set (mk_by_key r)" for key x
  proof -
    obtain ph f where ph: "projection h (key_ids h key) ph f"
      "check_with_pending_extensions ph max_operations max_states_per_key = Inr x" using p(5)[OF kx] by blast
    then have "wf_history ph" by (simp add: projection_def)
    from ext_check_returns[OF this ph(2)] projection_orders[OF ph(1) assms(1)] show ?thesis by blast
  qed
  have keys: "fst ` set (mk_by_key r) = (\<lambda>v. ho_key (inv_op v)) ` set (invocations h)"
    using p(1,2) by (metis list.set_map set_sort)
  have "(\<forall>(key, x) \<in> set (mk_by_key r). ce_linearizable x) \<longleftrightarrow>
      (\<forall>key \<in> fst ` set (mk_by_key r). \<exists>order. key_order h key order)"
    using each by (simp add: case_prod_unfold) (metis prod.collapse)
  then have "mk_linearizable r \<longleftrightarrow> (\<exists>order. kv_legal_order h order)"
    unfolding p(4) kv_local[OF assms(1)] keys by simp
  moreover have "sorted_list_of_set (set ks) = sort ks"
    using p(3) by (simp add: sorted_list_of_set_sort_remdups distinct_remdups_id)
  ultimately show ?thesis unfolding p(2) p(1)[symmetric] by simp
qed

definition two_keys :: history where
  "two_keys = projr (for_each perform
     [CallInvoke ''w'' ''c1'' (Write (Put ''k'' ''x'')), CallInvoke ''r'' ''c2'' (Get ''k''),
      CallRespond ''r'' (Some ''x''), CallInvoke ''s'' ''c2'' (Get ''j''), CallRespond ''s'' None] OperationHistory)"

theorem multikey_check_correct_witness:
  "\<exists>order. kv_legal_order two_keys order"
proof -
  have wf: "wf_history two_keys" unfolding two_keys_def by (rule performed_projr) code_simp
  have ok: "\<not> isl (multikey_check two_keys 32 16 100000)"
    "mk_linearizable (projr (multikey_check two_keys 32 16 100000))" by code_simp+
  have "multikey_check two_keys 32 16 100000 = Inr (projr (multikey_check two_keys 32 16 100000))"
    using ok(1) by (simp add: sum.collapse(2))
  from multikey_check_correct[OF wf this] ok(2) show ?thesis by blast
qed

end
