(* ===== verification/Minimizers.thy ===== *)
theory Minimizers
  imports Linearizability History_Replay
begin

text \<open>
  Failure minimization: the generic deletion minimizer of
  \<^verbatim>\<open>src/src/distlab/_deletion_minimizer.py\<close>, over an arbitrary oracle, and the history minimizer of
  \<^verbatim>\<open>src/src/distlab/history_minimizer.py\<close>, whose oracle is the linearizability checker on a replayed
  projection. Both are greedy, restart after each deletion, and end in a 1-minimal result.
\<close>

section \<open>Deleting from an indexed sequence\<close>

definition delete_at :: "nat \<Rightarrow> 'a list \<Rightarrow> 'a list" where
  "delete_at position xs = take position xs @ drop (position + 1) xs"

definition find_deletion :: "('a list \<Rightarrow> bool) \<Rightarrow> (nat \<times> 'a) list \<Rightarrow> nat option" where
  "find_deletion preserves_failure current =
     List.find (\<lambda>position. preserves_failure (map snd (delete_at position current))) [0..<length current]"

lemma length_delete_at: "position < length xs \<Longrightarrow> length (delete_at position xs) = length xs - 1"
  by (simp add: delete_at_def)

function minimize_loop :: "('a list \<Rightarrow> bool) \<Rightarrow> (nat \<times> 'a) list \<Rightarrow> nat list \<Rightarrow> (nat \<times> 'a) list \<times> nat list" where
  "minimize_loop preserves_failure current removed =
     (case find_deletion preserves_failure current of
        None \<Rightarrow> (current, removed)
      | Some position \<Rightarrow>
          minimize_loop preserves_failure (delete_at position current) (removed @ [fst (current ! position)]))"
  by pat_completeness auto
termination
  by (relation "measure (\<lambda>(_, current, _). length current)")
    (auto simp: find_deletion_def find_Some_iff length_delete_at)

declare minimize_loop.simps [simp del]

definition minimize_indexed_sequence :: "'a list \<Rightarrow> ('a list \<Rightarrow> bool) \<Rightarrow> (nat \<times> 'a) list \<times> nat list" where
  "minimize_indexed_sequence entries preserves_failure =
     (let (current, removed) = minimize_loop preserves_failure (List.enumerate 0 entries) []
      in (current, sort removed))"

lemma delete_at_parts:
  assumes "position < length xs"
  shows "subseq (delete_at position xs) xs" "mset xs = add_mset (xs ! position) (mset (delete_at position xs))"
proof -
  have xs: "xs = take position xs @ xs ! position # drop (position + 1) xs"
    using assms by (simp add: id_take_nth_drop)
  show "subseq (delete_at position xs) xs"
    unfolding delete_at_def by (subst (3) xs) (intro list_emb_append_mono subseq_order.refl list_emb_Cons)
  show "mset xs = add_mset (xs ! position) (mset (delete_at position xs))"
    by (subst xs) (simp add: delete_at_def)
qed

lemma minimize_loop_spec:
  assumes "minimize_loop ok current removed = (kept, gone)"
  shows "subseq kept current" "mset gone + mset (map fst kept) = mset removed + mset (map fst current)"
    "ok (map snd current) \<Longrightarrow> ok (map snd kept)"
    "\<forall>position < length kept. \<not> ok (map snd (delete_at position kept))"
proof -
  have "subseq kept current \<and> mset gone + mset (map fst kept) = mset removed + mset (map fst current) \<and>
      (ok (map snd current) \<longrightarrow> ok (map snd kept)) \<and> (\<forall>position < length kept. \<not> ok (map snd (delete_at position kept)))"
    using assms
  proof (induction ok current removed rule: minimize_loop.induct)
    case (1 ok current removed)
    show ?case
    proof (cases "find_deletion ok current")
      case None
      then have "kept = current" "gone = removed" using 1(2) by (simp_all add: minimize_loop.simps)
      then show ?thesis using None by (auto simp: find_deletion_def find_None_iff)
    next
      case (Some p)
      then have p: "p < length current" "ok (map snd (delete_at p current))"
        by (auto simp: find_deletion_def find_Some_iff)
      have "minimize_loop ok (delete_at p current) (removed @ [fst (current ! p)]) = (kept, gone)"
        using 1(2) Some by (simp add: minimize_loop.simps)
      from 1(1)[OF Some this] show ?thesis
        using p(2) delete_at_parts[OF p(1)] by (auto dest: subseq_order.trans)
    qed
  qed
  then show "subseq kept current" "mset gone + mset (map fst kept) = mset removed + mset (map fst current)"
    "ok (map snd current) \<Longrightarrow> ok (map snd kept)"
    "\<forall>position < length kept. \<not> ok (map snd (delete_at position kept))" by auto
qed

text \<open>C31. The deletion minimizer always returns. Whatever the oracle, the kept entries are a
  subsequence of the input carrying their original indices, the removed indices are exactly the
  others, in increasing order, and no kept entry can be deleted alone while preserving the
  failure; and if the input preserves the failure, so does what is kept.\<close>

theorem minimize_one_minimal:
  "\<exists>kept removed. minimize_indexed_sequence entries preserves_failure = (kept, removed) \<and>
     subseq kept (List.enumerate 0 entries) \<and>
     sorted removed \<and> mset removed + mset (map fst kept) = mset [0..<length entries] \<and>
     (preserves_failure entries \<longrightarrow> preserves_failure (map snd kept)) \<and>
     (\<forall>position < length kept. \<not> preserves_failure (map snd (delete_at position kept)))"
proof -
  obtain kept gone where m: "minimize_loop preserves_failure (List.enumerate 0 entries) [] = (kept, gone)" by fastforce
  have "map snd (List.enumerate 0 entries) = entries" "map fst (List.enumerate 0 entries) = [0..<length entries]"
    by simp_all
  then show ?thesis
    using minimize_loop_spec[OF m] by (auto simp: minimize_indexed_sequence_def m)
qed

theorem minimize_one_minimal_witness:
  "minimize_indexed_sequence [1, 2, 3, 4::nat] (\<lambda>xs. 3 \<in> set xs \<and> 1 \<in> set xs) = ([(0, 1), (2, 3)], [1, 3]) \<and>
   1 \<notin> set (map snd (delete_at 0 [(0, 1), (2, 3::nat)]))"
proof -
  have "minimize_indexed_sequence [1, 2, 3, 4::nat] (\<lambda>xs. 3 \<in> set xs \<and> 1 \<in> set xs) = ([(0::nat, 1), (2, 3)], [1, 3])"
    by (simp add: minimize_indexed_sequence_def minimize_loop.simps find_deletion_def delete_at_def upt_rec)
  then show ?thesis
    using minimize_one_minimal[of "[1, 2, 3, 4::nat]" "\<lambda>xs. 3 \<in> set xs \<and> 1 \<in> set xs"]
    by (auto simp: delete_at_def)
qed

section \<open>Minimizing a history\<close>

record minimization_result =
  hm_history :: history
  hm_operation_ids :: "string list"
  hm_removed_ids :: "string list"

text \<open>One pass of the inner \<open>for\<close> loop: the first operation whose deletion keeps the history
  non-linearizable gives the next candidate list.\<close>

fun try_delete :: "history \<Rightarrow> string list \<Rightarrow> string list \<Rightarrow> string list option result" where
  "try_delete h current [] = Inr None"
| "try_delete h current (i # is) =
     (let candidate_ids = filter (\<lambda>item. item \<noteq> i) current
      in and_then (project h (set candidate_ids)) (\<lambda>candidate.
         and_then (check candidate) (\<lambda>r.
           if \<not> lr_linearizable r then Inr (Some candidate_ids) else try_delete h current is)))"

lemma try_delete_shorter: "try_delete h current is = Inr (Some next) \<Longrightarrow> set is \<subseteq> set current \<Longrightarrow> length next < length current"
  by (induction "is") (auto simp: Let_def and_then_eq_Inr length_filter_less split: if_splits)

function shrink_history :: "history \<Rightarrow> string list \<Rightarrow> string list result" where
  "shrink_history h current =
     (case try_delete h current current of
        Inl e \<Rightarrow> Inl e
      | Inr None \<Rightarrow> Inr current
      | Inr (Some next) \<Rightarrow> shrink_history h next)"
  by pat_completeness auto
termination
  by (relation "measure (\<lambda>(_, current). length current)") (auto dest: try_delete_shorter)

declare shrink_history.simps [simp del]

definition minimize :: "history \<Rightarrow> minimization_result result" where
  "minimize h =
     and_then (check h) (\<lambda>r.
       if lr_linearizable r then Inl ValueError
       else
         (let original_ids = map inv_id (invocations h);
              current = map co_id (completed h)
          in if current = [] then Inl AssertionError
             else and_then (shrink_history h current) (\<lambda>kept.
                  and_then (project h (set kept)) (\<lambda>minimized.
                    Inr \<lparr>hm_history = minimized, hm_operation_ids = kept,
                      hm_removed_ids = filter (\<lambda>i. i \<notin> set kept) original_ids\<rparr>))))"

section \<open>Projections and linearizations\<close>

definition kept_ops :: "history \<Rightarrow> string set \<Rightarrow> completed_operation list" where
  "kept_ops h keep = filter (\<lambda>item. co_id item \<in> keep) (completed h)"

lemma legal_renum: "legal v (map (renum f) xs) \<longleftrightarrow> legal v xs"
  by (induction xs arbitrary: v) (auto split: history_operation.splits kv_operation.splits)

lemma project_linearization:
  assumes p: "projection h keep h' f" and wf: "wf_history h"
  shows "(\<exists>order. linearization (completed h') order) \<longleftrightarrow> (\<exists>order. linearization (kept_ops h keep) order)"
proof -
  let ?ops = "kept_ops h keep"
  have c: "completed h' = map (renum f) ?ops" using p by (simp add: projection_def kept_ops_def)
  have "inj_on co_id (set ?ops)" using completed_facts(1)[OF wf] by (auto simp: distinct_map kept_ops_def inj_on_def)
  then have inj: "inj_on (renum f) (set ?ops)" by (metis (no_types, lifting) inj_on_def renum_simps(10))
  have prec: "precedes (renum f a) (renum f b) \<longleftrightarrow> precedes a b" if "a \<in> set ?ops" "b \<in> set ?ops" for a b
    using p that by (auto simp: projection_def precedes_def kept_ops_def set_completed[OF wf] co_id_def)
  have iff: "linearization (map (renum f) ?ops) (map (renum f) order) \<longleftrightarrow> linearization ?ops order" if sub: "set order \<subseteq> set ?ops" for order
  proof -
    have "mset (map (renum f) order) = mset (map (renum f) ?ops) \<longleftrightarrow> mset order = mset ?ops"
    proof
      have undo: "map (inv_into (set ?ops) (renum f)) (map (renum f) xs) = xs" if "set xs \<subseteq> set ?ops" for xs
        unfolding map_map using that inv_into_f_f[OF inj] by (intro map_idI) auto
      assume "mset (map (renum f) order) = mset (map (renum f) ?ops)"
      then have "mset (map (inv_into (set ?ops) (renum f)) (map (renum f) order)) =
          mset (map (inv_into (set ?ops) (renum f)) (map (renum f) ?ops))" by (metis mset_map)
      then show "mset order = mset ?ops" unfolding undo[OF sub] undo[OF order_refl] .
    qed simp
    moreover have "sorted_wrt (\<lambda>a b. \<not> precedes b a) (map (renum f) order) \<longleftrightarrow> sorted_wrt (\<lambda>a b. \<not> precedes b a) order"
      unfolding sorted_wrt_map using prec sub by (intro iffI; elim sorted_wrt_mono_rel[rotated]) auto
    ultimately show ?thesis by (simp add: linearization_def legal_renum)
  qed
  show ?thesis unfolding c
  proof
    assume "\<exists>order. linearization (map (renum f) ?ops) order"
    then obtain o' where o': "linearization (map (renum f) ?ops) o'" ..
    have "set o' = renum f ` set ?ops" using o' mset_eq_setD[of o' "map (renum f) ?ops"] by (simp add: linearization_def)
    then have "map (renum f) (map (inv_into (set ?ops) (renum f)) o') = o'"
      "set (map (inv_into (set ?ops) (renum f)) o') \<subseteq> set ?ops"
      unfolding map_map by (auto intro!: map_idI simp: f_inv_into_f inv_into_into)
    then show "\<exists>order. linearization ?ops order" using iff o' by metis
  next
    assume "\<exists>order. linearization ?ops order"
    then obtain order where o: "linearization ?ops order" ..
    then have "set order \<subseteq> set ?ops" using mset_eq_setD[of order ?ops] by (simp add: linearization_def)
    then show "\<exists>order. linearization (map (renum f) ?ops) order" using iff o by blast
  qed
qed

lemma single_key_kept:
  assumes "projection h keep h' f" and "single_key (completed h)"
  shows "single_key (completed h')"
  using assms unfolding projection_def single_key_def by auto

lemma project_check:
  assumes wf: "wf_history h" and sk: "single_key (completed h)"
  obtains h' r where "project h keep = Inr h'" "check h' = Inr r"
    "lr_linearizable r \<longleftrightarrow> (\<exists>order. linearization (kept_ops h keep) order)"
proof -
  obtain h' f where h': "project h keep = Inr h'" "projection h keep h' f" by (rule project_result[OF wf])
  then have "wf_history h'" "single_key (completed h')"
    using single_key_kept[OF _ sk] by (auto simp: projection_def)
  from check_cases[OF this(1)] this(2)
  have "\<exists>r. check h' = Inr r \<and> (lr_linearizable r \<longleftrightarrow> (\<exists>order. linearization (completed h') order))" by auto
  with h' that project_linearization[OF h'(2) wf] show ?thesis by blast
qed

section \<open>The history minimizer is 1-minimal\<close>

lemma try_delete_result:
  assumes wf: "wf_history h" and sk: "single_key (completed h)"
  shows "(\<exists>i \<in> set is. (\<nexists>order. linearization (kept_ops h (set current - {i})) order) \<and>
      try_delete h current is = Inr (Some (filter (\<lambda>item. item \<noteq> i) current))) \<or>
    ((\<forall>i \<in> set is. \<exists>order. linearization (kept_ops h (set current - {i})) order) \<and> try_delete h current is = Inr None)"
proof (induction "is")
  case (Cons i "is")
  have st: "set (filter (\<lambda>item. item \<noteq> i) current) = set current - {i}" by auto
  obtain h' r where "project h (set (filter (\<lambda>item. item \<noteq> i) current)) = Inr h'" "check h' = Inr r"
    "lr_linearizable r \<longleftrightarrow> (\<exists>order. linearization (kept_ops h (set current - {i})) order)"
    by (metis project_check[OF wf sk] st)
  then show ?case using Cons by (auto simp: Let_def)
qed simp

lemma shrink_history_result:
  "wf_history h \<Longrightarrow> single_key (completed h) \<Longrightarrow> (\<nexists>order. linearization (kept_ops h (set current)) order) \<Longrightarrow>
    \<exists>kept. shrink_history h current = Inr kept \<and> subseq kept current \<and>
      (\<nexists>order. linearization (kept_ops h (set kept)) order) \<and>
      (\<forall>i \<in> set kept. \<exists>order. linearization (kept_ops h (set kept - {i})) order)"
proof (induction h current rule: shrink_history.induct)
  case (1 h current)
  show ?case
  proof (cases "try_delete h current current = Inr None")
    case True
    then have "\<forall>i \<in> set current. \<exists>order. linearization (kept_ops h (set current - {i})) order"
      using try_delete_result[OF 1(2,3), of current current] by auto
    then show ?thesis using True 1(4) by (intro exI[of _ current]) (simp add: shrink_history.simps)
  next
    case False
    then obtain i where i: "\<nexists>order. linearization (kept_ops h (set current - {i})) order"
      and del: "try_delete h current current = Inr (Some (filter (\<lambda>item. item \<noteq> i) current))"
      using try_delete_result[OF 1(2,3), of current current] by auto
    have st: "set (filter (\<lambda>item. item \<noteq> i) current) = set current - {i}" by auto
    have step: "shrink_history h current = shrink_history h (filter (\<lambda>item. item \<noteq> i) current)"
      by (subst shrink_history.simps) (simp add: del)
    have sub: "subseq (filter (\<lambda>item. item \<noteq> i) current) current" by simp
    from 1(1)[OF del refl 1(2,3)] i show ?thesis
      unfolding step st using subseq_order.trans[OF _ sub] by blast
  qed
qed

text \<open>C30. The history minimizer is total on the histories it is meant for and 1-minimal: on a
  well-formed history that the checker rejects, it returns; what it keeps is a subsequence of
  the completed operations, the checker rejects the replayed history it returns, and deleting
  any one kept operation leaves a linearizable set of operations. The removed identifiers are
  the other invocations, in invocation order.\<close>

theorem history_minimizer_one_minimal:
  assumes "wf_history h" and "check h = Inr (LinearizabilityResult False ids)"
  shows "\<exists>r. minimize h = Inr r \<and> subseq (hm_operation_ids r) (map co_id (completed h)) \<and>
    project h (set (hm_operation_ids r)) = Inr (hm_history r) \<and>
    check (hm_history r) = Inr (LinearizabilityResult False []) \<and>
    (\<nexists>order. linearization (kept_ops h (set (hm_operation_ids r))) order) \<and>
    (\<forall>i \<in> set (hm_operation_ids r). \<exists>order. linearization (kept_ops h (set (hm_operation_ids r) - {i})) order) \<and>
    hm_removed_ids r = filter (\<lambda>i. i \<notin> set (hm_operation_ids r)) (map inv_id (invocations h))"
proof -
  let ?cur = "map co_id (completed h)"
  have sk: "single_key (completed h)" and no: "\<nexists>order. linearization (completed h) order"
    using check_cases[OF assms(1)] assms(2) by auto
  have "kept_ops h (set ?cur) = completed h" by (auto simp: kept_ops_def intro: filter_True)
  then obtain kept where k: "shrink_history h ?cur = Inr kept" "subseq kept ?cur"
      "\<nexists>order. linearization (kept_ops h (set kept)) order"
      "\<forall>i \<in> set kept. \<exists>order. linearization (kept_ops h (set kept - {i})) order"
    using shrink_history_result[OF assms(1) sk, of ?cur] no by auto
  obtain h' f where h': "project h (set kept) = Inr h'" "projection h (set kept) h' f" by (rule project_result[OF assms(1)])
  have "check h' = Inr (LinearizabilityResult False [])"
    using check_cases[of h'] h'(2) single_key_kept[OF h'(2) sk] project_linearization[OF h'(2) assms(1)] k(3)
    by (auto simp: projection_def)
  moreover have "linearization [] []" by (simp add: linearization_def)
  then have "completed h \<noteq> []" using no by metis
  ultimately show ?thesis
    using assms(2) k h'(1) by (simp add: minimize_def)
qed

theorem history_minimizer_one_minimal_witness:
  "\<exists>r. minimize stale_read = Inr r \<and> check (hm_history r) = Inr (LinearizabilityResult False [])"
  using history_minimizer_one_minimal[OF stale_read_facts(1,3)] by blast

end
