(* ===== verification/State_Machine.thy ===== *)
theory State_Machine
  imports Raft
begin

text \<open>
  Application of committed entries, \<^verbatim>\<open>src/src/distlab/state_machine.py\<close>, and the commit-recovery
  barrier of \<^verbatim>\<open>src/src/distlab/commit_recovery.py\<close>. The applier keeps, per node, the applied suffix
  after a snapshot boundary, in memory and durably, and one table of the entry first applied at
  each index. Its cluster is a component, as in the source; the durable keys it stores beside
  the Raft state are a record of their own.

  \<open>sm_inv\<close> is the invariant of the applier; it does not mention the Raft state, so it survives
  whatever the cluster does in between.
\<close>

section \<open>State\<close>

record 'c applied_entry =
  ae_node :: string
  ae_index :: int
  ae_entry :: "'c log_entry"

record 'c sm_durable =
  smd_applied :: "'c log_entry list"
  smd_base_index :: int
  smd_base_term :: int

definition fresh_sm :: "'c sm_durable" where
  "fresh_sm = \<lparr>smd_applied = [], smd_base_index = 0, smd_base_term = 0\<rparr>"

record 'c applier =
  ap_cluster :: "'c raft"
  ap_durable :: "string \<Rightarrow> 'c sm_durable"
  ap_base_index :: "string \<Rightarrow> int"
  ap_base_term :: "string \<Rightarrow> int"
  ap_last :: "string \<Rightarrow> int"
  ap_applied :: "string \<Rightarrow> 'c applied_entry list"
  ap_canonical :: "int \<Rightarrow> 'c applied_entry option"

abbreviation ap_nodes :: "'c applier \<Rightarrow> string list" where
  "ap_nodes s \<equiv> rf_node_ids (ap_cluster s)"

definition ap_record :: "'c raft_event \<Rightarrow> 'c applier \<Rightarrow> 'c applier" where
  "ap_record ev s = s\<lparr>ap_cluster := record_app ev (ap_cluster s)\<rparr>"

section \<open>Operations\<close>

definition require_node :: "string \<Rightarrow> 'c applier \<Rightarrow> unit result" where
  "require_node n s = (if n \<in> set (ap_nodes s) then Inr () else Inl ValueError)"

definition last_applied :: "string \<Rightarrow> 'c applier \<Rightarrow> int result" where
  "last_applied n s = and_then (require_node n s) (\<lambda>_. Inr (ap_last s n))"

definition applied_base_index :: "string \<Rightarrow> 'c applier \<Rightarrow> int result" where
  "applied_base_index n s = and_then (require_node n s) (\<lambda>_. Inr (ap_base_index s n))"

definition applied_base_term :: "string \<Rightarrow> 'c applier \<Rightarrow> int result" where
  "applied_base_term n s = and_then (require_node n s) (\<lambda>_. Inr (ap_base_term s n))"

definition applied_entries :: "string \<Rightarrow> 'c applier \<Rightarrow> 'c log_entry list result" where
  "applied_entries n s = and_then (require_node n s) (\<lambda>_. Inr (map ae_entry (ap_applied s n)))"

definition record_canonical :: "'c applied_entry \<Rightarrow> 'c applier \<Rightarrow> 'c applier result" where
  "record_canonical r s =
     (case ap_canonical s (ae_index r) of
        Some canonical \<Rightarrow> if ae_entry canonical \<noteq> ae_entry r then Inl StateMachineSafetyViolation else Inr s
      | None \<Rightarrow> Inr (s\<lparr>ap_canonical := (ap_canonical s)(ae_index r \<mapsto> r)\<rparr>))"

definition load_durable_state :: "string \<Rightarrow> 'c applier \<Rightarrow> (int \<times> int \<times> 'c log_entry list) result" where
  "load_durable_state n s =
     (let d = ap_durable s n;
          v = smd_applied d;
          base_index = smd_base_index d;
          base_term = smd_base_term d;
          log = log_view (ap_cluster s) n;
          last = base_index + int (length v)
      in if base_index < 0 \<or> base_term < 0 then Inl ValueError
         else if base_index = 0 \<and> base_term \<noteq> 0 then Inl ValueError
         else if base_index > lv_base_index log then Inl StateMachineSafetyViolation
         else if last > last_index log then Inl StateMachineSafetyViolation
         else if base_index = lv_base_index log \<and> base_index > 0 \<and> base_term \<noteq> lv_base_term log
         then Inl StateMachineSafetyViolation
         else if base_index < lv_base_index log \<and> lv_base_index log \<le> last \<and>
             le_term (v ! nat (lv_base_index log - base_index - 1)) \<noteq> lv_base_term log
         then Inl StateMachineSafetyViolation
         else and_then (for_each (\<lambda>index _.
                and_then (entry_at log index) (\<lambda>e.
                  if e \<noteq> v ! nat (index - base_index - 1) then Inl StateMachineSafetyViolation else Inr ()))
              [max (base_index + 1) (first_retained_index log)..last] ()) (\<lambda>_.
              Inr (base_index, base_term, v)))"

definition applied_records :: "string \<Rightarrow> int \<Rightarrow> 'c log_entry list \<Rightarrow> 'c applied_entry list" where
  "applied_records n base entries = map (\<lambda>(i, e). \<lparr>ae_node = n, ae_index = base + 1 + int i, ae_entry = e\<rparr>)
     (List.enumerate 0 entries)"

definition load_node :: "string \<Rightarrow> 'c applier \<Rightarrow> 'c applier result" where
  "load_node n s =
     and_then (load_durable_state n s) (\<lambda>(base_index, base_term, durable_entries).
       (let records = applied_records n base_index durable_entries
        in for_each record_canonical records
             (s\<lparr>ap_base_index := (ap_base_index s)(n := base_index), ap_base_term := (ap_base_term s)(n := base_term),
                ap_applied := (ap_applied s)(n := records),
                ap_last := (ap_last s)(n := base_index + int (length records))\<rparr>)))"

definition StateMachineApplier :: "'c raft \<Rightarrow> (string \<Rightarrow> 'c sm_durable) \<Rightarrow> 'c applier result" where
  "StateMachineApplier cluster durable =
     for_each load_node (rf_node_ids cluster)
       \<lparr>ap_cluster = cluster, ap_durable = durable, ap_base_index = (\<lambda>_. 0), ap_base_term = (\<lambda>_. 0),
        ap_last = (\<lambda>_. 0), ap_applied = (\<lambda>_. []), ap_canonical = Map.empty\<rparr>"

definition sm_compact_through :: "string \<Rightarrow> int \<Rightarrow> int \<Rightarrow> 'c applier \<Rightarrow> 'c applier result" where
  "sm_compact_through n index t s =
     and_then (require_node n s) (\<lambda>_.
       if index < 0 \<or> t < 0 then Inl ValueError
       else if index < ap_base_index s n then Inl ValueError
       else if index > ap_last s n then Inl ValueError
       else if index = ap_base_index s n then
         (if t \<noteq> ap_base_term s n then Inl StateMachineSafetyViolation else Inr s)
       else
         (let base_index = ap_base_index s n;
              boundary = ap_applied s n ! nat (index - base_index - 1);
              retained = drop (nat (index - base_index)) (ap_applied s n)
          in if le_term (ae_entry boundary) \<noteq> t then Inl StateMachineSafetyViolation
             else Inr (ap_record (EvStateMachineCompact n base_index index t (ap_last s n) (int (length retained)))
               (s\<lparr>ap_durable := (ap_durable s)(n := \<lparr>smd_applied = map ae_entry retained,
                     smd_base_index = index, smd_base_term = t\<rparr>),
                  ap_base_index := (ap_base_index s)(n := index), ap_base_term := (ap_base_term s)(n := t),
                  ap_applied := (ap_applied s)(n := retained)\<rparr>))))"

definition apply_entry :: "string \<Rightarrow> 'c log_view \<Rightarrow> int \<Rightarrow> 'c applied_entry list \<times> 'c applier \<Rightarrow>
  ('c applied_entry list \<times> 'c applier) result" where
  "apply_entry n log index = (\<lambda>(applied_now, s).
     and_then (entry_at log index) (\<lambda>e.
       (let r = \<lparr>ae_node = n, ae_index = index, ae_entry = e\<rparr>
        in and_then (record_canonical r s) (\<lambda>s1.
           (let d = ap_durable s1 n;
                s2 = s1\<lparr>ap_durable := (ap_durable s1)(n := d\<lparr>smd_applied := smd_applied d @ [e]\<rparr>),
                        ap_applied := (ap_applied s1)(n := ap_applied s1 n @ [r]),
                        ap_last := (ap_last s1)(n := index)\<rparr>
            in Inr (applied_now @ [r], ap_record (EvStateMachineApply n index (le_term e) (le_command e)) s2))))))"

definition apply_committed :: "string \<Rightarrow> 'c applier \<Rightarrow> ('c applied_entry list \<times> 'c applier) result" where
  "apply_committed n s =
     and_then (require_node n s) (\<lambda>_.
       (let previous = ap_last s n;
            commit = commit_index (ap_cluster s) n;
            log = log_view (ap_cluster s) n
        in if commit \<le> previous then Inr ([], s)
           else if commit > last_log_index (ap_cluster s) n then Inl AssertionError
           else if previous < lv_base_index log then Inl StateMachineSafetyViolation
           else for_each (apply_entry n log) [previous + 1..commit] ([], s)))"

text \<open>\<open>assert_state_machine_safety\<close> threads the entries seen per index and the snapshot boundaries
  through the nodes.\<close>

type_synonym 'c seen = "(int \<Rightarrow> 'c applied_entry option) \<times> (int \<Rightarrow> (string \<times> int) option)"

definition check_boundary :: "string \<Rightarrow> 'c applier \<Rightarrow> 'c seen \<Rightarrow> 'c seen result" where
  "check_boundary n s = (\<lambda>(seen, boundaries).
     (let base_index = ap_base_index s n; base_term = ap_base_term s n
      in if base_index > 0 then
           if (case boundaries base_index of None \<Rightarrow> False | Some (_, t) \<Rightarrow> t \<noteq> base_term)
           then Inl StateMachineSafetyViolation
           else if (case seen base_index of None \<Rightarrow> False | Some c \<Rightarrow> le_term (ae_entry c) \<noteq> base_term)
           then Inl StateMachineSafetyViolation
           else Inr (seen, if boundaries base_index = None then boundaries(base_index \<mapsto> (n, base_term)) else boundaries)
         else Inr (seen, boundaries)))"

definition check_record :: "'c applied_entry \<Rightarrow> int \<times> 'c seen \<Rightarrow> (int \<times> 'c seen) result" where
  "check_record r = (\<lambda>(expected, seen, boundaries).
     if ae_index r \<noteq> expected then Inl AssertionError
     else if (case seen (ae_index r) of None \<Rightarrow> False | Some c \<Rightarrow> ae_entry c \<noteq> ae_entry r)
     then Inl StateMachineSafetyViolation
     else if (case boundaries (ae_index r) of None \<Rightarrow> False | Some (_, t) \<Rightarrow> t \<noteq> le_term (ae_entry r))
     then Inl StateMachineSafetyViolation
     else Inr (expected + 1, if seen (ae_index r) = None then seen(ae_index r \<mapsto> r) else seen, boundaries))"

definition check_node :: "'c applier \<Rightarrow> string \<Rightarrow> 'c seen \<Rightarrow> 'c seen result" where
  "check_node s n acc =
     and_then (check_boundary n s acc) (\<lambda>acc1.
     and_then (for_each check_record (ap_applied s n) (ap_base_index s n + 1, acc1)) (\<lambda>(_, acc2).
     and_then (load_durable_state n s) (\<lambda>(durable_base, durable_term, durable).
     and_then (applied_entries n s) (\<lambda>applied.
       if durable_base \<noteq> ap_base_index s n \<or> durable_term \<noteq> ap_base_term s n \<or> durable \<noteq> applied
       then Inl StateMachineSafetyViolation else Inr acc2))))"

definition assert_state_machine_safety :: "'c applier \<Rightarrow> unit result" where
  "assert_state_machine_safety s =
     and_then (for_each (check_node s) (ap_nodes s) (Map.empty, Map.empty)) (\<lambda>_. Inr ())"

section \<open>The commit-recovery barrier\<close>

definition append_current_term_barrier :: "'c \<Rightarrow> string \<Rightarrow> 'c raft \<Rightarrow> (int \<times> 'c raft) result" where
  "append_current_term_barrier command leader s =
     (if \<not> is_alive s leader then Inl CommitRecoveryError
      else if role s leader \<noteq> LEADER then Inl CommitRecoveryError
      else
        (let previous = rf_log (persistent_state s leader)
         in and_then (make_log_entry (current_term s leader) command) (\<lambda>entry.
            (let durable = previous @ [entry];
                 s1 = set_durable leader (\<lambda>d. d\<lparr>rf_log := durable\<rparr>) s;
                 index = int (length durable);
                 s2 = record_app (EvTermBarrier leader (current_term s1 leader) index) s1;
                 log = rf_log (persistent_state s2 leader)
             in if take (length previous) log \<noteq> previous then Inl AssertionError
                else if log ! nat (index - 1) \<noteq> entry then Inl AssertionError
                else Inr (index, s2)))))"

end
