(* ===== verification/State_Machine_Safety.thy ===== *)
theory State_Machine_Safety
  imports State_Machine
begin

text \<open>
  Correctness of the applier: its invariant under every operation and under arbitrary activity
  of the Raft cluster in between, State Machine Safety over time, exactly-once application in
  log order, recovery from the durable history, the passing of the safety assertion, and the
  effect of the commit-recovery barrier.
\<close>

section \<open>The invariant\<close>

definition canonical_for :: "'c applier \<Rightarrow> 'c applied_entry \<Rightarrow> bool" where
  "canonical_for s r \<longleftrightarrow> (\<exists>c. ap_canonical s (ae_index r) = Some c \<and> ae_entry c = ae_entry r)"

definition node_ok :: "'c applier \<Rightarrow> string \<Rightarrow> bool" where
  "node_ok s n \<longleftrightarrow> 0 \<le> ap_base_index s n \<and> 0 \<le> ap_base_term s n \<and>
     ap_applied s n = applied_records n (ap_base_index s n) (map ae_entry (ap_applied s n)) \<and>
     ap_last s n = ap_base_index s n + int (length (ap_applied s n)) \<and>
     ap_durable s n = \<lparr>smd_applied = map ae_entry (ap_applied s n),
       smd_base_index = ap_base_index s n, smd_base_term = ap_base_term s n\<rparr> \<and>
     (\<forall>r \<in> set (ap_applied s n). canonical_for s r)"

definition sm_inv :: "'c applier \<Rightarrow> bool" where
  "sm_inv s \<longleftrightarrow> (\<forall>n \<in> set (ap_nodes s). node_ok s n)"

definition sm_evolves :: "'c applier \<Rightarrow> 'c applier \<Rightarrow> bool" where
  "sm_evolves s s' \<longleftrightarrow> ap_nodes s' = ap_nodes s \<and> ap_canonical s \<subseteq>\<^sub>m ap_canonical s'"

lemma sm_evolves_refl [simp]: "sm_evolves s s"
  by (simp add: sm_evolves_def)

lemma sm_evolves_trans: "sm_evolves s t \<Longrightarrow> sm_evolves t u \<Longrightarrow> sm_evolves s u"
  by (auto simp: sm_evolves_def intro: map_le_trans)

lemma canonical_stable: "sm_evolves s s' \<Longrightarrow> canonical_for s r \<Longrightarrow> canonical_for s' r"
  by (auto simp: sm_evolves_def canonical_for_def map_le_def dom_def)

lemma applied_records_simps [simp]:
  "length (applied_records n b es) = length es" "map ae_entry (applied_records n b es) = es"
  "i < length es \<Longrightarrow> applied_records n b es ! i = \<lparr>ae_node = n, ae_index = b + 1 + int i, ae_entry = es ! i\<rparr>"
  by (simp_all add: applied_records_def comp_def case_prod_unfold nth_enumerate_eq)

lemma applied_records_snoc:
  "applied_records n b (es @ [e]) = applied_records n b es @ [\<lparr>ae_node = n, ae_index = b + 1 + int (length es), ae_entry = e\<rparr>]"
  by (simp add: applied_records_def enumerate_append_eq)

lemma applied_records_drop:
  "k \<le> length es \<Longrightarrow> drop k (applied_records n b es) = applied_records n (b + int k) (drop k es)"
  by (rule nth_equalityI) simp_all

lemma ap_record_simps [simp]:
  "ap_durable (ap_record ev s) = ap_durable s" "ap_base_index (ap_record ev s) = ap_base_index s"
  "ap_base_term (ap_record ev s) = ap_base_term s" "ap_last (ap_record ev s) = ap_last s"
  "ap_applied (ap_record ev s) = ap_applied s" "ap_canonical (ap_record ev s) = ap_canonical s"
  "ap_nodes (ap_record ev s) = ap_nodes s"
  by (simp_all add: ap_record_def record_event_def)

lemma node_ok_frame:
  assumes "node_ok s n" and "sm_evolves s s'" and "ap_applied s' n = ap_applied s n" and "ap_durable s' n = ap_durable s n"
    and "ap_base_index s' n = ap_base_index s n" and "ap_base_term s' n = ap_base_term s n" and "ap_last s' n = ap_last s n"
  shows "node_ok s' n"
  using assms canonical_stable[OF assms(2)] unfolding node_ok_def by metis

lemma record_canonical_effect:
  assumes "record_canonical r s = Inr s'"
  shows "canonical_for s' r" "sm_evolves s s'" "\<exists>c. s' = s\<lparr>ap_canonical := c\<rparr>"
proof -
  have eq: "s' = s \<and> canonical_for s r \<or> ap_canonical s (ae_index r) = None \<and> s' = s\<lparr>ap_canonical := (ap_canonical s)(ae_index r \<mapsto> r)\<rparr>"
    using assms by (auto simp: record_canonical_def canonical_for_def split: option.splits if_splits)
  then show "canonical_for s' r" by (auto simp: canonical_for_def)
  show "sm_evolves s s'" using eq by (auto simp: sm_evolves_def map_le_def)
  have "s = s\<lparr>ap_canonical := ap_canonical s\<rparr>" by simp
  then show "\<exists>c. s' = s\<lparr>ap_canonical := c\<rparr>" using eq by metis
qed

section \<open>Applying committed entries\<close>

lemma apply_entry_effect:
  assumes inv: "sm_inv s" and n: "n \<in> set (ap_nodes s)" and i: "ap_last s n = i - 1"
    and ok: "apply_entry n log i (acc, s) = Inr (acc', s')"
  obtains e where "entry_at log i = Inr e" and "acc' = acc @ [\<lparr>ae_node = n, ae_index = i, ae_entry = e\<rparr>]"
    and "sm_inv s'" and "sm_evolves s s'" and "ap_last s' n = i"
    and "ap_applied s' n = ap_applied s n @ [\<lparr>ae_node = n, ae_index = i, ae_entry = e\<rparr>]"
    and "\<And>m. m \<noteq> n \<Longrightarrow> ap_applied s' m = ap_applied s m"
    and "ap_base_index s' = ap_base_index s" and "ap_base_term s' = ap_base_term s"
proof -
  obtain e s1 where e: "entry_at log i = Inr e"
    and s1: "record_canonical \<lparr>ae_node = n, ae_index = i, ae_entry = e\<rparr> s = Inr s1"
    using ok by (auto simp: apply_entry_def Let_def and_then_eq_Inr)
  define r where "r = \<lparr>ae_node = n, ae_index = i, ae_entry = e\<rparr>"
  obtain c where c: "s1 = s\<lparr>ap_canonical := c\<rparr>" using record_canonical_effect(3)[OF s1] by blast
  note can = record_canonical_effect(1)[OF s1, folded r_def] and ev = record_canonical_effect(2)[OF s1]
  have acc': "acc' = acc @ [r]" and s': "s' = ap_record (EvStateMachineApply n i (le_term e) (le_command e))
      (s1\<lparr>ap_durable := (ap_durable s1)(n := (ap_durable s1 n)\<lparr>smd_applied := smd_applied (ap_durable s1 n) @ [e]\<rparr>),
          ap_applied := (ap_applied s1)(n := ap_applied s1 n @ [r]), ap_last := (ap_last s1)(n := i)\<rparr>)"
    using ok e s1 by (auto simp: apply_entry_def Let_def r_def)
  have ev': "sm_evolves s s'" using ev by (simp add: sm_evolves_def s')
  have ok_n: "node_ok s n" using inv n by (simp add: sm_inv_def)
  have idx: "i = ap_base_index s n + 1 + int (length (ap_applied s n))" using ok_n i by (simp add: node_ok_def)
  have "canonical_for s' r" using can by (simp add: canonical_for_def s')
  then have cans: "\<forall>q \<in> set (ap_applied s n @ [r]). canonical_for s' q"
    using ok_n canonical_stable[OF ev'] by (simp add: node_ok_def)
  have recs: "ap_applied s n @ [r] = applied_records n (ap_base_index s n) (map ae_entry (ap_applied s n @ [r]))"
    using ok_n idx by (simp add: applied_records_snoc r_def node_ok_def)
  have v: "ap_applied s' n = ap_applied s n @ [r]" "ap_last s' n = i" "ap_base_index s' n = ap_base_index s n"
    "ap_base_term s' n = ap_base_term s n"
    "ap_durable s' n = \<lparr>smd_applied = map ae_entry (ap_applied s n @ [r]), smd_base_index = ap_base_index s n,
       smd_base_term = ap_base_term s n\<rparr>"
    using ok_n by (simp_all add: s' c node_ok_def r_def)
  have "node_ok s' n"
    unfolding node_ok_def v using ok_n idx by (intro conjI cans recs) (simp_all add: node_ok_def)
  moreover have "node_ok s' m" if "m \<in> set (ap_nodes s)" "m \<noteq> n" for m
    using that inv by (intro node_ok_frame[OF _ ev']) (simp_all add: sm_inv_def s' c)
  ultimately have "sm_inv s'" using ev' by (auto simp: sm_inv_def sm_evolves_def)
  then show ?thesis
    by (intro that[OF e _ _ ev']) (simp_all add: s' c acc' r_def)
qed

lemma apply_loop:
  assumes "for_each (apply_entry n log) [k + 1..c] (acc, s) = Inr (acc', s')" and "k \<le> c"
    and "sm_inv s" and "n \<in> set (ap_nodes s)" and "ap_last s n = k"
  shows "sm_inv s' \<and> sm_evolves s s' \<and> ap_last s' n = c \<and>
    (\<exists>rs. acc' = acc @ rs \<and> ap_applied s' n = ap_applied s n @ rs \<and> map ae_index rs = [k + 1..c] \<and>
      (\<forall>r \<in> set rs. ae_node r = n \<and> entry_at log (ae_index r) = Inr (ae_entry r))) \<and>
    (\<forall>m. m \<noteq> n \<longrightarrow> ap_applied s' m = ap_applied s m) \<and>
    ap_base_index s' = ap_base_index s \<and> ap_base_term s' = ap_base_term s"
  using assms
proof (induction "nat (c - k)" arbitrary: k acc s)
  case 0
  then show ?case by simp
next
  case (Suc d)
  then have lt: "k + 1 \<le> c" by simp
  then have up: "[k + 1..c] = (k + 1) # [k + 1 + 1..c]" by (simp add: upto_rec1)
  obtain acc1 s1 where st: "apply_entry n log (k + 1) (acc, s) = Inr (acc1, s1)"
    and rest: "for_each (apply_entry n log) [k + 1 + 1..c] (acc1, s1) = Inr (acc', s')"
    using Suc.prems(1) unfolding up by (auto simp: and_then_eq_Inr)
  have l: "ap_last s n = (k + 1) - 1" using Suc.prems(5) by simp
  obtain e where e: "entry_at log (k + 1) = Inr e" "acc1 = acc @ [\<lparr>ae_node = n, ae_index = k + 1, ae_entry = e\<rparr>]"
    "sm_inv s1" "sm_evolves s s1" "ap_last s1 n = k + 1"
    "ap_applied s1 n = ap_applied s n @ [\<lparr>ae_node = n, ae_index = k + 1, ae_entry = e\<rparr>]"
    "\<And>m. m \<noteq> n \<Longrightarrow> ap_applied s1 m = ap_applied s m" "ap_base_index s1 = ap_base_index s" "ap_base_term s1 = ap_base_term s"
    using apply_entry_effect[OF Suc.prems(3,4) l st] by metis
  have "d = nat (c - (k + 1))" "n \<in> set (ap_nodes s1)" using Suc.hyps(2) Suc.prems(4) e(4) by (auto simp: sm_evolves_def)
  from Suc.hyps(1)[OF this(1) rest lt e(3) this(2) e(5)] obtain rs where
    r: "sm_inv s'" "sm_evolves s1 s'" "ap_last s' n = c" "acc' = acc1 @ rs" "ap_applied s' n = ap_applied s1 n @ rs"
    "map ae_index rs = [k + 1 + 1..c]" "\<forall>r \<in> set rs. ae_node r = n \<and> entry_at log (ae_index r) = Inr (ae_entry r)"
    "\<forall>m. m \<noteq> n \<longrightarrow> ap_applied s' m = ap_applied s1 m" "ap_base_index s' = ap_base_index s1" "ap_base_term s' = ap_base_term s1"
    by blast
  have "sm_evolves s s'" by (rule sm_evolves_trans[OF e(4) r(2)])
  then show ?case using r e up
    by (intro conjI exI[of _ "\<lparr>ae_node = n, ae_index = k + 1, ae_entry = e\<rparr> # rs"]) auto
qed

lemma apply_committed_effect:
  assumes inv: "sm_inv s" and ok: "apply_committed n s = Inr (rs, s')"
  shows "sm_inv s' \<and> sm_evolves s s' \<and> n \<in> set (ap_nodes s) \<and>
    ap_last s' n = max (ap_last s n) (commit_index (ap_cluster s) n) \<and>
    ap_applied s' n = ap_applied s n @ rs \<and>
    map ae_index rs = [ap_last s n + 1..commit_index (ap_cluster s) n] \<and>
    (\<forall>r \<in> set rs. ae_node r = n \<and> entry_at (log_view (ap_cluster s) n) (ae_index r) = Inr (ae_entry r)) \<and>
    (\<forall>m. m \<noteq> n \<longrightarrow> ap_applied s' m = ap_applied s m) \<and>
    ap_base_index s' = ap_base_index s \<and> ap_base_term s' = ap_base_term s"
proof -
  have n: "n \<in> set (ap_nodes s)" using ok by (auto simp: apply_committed_def require_node_def split: if_splits)
  show ?thesis
  proof (cases "commit_index (ap_cluster s) n \<le> ap_last s n")
    case True
    then show ?thesis using ok inv n by (auto simp: apply_committed_def require_node_def Let_def)
  next
    case False
    then have "for_each (apply_entry n (log_view (ap_cluster s) n)) [ap_last s n + 1..commit_index (ap_cluster s) n] ([], s) = Inr (rs, s')"
      using ok n by (auto simp: apply_committed_def require_node_def Let_def split: if_splits)
    from apply_loop[OF this _ inv n refl] False n show ?thesis by (auto simp: max_def)
  qed
qed

section \<open>Compaction and recovery\<close>

lemma compact_effect:
  assumes inv: "sm_inv s" and ok: "sm_compact_through n i t s = Inr s'"
  shows "sm_inv s' \<and> sm_evolves s s' \<and> n \<in> set (ap_nodes s) \<and> ap_last s' = ap_last s \<and>
    ap_applied s' = (ap_applied s)(n := drop (nat (i - ap_base_index s n)) (ap_applied s n)) \<and>
    ap_base_index s' = (ap_base_index s)(n := i) \<and> ap_base_term s' = (ap_base_term s)(n := t) \<and>
    (i = ap_base_index s n \<or> (\<exists>r \<in> set (ap_applied s n). ae_index r = i \<and> le_term (ae_entry r) = t))"
proof -
  let ?b = "ap_base_index s n"
  have n: "n \<in> set (ap_nodes s)" and i: "0 \<le> i" "0 \<le> t" "?b \<le> i" "i \<le> ap_last s n"
    using ok by (auto simp: sm_compact_through_def require_node_def split: if_splits)
  have ok_n: "node_ok s n" using inv n by (simp add: sm_inv_def)
  show ?thesis
  proof (cases "i = ?b")
    case True
    then have "s' = s" "t = ap_base_term s n"
      using ok n by (auto simp: sm_compact_through_def require_node_def split: if_splits)
    then show ?thesis using True inv n by auto
  next
    case False
    let ?k = "nat (i - ?b)" and ?A = "ap_applied s n"
    have k: "0 < ?k" "?k \<le> length ?A" "?b + int ?k = i" using False i ok_n by (auto simp: node_ok_def)
    have s': "s' = ap_record (EvStateMachineCompact n ?b i t (ap_last s n) (int (length (drop ?k ?A))))
        (s\<lparr>ap_durable := (ap_durable s)(n := \<lparr>smd_applied = map ae_entry (drop ?k ?A), smd_base_index = i, smd_base_term = t\<rparr>),
           ap_base_index := (ap_base_index s)(n := i), ap_base_term := (ap_base_term s)(n := t),
           ap_applied := (ap_applied s)(n := drop ?k ?A)\<rparr>)"
      and t: "le_term (ae_entry (?A ! nat (i - ?b - 1))) = t"
      using ok False n by (auto simp: sm_compact_through_def require_node_def Let_def split: if_splits)
    have ev: "sm_evolves s s'" by (simp add: sm_evolves_def s')
    have A: "?A = applied_records n ?b (map ae_entry ?A)" using ok_n by (simp add: node_ok_def)
    have "drop ?k ?A = applied_records n i (map ae_entry (drop ?k ?A))"
      using applied_records_drop[of ?k "map ae_entry ?A" n ?b] A k by (simp add: drop_map)
    moreover have "\<forall>r \<in> set (drop ?k ?A). canonical_for s' r"
      using ok_n canonical_stable[OF ev] by (auto simp: node_ok_def dest: in_set_dropD)
    moreover have v: "ap_applied s' n = drop ?k ?A" "ap_base_index s' n = i" "ap_base_term s' n = t" "ap_last s' n = ap_last s n"
      "ap_durable s' n = \<lparr>smd_applied = map ae_entry (drop ?k ?A), smd_base_index = i, smd_base_term = t\<rparr>"
      by (simp_all add: s')
    ultimately have "node_ok s' n"
      unfolding node_ok_def v using i k ok_n by (intro conjI) (simp_all add: node_ok_def)
    moreover have "node_ok s' m" if "m \<in> set (ap_nodes s)" "m \<noteq> n" for m
      using that inv by (intro node_ok_frame[OF _ ev]) (simp_all add: sm_inv_def s')
    ultimately have "sm_inv s'" using ev by (auto simp: sm_inv_def sm_evolves_def)
    moreover have "\<exists>r \<in> set ?A. ae_index r = i \<and> le_term (ae_entry r) = t"
    proof
      have lt: "nat (i - ?b - 1) < length ?A" using k by linarith
      then show "?A ! nat (i - ?b - 1) \<in> set ?A" by simp
      have "ae_index (?A ! nat (i - ?b - 1)) = ?b + 1 + int (nat (i - ?b - 1))"
        using lt by (subst A) simp
      then show "ae_index (?A ! nat (i - ?b - 1)) = i \<and> le_term (ae_entry (?A ! nat (i - ?b - 1))) = t"
        using t k by simp
    qed
    ultimately show ?thesis using ev n by (auto simp: s')
  qed
qed

lemma load_durable_result:
  assumes "load_durable_state n s = Inr (b, t, v)"
  shows "ap_durable s n = \<lparr>smd_applied = v, smd_base_index = b, smd_base_term = t\<rparr>" "0 \<le> b" "0 \<le> t"
  using assms by (auto simp: load_durable_state_def Let_def and_then_eq_Inr split: if_splits)

lemma record_all_canonical:
  "for_each record_canonical rs s = Inr s' \<Longrightarrow>
   sm_evolves s s' \<and> (\<forall>r \<in> set rs. canonical_for s' r) \<and> (\<exists>c. s' = s\<lparr>ap_canonical := c\<rparr>)"
proof (induction rs arbitrary: s)
  case Nil
  then show ?case by (auto intro!: exI[of _ "ap_canonical s"])
next
  case (Cons r rs)
  then obtain s1 where s1: "record_canonical r s = Inr s1" "for_each record_canonical rs s1 = Inr s'"
    by (auto simp: and_then_eq_Inr)
  from record_canonical_effect[OF s1(1)] Cons.IH[OF s1(2)] show ?case
    by (auto intro: canonical_stable sm_evolves_trans)
qed

lemma load_node_effect:
  assumes "load_node n s = Inr s'"
  shows "sm_evolves s s' \<and> node_ok s' n \<and> ap_durable s' = ap_durable s \<and> ap_cluster s' = ap_cluster s \<and>
    (\<forall>m. m \<noteq> n \<longrightarrow> ap_applied s' m = ap_applied s m \<and> ap_base_index s' m = ap_base_index s m \<and>
       ap_base_term s' m = ap_base_term s m \<and> ap_last s' m = ap_last s m)"
proof -
  obtain b t v where l: "load_durable_state n s = Inr (b, t, v)"
    and f: "for_each record_canonical (applied_records n b v)
       (s\<lparr>ap_base_index := (ap_base_index s)(n := b), ap_base_term := (ap_base_term s)(n := t),
          ap_applied := (ap_applied s)(n := applied_records n b v),
          ap_last := (ap_last s)(n := b + int (length (applied_records n b v)))\<rparr>) = Inr s'"
    using assms by (auto simp: load_node_def Let_def and_then_eq_Inr)
  from record_all_canonical[OF f] load_durable_result[OF l] show ?thesis
    by (auto simp: sm_evolves_def node_ok_def)
qed

lemma load_all:
  "for_each load_node ns s = Inr s' \<Longrightarrow>
   sm_evolves s s' \<and> (\<forall>n \<in> set ns. node_ok s' n) \<and> ap_durable s' = ap_durable s \<and> ap_cluster s' = ap_cluster s"
proof (induction ns arbitrary: s' rule: rev_induct)
  case (snoc n ns)
  then obtain s1 where s1: "for_each load_node ns s = Inr s1" "load_node n s1 = Inr s'"
    by (auto simp: for_each_append and_then_eq_Inr)
  note l = load_node_effect[OF s1(2)] and ih = snoc.IH[OF s1(1)]
  have "node_ok s' m" if "m \<in> set ns" "m \<noteq> n" for m
  proof (rule node_ok_frame)
    show "node_ok s1 m" using ih that(1) by blast
    show "sm_evolves s1 s'" "ap_durable s' m = ap_durable s1 m" using l by simp_all
    show "ap_applied s' m = ap_applied s1 m" "ap_base_index s' m = ap_base_index s1 m"
      "ap_base_term s' m = ap_base_term s1 m" "ap_last s' m = ap_last s1 m" using l that(2) by blast+
  qed
  then have "\<forall>m \<in> set (ns @ [n]). node_ok s' m" using l by auto
  moreover have "sm_evolves s s'" using l ih sm_evolves_trans by blast
  ultimately show ?case using l ih by simp
qed simp

lemma applier_start:
  assumes "StateMachineApplier c d = Inr s"
  shows "sm_inv s" "ap_cluster s = c" "ap_durable s = d"
  using load_all[OF assms[unfolded StateMachineApplier_def]] by (auto simp: sm_inv_def)

section \<open>Reachable appliers\<close>

inductive sm_step :: "'c applier \<Rightarrow> 'c applier \<Rightarrow> bool" where
  cluster: "rf_node_ids c = ap_nodes s \<Longrightarrow> sm_step s (s\<lparr>ap_cluster := c\<rparr>)"
| applied: "apply_committed n s = Inr (rs, s') \<Longrightarrow> sm_step s s'"
| compacted: "sm_compact_through n i t s = Inr s' \<Longrightarrow> sm_step s s'"

lemma sm_step_inv: "sm_step s s' \<Longrightarrow> sm_inv s \<Longrightarrow> sm_inv s' \<and> sm_evolves s s'"
proof (induction rule: sm_step.induct)
  case (cluster c s)
  have "sm_evolves s (s\<lparr>ap_cluster := c\<rparr>)" using cluster by (simp add: sm_evolves_def)
  then show ?case using cluster by (auto simp: sm_inv_def intro: node_ok_frame[of s])
qed (use apply_committed_effect compact_effect in blast)+

lemma sm_steps_inv: "sm_step\<^sup>*\<^sup>* s s' \<Longrightarrow> sm_inv s \<Longrightarrow> sm_inv s' \<and> sm_evolves s s'"
  by (induction rule: rtranclp_induct) (auto dest: sm_step_inv intro: sm_evolves_trans)

text \<open>C10. State Machine Safety, over time: whatever the Raft cluster does, once an entry has been
  applied at an index by some node, no node applies a different entry at that index, then or
  later; the applier raises instead. This also covers entries whose record has been compacted
  away in between.\<close>

theorem state_machine_safety:
  assumes "StateMachineApplier cluster durable = Inr s0" and "sm_step\<^sup>*\<^sup>* s0 s" and "sm_step\<^sup>*\<^sup>* s s'"
    and "n \<in> set (ap_nodes s)" and "r \<in> set (ap_applied s n)"
    and "m \<in> set (ap_nodes s')" and "r' \<in> set (ap_applied s' m)" and "ae_index r' = ae_index r"
  shows "ae_entry r' = ae_entry r"
proof -
  have "sm_inv s" using sm_steps_inv[OF assms(2)] applier_start(1)[OF assms(1)] by blast
  with sm_steps_inv[OF assms(3)] have e: "sm_inv s'" "sm_evolves s s'" by blast+
  have "canonical_for s r" "canonical_for s' r'"
    using \<open>sm_inv s\<close> e(1) assms(4-7) by (auto simp: sm_inv_def node_ok_def)
  with canonical_stable[OF e(2)] assms(8) show ?thesis by (fastforce simp: canonical_for_def)
qed

lemma sm_reachable_inv: "StateMachineApplier c d = Inr s0 \<Longrightarrow> sm_step\<^sup>*\<^sup>* s0 s \<Longrightarrow> sm_inv s"
  using sm_steps_inv applier_start(1) by blast

lemma commit_record [simp]: "commit_index (record_app ev c) n = commit_index c n"
  by (simp add: commit_index_def vol_def record_event_def)

lemma apply_keeps_commit:
  assumes "apply_committed n s = Inr (rs, s')"
  shows "commit_index (ap_cluster s') m = commit_index (ap_cluster s) m" "ap_nodes s' = ap_nodes s"
proof -
  have step: "commit_index (ap_cluster s2) m = commit_index (ap_cluster s1) m \<and> ap_nodes s2 = ap_nodes s1"
    if "apply_entry n log i (a1, s1) = Inr (a2, s2)" for log i a1 s1 a2 s2
    using that by (auto simp: apply_entry_def Let_def and_then_eq_Inr record_canonical_def ap_record_def
        record_event_def commit_index_def vol_def split: option.splits if_splits)
  have loop: "for_each (apply_entry n log) is (a1, s1) = Inr (a2, s2) \<Longrightarrow>
      commit_index (ap_cluster s2) m = commit_index (ap_cluster s1) m \<and> ap_nodes s2 = ap_nodes s1" for log "is" a1 s1 a2 s2
  proof (induction "is" arbitrary: a1 s1)
    case (Cons i "is")
    then obtain a3 s3 where "apply_entry n log i (a1, s1) = Inr (a3, s3)" "for_each (apply_entry n log) is (a3, s3) = Inr (a2, s2)"
      by (auto simp: and_then_eq_Inr)
    then show ?case using step Cons.IH by metis
  qed simp
  show "commit_index (ap_cluster s') m = commit_index (ap_cluster s) m" "ap_nodes s' = ap_nodes s"
    using assms by (auto simp: apply_committed_def Let_def and_then_eq_Inr dest: loop split: if_splits)
qed

text \<open>C21. Exactly once, in log order: in every reachable applier, \<open>apply_committed\<close> returns exactly the
  records of the indices after the last applied one up to the commit index, each with the entry
  the node's log holds there, appends them to the node's applied history, advances the last
  applied index, and leaves every other node alone; calling it again applies nothing.\<close>

theorem apply_exactly_once:
  assumes "StateMachineApplier cluster durable = Inr s0" and "sm_step\<^sup>*\<^sup>* s0 s" and "apply_committed n s = Inr (rs, s')"
  shows "map ae_index rs = [ap_last s n + 1..commit_index (ap_cluster s) n] \<and>
    (\<forall>r \<in> set rs. ae_node r = n \<and> entry_at (log_view (ap_cluster s) n) (ae_index r) = Inr (ae_entry r)) \<and>
    ap_applied s' n = ap_applied s n @ rs \<and>
    ap_last s' n = max (ap_last s n) (commit_index (ap_cluster s) n) \<and>
    (\<forall>m. m \<noteq> n \<longrightarrow> ap_applied s' m = ap_applied s m) \<and>
    apply_committed n s' = Inr ([], s')"
proof -
  note e = apply_committed_effect[OF sm_reachable_inv[OF assms(1,2)] assms(3)]
  have "apply_committed n s' = Inr ([], s')"
    using e apply_keeps_commit[OF assms(3)] by (simp add: apply_committed_def require_node_def)
  with e show ?thesis by blast
qed

text \<open>Recovery: an applier rebuilt from the durable state of a reachable one, over any cluster of
  the same nodes whose logs it accepts, has the same boundary, the same applied records and the
  same progress for every node.\<close>

lemma applier_recovers:
  assumes "StateMachineApplier cluster durable = Inr s0" and "sm_step\<^sup>*\<^sup>* s0 s" and "n \<in> set (ap_nodes s)"
    and "rf_node_ids cluster' = ap_nodes s" and "StateMachineApplier cluster' (ap_durable s) = Inr s'"
  shows "ap_applied s' n = ap_applied s n \<and> ap_last s' n = ap_last s n \<and>
    ap_base_index s' n = ap_base_index s n \<and> ap_base_term s' n = ap_base_term s n"
proof -
  have a: "node_ok s n" using sm_reachable_inv[OF assms(1,2)] assms(3) by (simp add: sm_inv_def)
  have b: "node_ok s' n" "ap_durable s' = ap_durable s"
    using applier_start[OF assms(5)] assms(3,4) by (auto simp: sm_inv_def)
  then have eq: "map ae_entry (ap_applied s' n) = map ae_entry (ap_applied s n)"
    "ap_base_index s' n = ap_base_index s n" "ap_base_term s' n = ap_base_term s n"
    using a by (simp_all add: node_ok_def)
  have "length (ap_applied s' n) = length (ap_applied s n)" using eq(1) by (rule map_eq_imp_length_eq)
  moreover have "ap_applied s' n = applied_records n (ap_base_index s n) (map ae_entry (ap_applied s n))"
    using b(1) eq unfolding node_ok_def by metis
  ultimately show ?thesis using a b(1) eq unfolding node_ok_def by metis
qed

section \<open>The safety assertion passes\<close>

definition boundary_ok :: "'c applier \<Rightarrow> string \<Rightarrow> bool" where
  "boundary_ok s n \<longleftrightarrow> (0 < ap_base_index s n \<longrightarrow>
     (\<exists>c. ap_canonical s (ap_base_index s n) = Some c \<and> le_term (ae_entry c) = ap_base_term s n))"

lemma canonical_grows: "sm_evolves s s' \<Longrightarrow> ap_canonical s i = Some c \<Longrightarrow> ap_canonical s' i = Some c"
  by (auto simp: sm_evolves_def map_le_def dom_def)

lemma step_boundary:
  assumes "sm_step s s'" and "sm_inv s" and "\<forall>n \<in> set (ap_nodes s). boundary_ok s n"
  shows "\<forall>n \<in> set (ap_nodes s'). boundary_ok s' n"
  using assms
proof (induction rule: sm_step.induct)
  case (cluster c s)
  then show ?case by (simp add: boundary_ok_def)
next
  case (applied n s rs s')
  note e = apply_committed_effect[OF applied(2,1)]
  then show ?case using applied(3) canonical_grows[of s s'] by (auto simp: boundary_ok_def sm_evolves_def)
next
  case (compacted n i t s s')
  note e = compact_effect[OF compacted(2,1)]
  have "boundary_ok s' n"
  proof (cases "i = ap_base_index s n")
    case True
    then have "s' = s" using compacted(1) by (auto simp: sm_compact_through_def and_then_eq_Inr split: if_splits)
    then show ?thesis using e compacted(3) by blast
  next
    case False
    then obtain r where "r \<in> set (ap_applied s n)" "ae_index r = i" "le_term (ae_entry r) = t" using e by blast
    moreover have "node_ok s n" using e compacted(2) by (auto simp: sm_inv_def)
    ultimately have "\<exists>c. ap_canonical s i = Some c \<and> le_term (ae_entry c) = t"
      by (auto simp: node_ok_def canonical_for_def)
    then show ?thesis using e canonical_grows[of s s'] by (auto simp: boundary_ok_def)
  qed
  moreover have "boundary_ok s' m" if "m \<in> set (ap_nodes s)" "m \<noteq> n" for m
  proof -
    have "ap_base_index s' m = ap_base_index s m" "ap_base_term s' m = ap_base_term s m" using e that(2) by simp_all
    moreover have "boundary_ok s m" "sm_evolves s s'" using compacted(3) that(1) e by blast+
    ultimately show ?thesis using canonical_grows[of s s'] unfolding boundary_ok_def by metis
  qed
  moreover have "ap_nodes s' = ap_nodes s" using e by (simp add: sm_evolves_def)
  ultimately show ?case by metis
qed

lemma steps_boundary:
  assumes "sm_step\<^sup>*\<^sup>* s s'" and "sm_inv s" and "\<forall>n \<in> set (ap_nodes s). boundary_ok s n"
  shows "\<forall>n \<in> set (ap_nodes s'). boundary_ok s' n"
  using assms
proof (induction rule: rtranclp_induct)
  case (step t u)
  then show ?case using step_boundary sm_steps_inv[OF step(1)] by blast
qed

definition seen_ok :: "'c applier \<Rightarrow> 'c seen \<Rightarrow> bool" where
  "seen_ok s acc \<longleftrightarrow>
     (\<forall>i c. fst acc i = Some c \<longrightarrow> (\<exists>d. ap_canonical s i = Some d \<and> ae_entry d = ae_entry c)) \<and>
     (\<forall>i m t. snd acc i = Some (m, t) \<longrightarrow> (\<exists>d. ap_canonical s i = Some d \<and> le_term (ae_entry d) = t))"

lemma check_records_ok:
  assumes "\<forall>r \<in> set rs. canonical_for s r" and "\<forall>i < length rs. ae_index (rs ! i) = e + int i" and "seen_ok s acc"
  shows "\<exists>x acc'. for_each check_record rs (e, acc) = Inr (x, acc') \<and> seen_ok s acc'"
  using assms
proof (induction rs arbitrary: e acc)
  case (Cons r rs)
  obtain seen bnd where acc: "acc = (seen, bnd)" by fastforce
  have i: "ae_index r = e" using Cons.prems(2)[rule_format, of 0] by simp
  obtain d where d: "ap_canonical s e = Some d" "ae_entry d = ae_entry r"
    using Cons.prems(1) i by (auto simp: canonical_for_def)
  have a: "ae_entry c = ae_entry r" if "seen e = Some c" for c
    using Cons.prems(3) that d by (fastforce simp: seen_ok_def acc)
  have b: "t = le_term (ae_entry r)" if "bnd e = Some (m, t)" for m t
    using Cons.prems(3) that d by (fastforce simp: seen_ok_def acc)
  define acc1 where "acc1 = (if seen e = None then seen(e \<mapsto> r) else seen, bnd)"
  have step: "check_record r (e, acc) = Inr (e + 1, acc1)"
    using a b i by (auto simp: check_record_def acc acc1_def split: option.splits)
  have "seen_ok s acc1" using Cons.prems(3) d by (auto simp: seen_ok_def acc acc1_def)
  moreover have "\<forall>k < length rs. ae_index (rs ! k) = e + 1 + int k"
    using Cons.prems(2) by (auto dest: spec[of _ "Suc _"])
  ultimately obtain x acc' where "for_each check_record rs (e + 1, acc1) = Inr (x, acc')" "seen_ok s acc'"
    using Cons.IH[of "e + 1" acc1] Cons.prems(1) by auto
  then show ?case using step by auto
qed auto

lemma check_node_ok:
  assumes "node_ok s n" and "boundary_ok s n" and "n \<in> set (ap_nodes s)" and "seen_ok s acc"
    and "load_durable_state n s = Inr l"
  shows "\<exists>acc'. check_node s n acc = Inr acc' \<and> seen_ok s acc'"
proof -
  obtain seen bnd where acc: "acc = (seen, bnd)" by fastforce
  have "\<exists>acc1. check_boundary n s acc = Inr acc1 \<and> seen_ok s acc1"
    using assms(2,4) by (fastforce simp: check_boundary_def acc seen_ok_def boundary_ok_def Let_def split: option.splits)
  then obtain acc1 where acc1: "check_boundary n s acc = Inr acc1" "seen_ok s acc1" by blast
  have "\<forall>i < length (ap_applied s n). ae_index (ap_applied s n ! i) = ap_base_index s n + 1 + int i"
  proof (intro allI impI)
    fix i assume "i < length (ap_applied s n)"
    then show "ae_index (ap_applied s n ! i) = ap_base_index s n + 1 + int i"
      using assms(1) applied_records_simps(3)[of i "map ae_entry (ap_applied s n)" n "ap_base_index s n"]
      unfolding node_ok_def by (metis applied_entry.select_convs(2) length_map)
  qed
  then obtain x acc2 where acc2: "for_each check_record (ap_applied s n) (ap_base_index s n + 1, acc1) = Inr (x, acc2)" "seen_ok s acc2"
    using check_records_ok[of "ap_applied s n" s "ap_base_index s n + 1" acc1] assms(1) acc1(2) by (auto simp: node_ok_def)
  obtain b t v where l: "l = (b, t, v)" using prod_cases3 by blast
  have "check_node s n acc = Inr acc2"
    using acc1 acc2 assms(1,3,5) load_durable_result[OF assms(5)[unfolded l]]
    by (simp add: check_node_def l applied_entries_def require_node_def node_ok_def)
  then show ?thesis using acc2(2) by blast
qed

text \<open>\<open>assert_state_machine_safety\<close> passes: in every applier reached from one without a snapshot
  boundary, through any sequence of applications, compactions and cluster activity, the check
  can only fail because a node's persistent log no longer agrees with its durable applied
  history; when every node's durable state loads, it returns.\<close>

lemma safety_assertion_passes:
  assumes "StateMachineApplier cluster durable = Inr s0" and "\<forall>n. smd_base_index (durable n) = 0"
    and "sm_step\<^sup>*\<^sup>* s0 s" and "\<forall>n \<in> set (ap_nodes s). \<exists>l. load_durable_state n s = Inr l"
  shows "assert_state_machine_safety s = Inr ()"
proof -
  have inv: "sm_inv s" by (rule sm_reachable_inv[OF assms(1,3)])
  have "\<forall>n \<in> set (ap_nodes s0). boundary_ok s0 n"
  proof
    fix n assume "n \<in> set (ap_nodes s0)"
    then have "node_ok s0 n" "ap_durable s0 = durable" using applier_start[OF assms(1)] by (auto simp: sm_inv_def)
    then have "ap_base_index s0 n = 0" using assms(2)[rule_format, of n] by (simp add: node_ok_def)
    then show "boundary_ok s0 n" by (simp add: boundary_ok_def)
  qed
  then have b: "\<forall>n \<in> set (ap_nodes s). boundary_ok s n"
    using steps_boundary[OF assms(3) applier_start(1)[OF assms(1)]] by blast
  have "outcome {} (seen_ok s) (for_each (check_node s) (ap_nodes s) (Map.empty, Map.empty))"
  proof (rule outcome_for_each)
    show "seen_ok s (Map.empty, Map.empty)" by (simp add: seen_ok_def)
    fix n acc assume "n \<in> set (ap_nodes s)" "seen_ok s acc"
    then show "outcome {} (seen_ok s) (check_node s n acc)"
      using check_node_ok[of s n acc] inv b assms(4) by (auto simp: outcome_Inr_iff sm_inv_def)
  qed
  then show ?thesis by (auto simp: assert_state_machine_safety_def outcome_Inr_iff)
qed

section \<open>Example\<close>

text \<open>Two nodes with the same two entries; node \<open>a\<close> knows both to be committed, \<open>b\<close> the first.\<close>

definition demo_committed :: "string raft" where
  "demo_committed = set_vol ''a'' (\<lambda>v. v\<lparr>rf_commit := 2\<rparr>) (set_vol ''b'' (\<lambda>v. v\<lparr>rf_commit := 1\<rparr>)
     (projr (RaftCluster (sim_init [] raft_type_name
        (\<lambda>_. fresh_raft\<lparr>rf_term := 1, rf_log := [LogEntry 1 ''x'', LogEntry 1 ''y'']\<rparr>)) [''a'', ''b''] None)))"

definition demo_ap0 :: "string applier" where
  "demo_ap0 = projr (StateMachineApplier demo_committed (\<lambda>_. fresh_sm))"

definition demo_ap1 :: "string applier" where
  "demo_ap1 = snd (projr (apply_committed ''a'' demo_ap0))"

definition demo_ap2 :: "string applier" where
  "demo_ap2 = snd (projr (apply_committed ''b'' demo_ap1))"

lemma demo_ap_runs:
  "\<not> isl (StateMachineApplier demo_committed (\<lambda>_. fresh_sm))"
  "\<not> isl (apply_committed ''a'' demo_ap0)" "\<not> isl (apply_committed ''b'' demo_ap1)"
  by code_simp+

lemma demo_ap_eqs:
  "StateMachineApplier demo_committed (\<lambda>_. fresh_sm) = Inr demo_ap0"
  "apply_committed ''a'' demo_ap0 = Inr (fst (projr (apply_committed ''a'' demo_ap0)), demo_ap1)"
  "apply_committed ''b'' demo_ap1 = Inr (fst (projr (apply_committed ''b'' demo_ap1)), demo_ap2)"
  using demo_ap_runs by (simp_all add: demo_ap0_def demo_ap1_def demo_ap2_def sum.collapse(2))

lemma demo_ap_steps: "sm_step\<^sup>*\<^sup>* demo_ap0 demo_ap1" "sm_step\<^sup>*\<^sup>* demo_ap1 demo_ap2"
  using demo_ap_eqs(2,3) by (blast intro: r_into_rtranclp sm_step.applied)+

lemma demo_ap_facts:
  "ap_nodes demo_ap1 = [''a'', ''b'']" "ap_nodes demo_ap2 = [''a'', ''b'']"
  "ap_applied demo_ap1 ''a'' = [\<lparr>ae_node = ''a'', ae_index = 1, ae_entry = LogEntry 1 ''x''\<rparr>,
     \<lparr>ae_node = ''a'', ae_index = 2, ae_entry = LogEntry 1 ''y''\<rparr>]"
  "length (ap_applied demo_ap2 ''b'') = 1" "ae_index (hd (ap_applied demo_ap2 ''b'')) = 1"
  by code_simp+

theorem state_machine_safety_witness: "ae_entry (hd (ap_applied demo_ap2 ''b'')) = LogEntry 1 ''x''"
proof -
  have "hd (ap_applied demo_ap2 ''b'') \<in> set (ap_applied demo_ap2 ''b'')" using demo_ap_facts(4) by (intro hd_in_set) auto
  then show ?thesis
    using state_machine_safety[OF demo_ap_eqs(1) demo_ap_steps, of "''a''" "hd (ap_applied demo_ap1 ''a'')" "''b''"]
      demo_ap_facts by simp
qed

theorem apply_exactly_once_witness:
  "map ae_index (fst (projr (apply_committed ''a'' demo_ap0))) = [1, 2] \<and> apply_committed ''a'' demo_ap1 = Inr ([], demo_ap1)"
proof -
  have "ap_last demo_ap0 ''a'' = 0" "commit_index (ap_cluster demo_ap0) ''a'' = 2" "[0 + 1..2] = [1, 2::int]" by code_simp+
  then show ?thesis using apply_exactly_once[OF demo_ap_eqs(1) rtranclp.rtrancl_refl demo_ap_eqs(2)] by simp
qed

section \<open>The barrier\<close>

text \<open>The commit-recovery barrier on every branch: only a live leader may append; its retained log
  then ends with an entry of its current term, nothing else changes but the trace, and the two
  assertions never fail. The number it returns counts the retained log: it is the absolute index
  of the new entry less the compaction boundary.\<close>

lemma term_barrier_effect:
  "append_current_term_barrier command leader s =
     (if \<not> is_alive s leader \<or> role s leader \<noteq> LEADER then Inl CommitRecoveryError
      else if current_term s leader < 0 then Inl ValueError
      else
        (let s1 = set_durable leader (\<lambda>d. d\<lparr>rf_log := rf_log d @ [LogEntry (current_term s leader) command]\<rparr>) s;
             index = last_log_index s1 leader - rf_base_index (persistent_state s leader)
         in Inr (index, record_app (EvTermBarrier leader (current_term s leader) index) s1)))"
  by (auto simp: append_current_term_barrier_def make_log_entry_def Let_def current_term_def set_durable_def
      record_event_def last_log_index_def last_index_def log_view_of_def)

text \<open>C34. After compaction the barrier's number is not the log index of the barrier: for a leader
  whose compaction boundary is positive, it differs from the absolute index that commit indices
  are compared with.\<close>

theorem barrier_index_relative:
  assumes "append_current_term_barrier command leader s = Inr (index, s')"
    and "0 < rf_base_index (persistent_state s leader)"
  shows "index < last_log_index s' leader \<and>
    entry_at (log_view s' leader) (last_log_index s' leader) = Inr (LogEntry (current_term s leader) command)"
  using assms
  by (auto simp: append_current_term_barrier_def make_log_entry_def Let_def current_term_def set_durable_def
      record_event_def last_log_index_def last_index_def log_view_of_def entry_at_def first_retained_index_def
      split: if_splits)

definition demo_compacted_leader :: "string raft" where
  "demo_compacted_leader = set_vol ''a'' (\<lambda>v. v\<lparr>rf_role := LEADER\<rparr>)
     (projr (RaftCluster (sim_init [] raft_type_name
        (\<lambda>_. fresh_raft\<lparr>rf_term := 1, rf_log := [LogEntry 1 ''y''], rf_base_index := 5, rf_base_term := 1\<rparr>)) [''a''] None))"

theorem barrier_index_relative_witness:
  "fst (projr (append_current_term_barrier ''noop'' ''a'' demo_compacted_leader)) = 2 \<and>
   last_log_index (snd (projr (append_current_term_barrier ''noop'' ''a'' demo_compacted_leader))) ''a'' > 2"
proof -
  let ?r = "append_current_term_barrier ''noop'' ''a'' demo_compacted_leader"
  have "\<not> isl ?r" by code_simp
  then have eq: "?r = Inr (fst (projr ?r), snd (projr ?r))" by (simp add: sum.collapse(2))
  have i: "fst (projr ?r) = 2" by code_simp
  have "0 < rf_base_index (persistent_state demo_compacted_leader ''a'')" by code_simp
  from barrier_index_relative[OF eq this] show ?thesis unfolding i by simp
qed

end
