(* ===== verification/Replicated_KV.thy ===== *)
theory Replicated_KV
  imports State_Machine_Safety KV_Commands
begin

text \<open>
  The replicated key/value store, \<^verbatim>\<open>src/src/distlab/kv.py\<close>, over the state-machine applier, with the
  durable snapshot record of \<^verbatim>\<open>src/src/distlab/snapshot.py\<close> that seeds it. Dictionaries are
  association lists with distinct keys; two of them are equal as dictionaries when they have the
  same items.

  A node's image is its dictionary of values and its dictionary of client requests.
  \<open>apply_image\<close> is what \<open>_apply_command\<close> does to the image of one node.
\<close>

section \<open>State\<close>

record snapshot_request =
  sr_client :: string
  sr_request :: int
  sr_operation :: kv_operation

record snapshot_voting =
  sv_committed_index :: int
  sv_old_voters :: "string list"
  sv_new_voters :: "string list option"

record kv_snapshot =
  ks_index :: int
  ks_term :: int
  ks_state :: "(string \<times> string) list"
  ks_requests :: "snapshot_request list"
  ks_voting :: "snapshot_voting option"

record kv_image =
  im_state :: "(string \<times> string) list"
  im_requests :: "((string \<times> int) \<times> kv_operation) list"

definition empty_image :: kv_image where
  "empty_image = \<lparr>im_state = [], im_requests = []\<rparr>"

record replicated_kv =
  kv_applier :: "kv_command applier"
  kv_image :: "string \<Rightarrow> kv_image"
  kv_snapshots :: "string \<Rightarrow> kv_snapshot option"

abbreviation kv_cluster :: "replicated_kv \<Rightarrow> kv_command raft" where
  "kv_cluster s \<equiv> ap_cluster (kv_applier s)"

abbreviation kv_nodes :: "replicated_kv \<Rightarrow> string list" where
  "kv_nodes s \<equiv> ap_nodes (kv_applier s)"

definition kv_record :: "kv_command raft_event \<Rightarrow> replicated_kv \<Rightarrow> replicated_kv" where
  "kv_record ev s = s\<lparr>kv_applier := ap_record ev (kv_applier s)\<rparr>"

definition kv_require_node :: "string \<Rightarrow> replicated_kv \<Rightarrow> unit result" where
  "kv_require_node n s = (if n \<in> set (kv_nodes s) then Inr () else Inl ValueError)"

section \<open>Commands\<close>

fun execute_operation :: "kv_command \<Rightarrow> (string \<times> string) list \<Rightarrow> (string \<times> string) list result" where
  "execute_operation (Operation (Put k v)) d = Inr (AList.update k v d)"
| "execute_operation (Operation (Delete k)) d = Inr (AList.delete k d)"
| "execute_operation CommitRecoveryBarrier d = Inr d"
| "execute_operation _ d = Inl InvalidKVCommand"

fun is_membership_control :: "kv_command \<Rightarrow> bool" where
  "is_membership_control (MembershipControl _) = True"
| "is_membership_control _ = False"

definition latest_request_id :: "string \<Rightarrow> ((string \<times> int) \<times> kv_operation) list \<Rightarrow> int" where
  "latest_request_id client requests =
     (case map (\<lambda>((_, i), _). i) (filter (\<lambda>((owner, _), _). owner = client) requests) of
        [] \<Rightarrow> -1
      | i # is \<Rightarrow> fold max is i)"

text \<open>The identity part of \<open>_apply_command\<close>: the operation to run, the flags \<open>duplicate\<close> and
  \<open>stale\<close>, and the updated requests.\<close>

definition classify :: "kv_command \<Rightarrow> ((string \<times> int) \<times> kv_operation) list \<Rightarrow>
  (kv_command \<times> bool \<times> bool \<times> ((string \<times> int) \<times> kv_operation) list) result" where
  "classify command requests =
     (case command of
        Request r \<Rightarrow>
          (let identity = (cr_client r, cr_request r)
           in case map_of requests identity of
                Some previous \<Rightarrow>
                  if previous \<noteq> cr_operation r then Inl ClientRequestConflict
                  else Inr (Operation (cr_operation r), True, False, requests)
              | None \<Rightarrow>
                  if cr_request r < latest_request_id (cr_client r) requests
                  then Inr (Operation (cr_operation r), False, True, requests)
                  else Inr (Operation (cr_operation r), False, False,
                         AList.update identity (cr_operation r) requests))
      | _ \<Rightarrow> Inr (command, False, False, requests))"

definition apply_image :: "kv_command \<Rightarrow> kv_image \<Rightarrow> kv_image result" where
  "apply_image command img =
     (if is_membership_control command then Inr img
      else and_then (classify command (im_requests img)) (\<lambda>(operation, duplicate, stale, requests).
        and_then (if \<not> duplicate \<and> \<not> stale then execute_operation operation (im_state img) else Inr (im_state img)) (\<lambda>d.
          Inr \<lparr>im_state = d, im_requests = requests\<rparr>)))"

fun operation_trace :: "kv_command \<Rightarrow> (string \<times> string option \<times> string option) result" where
  "operation_trace (Operation (Put k v)) = Inr (''put'', Some k, Some v)"
| "operation_trace (Operation (Delete k)) = Inr (''delete'', Some k, None)"
| "operation_trace CommitRecoveryBarrier = Inr (''commit-recovery-barrier'', None, None)"
| "operation_trace _ = Inl InvalidKVCommand"

fun control_name :: "kv_command \<Rightarrow> string" where
  "control_name (MembershipControl name) = name"
| "control_name _ = []"

fun request_identity :: "kv_command \<Rightarrow> string option \<times> int option" where
  "request_identity (Request r) = (Some (cr_client r), Some (cr_request r))"
| "request_identity _ = (None, None)"

definition apply_command :: "string \<Rightarrow> kv_command \<Rightarrow> bool \<Rightarrow> int option \<Rightarrow> replicated_kv \<Rightarrow> replicated_kv result" where
  "apply_command n command emit_trace index s =
     (if is_membership_control command then
        Inr (if emit_trace then kv_record (EvKvControlNoop n index (control_name command)) s else s)
      else and_then (classify command (im_requests (kv_image s n))) (\<lambda>(operation, duplicate, stale, requests).
        and_then (if \<not> duplicate \<and> \<not> stale then execute_operation operation (im_state (kv_image s n))
                  else Inr (im_state (kv_image s n))) (\<lambda>d.
          (let s1 = s\<lparr>kv_image := (kv_image s)(n := \<lparr>im_state = d, im_requests = requests\<rparr>)\<rparr>
           in if emit_trace then
                and_then (operation_trace operation) (\<lambda>(operation_name, key, v).
                  Inr (kv_record (EvKvApply n index operation_name key v (fst (request_identity command))
                         (snd (request_identity command)) duplicate stale) s1))
              else Inr s1))))"

definition validate_entries :: "kv_command log_entry list \<Rightarrow> unit result" where
  "validate_entries entries = for_each (\<lambda>entry _.
     case le_command entry of
       ForeignCommand _ \<Rightarrow> Inl InvalidKVCommand
     | _ \<Rightarrow> Inr ()) entries ()"

definition validate_request_conflicts ::
  "((string \<times> int) \<times> kv_operation) list \<Rightarrow> kv_command log_entry list \<Rightarrow> unit result" where
  "validate_request_conflicts requests entries =
     and_then (for_each (\<lambda>entry seen.
       case le_command entry of
         Request r \<Rightarrow>
           (let identity = (cr_client r, cr_request r)
            in case map_of seen identity of
                 Some previous \<Rightarrow> if previous \<noteq> cr_operation r then Inl ClientRequestConflict else Inr seen
               | None \<Rightarrow> Inr (setdefault identity (cr_operation r) seen))
       | _ \<Rightarrow> Inr seen) entries requests) (\<lambda>_. Inr ())"

section \<open>The store\<close>

definition restore_requests ::
  "snapshot_request list \<Rightarrow> ((string \<times> int) \<times> kv_operation) list \<Rightarrow> ((string \<times> int) \<times> kv_operation) list result" where
  "restore_requests items requests = for_each (\<lambda>item requests.
     (let identity = (sr_client item, sr_request item)
      in case map_of requests identity of
           Some previous \<Rightarrow> if previous \<noteq> sr_operation item then Inl ClientRequestConflict
                            else Inr (AList.update identity (sr_operation item) requests)
         | None \<Rightarrow> Inr (AList.update identity (sr_operation item) requests))) items requests"

definition dict_of :: "('k \<times> 'v) list \<Rightarrow> ('k \<times> 'v) list" where
  "dict_of items = fold (\<lambda>(k, v). AList.update k v) items []"

definition restore_snapshot_boundary :: "string \<Rightarrow> replicated_kv \<Rightarrow> replicated_kv result" where
  "restore_snapshot_boundary n s =
     and_then (applied_base_index n (kv_applier s)) (\<lambda>base_index.
       if base_index = 0 then Inr s
       else case kv_snapshots s n of
         None \<Rightarrow> Inl AssertionError
       | Some snap \<Rightarrow>
           if ks_index snap \<noteq> base_index then Inl AssertionError
           else and_then (applied_base_term n (kv_applier s)) (\<lambda>base_term.
             if ks_term snap \<noteq> base_term then Inl AssertionError
             else and_then (restore_requests (ks_requests snap) (im_requests (kv_image s n))) (\<lambda>requests.
               Inr (s\<lparr>kv_image := (kv_image s)(n := \<lparr>im_state = dict_of (ks_state snap), im_requests = requests\<rparr>)\<rparr>))))"

definition load_image :: "string \<Rightarrow> replicated_kv \<Rightarrow> replicated_kv result" where
  "load_image n s =
     and_then (restore_snapshot_boundary n s) (\<lambda>s1.
     and_then (applied_entries n (kv_applier s1)) (\<lambda>entries.
     and_then (validate_entries entries) (\<lambda>_.
     and_then (validate_request_conflicts (im_requests (kv_image s1 n)) entries) (\<lambda>_.
       for_each (\<lambda>entry. apply_command n (le_command entry) False None) entries s1))))"

definition ReplicatedKV :: "kv_command applier \<Rightarrow> (string \<Rightarrow> kv_snapshot option) \<Rightarrow> replicated_kv result" where
  "ReplicatedKV applier snapshots =
     for_each load_image (ap_nodes applier)
       \<lparr>kv_applier = applier, kv_image = (\<lambda>_. empty_image), kv_snapshots = snapshots\<rparr>"

definition kv_get :: "string \<Rightarrow> string \<Rightarrow> replicated_kv \<Rightarrow> string option result" where
  "kv_get n key s = and_then (kv_require_node n s) (\<lambda>_. Inr (map_of (im_state (kv_image s n)) key))"

definition kv_state :: "string \<Rightarrow> replicated_kv \<Rightarrow> (string \<times> string) list result" where
  "kv_state n s = and_then (kv_require_node n s) (\<lambda>_. Inr (im_state (kv_image s n)))"

definition client_requests :: "string \<Rightarrow> replicated_kv \<Rightarrow> ((string \<times> int) \<times> kv_operation) list result" where
  "client_requests n s = and_then (kv_require_node n s) (\<lambda>_. Inr (im_requests (kv_image s n)))"

definition has_applied_request :: "string \<Rightarrow> string \<Rightarrow> int \<Rightarrow> replicated_kv \<Rightarrow> bool result" where
  "has_applied_request n client request_id s =
     and_then (kv_require_node n s) (\<lambda>_. Inr (map_of (im_requests (kv_image s n)) (client, request_id) \<noteq> None))"

definition kv_pending :: "string \<Rightarrow> replicated_kv \<Rightarrow> kv_command log_entry list result" where
  "kv_pending n s =
     and_then (last_applied n (kv_applier s)) (\<lambda>last.
       (let start = last + 1;
            commit = commit_index (kv_cluster s) n
        in if commit \<ge> start
           then and_then (suffix_from (log_view (kv_cluster s) n) start) (\<lambda>rest.
                  Inr (take (nat (commit - start + 1)) rest))
           else Inr []))"

definition kv_apply_committed :: "string \<Rightarrow> replicated_kv \<Rightarrow> (kv_command applied_entry list \<times> replicated_kv) result" where
  "kv_apply_committed n s =
     and_then (kv_require_node n s) (\<lambda>_.
     and_then (kv_pending n s) (\<lambda>pending.
     and_then (validate_entries pending) (\<lambda>_.
     and_then (validate_request_conflicts (im_requests (kv_image s n)) pending) (\<lambda>_.
     and_then (apply_committed n (kv_applier s)) (\<lambda>(applied, ap').
     and_then (for_each (\<lambda>r. apply_command n (le_command (ae_entry r)) True (Some (ae_index r))) applied
                 (s\<lparr>kv_applier := ap'\<rparr>)) (\<lambda>s'.
       Inr (applied, s')))))))"

definition dict_eq :: "('k \<times> 'v) list \<Rightarrow> ('k \<times> 'v) list \<Rightarrow> bool" where
  "dict_eq a b \<longleftrightarrow> set a = set b"

type_synonym prefix_table = "((int \<times> int \<times> kv_command log_entry list) \<times> kv_image) list"

definition compare_node :: "replicated_kv \<Rightarrow> string \<Rightarrow> prefix_table \<Rightarrow> prefix_table result" where
  "compare_node s n by_prefix =
     and_then (applied_base_index n (kv_applier s)) (\<lambda>base_index.
     and_then (applied_base_term n (kv_applier s)) (\<lambda>base_term.
     and_then (applied_entries n (kv_applier s)) (\<lambda>entries.
       (let prefix = (base_index, base_term, entries);
            current = kv_image s n
        in case map_of by_prefix prefix of
             Some existing \<Rightarrow>
               if \<not> dict_eq (im_state existing) (im_state current) \<or> \<not> dict_eq (im_requests existing) (im_requests current)
               then Inl AssertionError else Inr (setdefault prefix current by_prefix)
           | None \<Rightarrow> Inr (setdefault prefix current by_prefix)))))"

definition assert_replica_consistency :: "replicated_kv \<Rightarrow> unit result" where
  "assert_replica_consistency s = and_then (for_each (compare_node s) (kv_nodes s) []) (\<lambda>_. Inr ())"

end
