(* ===== verification/Replicated_KV_Safety.thy ===== *)
theory Replicated_KV_Safety
  imports Replicated_KV
begin

text \<open>
  Correctness of the replicated store: a node's image is the replay of its applied history from
  its snapshot boundary, a rebuilt store agrees with the live one, client requests take effect
  exactly once in increasing order per client, and equal applied prefixes give equal images.
\<close>

section \<open>Commands act on one image\<close>

definition same_applier :: "'c applier \<Rightarrow> 'c applier \<Rightarrow> bool" where
  "same_applier a b \<longleftrightarrow> ap_durable b = ap_durable a \<and> ap_base_index b = ap_base_index a \<and>
     ap_base_term b = ap_base_term a \<and> ap_last b = ap_last a \<and> ap_applied b = ap_applied a \<and>
     ap_canonical b = ap_canonical a \<and> ap_nodes b = ap_nodes a"

lemma same_applier_refl [simp]: "same_applier a a" "same_applier a (ap_record ev a)"
  by (simp_all add: same_applier_def)

lemma same_applier_trans: "same_applier a b \<Longrightarrow> same_applier b c \<Longrightarrow> same_applier a c"
  by (simp add: same_applier_def)

lemma same_applier_inv: "same_applier a b \<Longrightarrow> sm_inv a \<Longrightarrow> sm_inv b"
  by (simp add: same_applier_def sm_inv_def node_ok_def canonical_for_def)

lemma operation_trace_ok:
  assumes "classify command requests = Inr (operation, dup, stale, requests')"
    and "(if \<not> dup \<and> \<not> stale then execute_operation operation d else Inr d) = Inr d'"
  shows "\<exists>x. operation_trace operation = Inr x"
  using assms
  by (cases operation rule: operation_trace.cases)
    (auto simp: classify_def Let_def split: kv_command.splits option.splits if_splits)

lemma apply_command_image:
  "case apply_image command (kv_image s n) of
     Inl e \<Rightarrow> apply_command n command emit index s = Inl e
   | Inr img \<Rightarrow> \<exists>s'. apply_command n command emit index s = Inr s' \<and> kv_image s' = (kv_image s)(n := img) \<and>
       kv_snapshots s' = kv_snapshots s \<and> same_applier (kv_applier s) (kv_applier s')"
proof (cases "is_membership_control command")
  case True
  then show ?thesis by (simp add: apply_image_def apply_command_def kv_record_def)
next
  case False
  show ?thesis
  proof (cases "classify command (im_requests (kv_image s n))")
    case (Inl e)
    then show ?thesis using False by (simp add: apply_image_def apply_command_def)
  next
    case (Inr q)
    obtain operation dup stale requests where q: "q = (operation, dup, stale, requests)" using prod_cases4 by blast
    let ?run = "if \<not> dup \<and> \<not> stale then execute_operation operation (im_state (kv_image s n)) else Inr (im_state (kv_image s n))"
    show ?thesis
    proof (cases ?run)
      case (Inl e)
      then show ?thesis using False Inr q by (simp add: apply_image_def apply_command_def)
    next
      case run: (Inr d)
      obtain x where "operation_trace operation = Inr x" using operation_trace_ok[OF Inr[unfolded q] run] by blast
      then show ?thesis using False Inr q run
        by (cases x) (simp add: apply_image_def apply_command_def Let_def kv_record_def)
    qed
  qed
qed

lemma apply_commands_image:
  "case for_each apply_image (map f xs) (kv_image s n) of
     Inl e \<Rightarrow> for_each (\<lambda>x. apply_command n (f x) emit (g x)) xs s = Inl e
   | Inr img \<Rightarrow> \<exists>s'. for_each (\<lambda>x. apply_command n (f x) emit (g x)) xs s = Inr s' \<and> kv_image s' = (kv_image s)(n := img) \<and>
       kv_snapshots s' = kv_snapshots s \<and> same_applier (kv_applier s) (kv_applier s')"
proof (induction xs arbitrary: s)
  case Nil
  then show ?case by simp
next
  case (Cons x xs)
  show ?case
  proof (cases "apply_image (f x) (kv_image s n)")
    case (Inl e)
    then show ?thesis using apply_command_image[of n "f x" emit "g x" s] by simp
  next
    case (Inr img)
    then obtain s1 where s1: "apply_command n (f x) emit (g x) s = Inr s1" "kv_image s1 = (kv_image s)(n := img)"
      "kv_snapshots s1 = kv_snapshots s" "same_applier (kv_applier s) (kv_applier s1)"
      using apply_command_image[of n "f x" emit "g x" s] by auto
    then show ?thesis using Cons.IH[of s1] Inr
      by (auto split: sum.splits intro!: ext same_applier_trans[OF s1(4)])
  qed
qed

lemma apply_commands_result:
  assumes "for_each (\<lambda>x. apply_command n (f x) emit (g x)) xs s = Inr s'"
  shows "for_each apply_image (map f xs) (kv_image s n) = Inr (kv_image s' n)"
    "\<And>m. m \<noteq> n \<Longrightarrow> kv_image s' m = kv_image s m" "kv_snapshots s' = kv_snapshots s"
    "same_applier (kv_applier s) (kv_applier s')"
  using apply_commands_image[of n f emit g xs s] assms by (auto split: sum.splits)

section \<open>Images are replays\<close>

definition base_image_of :: "int \<Rightarrow> int \<Rightarrow> kv_snapshot option \<Rightarrow> kv_image result" where
  "base_image_of base_index base_term snapshot =
     (if base_index = 0 then Inr empty_image
      else case snapshot of
        None \<Rightarrow> Inl AssertionError
      | Some snap \<Rightarrow>
          if ks_index snap \<noteq> base_index \<or> ks_term snap \<noteq> base_term then Inl AssertionError
          else and_then (restore_requests (ks_requests snap) []) (\<lambda>requests.
            Inr \<lparr>im_state = dict_of (ks_state snap), im_requests = requests\<rparr>))"

definition base_image :: "replicated_kv \<Rightarrow> string \<Rightarrow> kv_image result" where
  "base_image s n = base_image_of (ap_base_index (kv_applier s) n) (ap_base_term (kv_applier s) n) (kv_snapshots s n)"

definition commands :: "replicated_kv \<Rightarrow> string \<Rightarrow> kv_command list" where
  "commands s n = map (\<lambda>r. le_command (ae_entry r)) (ap_applied (kv_applier s) n)"

definition image_ok :: "replicated_kv \<Rightarrow> string \<Rightarrow> bool" where
  "image_ok s n \<longleftrightarrow> and_then (base_image s n) (for_each apply_image (commands s n)) = Inr (kv_image s n)"

definition kv_inv :: "replicated_kv \<Rightarrow> bool" where
  "kv_inv s \<longleftrightarrow> sm_inv (kv_applier s) \<and> (\<forall>n \<in> set (kv_nodes s). image_ok s n)"

lemma image_ok_frame:
  assumes "image_ok s n" and "kv_image s' n = kv_image s n" and "kv_snapshots s' = kv_snapshots s"
    and "ap_applied (kv_applier s') n = ap_applied (kv_applier s) n"
    and "ap_base_index (kv_applier s') n = ap_base_index (kv_applier s) n"
    and "ap_base_term (kv_applier s') n = ap_base_term (kv_applier s) n"
  shows "image_ok s' n"
  using assms by (simp add: image_ok_def base_image_def commands_def)

lemma load_image_result:
  assumes ok: "load_image n s = Inr s'" and e: "kv_image s n = empty_image"
  shows "image_ok s' n" "\<And>m. m \<noteq> n \<Longrightarrow> kv_image s' m = kv_image s m" "kv_snapshots s' = kv_snapshots s"
    "same_applier (kv_applier s) (kv_applier s')"
proof -
  obtain s1 entries where s1: "restore_snapshot_boundary n s = Inr s1" and en: "applied_entries n (kv_applier s1) = Inr entries"
    and run: "for_each (\<lambda>entry. apply_command n (le_command entry) False None) entries s1 = Inr s'"
    using ok by (auto simp: load_image_def and_then_eq_Inr)
  have base: "base_image s n = Inr (kv_image s1 n)" "\<And>m. m \<noteq> n \<Longrightarrow> kv_image s1 m = kv_image s m"
    "kv_snapshots s1 = kv_snapshots s" "kv_applier s1 = kv_applier s"
    using s1 e by (auto simp: restore_snapshot_boundary_def base_image_def base_image_of_def applied_base_index_def applied_base_term_def
        and_then_eq_Inr empty_image_def split: if_splits option.splits)
  note r = apply_commands_result[OF run]
  show "\<And>m. m \<noteq> n \<Longrightarrow> kv_image s' m = kv_image s m" "kv_snapshots s' = kv_snapshots s"
    "same_applier (kv_applier s) (kv_applier s')" using r base by auto
  have "entries = map ae_entry (ap_applied (kv_applier s) n)"
    using en base(4) by (auto simp: applied_entries_def and_then_eq_Inr)
  then have "map le_command entries = commands s' n" using r(4) base(4) by (simp add: commands_def same_applier_def)
  moreover have "base_image s' n = Inr (kv_image s1 n)"
    using base r(3,4) by (simp add: base_image_def same_applier_def)
  ultimately show "image_ok s' n" using r(1) by (simp add: image_ok_def)
qed

lemma store_start:
  assumes ok: "ReplicatedKV ap snaps = Inr s" and inv: "sm_inv ap" and d: "distinct (ap_nodes ap)"
  shows "kv_inv s" "same_applier ap (kv_applier s)" "kv_snapshots s = snaps"
proof -
  have "same_applier ap (kv_applier t) \<and> kv_snapshots t = snaps \<and> (\<forall>n \<in> set ns. image_ok t n) \<and>
      (\<forall>n. n \<notin> set ns \<longrightarrow> kv_image t n = empty_image)"
    if "for_each load_image ns \<lparr>kv_applier = ap, kv_image = (\<lambda>_. empty_image), kv_snapshots = snaps\<rparr> = Inr t" "distinct ns" for ns t
    using that
  proof (induction ns arbitrary: t rule: rev_induct)
    case (snoc n ns)
    then obtain t1 where t1: "for_each load_image ns \<lparr>kv_applier = ap, kv_image = (\<lambda>_. empty_image), kv_snapshots = snaps\<rparr> = Inr t1"
      "load_image n t1 = Inr t" by (auto simp: for_each_append and_then_eq_Inr)
    note ih = snoc.IH[OF t1(1)]
    have "kv_image t1 n = empty_image" using ih snoc.prems(2) by simp
    note l = load_image_result[OF t1(2) this]
    have "image_ok t m" if "m \<in> set ns" for m
    proof (rule image_ok_frame)
      show "image_ok t1 m" using ih snoc.prems(2) that by simp
      show "kv_image t m = kv_image t1 m" using l(2)[of m] snoc.prems(2) that by auto
    qed (use l in \<open>simp_all add: same_applier_def\<close>)
    then show ?case using ih l snoc.prems(2) by (auto intro: same_applier_trans)
  qed simp
  from this[OF ok[unfolded ReplicatedKV_def] d] inv
  show "kv_inv s" "same_applier ap (kv_applier s)" "kv_snapshots s = snaps"
    by (auto simp: kv_inv_def same_applier_inv) (simp add: same_applier_def)
qed

lemma kv_apply_result:
  assumes inv: "kv_inv s" and ok: "kv_apply_committed n s = Inr (rs, s')"
  shows "kv_inv s'" "kv_snapshots s' = kv_snapshots s" "kv_nodes s' = kv_nodes s"
    "commands s' n = commands s n @ map (\<lambda>r. le_command (ae_entry r)) rs"
    "map ae_index rs = [ap_last (kv_applier s) n + 1..commit_index (kv_cluster s) n]"
    "\<And>m. m \<noteq> n \<Longrightarrow> commands s' m = commands s m \<and> kv_image s' m = kv_image s m"
    "ap_base_index (kv_applier s') = ap_base_index (kv_applier s)"
proof -
  obtain ap' where ap: "apply_committed n (kv_applier s) = Inr (rs, ap')"
    and run: "for_each (\<lambda>r. apply_command n (le_command (ae_entry r)) True (Some (ae_index r))) rs
                 (s\<lparr>kv_applier := ap'\<rparr>) = Inr s'"
    using ok by (auto simp: kv_apply_committed_def and_then_eq_Inr)
  have sm: "sm_inv (kv_applier s)" using inv by (simp add: kv_inv_def)
  note e = apply_committed_effect[OF sm ap]
  note r = apply_commands_result[OF run, simplified]
  show ns: "kv_nodes s' = kv_nodes s" using e r(4) by (simp add: same_applier_def sm_evolves_def)
  show "kv_snapshots s' = kv_snapshots s" by (rule r(3))
  show c: "commands s' n = commands s n @ map (\<lambda>r. le_command (ae_entry r)) rs"
    using e r(4) by (simp add: commands_def same_applier_def)
  show "map ae_index rs = [ap_last (kv_applier s) n + 1..commit_index (kv_cluster s) n]" using e by simp
  have f: "ap_applied (kv_applier s') m = ap_applied (kv_applier s) m" if "m \<noteq> n" for m
    using e r(4) that by (simp add: same_applier_def)
  show m: "commands s' m = commands s m \<and> kv_image s' m = kv_image s m" if "m \<noteq> n" for m
    using f[OF that] r(2)[OF that] by (simp add: commands_def)
  have b: "ap_base_index (kv_applier s') = ap_base_index (kv_applier s)" "ap_base_term (kv_applier s') = ap_base_term (kv_applier s)"
    using e r(4) by (simp_all add: same_applier_def)
  then show "ap_base_index (kv_applier s') = ap_base_index (kv_applier s)" by simp
  have n: "n \<in> set (kv_nodes s)" using e by simp
  have "base_image s' n = base_image s n" using b r(3) by (simp add: base_image_def)
  moreover have "image_ok s n" using inv n by (simp add: kv_inv_def)
  then obtain b where "base_image s n = Inr b" "for_each apply_image (commands s n) b = Inr (kv_image s n)"
    unfolding image_ok_def and_then_eq_Inr by blast
  ultimately have "image_ok s' n"
    using r(1) by (simp add: image_ok_def c for_each_append)
  moreover have "image_ok s' m" if "m \<in> set (kv_nodes s)" "m \<noteq> n" for m
  proof (rule image_ok_frame)
    show "image_ok s m" using inv that(1) by (simp add: kv_inv_def)
    show "kv_image s' m = kv_image s m" using r(2)[OF that(2)] by simp
  qed (use b r(3) f[OF that(2)] in simp_all)
  ultimately show "kv_inv s'" using e same_applier_inv[OF r(4)] ns by (auto simp: kv_inv_def)
qed

text \<open>The store in use: the cluster may change in any way between two applications.\<close>

inductive kv_step :: "replicated_kv \<Rightarrow> replicated_kv \<Rightarrow> bool" where
  cluster: "rf_node_ids c = kv_nodes s \<Longrightarrow> kv_step s (s\<lparr>kv_applier := (kv_applier s)\<lparr>ap_cluster := c\<rparr>\<rparr>)"
| applied: "kv_apply_committed n s = Inr (rs, s') \<Longrightarrow> kv_step s s'"

lemma kv_step_inv: "kv_step s s' \<Longrightarrow> kv_inv s \<Longrightarrow> kv_inv s' \<and> kv_nodes s' = kv_nodes s \<and> kv_snapshots s' = kv_snapshots s \<and>
    ap_base_index (kv_applier s') = ap_base_index (kv_applier s)"
proof (induction rule: kv_step.induct)
  case (cluster c s)
  then have "same_applier (kv_applier s) ((kv_applier s)\<lparr>ap_cluster := c\<rparr>)" by (simp add: same_applier_def)
  then show ?case using cluster same_applier_inv
    by (auto simp: kv_inv_def image_ok_def base_image_def commands_def)
next
  case (applied n s rs s')
  show ?case using kv_apply_result[OF applied(2,1)] by simp
qed

definition kv_reachable :: "(string \<Rightarrow> kv_snapshot option) \<Rightarrow> replicated_kv \<Rightarrow> bool" where
  "kv_reachable snaps s \<longleftrightarrow> (\<exists>cluster durable ap0 ap s0. StateMachineApplier cluster durable = Inr ap0 \<and> sm_step\<^sup>*\<^sup>* ap0 ap \<and>
     distinct (ap_nodes ap) \<and> ReplicatedKV ap snaps = Inr s0 \<and> kv_step\<^sup>*\<^sup>* s0 s)"

lemma kv_steps_inv: "kv_step\<^sup>*\<^sup>* s s' \<Longrightarrow> kv_inv s \<Longrightarrow> kv_inv s' \<and> kv_nodes s' = kv_nodes s \<and> kv_snapshots s' = kv_snapshots s \<and>
    ap_base_index (kv_applier s') = ap_base_index (kv_applier s)"
  by (induction rule: rtranclp_induct) (auto dest: kv_step_inv)

lemma kv_reachable_inv: "kv_reachable snaps s \<Longrightarrow> kv_inv s \<and> kv_snapshots s = snaps \<and> distinct (kv_nodes s)"
proof -
  assume "kv_reachable snaps s"
  then obtain cluster durable ap0 ap s0 where a: "StateMachineApplier cluster durable = Inr ap0" "sm_step\<^sup>*\<^sup>* ap0 ap"
    "distinct (ap_nodes ap)" "ReplicatedKV ap snaps = Inr s0" "kv_step\<^sup>*\<^sup>* s0 s" unfolding kv_reachable_def by blast
  have "sm_inv ap" by (rule sm_reachable_inv[OF a(1,2)])
  from store_start[OF a(4) this a(3)] kv_steps_inv[OF a(5)] a(3) show ?thesis by (simp add: same_applier_def)
qed

text \<open>C20. Live and recovered stores agree: in every reachable store, each node's image is the replay of
  its applied commands from its snapshot boundary (from nothing when there is none), and a store
  rebuilt from the same applier and snapshots, when it is accepted, has exactly the same values
  and the same recorded requests on every node.\<close>

theorem rebuilt_store_agrees:
  assumes "kv_reachable snaps s" and "n \<in> set (kv_nodes s)"
  shows "and_then (base_image s n) (for_each apply_image (commands s n)) = Inr (kv_image s n) \<and>
    (\<forall>s'. ReplicatedKV (kv_applier s) snaps = Inr s' \<longrightarrow> kv_image s' n = kv_image s n)"
proof (intro conjI allI impI)
  note inv = kv_reachable_inv[OF assms(1)]
  show live: "and_then (base_image s n) (for_each apply_image (commands s n)) = Inr (kv_image s n)"
    using inv assms(2) by (simp add: kv_inv_def image_ok_def)
  fix s' assume "ReplicatedKV (kv_applier s) snaps = Inr s'"
  from store_start[OF this] inv have r: "kv_inv s'" "same_applier (kv_applier s) (kv_applier s')" "kv_snapshots s' = snaps"
    by (auto simp: kv_inv_def)
  have "base_image s' n = base_image s n" "commands s' n = commands s n" "n \<in> set (kv_nodes s')"
    using r(2,3) inv assms(2) by (simp_all add: base_image_def commands_def same_applier_def)
  then show "kv_image s' n = kv_image s n" using r(1) live by (auto simp: kv_inv_def image_ok_def)
qed

text \<open>Replica consistency: in every reachable store in which nodes with the same snapshot boundary
  hold the same snapshot, \<open>assert_replica_consistency\<close> never raises: replicas with equal applied
  prefixes have equal values and equal recorded requests.\<close>

lemma replica_consistency_passes:
  assumes "kv_reachable snaps s"
    and "\<forall>n \<in> set (kv_nodes s). \<forall>m \<in> set (kv_nodes s). ap_base_index (kv_applier s) n = ap_base_index (kv_applier s) m \<longrightarrow> snaps n = snaps m"
  shows "assert_replica_consistency s = Inr ()"
proof -
  note inv = kv_reachable_inv[OF assms(1)]
  define pre where "pre n = (ap_base_index (kv_applier s) n, ap_base_term (kv_applier s) n, map ae_entry (ap_applied (kv_applier s) n))" for n
  have same: "kv_image s n = kv_image s m" if "n \<in> set (kv_nodes s)" "m \<in> set (kv_nodes s)" "pre n = pre m" for n m
  proof -
    have bb: "ap_base_index (kv_applier s) n = ap_base_index (kv_applier s) m" using that(3) by (simp add: pre_def)
    have "snaps n = snaps m" by (rule assms(2)[rule_format, OF that(1,2) bb])
    then have b: "base_image s n = base_image s m" using that inv by (simp add: base_image_def pre_def)
    have "map le_command (map ae_entry (ap_applied (kv_applier s) n)) = map le_command (map ae_entry (ap_applied (kv_applier s) m))"
      using that(3) by (simp only: pre_def prod.inject)
    then have c: "commands s n = commands s m" by (simp add: commands_def comp_def)
    have "image_ok s n" "image_ok s m" using inv that by (simp_all add: kv_inv_def)
    then show ?thesis unfolding image_ok_def b c by simp
  qed
  define ok where "ok = (\<lambda>t :: prefix_table. \<forall>k img. map_of t k = Some img \<longrightarrow> (\<exists>m \<in> set (kv_nodes s). k = pre m \<and> img = kv_image s m))"
  have "outcome {} ok (for_each (compare_node s) (kv_nodes s) [])"
  proof (rule outcome_for_each)
    show "ok []" by (simp add: ok_def)
    fix n t assume n: "n \<in> set (kv_nodes s)" and t: "ok t"
    have "img = kv_image s n" if "map_of t (pre n) = Some img" for img
      using t that same[OF n] unfolding ok_def by metis
    moreover have "ok (setdefault (pre n) (kv_image s n) t)"
      using t n unfolding ok_def by (auto simp: map_of_setdefault split: if_splits)
    ultimately show "outcome {} ok (compare_node s n t)"
      using n by (auto simp: compare_node_def applied_base_index_def applied_base_term_def applied_entries_def
          require_node_def pre_def dict_eq_def Let_def split: option.splits)
  qed
  then show ?thesis by (auto simp: assert_replica_consistency_def outcome_Inr_iff)
qed

section \<open>Exactly-once sessions\<close>

text \<open>
  The abstract store: a map of values and, per client, the largest request identifier seen. A
  client request takes effect when its identifier exceeds every earlier one of that client.
\<close>

type_synonym session_store = "(string \<Rightarrow> string option) \<times> (string \<Rightarrow> int)"

fun run_operation :: "kv_operation \<Rightarrow> (string \<Rightarrow> string option) \<Rightarrow> (string \<Rightarrow> string option)" where
  "run_operation (Put k v) m = m(k \<mapsto> v)"
| "run_operation (Delete k) m = m(k := None)"

fun session_step :: "kv_command \<Rightarrow> session_store \<Rightarrow> session_store" where
  "session_step (Operation w) (m, latest) = (run_operation w m, latest)"
| "session_step (Request r) (m, latest) =
     (if latest (cr_client r) < cr_request r
      then (run_operation (cr_operation r) m, latest(cr_client r := cr_request r)) else (m, latest))"
| "session_step _ (m, latest) = (m, latest)"

definition session_view :: "kv_image \<Rightarrow> session_store" where
  "session_view img = (map_of (im_state img), \<lambda>client. latest_request_id client (im_requests img))"

fun valid_command :: "kv_command \<Rightarrow> bool" where
  "valid_command (Request r) \<longleftrightarrow> 0 \<le> cr_request r"
| "valid_command _ \<longleftrightarrow> True"

definition image_wf :: "kv_image \<Rightarrow> bool" where
  "image_wf img \<longleftrightarrow> distinct (map fst (im_state img)) \<and> distinct (map fst (im_requests img)) \<and>
     (\<forall>(c, i) \<in> fst ` set (im_requests img). 0 \<le> i)"

text \<open>A step function refines an abstract one when it commutes with the view on good states; a run
  of the concrete steps then refines the fold of the abstract ones.\<close>

locale step_refinement =
  fixes view :: "'s \<Rightarrow> 'a" and good :: "'s \<Rightarrow> bool" and valid :: "'c \<Rightarrow> bool"
    and step :: "'c \<Rightarrow> 's \<Rightarrow> 's result" and spec :: "'c \<Rightarrow> 'a \<Rightarrow> 'a"
  assumes step_refines: "good s \<Longrightarrow> valid c \<Longrightarrow> step c s = Inr s' \<Longrightarrow> good s' \<and> view s' = spec c (view s)"
begin

lemma run_refines: "good s \<Longrightarrow> \<forall>c \<in> set cs. valid c \<Longrightarrow> for_each step cs s = Inr s' \<Longrightarrow> good s' \<and> view s' = fold spec cs (view s)"
proof (induction cs arbitrary: s)
  case (Cons c cs)
  then obtain t where t: "step c s = Inr t" "for_each step cs t = Inr s'" by (auto simp: and_then_eq_Inr)
  from step_refines[OF Cons.prems(1) _ t(1)] Cons.prems(2) have "good t" "view t = spec c (view s)" by auto
  with Cons.IH[OF _ _ t(2)] Cons.prems(2) show ?case by simp
qed simp

end

definition ids_of :: "string \<Rightarrow> ((string \<times> int) \<times> kv_operation) list \<Rightarrow> int set" where
  "ids_of client d = {i. (client, i) \<in> fst ` set d}"

lemma latest_request_id_Max:
  "latest_request_id client d = (if ids_of client d = {} then -1 else Max (ids_of client d))" "finite (ids_of client d)"
proof -
  let ?l = "map (\<lambda>((_, i), _). i) (filter (\<lambda>((owner, _), _). owner = client) d)"
  have st: "set ?l = ids_of client d" by (force simp: ids_of_def)
  then show "finite (ids_of client d)" using finite_set by metis
  show "latest_request_id client d = (if ids_of client d = {} then -1 else Max (ids_of client d))"
    unfolding latest_request_id_def st[symmetric] by (cases ?l) (simp_all del: set_map set_filter add: Max.set_eq_fold[symmetric])
qed

lemma ids_of_update: "ids_of client (AList.update (c, i) w d) = (if client = c then insert i (ids_of client d) else ids_of client d)"
  using arg_cong[OF update_keys[of "(c, i)" w d], of set] by (auto simp: ids_of_def split: if_splits)

lemma latest_update:
  assumes "latest_request_id c d \<le> i"
  shows "latest_request_id client (AList.update (c, i) w d) = (if client = c then i else latest_request_id client d)"
proof -
  have "y \<le> i" if "y \<in> ids_of c d" for y
    using that assms Max_ge[OF latest_request_id_Max(2) that] by (auto simp: latest_request_id_Max(1) split: if_splits)
  then have "Max (insert i (ids_of c d)) = i" using latest_request_id_Max(2)[of c d] by (intro Max_eqI) auto
  then show ?thesis by (simp add: latest_request_id_Max(1) ids_of_update)
qed

lemma recorded_at_most_latest: "map_of d (c, i) \<noteq> None \<Longrightarrow> i \<le> latest_request_id c d"
  using latest_request_id_Max(2)[of c d] by (auto simp: latest_request_id_Max(1) ids_of_def map_of_eq_None_iff intro: Max_ge)

lemma unrecorded_latest:
  assumes "map_of d (c, i) = None" and "\<not> i < latest_request_id c d" and "0 \<le> i"
  shows "latest_request_id c d < i"
proof (cases "ids_of c d = {}")
  case False
  then have "Max (ids_of c d) \<in> ids_of c d" using latest_request_id_Max(2) by (rule Max_in[rotated])
  moreover have "i \<notin> ids_of c d" using assms(1) by (simp add: ids_of_def map_of_eq_None_iff)
  ultimately have "i \<noteq> Max (ids_of c d)" by metis
  then show ?thesis using assms(2) False by (simp add: latest_request_id_Max(1))
qed (use assms in \<open>simp add: latest_request_id_Max(1)\<close>)

lemma execute_refines:
  assumes "execute_operation (Operation w) d = Inr d'" and "distinct (map fst d)"
  shows "distinct (map fst d')" "map_of d' = run_operation w (map_of d)"
  using assms by (cases w; auto simp: distinct_update distinct_delete update_conv' delete_conv')+

interpretation kv_session: step_refinement session_view image_wf valid_command apply_image session_step
proof (unfold_locales, goal_cases)
  case (1 img c img')
  have upd: "image_wf \<lparr>im_state = d, im_requests = AList.update (cl, i) w (im_requests img)\<rparr>"
    if "distinct (map fst d)" "0 \<le> i" for d cl i w
    using 1(1) that arg_cong[OF update_keys[of "(cl, i)" w "im_requests img"], of set]
    by (auto simp: image_wf_def distinct_update split: if_splits)
  show ?case
  proof (cases c)
    case (Operation w)
    then obtain d where d: "execute_operation (Operation w) (im_state img) = Inr d" "img' = \<lparr>im_state = d, im_requests = im_requests img\<rparr>"
      using 1(3) by (auto simp: apply_image_def classify_def and_then_eq_Inr)
    then show ?thesis using execute_refines[OF d(1)] 1(1) Operation by (simp add: image_wf_def session_view_def)
  next
    case (Request r)
    let ?id = "(cr_client r, cr_request r)" and ?d = "im_requests img"
    have pos: "0 \<le> cr_request r" using 1(2) Request by simp
    show ?thesis
    proof (cases "map_of ?d ?id")
      case (Some w)
      then have "img' = img" using 1(3) Request by (auto simp: apply_image_def classify_def Let_def and_then_eq_Inr split: if_splits)
      moreover have "\<not> latest_request_id (cr_client r) ?d < cr_request r" using recorded_at_most_latest[of ?d] Some by (simp add: not_less)
      ultimately show ?thesis using Request 1(1) by (simp add: session_view_def)
    next
      case None
      show ?thesis
      proof (cases "cr_request r < latest_request_id (cr_client r) ?d")
        case True
        then have "img' = img" using 1(3) Request None by (auto simp: apply_image_def classify_def Let_def and_then_eq_Inr)
        then show ?thesis using Request 1(1) True by (simp add: session_view_def)
      next
        case False
        then obtain d where d: "execute_operation (Operation (cr_operation r)) (im_state img) = Inr d"
          "img' = \<lparr>im_state = d, im_requests = AList.update ?id (cr_operation r) ?d\<rparr>"
          using 1(3) Request None by (auto simp: apply_image_def classify_def Let_def and_then_eq_Inr)
        have lt: "latest_request_id (cr_client r) ?d < cr_request r" by (rule unrecorded_latest[OF None False pos])
        have "distinct (map fst (im_state img))" using 1(1) by (simp add: image_wf_def)
        then show ?thesis
          using execute_refines[OF d(1)] upd[of d] pos lt latest_update[of "cr_client r" ?d "cr_request r"] Request d(2)
          by (auto simp: session_view_def)
      qed
    qed
  next
    case CommitRecoveryBarrier
    then have "img' = img" using 1(3) by (cases img) (simp add: apply_image_def classify_def)
    then show ?thesis using 1(1) CommitRecoveryBarrier by (simp add: session_view_def)
  next
    case (MembershipControl x)
    then have "img' = img" using 1(3) by (simp add: apply_image_def)
    then show ?thesis using 1(1) MembershipControl by (simp add: session_view_def)
  next
    case (ForeignCommand x)
    then show ?thesis using 1(3) by (simp add: apply_image_def classify_def)
  qed
qed

lemma replay_from_start:
  assumes "kv_reachable snaps s" and "n \<in> set (kv_nodes s)" and "ap_base_index (kv_applier s) n = 0"
  shows "for_each apply_image (commands s n) empty_image = Inr (kv_image s n)"
proof -
  have ok: "image_ok s n" using kv_reachable_inv[OF assms(1)] assms(2) unfolding kv_inv_def by blast
  have "base_image s n = Inr empty_image" unfolding base_image_def base_image_of_def assms(3) by simp
  with ok show ?thesis unfolding image_ok_def by simp
qed

text \<open>C4. Exactly-once client sessions: in every reachable store, on a node without a snapshot boundary
  whose applied client requests carry the non-negative identifiers their constructor enforces,
  reading a key gives the value of the abstract session store after the node's applied commands:
  plain operations always take effect, a client request takes effect once and only when its
  identifier is larger than every earlier one of its client, and barriers and membership
  commands change nothing.\<close>

theorem kv_exactly_once:
  assumes "kv_reachable snaps s" and "n \<in> set (kv_nodes s)" and "ap_base_index (kv_applier s) n = 0"
    and "\<forall>c \<in> set (commands s n). valid_command c"
  shows "kv_get n key s = Inr (fst (fold session_step (commands s n) (Map.empty, \<lambda>_. -1)) key)"
proof -
  have "for_each apply_image (commands s n) empty_image = Inr (kv_image s n)"
    by (rule replay_from_start[OF assms(1-3)])
  moreover have "image_wf empty_image" "session_view empty_image = (Map.empty, \<lambda>_. -1)"
    by (simp_all add: image_wf_def session_view_def empty_image_def latest_request_id_def)
  ultimately have "session_view (kv_image s n) = fold session_step (commands s n) (Map.empty, \<lambda>_. -1)"
    using kv_session.run_refines[of empty_image "commands s n" "kv_image s n"] assms(4) by simp
  from this[symmetric] show ?thesis using assms(2) by (simp add: kv_get_def kv_require_node_def session_view_def)
qed

section \<open>When a store can be rebuilt\<close>

definition consistent_requests :: "kv_command list \<Rightarrow> bool" where
  "consistent_requests cs \<longleftrightarrow> (\<forall>a b. Request a \<in> set cs \<longrightarrow> Request b \<in> set cs \<longrightarrow>
     cr_client a = cr_client b \<longrightarrow> cr_request a = cr_request b \<longrightarrow> cr_operation a = cr_operation b)"

lemma replay_supported: "for_each apply_image cs img = Inr img' \<Longrightarrow> ForeignCommand x \<notin> set cs"
  by (induction cs arbitrary: img) (auto simp: and_then_eq_Inr apply_image_def classify_def)

lemma validate_entries_ok: "\<forall>x. ForeignCommand x \<notin> le_command ` set entries \<Longrightarrow> validate_entries entries = Inr ()"
  unfolding validate_entries_def
proof (induction entries)
  case (Cons e es)
  from Cons.prems have "ForeignCommand x \<noteq> le_command e" for x by auto
  then show ?case using Cons by (cases "le_command e") (auto simp: image_iff)
qed simp

lemma conflicts_pass:
  assumes "consistent_requests cs" and "map le_command entries = cs"
  shows "validate_request_conflicts [] entries = Inr ()"
proof -
  let ?step = "\<lambda>entry seen. case le_command entry of
       Request r \<Rightarrow>
         (let identity = (cr_client r, cr_request r)
          in case map_of seen identity of
               Some previous \<Rightarrow> if previous \<noteq> cr_operation r then Inl ClientRequestConflict else Inr seen
             | None \<Rightarrow> Inr (setdefault identity (cr_operation r) seen))
     | _ \<Rightarrow> Inr seen"
  let ?ok = "\<lambda>seen. \<forall>c i w. map_of seen (c, i) = Some w \<longrightarrow> (\<exists>r. Request r \<in> set cs \<and> cr_client r = c \<and> cr_request r = i \<and> cr_operation r = w)"
  have "outcome {} ?ok (for_each ?step entries [])"
  proof (rule outcome_for_each)
    fix entry seen assume e: "entry \<in> set entries" and ok: "?ok seen"
    show "outcome {} ?ok (?step entry seen)"
    proof (cases "le_command entry")
      case (Request r)
      then have "Request r \<in> set cs" using e assms(2) by (metis image_eqI list.set_map)
      show ?thesis
      proof (cases "map_of seen (cr_client r, cr_request r)")
        case None
        have "?ok (setdefault (cr_client r, cr_request r) (cr_operation r) seen)"
          using ok \<open>Request r \<in> set cs\<close> by (auto simp: map_of_setdefault split: if_splits)
        then show ?thesis using Request None by simp
      next
        case (Some w)
        then obtain q where "Request q \<in> set cs" "cr_client q = cr_client r" "cr_request q = cr_request r" "cr_operation q = w"
          using ok by blast
        then have "w = cr_operation r"
          using assms(1) \<open>Request r \<in> set cs\<close> unfolding consistent_requests_def by metis
        then show ?thesis using Request Some ok by simp
      qed
    qed (use ok in simp_all)
  qed simp
  then show ?thesis by (auto simp: validate_request_conflicts_def outcome_Inr_iff)
qed

text \<open>A reachable store without snapshot boundaries can be rebuilt from its applier whenever, on
  every node, requests applied under one identity carry one operation; the rebuilt store then has
  the live images.\<close>

lemma store_can_be_rebuilt:
  assumes "kv_reachable snaps s" and "\<forall>n \<in> set (kv_nodes s). ap_base_index (kv_applier s) n = 0"
    and "\<forall>n \<in> set (kv_nodes s). consistent_requests (commands s n)"
  shows "\<exists>s'. ReplicatedKV (kv_applier s) snaps = Inr s' \<and> (\<forall>n \<in> set (kv_nodes s). kv_image s' n = kv_image s n)"
proof -
  note inv = kv_reachable_inv[OF assms(1)]
  have "\<exists>t. for_each load_image ns \<lparr>kv_applier = kv_applier s, kv_image = (\<lambda>_. empty_image), kv_snapshots = snaps\<rparr> = Inr t \<and>
      same_applier (kv_applier s) (kv_applier t) \<and> (\<forall>n. n \<in> set ns \<longrightarrow> kv_image t n = kv_image s n) \<and>
      (\<forall>n. n \<notin> set ns \<longrightarrow> kv_image t n = empty_image)" if "set ns \<subseteq> set (kv_nodes s)" "distinct ns" for ns
    using that
  proof (induction ns rule: rev_induct)
    case (snoc n ns)
    then obtain t where t: "for_each load_image ns \<lparr>kv_applier = kv_applier s, kv_image = (\<lambda>_. empty_image), kv_snapshots = snaps\<rparr> = Inr t"
      "same_applier (kv_applier s) (kv_applier t)" "\<forall>n. n \<in> set ns \<longrightarrow> kv_image t n = kv_image s n" "\<forall>n. n \<notin> set ns \<longrightarrow> kv_image t n = empty_image"
      by auto
    let ?es = "map ae_entry (ap_applied (kv_applier s) n)"
    have n: "n \<in> set (kv_nodes s)" "kv_image t n = empty_image" using snoc.prems t(4) by auto
    have cs: "map le_command ?es = commands s n" by (simp add: commands_def comp_def)
    have live: "for_each apply_image (commands s n) empty_image = Inr (kv_image s n)"
      using replay_from_start[OF assms(1) n(1)] assms(2) n(1) by blast
    have "validate_entries ?es = Inr ()"
      using replay_supported[OF live] arg_cong[OF cs, of set] by (intro validate_entries_ok) (metis set_map)
    moreover have "validate_request_conflicts [] ?es = Inr ()" using conflicts_pass[OF _ cs] assms(3) n(1) by blast
    moreover have "for_each apply_image (map le_command ?es) (kv_image t n) = Inr (kv_image s n)" using live cs n(2) by simp
    then obtain u where u: "for_each (\<lambda>entry. apply_command n (le_command entry) False None) ?es t = Inr u"
      "kv_image u = (kv_image t)(n := kv_image s n)" "same_applier (kv_applier t) (kv_applier u)"
      using apply_commands_image[of n le_command False "\<lambda>_. None" ?es t] by auto
    moreover have "applied_base_index n (kv_applier t) = Inr 0" "applied_entries n (kv_applier t) = Inr ?es"
      using t(2) n(1) assms(2) by (simp_all add: applied_base_index_def applied_entries_def require_node_def same_applier_def)
    ultimately have "load_image n t = Inr u"
      using n(2) by (simp add: load_image_def restore_snapshot_boundary_def empty_image_def)
    then show ?case using t u same_applier_trans[OF t(2) u(3)] snoc.prems(2) by (auto simp: for_each_append)
  qed simp
  from this[OF order_refl] inv show ?thesis unfolding ReplicatedKV_def by auto
qed

section \<open>A concrete store\<close>

text \<open>Two nodes hold the same log of three client requests; the second and third reuse an identity
  below the first one with different operations, so both are stale.\<close>

definition stale_log :: "kv_command log_entry list" where
  "stale_log = [LogEntry 1 (Request \<lparr>cr_client = ''c'', cr_request = 5, cr_operation = Put ''x'' ''1''\<rparr>),
     LogEntry 1 (Request \<lparr>cr_client = ''c'', cr_request = 3, cr_operation = Put ''x'' ''2''\<rparr>),
     LogEntry 1 (Request \<lparr>cr_client = ''c'', cr_request = 3, cr_operation = Put ''x'' ''3''\<rparr>)]"

definition kv_demo_cluster :: "int \<Rightarrow> kv_command raft" where
  "kv_demo_cluster k = set_vol ''a'' (\<lambda>v. v\<lparr>rf_commit := k\<rparr>) (set_vol ''b'' (\<lambda>v. v\<lparr>rf_commit := k\<rparr>)
     (projr (RaftCluster (sim_init [] raft_type_name (\<lambda>_. fresh_raft\<lparr>rf_term := 1, rf_log := stale_log\<rparr>)) [''a'', ''b''] None)))"

definition kv_demo_ap :: "kv_command applier" where
  "kv_demo_ap = projr (StateMachineApplier (kv_demo_cluster 2) (\<lambda>_. fresh_sm))"

definition kv_demo0 :: replicated_kv where
  "kv_demo0 = projr (ReplicatedKV kv_demo_ap (\<lambda>_. None))"

definition kv_demo1 :: replicated_kv where
  "kv_demo1 = snd (projr (kv_apply_committed ''a'' kv_demo0))"

definition kv_demo2 :: replicated_kv where
  "kv_demo2 = kv_demo1\<lparr>kv_applier := (kv_applier kv_demo1)\<lparr>ap_cluster := kv_demo_cluster 3\<rparr>\<rparr>"

definition kv_demo3 :: replicated_kv where
  "kv_demo3 = snd (projr (kv_apply_committed ''a'' kv_demo2))"

lemma kv_demo_runs:
  "\<not> isl (StateMachineApplier (kv_demo_cluster 2) (\<lambda>_. fresh_sm))" "\<not> isl (ReplicatedKV kv_demo_ap (\<lambda>_. None))"
  "\<not> isl (kv_apply_committed ''a'' kv_demo0)" "\<not> isl (kv_apply_committed ''a'' kv_demo2)"
  by code_simp+

lemma kv_demo_facts:
  "ap_nodes kv_demo_ap = [''a'', ''b'']" "kv_nodes kv_demo1 = [''a'', ''b'']" "kv_nodes kv_demo3 = [''a'', ''b'']"
  "rf_node_ids (kv_demo_cluster 3) = [''a'', ''b'']"
  "ap_base_index (kv_applier kv_demo1) ''a'' = 0" "ap_base_index (kv_applier kv_demo1) ''b'' = 0"
  "commands kv_demo1 ''a'' = map le_command (take 2 stale_log)" "commands kv_demo1 ''b'' = []"
  "commands kv_demo3 ''a'' = map le_command stale_log"
  by code_simp+

lemma kv_demo_reachable: "kv_reachable (\<lambda>_. None) kv_demo1" "kv_reachable (\<lambda>_. None) kv_demo3"
proof -
  have 0: "StateMachineApplier (kv_demo_cluster 2) (\<lambda>_. fresh_sm) = Inr kv_demo_ap"
    "ReplicatedKV kv_demo_ap (\<lambda>_. None) = Inr kv_demo0"
    "kv_apply_committed ''a'' kv_demo0 = Inr (fst (projr (kv_apply_committed ''a'' kv_demo0)), kv_demo1)"
    "kv_apply_committed ''a'' kv_demo2 = Inr (fst (projr (kv_apply_committed ''a'' kv_demo2)), kv_demo3)"
    using kv_demo_runs by (simp_all add: kv_demo_ap_def kv_demo0_def kv_demo1_def kv_demo3_def sum.collapse(2))
  have d: "distinct (ap_nodes kv_demo_ap)" unfolding kv_demo_facts(1) by simp
  have 1: "kv_step\<^sup>*\<^sup>* kv_demo0 kv_demo1" using 0(3) by (blast intro: r_into_rtranclp kv_step.applied)
  have "kv_step kv_demo1 kv_demo2" unfolding kv_demo2_def by (rule kv_step.cluster) (simp add: kv_demo_facts(2,4))
  moreover have "kv_step kv_demo2 kv_demo3" using 0(4) by (rule kv_step.applied)
  ultimately have 3: "kv_step\<^sup>*\<^sup>* kv_demo0 kv_demo3" using 1 by (meson rtranclp.rtrancl_into_rtrancl)
  show "kv_reachable (\<lambda>_. None) kv_demo1" "kv_reachable (\<lambda>_. None) kv_demo3"
    unfolding kv_reachable_def using 0(1,2) d 1 3 by (blast intro: rtranclp.rtrancl_refl)+
qed

theorem kv_exactly_once_witness: "kv_get ''a'' ''x'' kv_demo1 = Inr (Some ''1'')"
proof -
  have "\<forall>c \<in> set (commands kv_demo1 ''a''). valid_command c" unfolding kv_demo_facts(7) by code_simp
  moreover have "fst (fold session_step (commands kv_demo1 ''a'') (Map.empty, \<lambda>_. -1)) ''x'' = Some ''1''"
    unfolding kv_demo_facts(7) by (simp add: stale_log_def)
  ultimately show ?thesis using kv_exactly_once[OF kv_demo_reachable(1), of "''a''" "''x''"] kv_demo_facts(2,5) by simp
qed

theorem rebuilt_store_agrees_witness:
  "kv_image (projr (ReplicatedKV (kv_applier kv_demo1) (\<lambda>_. None))) ''a'' = kv_image kv_demo1 ''a''"
proof -
  have "\<not> isl (ReplicatedKV (kv_applier kv_demo1) (\<lambda>_. None))" by code_simp
  then show ?thesis using rebuilt_store_agrees[OF kv_demo_reachable(1), of "''a''"] kv_demo_facts(2)
    by (simp add: sum.collapse(2))
qed

text \<open>C35. Without that condition the rebuild is refused: applying the log in two batches is accepted
  live, because a stale request leaves no record of its identity, while a restart validates the
  whole applied history at once and raises the conflict, so the durable state of a healthy node
  cannot be loaded again.\<close>

theorem stale_reuse_blocks_rebuild:
  "kv_reachable (\<lambda>_. None) kv_demo3 \<and> commands kv_demo3 ''a'' = map le_command stale_log \<and>
   kv_get ''a'' ''x'' kv_demo3 = Inr (Some ''1'') \<and>
   ReplicatedKV (kv_applier kv_demo3) (\<lambda>_. None) = Inl ClientRequestConflict"
proof -
  have "isl (ReplicatedKV (kv_applier kv_demo3) (\<lambda>_. None))"
    "projl (ReplicatedKV (kv_applier kv_demo3) (\<lambda>_. None)) = ClientRequestConflict" by code_simp+
  then have "ReplicatedKV (kv_applier kv_demo3) (\<lambda>_. None) = Inl ClientRequestConflict" by (metis sum.collapse(1))
  moreover have "kv_get ''a'' ''x'' kv_demo3 = Inr (Some ''1'')" by code_simp
  ultimately show ?thesis using kv_demo_reachable(2) kv_demo_facts(9) by blast
qed

end
