(* ===== verification/Voting.thy ===== *)
theory Voting
  imports Quorums
begin

text \<open>
  Stable and joint voting configurations, the class \<open>VotingConfiguration\<close> of
  \<^verbatim>\<open>src/src/distlab/membership.py\<close>. Every configuration is a quorum system, and a quorum of a joint
  configuration meets every quorum of the stable configuration before it and after it, which is
  what makes one leader per term survive a change of voters.
\<close>

section \<open>Configurations\<close>

record voting_configuration =
  vc_old :: "string set"
  vc_new :: "string set option"

definition VotingConfiguration :: "string set \<Rightarrow> string set option \<Rightarrow> voting_configuration result" where
  "VotingConfiguration old new =
     (if old = {} then Inl ValueError
      else if new = Some {} then Inl ValueError
      else Inr \<lparr>vc_old = old, vc_new = new\<rparr>)"

definition is_joint :: "voting_configuration \<Rightarrow> bool" where
  "is_joint c \<longleftrightarrow> vc_new c \<noteq> None"

definition voters :: "voting_configuration \<Rightarrow> string set" where
  "voters c = (case vc_new c of None \<Rightarrow> vc_old c | Some new \<Rightarrow> vc_old c \<union> new)"

definition voter_majority :: "string set \<Rightarrow> string set \<Rightarrow> bool" where
  "voter_majority electorate votes \<longleftrightarrow> card (electorate \<inter> votes) \<ge> card electorate div 2 + 1"

definition has_quorum :: "voting_configuration \<Rightarrow> string set \<Rightarrow> bool" where
  "has_quorum c votes =
     (if \<not> voter_majority (vc_old c) votes then False
      else case vc_new c of None \<Rightarrow> True | Some new \<Rightarrow> voter_majority new votes)"

section \<open>Quorums meet\<close>

lemma voter_majorities_meet:
  assumes "voter_majority V P" and "voter_majority V Q" and "finite V"
  shows "P \<inter> Q \<inter> V \<noteq> {}"
proof -
  have "card V < card (V \<inter> P) + card (V \<inter> Q)" using assms(1,2) unfolding voter_majority_def by linarith
  then have "(V \<inter> P) \<inter> (V \<inter> Q) \<noteq> {}" using assms(3) by (intro card_overlap[of V]) auto
  then show ?thesis by blast
qed

lemma finite_voters: "finite (voters c) \<Longrightarrow> finite (vc_old c)" "finite (voters c) \<Longrightarrow> vc_new c = Some new \<Longrightarrow> finite new"
  by (auto simp: voters_def split: option.splits)

lemma quorum_majorities:
  "has_quorum c P \<longleftrightarrow> voter_majority (vc_old c) P \<and> (\<forall>new. vc_new c = Some new \<longrightarrow> voter_majority new P)"
  by (auto simp: has_quorum_def split: option.splits)

text \<open>Python's frozen sets are finite; the model says so where it matters.\<close>

interpretation configured: quorum_system "\<lambda>P. finite (voters c) \<and> has_quorum c P" for c
proof
  fix P Q assume "finite (voters c) \<and> has_quorum c P" "finite (voters c) \<and> has_quorum c Q"
  then show "P \<inter> Q \<noteq> {}" using voter_majorities_meet[of "vc_old c" P Q] finite_voters(1)[of c] by (auto simp: quorum_majorities)
qed

text \<open>C39. Joint consensus: in one configuration two vote sets that both have a quorum share a
  voter; and a joint quorum shares a voter with every quorum of the stable configuration it leaves
  and with every quorum of the stable configuration it moves to. A single majority of the union of
  both voter sets would not do.\<close>

theorem joint_quorums_meet:
  assumes "has_quorum c P" and "finite (voters c)"
  shows "(has_quorum c Q \<longrightarrow> P \<inter> Q \<inter> voters c \<noteq> {}) \<and>
    (VotingConfiguration (vc_old c) None = Inr before \<and> has_quorum before Q \<longrightarrow> P \<inter> Q \<inter> vc_old c \<noteq> {}) \<and>
    (vc_new c = Some new \<and> VotingConfiguration new None = Inr after \<and> has_quorum after Q \<longrightarrow> P \<inter> Q \<inter> new \<noteq> {})"
proof -
  have old: "P \<inter> Q \<inter> vc_old c \<noteq> {}" if "voter_majority (vc_old c) Q"
    using assms that voter_majorities_meet[of "vc_old c" P Q] finite_voters(1) by (simp add: quorum_majorities)
  have new: "P \<inter> Q \<inter> new \<noteq> {}" if "voter_majority new Q" "vc_new c = Some new"
    using assms that voter_majorities_meet[of new P Q] finite_voters(2) by (simp add: quorum_majorities)
  have "vc_old c \<subseteq> voters c" by (auto simp: voters_def split: option.splits)
  then show ?thesis using old new
    by (auto simp: VotingConfiguration_def quorum_majorities split: if_splits)
qed

theorem joint_quorums_meet_witness:
  "{''a'', ''b'', ''d''} \<inter> {''b'', ''c''} \<inter> voters \<lparr>vc_old = {''a'', ''b'', ''c''}, vc_new = Some {''d''}\<rparr> \<noteq> {}"
proof -
  let ?c = "\<lparr>vc_old = {''a'', ''b'', ''c''}, vc_new = Some {''d''}\<rparr>"
  have "has_quorum ?c {''a'', ''b'', ''d''}" "has_quorum \<lparr>vc_old = {''a'', ''b'', ''c''}, vc_new = None\<rparr> {''b'', ''c''}"
    by code_simp+
  then show ?thesis
    using joint_quorums_meet[of ?c "{''a'', ''b'', ''d''}" "{''b'', ''c''}" "\<lparr>vc_old = {''a'', ''b'', ''c''}, vc_new = None\<rparr>"]
    by (simp add: VotingConfiguration_def voters_def)
qed

end
