(* ===== verification/Snapshots.thy ===== *)
theory Snapshots
  imports Replicated_KV_Safety Voting "HOL-Library.Product_Lexorder"
begin

text \<open>
  Durable snapshots of the replicated store, \<^verbatim>\<open>src/src/distlab/snapshot.py\<close>. The store owns the
  durable key \<open>kv_snapshot\<close> (the field \<open>kv_snapshots\<close> of the replicated store) and reads the
  durable membership watermark; \<open>ss_voting\<close> is the voting configuration of a reconfigurable
  cluster and \<open>None\<close> for a plain one.
\<close>

section \<open>Snapshot values\<close>

definition canonical_names :: "string list \<Rightarrow> unit result" where
  "canonical_names names =
     (if names = [] then Inl ValueError
      else if sort names \<noteq> names then Inl ValueError
      else if card (set names) \<noteq> length names then Inl ValueError
      else Inr ())"

definition SnapshotVotingConfiguration :: "int \<Rightarrow> string list \<Rightarrow> string list option \<Rightarrow> snapshot_voting result" where
  "SnapshotVotingConfiguration committed_index old_voters new_voters =
     (if committed_index < 0 then Inl ValueError
      else and_then (canonical_names old_voters) (\<lambda>_.
           and_then (case new_voters of None \<Rightarrow> Inr () | Some names \<Rightarrow> canonical_names names) (\<lambda>_.
             Inr \<lparr>sv_committed_index = committed_index, sv_old_voters = old_voters, sv_new_voters = new_voters\<rparr>)))"

definition KVSnapshot ::
  "int \<Rightarrow> int \<Rightarrow> (string \<times> string) list \<Rightarrow> snapshot_request list \<Rightarrow> snapshot_voting option \<Rightarrow> kv_snapshot result" where
  "KVSnapshot index t state requests voting =
     (if index \<le> 0 then Inl ValueError
      else if t < 0 then Inl ValueError
      else if sort state \<noteq> state then Inl ValueError
      else
        (let identities = map (\<lambda>item. (sr_client item, sr_request item)) requests
         in if identities \<noteq> sort identities \<or> length identities \<noteq> card (set identities) then Inl ValueError
            else if (case voting of None \<Rightarrow> False | Some membership \<Rightarrow> sv_committed_index membership > index)
            then Inl ValueError
            else Inr \<lparr>ks_index = index, ks_term = t, ks_state = state, ks_requests = requests, ks_voting = voting\<rparr>))"

section \<open>State\<close>

record snapshot_store =
  ss_kv :: replicated_kv
  ss_membership_commit :: "string \<Rightarrow> int"
  ss_voting :: "voting_configuration option"

abbreviation ss_applier :: "snapshot_store \<Rightarrow> kv_command applier" where
  "ss_applier s \<equiv> kv_applier (ss_kv s)"

abbreviation ss_cluster :: "snapshot_store \<Rightarrow> kv_command raft" where
  "ss_cluster s \<equiv> kv_cluster (ss_kv s)"

definition set_cluster :: "kv_command raft \<Rightarrow> snapshot_store \<Rightarrow> snapshot_store" where
  "set_cluster c s = s\<lparr>ss_kv := (ss_kv s)\<lparr>kv_applier := (ss_applier s)\<lparr>ap_cluster := c\<rparr>\<rparr>\<rparr>"

definition set_snapshot :: "string \<Rightarrow> kv_snapshot \<Rightarrow> snapshot_store \<Rightarrow> snapshot_store" where
  "set_snapshot n snap s = s\<lparr>ss_kv := (ss_kv s)\<lparr>kv_snapshots := (kv_snapshots (ss_kv s))(n \<mapsto> snap)\<rparr>\<rparr>"

definition ss_record :: "kv_command raft_event \<Rightarrow> snapshot_store \<Rightarrow> snapshot_store" where
  "ss_record ev s = s\<lparr>ss_kv := kv_record ev (ss_kv s)\<rparr>"

definition ss_require_node :: "string \<Rightarrow> snapshot_store \<Rightarrow> unit result" where
  "ss_require_node n s = (if n \<in> set (rf_node_ids (ss_cluster s)) then Inr () else Inl ValueError)"

definition latest :: "string \<Rightarrow> snapshot_store \<Rightarrow> kv_snapshot option result" where
  "latest n s = and_then (ss_require_node n s) (\<lambda>_. Inr (kv_snapshots (ss_kv s) n))"

section \<open>Creating and compacting\<close>

definition snapshot_client_requests :: "string \<Rightarrow> snapshot_store \<Rightarrow> snapshot_request list result" where
  "snapshot_client_requests n s =
     and_then (client_requests n (ss_kv s)) (\<lambda>requests.
       Inr (map (\<lambda>(client, i). \<lparr>sr_client = client, sr_request = i, sr_operation = the (map_of requests (client, i))\<rparr>)
              (sort (map fst requests))))"

definition snapshot_voting_configuration :: "int \<Rightarrow> snapshot_store \<Rightarrow> snapshot_voting option result" where
  "snapshot_voting_configuration applied s =
     (case ss_voting s of
        None \<Rightarrow> Inr None
      | Some configuration \<Rightarrow>
          (let committed_index = Max (set (map (ss_membership_commit s) (rf_node_ids (ss_cluster s))))
           in if committed_index > applied then Inl ValueError
              else and_then (SnapshotVotingConfiguration committed_index (sorted_list_of_set (vc_old configuration))
                     (map_option sorted_list_of_set (vc_new configuration))) (\<lambda>v. Inr (Some v))))"

definition membership_index :: "kv_snapshot \<Rightarrow> int option" where
  "membership_index snap = map_option sv_committed_index (ks_voting snap)"

definition create :: "string \<Rightarrow> snapshot_store \<Rightarrow> (kv_snapshot \<times> snapshot_store) result" where
  "create n s =
     and_then (ss_require_node n s) (\<lambda>_.
     and_then (last_applied n (ss_applier s)) (\<lambda>last.
       if last = 0 then Inl ValueError
       else if last > last_log_index (ss_cluster s) n then Inl AssertionError
       else
         and_then (term_at (log_view (ss_cluster s) n) last) (\<lambda>t.
         and_then (kv_state n (ss_kv s)) (\<lambda>state.
         and_then (snapshot_client_requests n s) (\<lambda>requests.
         and_then (snapshot_voting_configuration last s) (\<lambda>voting.
         and_then (KVSnapshot last t (sort state) requests voting) (\<lambda>snap.
         and_then (latest n s) (\<lambda>previous.
           if (case previous of None \<Rightarrow> False | Some p \<Rightarrow> ks_index p > last) then Inl AssertionError
           else Inr (snap, ss_record (EvSnapshotPersist n (ks_index snap) (ks_term snap)
                      (int (length (ks_state snap))) (int (length (ks_requests snap))) (membership_index snap))
                    (set_snapshot n snap s))))))))))"

definition compact :: "string \<Rightarrow> snapshot_store \<Rightarrow> (kv_snapshot \<times> snapshot_store) result" where
  "compact n s =
     and_then (create n s) (\<lambda>(snap, s1).
       (let cl = ss_cluster s1;
            previous_base_index = rf_base_index (persistent_state cl n);
            previous_retained = int (length (rf_log (persistent_state cl n)))
        in and_then (compact_through (log_view cl n) (ks_index snap)) (\<lambda>compacted.
             if lv_base_term compacted \<noteq> ks_term snap then Inl AssertionError
             else
               (let s2 = set_cluster (set_durable n (\<lambda>d. d\<lparr>rf_log := lv_entries compacted,
                           rf_base_index := lv_base_index compacted, rf_base_term := lv_base_term compacted\<rparr>) cl) s1
                in and_then (sm_compact_through n (ks_index snap) (ks_term snap) (ss_applier s2)) (\<lambda>ap.
                     Inr (snap, ss_record (EvLogCompact n previous_base_index (lv_base_index compacted)
                            (lv_base_term compacted) previous_retained (int (length (lv_entries compacted))))
                          (s2\<lparr>ss_kv := (ss_kv s2)\<lparr>kv_applier := ap\<rparr>\<rparr>)))))))"

section \<open>Installing\<close>

definition validate_snapshot_membership :: "kv_snapshot \<Rightarrow> snapshot_store \<Rightarrow> unit result" where
  "validate_snapshot_membership snap s =
     (case ss_voting s of
        Some _ \<Rightarrow>
          (case ks_voting snap of
             None \<Rightarrow> Inl ValueError
           | Some membership \<Rightarrow>
               (let names = set (sv_old_voters membership) \<union>
                      (case sv_new_voters membership of None \<Rightarrow> {} | Some new \<Rightarrow> set new)
                in if \<not> names \<subseteq> set (rf_node_ids (ss_cluster s)) then Inl ValueError else Inr ()))
      | None \<Rightarrow> if ks_voting snap \<noteq> None then Inl ValueError else Inr ())"

definition validate_install_membership ::
  "string \<Rightarrow> kv_snapshot \<Rightarrow> kv_snapshot option \<Rightarrow> snapshot_store \<Rightarrow> unit result" where
  "validate_install_membership n snap previous s =
     (case ks_voting snap of
        None \<Rightarrow> Inr ()
      | Some membership \<Rightarrow>
          if sv_committed_index membership < ss_membership_commit s n then Inl ValueError
          else case previous of
            None \<Rightarrow> Inr ()
          | Some p \<Rightarrow>
              (case ks_voting p of
                 None \<Rightarrow> Inr ()
               | Some previous_membership \<Rightarrow>
                   if sv_committed_index previous_membership \<noteq> sv_committed_index membership then Inr ()
                   else if previous_membership \<noteq> membership then Inl ValueError else Inr ()))"

text \<open>The suffix of the local log that an install keeps.\<close>

definition retained_suffix :: "string \<Rightarrow> kv_snapshot \<Rightarrow> bool \<Rightarrow> snapshot_store \<Rightarrow> kv_command log_entry list result" where
  "retained_suffix n snap preserve_matching_suffix s =
     (if last_log_index (ss_cluster s) n > ks_index snap then
        (if \<not> preserve_matching_suffix then Inl ValueError
         else and_then (prefix_matches (log_view (ss_cluster s) n) (ks_index snap) (ks_term snap)) (\<lambda>matches.
           if \<not> matches then Inl ValueError
           else suffix_from (log_view (ss_cluster s) n) (ks_index snap + 1)))
      else Inr [])"

text \<open>The writes of an install: durable log and boundaries, the applier's and the store's own
  view of the node.\<close>

definition write_install :: "string \<Rightarrow> kv_snapshot \<Rightarrow> kv_command log_entry list \<Rightarrow> snapshot_store \<Rightarrow> snapshot_store" where
  "write_install n snap retained s =
     (let s1 = set_snapshot n snap s;
          c = set_durable n (\<lambda>d. d\<lparr>rf_log := retained, rf_base_index := ks_index snap, rf_base_term := ks_term snap\<rparr>)
                (ss_cluster s1);
          ap = (ss_applier s1)\<lparr>ap_cluster := c,
                 ap_durable := (ap_durable (ss_applier s1))(n := \<lparr>smd_applied = [],
                   smd_base_index = ks_index snap, smd_base_term = ks_term snap\<rparr>),
                 ap_base_index := (ap_base_index (ss_applier s1))(n := ks_index snap),
                 ap_base_term := (ap_base_term (ss_applier s1))(n := ks_term snap),
                 ap_applied := (ap_applied (ss_applier s1))(n := []),
                 ap_last := (ap_last (ss_applier s1))(n := ks_index snap)\<rparr>;
          kv = (ss_kv s1)\<lparr>kv_applier := ap,
                 kv_image := (kv_image (ss_kv s1))(n := \<lparr>im_state = dict_of (ks_state snap),
                   im_requests = dict_of (map (\<lambda>item. ((sr_client item, sr_request item), sr_operation item))
                     (ks_requests snap))\<rparr>)\<rparr>
      in s1\<lparr>ss_kv := kv, ss_membership_commit := (case ks_voting snap of
              None \<Rightarrow> ss_membership_commit s1
            | Some membership \<Rightarrow> (ss_membership_commit s1)(n := sv_committed_index membership))\<rparr>)"

definition install_commit :: "string \<Rightarrow> kv_snapshot \<Rightarrow> kv_command raft \<Rightarrow> kv_command raft result" where
  "install_commit n snap c =
     (if commit_index c n < ks_index snap then advance_commit_index n (ks_index snap) ''install-snapshot'' c else Inr c)"

definition install :: "string \<Rightarrow> kv_snapshot \<Rightarrow> bool \<Rightarrow> snapshot_store \<Rightarrow> snapshot_store result" where
  "install n snap preserve_matching_suffix s =
     and_then (latest n s) (\<lambda>previous.
       if (case previous of None \<Rightarrow> False | Some p \<Rightarrow> ks_index p > ks_index snap) then Inl ValueError
       else if (case previous of None \<Rightarrow> False | Some p \<Rightarrow> ks_index p = ks_index snap) then
         (if previous \<noteq> Some snap then Inl AssertionError else Inr s)
       else if ks_index snap < rf_base_index (persistent_state (ss_cluster s) n) then Inl ValueError
       else
         and_then (retained_suffix n snap preserve_matching_suffix s) (\<lambda>retained.
         and_then (last_applied n (ss_applier s)) (\<lambda>previous_applied.
           if previous_applied > ks_index snap then Inl ValueError
           else
             and_then (validate_snapshot_membership snap s) (\<lambda>_.
             and_then (validate_install_membership n snap previous s) (\<lambda>_.
               (let previous_base = rf_base_index (persistent_state (ss_cluster s) n);
                    previous_last = last_log_index (ss_cluster s) n;
                    s1 = write_install n snap retained s
                in and_then (install_commit n snap (ss_cluster s1)) (\<lambda>c.
                   (let s2 = ss_record (EvSnapshotInstall n previous_base previous_last previous_applied
                               (ks_index snap) (ks_term snap) (int (length retained)) (int (length (ks_state snap)))
                               (int (length (ks_requests snap))) (membership_index snap)) (set_cluster c s1)
                    in and_then (assert_log_matching (ss_cluster s2)) (\<lambda>_.
                       and_then (assert_state_machine_safety (ss_applier s2)) (\<lambda>_. Inr s2))))))))))"

section \<open>Validation against the applied history\<close>

fun snapshot_execute :: "kv_operation \<Rightarrow> (string \<times> string) list \<Rightarrow> (string \<times> string) list" where
  "snapshot_execute (Put k v) d = AList.update k v d"
| "snapshot_execute (Delete k) d = AList.delete k d"

type_synonym snapshot_replay = "(string \<times> string) list \<times> ((string \<times> int) \<times> snapshot_request) list"

fun replay_included :: "kv_command \<Rightarrow> snapshot_replay \<Rightarrow> snapshot_replay result" where
  "replay_included (MembershipControl _) (state, requests) = Inr (state, requests)"
| "replay_included (Request r) (state, requests) =
     (let identity = (cr_client r, cr_request r);
          item = \<lparr>sr_client = cr_client r, sr_request = cr_request r, sr_operation = cr_operation r\<rparr>
      in case map_of requests identity of
           Some previous \<Rightarrow> if previous \<noteq> item then Inl AssertionError else Inr (state, requests)
         | None \<Rightarrow> Inr (snapshot_execute (cr_operation r) state, AList.update identity item requests))"
| "replay_included (Operation w) (state, requests) = Inr (snapshot_execute w state, requests)"
| "replay_included CommitRecoveryBarrier (state, requests) = Inr (state, requests)"
| "replay_included (ForeignCommand _) (state, requests) = Inl TypeError"

definition validate_against_applied_history :: "string \<Rightarrow> kv_snapshot \<Rightarrow> snapshot_store \<Rightarrow> unit result" where
  "validate_against_applied_history n snap s =
     and_then (validate_snapshot_membership snap s) (\<lambda>_.
     and_then (applied_base_index n (ss_applier s)) (\<lambda>base_index.
     and_then (applied_base_term n (ss_applier s)) (\<lambda>base_term.
       if base_index > 0 then
         (if ks_index snap \<noteq> base_index then Inl AssertionError
          else if ks_term snap \<noteq> base_term then Inl AssertionError else Inr ())
       else
         and_then (applied_entries n (ss_applier s)) (\<lambda>history.
           if ks_index snap > int (length history) then Inl AssertionError
           else
             (let included = take (nat (ks_index snap)) history
              in if le_term (last included) \<noteq> ks_term snap then Inl AssertionError
                 else and_then (for_each replay_included (map le_command included) ([], [])) (\<lambda>(state, requests).
                   if sort state \<noteq> ks_state snap then Inl AssertionError
                   else if map (\<lambda>key. the (map_of requests key)) (sort (map fst requests)) \<noteq> ks_requests snap
                   then Inl AssertionError else Inr ()))))))"

definition KVSnapshotStore :: "replicated_kv \<Rightarrow> (string \<Rightarrow> int) \<Rightarrow> voting_configuration option \<Rightarrow> snapshot_store result" where
  "KVSnapshotStore kv membership_commit voting =
     (let s = \<lparr>ss_kv = kv, ss_membership_commit = membership_commit, ss_voting = voting\<rparr>
      in and_then (for_each (\<lambda>n _. and_then (latest n s) (\<lambda>previous.
           case previous of None \<Rightarrow> Inr () | Some snap \<Rightarrow> validate_against_applied_history n snap s))
           (rf_node_ids (ss_cluster s)) ()) (\<lambda>_. Inr s))"

end
