(* ===== verification/Snapshot_Safety.thy ===== *)
theory Snapshot_Safety
  imports Snapshots
begin

text \<open>
  Correctness of snapshots: a snapshot holds the dictionaries of the image it was taken from,
  compaction leaves a store that recovers the same image from the snapshot alone, an install gives
  the follower the leader's image, and a snapshot of an ordered history passes its own validation.
\<close>

section \<open>Dictionaries\<close>

lemma update_fresh: "k \<notin> fst ` set d \<Longrightarrow> AList.update k v d = d @ [(k, v)]"
  by (induction d) auto

lemma dict_of_fold: "distinct (map fst (d @ l)) \<Longrightarrow> fold (\<lambda>(k, v). AList.update k v) l d = d @ l"
proof (induction l arbitrary: d)
  case (Cons x l)
  obtain k v where x: "x = (k, v)" by (cases x)
  have "fold (\<lambda>(k, v). AList.update k v) l (d @ [(k, v)]) = (d @ [(k, v)]) @ l"
    using Cons.prems x by (intro Cons.IH) auto
  moreover have "AList.update k v d = d @ [(k, v)]" using Cons.prems x by (intro update_fresh) auto
  ultimately show ?case by (simp add: x)
qed simp

lemma dict_of_distinct: "distinct (map fst l) \<Longrightarrow> dict_of l = l"
  using dict_of_fold[of "[]" l] by (simp add: dict_of_def)

lemma distinct_dict_of: "distinct (map fst (dict_of l))"
proof -
  have "distinct (map fst (fold (\<lambda>(k, v). AList.update k v) l d))" if "distinct (map fst d)" for d
    using that by (induction l arbitrary: d) (auto simp: distinct_update)
  then show ?thesis by (simp add: dict_of_def)
qed

lemma distinct_sort_keys: "distinct (map fst (sort d)) \<longleftrightarrow> distinct (map fst (d :: ('k::linorder \<times> 'v::linorder) list))"
  by (metis mset_map mset_sort mset_eq_imp_distinct_iff)

lemma map_of_sort: "distinct (map fst d) \<Longrightarrow> map_of (sort d) = map_of (d :: ('k::linorder \<times> 'v::linorder) list)"
  by (simp add: map_of_inject_set distinct_sort_keys)

lemma map_of_tabulate: "map_of (map (\<lambda>k. (k, f k)) ks) k = (if k \<in> set ks then Some (f k) else None)"
  by (induction ks) auto

section \<open>Images have distinct keys\<close>

definition image_distinct :: "kv_image \<Rightarrow> bool" where
  "image_distinct img \<longleftrightarrow> distinct (map fst (im_state img)) \<and> distinct (map fst (im_requests img))"

definition same_image :: "kv_image \<Rightarrow> kv_image \<Rightarrow> bool" where
  "same_image a b \<longleftrightarrow> map_of (im_state a) = map_of (im_state b) \<and> map_of (im_requests a) = map_of (im_requests b)"

lemma restore_requests_distinct:
  "restore_requests items d = Inr d' \<Longrightarrow> distinct (map fst d) \<Longrightarrow> distinct (map fst d')"
  unfolding restore_requests_def
  by (induction items arbitrary: d) (auto simp: and_then_eq_Inr distinct_update Let_def split: option.splits if_splits)

lemma execute_distinct:
  "execute_operation c d = Inr d' \<Longrightarrow> distinct (map fst d) \<Longrightarrow> distinct (map fst d')"
  by (cases c rule: operation_trace.cases) (auto simp: distinct_update distinct_delete)

lemma apply_image_distinct: "apply_image c img = Inr img' \<Longrightarrow> image_distinct img \<Longrightarrow> image_distinct img'"
  by (auto simp: apply_image_def classify_def image_distinct_def and_then_eq_Inr Let_def distinct_update
      intro: execute_distinct split: if_splits kv_command.splits option.splits)

lemma replay_distinct: "for_each apply_image cs img = Inr img' \<Longrightarrow> image_distinct img \<Longrightarrow> image_distinct img'"
  by (induction cs arbitrary: img) (auto simp: and_then_eq_Inr dest: apply_image_distinct)

lemma base_image_distinct: "base_image_of i t snap = Inr b \<Longrightarrow> image_distinct b"
  by (auto simp: base_image_of_def image_distinct_def empty_image_def and_then_eq_Inr distinct_dict_of
      split: if_splits option.splits dest: restore_requests_distinct)

lemma image_ok_distinct: "image_ok s n \<Longrightarrow> image_distinct (kv_image s n)"
  by (auto simp: image_ok_def base_image_def and_then_eq_Inr intro: replay_distinct base_image_distinct)

section \<open>What a snapshot holds\<close>

definition identity_of :: "snapshot_request \<Rightarrow> string \<times> int" where
  "identity_of item = (sr_client item, sr_request item)"

definition snapshot_image :: "kv_snapshot \<Rightarrow> kv_image" where
  "snapshot_image snap = \<lparr>im_state = dict_of (ks_state snap),
     im_requests = dict_of (map (\<lambda>item. ((sr_client item, sr_request item), sr_operation item)) (ks_requests snap))\<rparr>"

definition snapshot_of :: "kv_image \<Rightarrow> kv_snapshot \<Rightarrow> bool" where
  "snapshot_of img snap \<longleftrightarrow> ks_state snap = sort (im_state img) \<and>
     ks_requests snap = map (\<lambda>(client, i). \<lparr>sr_client = client, sr_request = i,
       sr_operation = the (map_of (im_requests img) (client, i))\<rparr>) (sort (map fst (im_requests img)))"

lemma snapshot_pairs:
  assumes "snapshot_of img snap"
  shows "map (\<lambda>item. ((sr_client item, sr_request item), sr_operation item)) (ks_requests snap) =
    map (\<lambda>k. (k, the (map_of (im_requests img) k))) (sort (map fst (im_requests img)))"
  using assms by (auto simp: snapshot_of_def)

lemma snapshot_image_same:
  assumes "snapshot_of img snap" and "image_distinct img"
  shows "same_image (snapshot_image snap) img"
proof -
  let ?R = "im_requests img"
  have "distinct (map fst (map (\<lambda>k. (k, the (map_of ?R k))) (sort (map fst ?R))))"
    using assms(2) by (simp add: image_distinct_def comp_def)
  from dict_of_distinct[OF this]
  have "im_requests (snapshot_image snap) = map (\<lambda>k. (k, the (map_of ?R k))) (sort (map fst ?R))"
    by (simp add: snapshot_image_def snapshot_pairs[OF assms(1)])
  then have "map_of (im_requests (snapshot_image snap)) k = (if k \<in> fst ` set ?R then Some (the (map_of ?R k)) else None)" for k
    by (simp add: map_of_tabulate)
  then have "map_of (im_requests (snapshot_image snap)) k = map_of ?R k" for k
    by (metis map_of_eq_None_iff option.collapse)
  moreover have "map_of (im_state (snapshot_image snap)) = map_of (im_state img)"
    using assms by (simp add: snapshot_image_def snapshot_of_def image_distinct_def dict_of_distinct distinct_sort_keys map_of_sort)
  ultimately show ?thesis by (auto simp: same_image_def)
qed

lemma restore_fold:
  assumes "distinct (map fst d @ map identity_of items)"
  shows "restore_requests items d = Inr (d @ map (\<lambda>item. ((sr_client item, sr_request item), sr_operation item)) items)"
  using assms
proof (induction items arbitrary: d)
  case (Cons item items)
  let ?k = "(sr_client item, sr_request item)"
  have f: "?k \<notin> fst ` set d" using Cons.prems by (auto simp: identity_of_def)
  then have "map_of d ?k = None" by (simp add: map_of_eq_None_iff)
  moreover have "restore_requests items (d @ [(?k, sr_operation item)]) =
      Inr ((d @ [(?k, sr_operation item)]) @ map (\<lambda>item. ((sr_client item, sr_request item), sr_operation item)) items)"
    using Cons.prems by (intro Cons.IH) (auto simp: identity_of_def)
  ultimately show ?case using f by (simp add: restore_requests_def update_fresh Let_def)
qed (simp add: restore_requests_def)

lemma restore_snapshot:
  assumes "snapshot_of img snap" and "image_distinct img"
  shows "restore_requests (ks_requests snap) [] = Inr (im_requests (snapshot_image snap))"
proof -
  have i: "map identity_of (ks_requests snap) = sort (map fst (im_requests img))"
    using assms(1) by (auto simp: snapshot_of_def identity_of_def comp_def case_prod_beta)
  have d: "distinct (map identity_of (ks_requests snap))" unfolding i using assms(2) by (simp add: image_distinct_def)
  then have "distinct (map fst (map (\<lambda>item. ((sr_client item, sr_request item), sr_operation item)) (ks_requests snap)))"
    by (simp add: comp_def identity_of_def[abs_def])
  then show ?thesis using restore_fold[of "[]" "ks_requests snap"] d by (simp add: snapshot_image_def dict_of_distinct)
qed

lemma create_result:
  assumes "create n s = Inr (snap, s')"
  shows "\<exists>ev. s' = ss_record ev (set_snapshot n snap s)" and "n \<in> set (kv_nodes (ss_kv s))"
    and "ks_index snap = ap_last (ss_applier s) n" "0 < ks_index snap" "0 \<le> ks_term snap"
    and "ks_index snap \<le> last_log_index (ss_cluster s) n"
    and "term_at (log_view (ss_cluster s) n) (ks_index snap) = Inr (ks_term snap)"
    and "snapshot_of (kv_image (ss_kv s) n) snap"
    and "snapshot_voting_configuration (ks_index snap) s = Inr (ks_voting snap)"
  using assms
  by (auto simp: create_def and_then_eq_Inr ss_require_node_def last_applied_def kv_state_def client_requests_def
      snapshot_client_requests_def KVSnapshot_def Let_def snapshot_of_def split: if_splits)

section \<open>Compaction\<close>

lemma snapshot_store_simps [simp]:
  "kv_image (ss_kv (set_cluster c s)) = kv_image (ss_kv s)" "kv_snapshots (ss_kv (set_cluster c s)) = kv_snapshots (ss_kv s)"
  "ss_cluster (set_cluster c s) = c" "kv_image (ss_kv (set_snapshot n snap s)) = kv_image (ss_kv s)"
  "ss_applier (set_snapshot n snap s) = ss_applier s"
  "kv_snapshots (ss_kv (set_snapshot n snap s)) = (kv_snapshots (ss_kv s))(n \<mapsto> snap)"
  "kv_image (ss_kv (ss_record ev s)) = kv_image (ss_kv s)" "kv_snapshots (ss_kv (ss_record ev s)) = kv_snapshots (ss_kv s)"
  "ss_applier (ss_record ev s) = ap_record ev (ss_applier s)"
  by (simp_all add: set_cluster_def set_snapshot_def ss_record_def kv_record_def)

lemma same_applier_cluster: "rf_node_ids c = kv_nodes (ss_kv s) \<Longrightarrow> same_applier (ss_applier s) (ss_applier (set_cluster c s))"
  by (simp add: same_applier_def set_cluster_def)

lemma recover_from_snapshot:
  assumes "snapshot_of img snap" and "image_distinct img" and "0 < ks_index snap"
    and "n \<in> set (ap_nodes ap)" and "ap_applied ap n = []" and "ap_base_index ap n = ks_index snap"
    and "ap_base_term ap n = ks_term snap" and "snaps n = Some snap"
  shows "\<exists>t. load_image n \<lparr>kv_applier = ap, kv_image = (\<lambda>_. empty_image), kv_snapshots = snaps\<rparr> = Inr t \<and>
    same_image (kv_image t n) img"
  using assms restore_snapshot[OF assms(1,2)] snapshot_image_same[OF assms(1,2)]
  by (simp add: load_image_def restore_snapshot_boundary_def applied_base_index_def applied_base_term_def
      applied_entries_def require_node_def validate_entries_def validate_request_conflicts_def empty_image_def snapshot_image_def)

lemma reachable_node:
  assumes "kv_reachable snaps s" and "n \<in> set (kv_nodes s)"
  shows "sm_inv (kv_applier s)" "node_ok (kv_applier s) n" "image_distinct (kv_image s n)"
  using kv_reachable_inv[OF assms(1)] assms(2) image_ok_distinct[of s n] by (auto simp: kv_inv_def sm_inv_def)

lemma compact_keeps_durable: "sm_compact_through n i t s = Inr s' \<Longrightarrow> persistent_state (ap_cluster s') = persistent_state (ap_cluster s)"
  by (auto simp: sm_compact_through_def Let_def and_then_eq_Inr ap_record_def record_event_def split: if_splits)

lemma compact_result:
  assumes "sm_inv (ss_applier s)" and "compact n s = Inr (snap, s')"
  shows "\<exists>s1. create n s = Inr (snap, s1)"
    and "kv_image (ss_kv s') = kv_image (ss_kv s)" "kv_snapshots (ss_kv s') = (kv_snapshots (ss_kv s))(n \<mapsto> snap)"
    and "ap_last (ss_applier s') = ap_last (ss_applier s)" "sm_inv (ss_applier s')"
    and "ap_applied (ss_applier s') = (ap_applied (ss_applier s))(n := [])"
    and "ap_base_index (ss_applier s') n = ks_index snap" "ap_base_term (ss_applier s') n = ks_term snap"
    and "kv_nodes (ss_kv s') = kv_nodes (ss_kv s)"
    and "compact_through (log_view (ss_cluster s) n) (ks_index snap) = Inr (log_view (ss_cluster s') n)"
proof -
  obtain s1 where s1: "create n s = Inr (snap, s1)" using assms(2) by (auto simp: compact_def and_then_eq_Inr Let_def split: if_splits)
  obtain v where v: "compact_through (log_view (ss_cluster s1) n) (ks_index snap) = Inr v" "lv_base_term v = ks_term snap"
    using assms(2) by (auto simp: compact_def s1 and_then_eq_Inr Let_def split: if_splits)
  let ?c = "set_durable n (\<lambda>d. d\<lparr>rf_log := lv_entries v, rf_base_index := lv_base_index v, rf_base_term := ks_term snap\<rparr>) (ss_cluster s1)"
  obtain ap where ap: "sm_compact_through n (ks_index snap) (ks_term snap) (ss_applier (set_cluster ?c s1)) = Inr ap"
    and s': "\<exists>ev. s' = ss_record ev (s1\<lparr>ss_kv := (ss_kv s1)\<lparr>kv_applier := ap\<rparr>\<rparr>)"
    using assms(2) v by (auto simp: compact_def s1 and_then_eq_Inr Let_def set_cluster_def)
  obtain ev where e: "s1 = ss_record ev (set_snapshot n snap s)" using create_result(1)[OF s1] by blast
  have "same_applier (ss_applier s) (ss_applier (set_cluster ?c s1))"
    unfolding e by (simp add: same_applier_def set_cluster_def set_durable_def)
  then have a: "same_applier (ss_applier s) (ss_applier (set_cluster ?c s1))" "sm_inv (ss_applier (set_cluster ?c s1))"
    using assms(1) same_applier_inv by blast+
  note c = compact_effect[OF a(2) ap]
  have n: "node_ok (ss_applier s) n" using assms(1) create_result(2)[OF s1] by (simp add: sm_inv_def)
  show "\<exists>s1. create n s = Inr (snap, s1)" using s1 by blast
  show "kv_image (ss_kv s') = kv_image (ss_kv s)" "kv_snapshots (ss_kv s') = (kv_snapshots (ss_kv s))(n \<mapsto> snap)"
    using s' e by (auto simp: ss_record_def kv_record_def)
  show "ap_last (ss_applier s') = ap_last (ss_applier s)" "ap_base_index (ss_applier s') n = ks_index snap"
    "ap_base_term (ss_applier s') n = ks_term snap" "kv_nodes (ss_kv s') = kv_nodes (ss_kv s)"
    using s' c a(1) by (auto simp: same_applier_def sm_evolves_def)
  show "sm_inv (ss_applier s')" using s' c same_applier_inv[OF same_applier_refl(2)] by auto
  show "ap_applied (ss_applier s') = (ap_applied (ss_applier s))(n := [])"
    using s' c a(1) n create_result(3)[OF s1] by (auto simp: same_applier_def node_ok_def)
  have "persistent_state (ss_cluster s') n = (persistent_state (ss_cluster s1) n)
      \<lparr>rf_log := lv_entries v, rf_base_index := lv_base_index v, rf_base_term := ks_term snap\<rparr>"
    using s' compact_keeps_durable[OF ap] by (auto simp: set_durable_def ap_record_def record_event_def)
  moreover have "persistent_state (ss_cluster s1) = persistent_state (ss_cluster s)"
    by (simp add: e ap_record_def record_event_def)
  ultimately show "compact_through (log_view (ss_cluster s) n) (ks_index snap) = Inr (log_view (ss_cluster s') n)"
    using v by (cases v) (simp add: log_view_of_def)
qed

text \<open>C36. Compaction loses nothing: after \<open>compact\<close> on a node of a reachable store every live image
  and the last applied index are as before, the node's applied entries and its log up to the
  snapshot are gone, and recovery of the node from the durable snapshot alone succeeds with the
  same values and the same recorded requests.\<close>

theorem compaction_keeps_store:
  assumes "kv_reachable snaps (ss_kv s)" and "compact n s = Inr (snap, s')"
  shows "kv_image (ss_kv s') = kv_image (ss_kv s) \<and>
    last_applied n (ss_applier s') = last_applied n (ss_applier s) \<and> applied_entries n (ss_applier s') = Inr [] \<and>
    compact_through (log_view (ss_cluster s) n) (ks_index snap) = Inr (log_view (ss_cluster s') n) \<and>
    (\<exists>t. load_image n \<lparr>kv_applier = ss_applier s', kv_image = (\<lambda>_. empty_image), kv_snapshots = kv_snapshots (ss_kv s')\<rparr> = Inr t \<and>
       same_image (kv_image t n) (kv_image (ss_kv s) n))"
proof -
  have sm: "sm_inv (ss_applier s)" using kv_reachable_inv[OF assms(1)] by (simp add: kv_inv_def)
  note c = compact_result[OF sm assms(2)]
  obtain s1 where s1: "create n s = Inr (snap, s1)" using c(1) by blast
  have n: "n \<in> set (kv_nodes (ss_kv s))" by (rule create_result(2)[OF s1])
  have "\<exists>t. load_image n \<lparr>kv_applier = ss_applier s', kv_image = (\<lambda>_. empty_image), kv_snapshots = kv_snapshots (ss_kv s')\<rparr> = Inr t \<and>
       same_image (kv_image t n) (kv_image (ss_kv s) n)"
    by (rule recover_from_snapshot[OF create_result(8)[OF s1] reachable_node(3)[OF assms(1) n] create_result(4)[OF s1]])
      (use c n in simp_all)
  then show ?thesis using c n by (simp add: last_applied_def applied_entries_def require_node_def)
qed

section \<open>Installation\<close>

lemma install_result:
  assumes "install n snap keep s = Inr s'" and "\<forall>p. kv_snapshots (ss_kv s) n = Some p \<longrightarrow> ks_index p \<noteq> ks_index snap"
  shows "kv_image (ss_kv s') = (kv_image (ss_kv s))(n := snapshot_image snap)"
    and "ap_last (ss_applier s') n = ks_index snap" "ap_last (ss_applier s) n \<le> ks_index snap"
    and "n \<in> set (kv_nodes (ss_kv s'))" "ap_applied (ss_applier s') n = []"
    and "ap_base_index (ss_applier s') n = ks_index snap" "ap_base_term (ss_applier s') n = ks_term snap"
    and "kv_snapshots (ss_kv s') n = Some snap" "ks_index snap \<le> commit_index (ss_cluster s') n"
    and "assert_log_matching (ss_cluster s') = Inr ()" "assert_state_machine_safety (ss_applier s') = Inr ()"
proof -
  obtain retained where r: "retained_suffix n snap keep s = Inr retained" and n: "n \<in> set (kv_nodes (ss_kv s))"
    and le: "ap_last (ss_applier s) n \<le> ks_index snap"
    using assms by (auto simp: install_def latest_def ss_require_node_def last_applied_def require_node_def and_then_eq_Inr Let_def
        split: if_splits option.splits)
  let ?s = "write_install n snap retained s"
  from assms r n le obtain c where c: "install_commit n snap (ss_cluster ?s) = Inr c"
    by (auto simp: install_def latest_def ss_require_node_def last_applied_def require_node_def and_then_eq_Inr Let_def
        split: if_splits option.splits)
  from assms r n le c obtain ev where s': "s' = ss_record ev (set_cluster c ?s)" "assert_log_matching (ss_cluster s') = Inr ()"
      "assert_state_machine_safety (ss_applier s') = Inr ()"
    by (auto simp: install_def latest_def ss_require_node_def last_applied_def require_node_def and_then_eq_Inr Let_def
        split: if_splits option.splits)
  have w: "kv_image (ss_kv ?s) = (kv_image (ss_kv s))(n := snapshot_image snap)" "kv_snapshots (ss_kv ?s) n = Some snap"
    "ap_last (ss_applier ?s) n = ks_index snap" "ap_applied (ss_applier ?s) n = []" "ap_base_index (ss_applier ?s) n = ks_index snap"
    "ap_base_term (ss_applier ?s) n = ks_term snap" "kv_nodes (ss_kv ?s) = kv_nodes (ss_kv s)"
    by (simp_all add: write_install_def Let_def snapshot_image_def set_snapshot_def set_durable_def)
  have "ks_index snap \<le> commit_index c n" "rf_node_ids c = kv_nodes (ss_kv s)"
    using c w(7) by (auto simp: install_commit_def advance_commit_index_def Let_def commit_index_def record_event_def set_vol_def vol_def split: if_splits)
  then show "kv_image (ss_kv s') = (kv_image (ss_kv s))(n := snapshot_image snap)"
    "ap_last (ss_applier s') n = ks_index snap" "ap_last (ss_applier s) n \<le> ks_index snap"
    "n \<in> set (kv_nodes (ss_kv s'))" "ap_applied (ss_applier s') n = []"
    "ap_base_index (ss_applier s') n = ks_index snap" "ap_base_term (ss_applier s') n = ks_term snap"
    "kv_snapshots (ss_kv s') n = Some snap" "ks_index snap \<le> commit_index (ss_cluster s') n"
    using s'(1) w n le by (simp_all add: set_cluster_def commit_index_def ap_record_def record_event_def vol_def)
  show "assert_log_matching (ss_cluster s') = Inr ()" "assert_state_machine_safety (ss_applier s') = Inr ()" by (fact s')+
qed

text \<open>C37. Snapshot transfer: a follower that installs a snapshot another node created from a reachable
  store has that node's values and recorded requests, its last applied index is the snapshot's,
  never below the one it had, its commit index has reached it, the other images are untouched, and
  it recovers the same image after a restart.\<close>

theorem install_transfers_image:
  assumes "kv_reachable snaps (ss_kv s)" and "create n s = Inr (snap, s1)" and "install m snap keep u = Inr v"
    and "\<forall>p. kv_snapshots (ss_kv u) m = Some p \<longrightarrow> ks_index p \<noteq> ks_index snap"
  shows "same_image (kv_image (ss_kv v) m) (kv_image (ss_kv s) n) \<and> (\<forall>k. k \<noteq> m \<longrightarrow> kv_image (ss_kv v) k = kv_image (ss_kv u) k) \<and>
    last_applied m (ss_applier v) = last_applied n (ss_applier s) \<and> ap_last (ss_applier u) m \<le> ap_last (ss_applier v) m \<and>
    ks_index snap \<le> commit_index (ss_cluster v) m \<and>
    (\<exists>t. load_image m \<lparr>kv_applier = ss_applier v, kv_image = (\<lambda>_. empty_image), kv_snapshots = kv_snapshots (ss_kv v)\<rparr> = Inr t \<and>
       same_image (kv_image t m) (kv_image (ss_kv s) n))"
proof -
  note i = install_result[OF assms(3,4)] and c = create_result[OF assms(2)]
  have d: "image_distinct (kv_image (ss_kv s) n)" by (rule reachable_node(3)[OF assms(1) c(2)])
  have "same_image (kv_image (ss_kv v) m) (kv_image (ss_kv s) n)" using snapshot_image_same[OF c(8) d] i(1) by simp
  moreover have "\<exists>t. load_image m \<lparr>kv_applier = ss_applier v, kv_image = (\<lambda>_. empty_image), kv_snapshots = kv_snapshots (ss_kv v)\<rparr> = Inr t \<and>
       same_image (kv_image t m) (kv_image (ss_kv s) n)"
    by (rule recover_from_snapshot[OF c(8) d c(4)]) (use i in simp_all)
  ultimately show ?thesis using i c by (simp add: last_applied_def require_node_def)
qed

section \<open>Validation\<close>

text \<open>Every client request has a non-negative identifier and is either a repetition or not below an
  earlier one of its client; \<open>seen\<close> are the identities so far.\<close>

fun in_order :: "(string \<times> int) list \<Rightarrow> kv_command list \<Rightarrow> bool" where
  "in_order seen [] \<longleftrightarrow> True"
| "in_order seen (Request r # cs) \<longleftrightarrow> 0 \<le> cr_request r \<and>
     ((cr_client r, cr_request r) \<in> set seen \<or> list_all (\<lambda>(c, i). c = cr_client r \<longrightarrow> i \<le> cr_request r) seen) \<and>
     in_order ((cr_client r, cr_request r) # seen) cs"
| "in_order seen (c # cs) \<longleftrightarrow> in_order seen cs"

definition as_items :: "((string \<times> int) \<times> kv_operation) list \<Rightarrow> ((string \<times> int) \<times> snapshot_request) list" where
  "as_items d = map (\<lambda>((c, i), w). ((c, i), \<lparr>sr_client = c, sr_request = i, sr_operation = w\<rparr>)) d"

lemma as_items_facts:
  "map_of (as_items d) (c, i) = map_option (\<lambda>w. \<lparr>sr_client = c, sr_request = i, sr_operation = w\<rparr>) (map_of d (c, i))"
  "map fst (as_items d) = map fst d"
  "AList.update (c, i) \<lparr>sr_client = c, sr_request = i, sr_operation = w\<rparr> (as_items d) = as_items (AList.update (c, i) w d)"
  by (induction d) (auto simp: as_items_def)

lemma not_stale:
  assumes "list_all (\<lambda>(d, j). d = c \<longrightarrow> j \<le> i) seen" and "set seen = fst ` set requests" and "0 \<le> i"
  shows "\<not> i < latest_request_id c requests"
proof -
  have "j \<le> i" if "j \<in> ids_of c requests" for j using assms(1,2) that by (auto simp: ids_of_def list_all_iff)
  then show ?thesis using assms(3) latest_request_id_Max[of c requests] by (auto simp: not_less)
qed

lemma execute_snapshot: "execute_operation (Operation w) d = Inr (snapshot_execute w d)"
  by (cases w) simp_all

lemma included_step:
  assumes "apply_image c img = Inr img'" and "in_order seen (c # cs)" and "set seen = fst ` set (im_requests img)"
  shows "replay_included c (im_state img, as_items (im_requests img)) = Inr (im_state img', as_items (im_requests img'))"
    and "\<exists>seen'. in_order seen' cs \<and> set seen' = fst ` set (im_requests img')"
proof -
  have keep: "\<exists>seen'. in_order seen' cs \<and> set seen' = fst ` set (im_requests img')" if "im_requests img' = im_requests img" "in_order seen cs"
    using assms(3) that by metis
  have "replay_included c (im_state img, as_items (im_requests img)) = Inr (im_state img', as_items (im_requests img')) \<and>
    (\<exists>seen'. in_order seen' cs \<and> set seen' = fst ` set (im_requests img'))"
  proof (cases c)
    case (Request r)
    let ?k = "(cr_client r, cr_request r)"
    show ?thesis
    proof (cases "map_of (im_requests img) ?k")
      case (Some w)
      then have i: "img' = img" "w = cr_operation r"
        using assms(1) Request by (auto simp: apply_image_def classify_def Let_def and_then_eq_Inr split: if_splits)
      have "?k \<in> fst ` set (im_requests img)" using map_of_SomeD[OF Some] by force
      then have "set (?k # seen) = fst ` set (im_requests img')" using assms(3) i(1) by auto
      moreover have "in_order (?k # seen) cs" using assms(2) Request by simp
      ultimately have "\<exists>seen'. in_order seen' cs \<and> set seen' = fst ` set (im_requests img')" by blast
      then show ?thesis using Request Some i by (simp add: as_items_facts(1) Let_def)
    next
      case None
      then have "?k \<notin> set seen" using assms(3) by (simp add: map_of_eq_None_iff)
      then have "\<not> cr_request r < latest_request_id (cr_client r) (im_requests img)"
        using assms(2) Request not_stale[OF _ assms(3)] by simp
      then have i: "im_state img' = snapshot_execute (cr_operation r) (im_state img)"
        "im_requests img' = AList.update ?k (cr_operation r) (im_requests img)"
        using assms(1) Request None by (auto simp: apply_image_def classify_def Let_def and_then_eq_Inr execute_snapshot)
      have "set (?k # seen) = fst ` set (im_requests img')"
        using assms(3) i(2) arg_cong[OF update_keys[of ?k "cr_operation r" "im_requests img"], of set] by (auto split: if_splits)
      moreover have "in_order (?k # seen) cs" using assms(2) Request by simp
      ultimately have "\<exists>seen'. in_order seen' cs \<and> set seen' = fst ` set (im_requests img')" by blast
      then show ?thesis using Request None i(1) by (simp add: as_items_facts(1,3) Let_def i(2))
    qed
  qed (use assms keep in \<open>auto simp: apply_image_def classify_def and_then_eq_Inr execute_snapshot\<close>)
  then show "replay_included c (im_state img, as_items (im_requests img)) = Inr (im_state img', as_items (im_requests img'))"
    "\<exists>seen'. in_order seen' cs \<and> set seen' = fst ` set (im_requests img')" by blast+
qed

lemma replay_agrees:
  "for_each apply_image cs img = Inr img' \<Longrightarrow> in_order seen cs \<Longrightarrow> set seen = fst ` set (im_requests img) \<Longrightarrow>
   for_each replay_included cs (im_state img, as_items (im_requests img)) = Inr (im_state img', as_items (im_requests img'))"
proof (induction cs arbitrary: img seen)
  case (Cons c cs)
  then obtain img1 where i: "apply_image c img = Inr img1" "for_each apply_image cs img1 = Inr img'" by (auto simp: and_then_eq_Inr)
  obtain seen' where "in_order seen' cs" "set seen' = fst ` set (im_requests img1)" using included_step(2)[OF i(1) Cons.prems(2,3)] by blast
  from Cons.IH[OF i(2) this] included_step(1)[OF i(1) Cons.prems(2,3)] show ?case by simp
qed simp

lemma for_each_check: "for_each (\<lambda>x _. f x) xs () = Inr () \<Longrightarrow> x \<in> set xs \<Longrightarrow> f x = Inr ()"
  by (induction xs) (auto simp: and_then_eq_Inr)

lemma durable_term:
  assumes "load_durable_state n ap = Inr l" and "node_ok ap n" and "ap_base_index ap n = 0" and "ap_applied ap n \<noteq> []"
    and "term_at (log_view (ap_cluster ap) n) (ap_last ap n) = Inr t"
  shows "le_term (last (map ae_entry (ap_applied ap n))) = t"
proof -
  let ?v = "map ae_entry (ap_applied ap n)" and ?log = "log_view (ap_cluster ap) n"
  have d: "ap_durable ap n = \<lparr>smd_applied = ?v, smd_base_index = 0, smd_base_term = ap_base_term ap n\<rparr>" "ap_last ap n = int (length ?v)"
    using assms(2,3) by (simp_all add: node_ok_def)
  have "nat (ap_last ap n - 0 - 1) = length ?v - 1" using d(2) by linarith
  then have last: "last ?v = ?v ! nat (ap_last ap n - 0 - 1)" using assms(4) by (simp only: last_conv_nth map_is_Nil_conv not_False_eq_True)
  have ok: "0 \<le> lv_base_index ?log" "int (length ?v) \<le> last_index ?log"
    "lv_base_index ?log = int (length ?v) \<longrightarrow> le_term (?v ! nat (int (length ?v) - 0 - 1)) = lv_base_term ?log"
    "for_each (\<lambda>index _. and_then (entry_at ?log index) (\<lambda>e. if e \<noteq> ?v ! nat (index - 0 - 1) then Inl StateMachineSafetyViolation else Inr ()))
       [max (0 + 1) (first_retained_index ?log)..int (length ?v)] () = Inr ()"
    using assms(1,4) d by (auto simp: load_durable_state_def Let_def and_then_eq_Inr split: if_splits)
  show ?thesis
  proof (cases "lv_base_index ?log = int (length ?v)")
    case True
    then show ?thesis using ok(3) assms(5) d(2) last by (simp add: term_at_def)
  next
    case False
    obtain e where e: "entry_at ?log (int (length ?v)) = Inr e" "le_term e = t"
      using assms(5) False d(2) by (auto simp: term_at_def and_then_eq_Inr)
    then have "lv_base_index ?log < int (length ?v)" by (auto simp: entry_at_def split: if_splits)
    then have "int (length ?v) \<in> set [max (0 + 1) (first_retained_index ?log)..int (length ?v)]"
      using assms(4) by (simp add: first_retained_index_def Suc_leI flip: length_greater_0_conv)
    from for_each_check[OF ok(4) this] e have "e = ?v ! nat (int (length ?v) - 0 - 1)" by (simp split: if_splits)
    then show ?thesis using last d(2) e(2) by simp
  qed
qed

lemma membership_validates:
  assumes "snapshot_voting_configuration i s = Inr (ks_voting snap)"
    and "\<forall>c. ss_voting s = Some c \<longrightarrow> finite (voters c) \<and> voters c \<subseteq> set (rf_node_ids (ss_cluster s))"
  shows "validate_snapshot_membership snap s = Inr ()"
proof (cases "ss_voting s")
  case None
  then show ?thesis using assms(1) by (simp add: snapshot_voting_configuration_def validate_snapshot_membership_def)
next
  case (Some v)
  obtain w where w: "Some w = ks_voting snap" "sv_old_voters w = sorted_list_of_set (vc_old v)"
    "sv_new_voters w = map_option sorted_list_of_set (vc_new v)"
    using assms(1) Some by (auto simp: snapshot_voting_configuration_def SnapshotVotingConfiguration_def Let_def and_then_eq_Inr split: if_splits)
  then show ?thesis using Some assms(2)
    by (cases "vc_new v") (auto simp: validate_snapshot_membership_def voters_def Let_def simp flip: w(1))
qed

text \<open>C38. A snapshot validates itself: on a node without a snapshot boundary whose durable history
  loads, whose applied client requests are in order and whose voters are members of the cluster, the
  snapshot that \<open>create\<close> writes passes the validation that \<open>KVSnapshotStore\<close> runs on it when it is
  constructed again.\<close>

theorem snapshot_validates:
  assumes "kv_reachable snaps (ss_kv s)" and "create n s = Inr (snap, s')" and "ap_base_index (ss_applier s) n = 0"
    and "load_durable_state n (ss_applier s) = Inr l" and "in_order [] (commands (ss_kv s) n)"
    and "\<forall>c. ss_voting s = Some c \<longrightarrow> finite (voters c) \<and> voters c \<subseteq> set (rf_node_ids (ss_cluster s))"
  shows "validate_against_applied_history n snap s' = Inr ()"
proof -
  note c = create_result[OF assms(2)]
  obtain ev where s': "s' = ss_record ev (set_snapshot n snap s)" using c(1) by blast
  let ?A = "ap_applied (ss_applier s) n" and ?img = "kv_image (ss_kv s) n"
  note rn = reachable_node[OF assms(1) c(2)]
  have len: "ks_index snap = int (length ?A)" using rn(2) c(3) assms(3) by (simp add: node_ok_def)
  have ne: "?A \<noteq> []" using len c(4) by auto
  have "term_at (log_view (ap_cluster (ss_applier s)) n) (ap_last (ss_applier s) n) = Inr (ks_term snap)" using c(3,7) by simp
  from durable_term[OF assms(4) rn(2) assms(3) ne this] have t: "le_term (last (map ae_entry ?A)) = ks_term snap" .
  have "for_each apply_image (commands (ss_kv s) n) empty_image = Inr ?img" by (rule replay_from_start[OF assms(1) c(2) assms(3)])
  from replay_agrees[OF this assms(5)]
  have run: "for_each replay_included (map le_command (map ae_entry ?A)) ([], []) = Inr (im_state ?img, as_items (im_requests ?img))"
    by (simp add: empty_image_def as_items_def commands_def comp_def)
  have req: "map (\<lambda>key. the (map_of (as_items (im_requests ?img)) key)) (sort (map fst (as_items (im_requests ?img)))) = ks_requests snap"
    using c(8) by (auto simp: snapshot_of_def as_items_facts dest!: weak_map_of_SomeI)
  have "validate_snapshot_membership snap s = Inr ()" using c(9) assms(6) by (rule membership_validates)
  moreover have "ss_voting s' = ss_voting s" "kv_nodes (ss_kv s') = kv_nodes (ss_kv s)"
    by (simp_all add: s' ss_record_def set_snapshot_def kv_record_def)
  ultimately have "validate_snapshot_membership snap s' = Inr ()" unfolding validate_snapshot_membership_def by (simp only:)
  then show ?thesis
    using c(2,8) assms(3) len t run req
    by (simp add: validate_against_applied_history_def s' applied_base_index_def applied_base_term_def applied_entries_def
        require_node_def snapshot_of_def)
qed

section \<open>A concrete snapshot\<close>

definition ss_demo :: snapshot_store where
  "ss_demo = \<lparr>ss_kv = kv_demo1, ss_membership_commit = (\<lambda>_. 0), ss_voting = None\<rparr>"

definition ss_created :: "kv_snapshot \<times> snapshot_store" where
  "ss_created = projr (create ''a'' ss_demo)"

lemma ss_demo_reachable: "kv_reachable (\<lambda>_. None) (ss_kv ss_demo)"
  by (simp add: ss_demo_def kv_demo_reachable(1))

lemma ss_demo_runs: "\<not> isl (create ''a'' ss_demo)" "\<not> isl (compact ''a'' ss_demo)"
  "\<not> isl (install ''b'' (fst ss_created) True (snd ss_created))" "kv_snapshots (ss_kv (snd ss_created)) ''b'' = None"
  by code_simp+

lemma ss_created_eq: "create ''a'' ss_demo = Inr (fst ss_created, snd ss_created)"
  using ss_demo_runs(1) by (simp add: ss_created_def sum.collapse(2))

theorem compaction_keeps_store_witness:
  "kv_image (ss_kv (snd (projr (compact ''a'' ss_demo)))) ''a'' = kv_image (ss_kv ss_demo) ''a''"
proof -
  have "compact ''a'' ss_demo = Inr (fst (projr (compact ''a'' ss_demo)), snd (projr (compact ''a'' ss_demo)))"
    using ss_demo_runs(2) by (simp add: sum.collapse(2))
  from compaction_keeps_store[OF ss_demo_reachable this] show ?thesis by simp
qed

theorem install_transfers_image_witness:
  "same_image (kv_image (ss_kv (projr (install ''b'' (fst ss_created) True (snd ss_created)))) ''b'') (kv_image (ss_kv ss_demo) ''a'')"
proof -
  have "install ''b'' (fst ss_created) True (snd ss_created) = Inr (projr (install ''b'' (fst ss_created) True (snd ss_created)))"
    using ss_demo_runs(3) by (simp add: sum.collapse(2))
  from install_transfers_image[OF ss_demo_reachable ss_created_eq this] ss_demo_runs(4) show ?thesis by simp
qed

text \<open>A single applied request is in order.\<close>

definition ordered_ap :: "kv_command applier" where
  "ordered_ap = projr (StateMachineApplier (kv_demo_cluster 1) (\<lambda>_. fresh_sm))"

definition ordered_kv :: replicated_kv where
  "ordered_kv = projr (ReplicatedKV ordered_ap (\<lambda>_. None))"

definition ordered_store :: snapshot_store where
  "ordered_store = \<lparr>ss_kv = snd (projr (kv_apply_committed ''a'' ordered_kv)), ss_membership_commit = (\<lambda>_. 0), ss_voting = None\<rparr>"

lemma ordered_runs:
  "\<not> isl (StateMachineApplier (kv_demo_cluster 1) (\<lambda>_. fresh_sm))" "\<not> isl (ReplicatedKV ordered_ap (\<lambda>_. None))"
  "\<not> isl (kv_apply_committed ''a'' ordered_kv)" "\<not> isl (create ''a'' ordered_store)" "\<not> isl (load_durable_state ''a'' (ss_applier ordered_store))"
  "ap_nodes ordered_ap = [''a'', ''b'']" "ap_base_index (ss_applier ordered_store) ''a'' = 0" "in_order [] (commands (ss_kv ordered_store) ''a'')"
  by code_simp+

lemma ordered_reachable: "kv_reachable (\<lambda>_. None) (ss_kv ordered_store)"
proof -
  have 0: "StateMachineApplier (kv_demo_cluster 1) (\<lambda>_. fresh_sm) = Inr ordered_ap"
    "ReplicatedKV ordered_ap (\<lambda>_. None) = Inr ordered_kv"
    "kv_apply_committed ''a'' ordered_kv = Inr (fst (projr (kv_apply_committed ''a'' ordered_kv)), ss_kv ordered_store)"
    using ordered_runs(1-3) by (simp_all add: ordered_ap_def ordered_kv_def ordered_store_def sum.collapse(2))
  have "distinct (ap_nodes ordered_ap)" unfolding ordered_runs(6) by simp
  then show ?thesis unfolding kv_reachable_def using 0 by (blast intro: r_into_rtranclp kv_step.applied rtranclp.rtrancl_refl)
qed

theorem snapshot_validates_witness:
  "validate_against_applied_history ''a'' (fst (projr (create ''a'' ordered_store))) (snd (projr (create ''a'' ordered_store))) = Inr ()"
proof -
  have c: "create ''a'' ordered_store = Inr (fst (projr (create ''a'' ordered_store)), snd (projr (create ''a'' ordered_store)))"
    and l: "load_durable_state ''a'' (ss_applier ordered_store) = Inr (projr (load_durable_state ''a'' (ss_applier ordered_store)))"
    using ordered_runs(4,5) by (simp_all add: sum.collapse(2))
  show ?thesis by (rule snapshot_validates[OF ordered_reachable c ordered_runs(7) l ordered_runs(8)]) (simp add: ordered_store_def)
qed

text \<open>C40. Without the order the validation fails: node \<open>a\<close> of the concrete store has applied a request
  and then a stale one, which the live store dropped; the snapshot it creates is refused when the
  snapshot store is constructed again, because the validation executes the stale request.\<close>

theorem stale_snapshot_refused:
  "kv_reachable (\<lambda>_. None) (ss_kv ss_demo) \<and> create ''a'' ss_demo = Inr (fst ss_created, snd ss_created) \<and>
   KVSnapshotStore (ss_kv (snd ss_created)) (\<lambda>_. 0) None = Inl AssertionError"
proof -
  have "isl (KVSnapshotStore (ss_kv (snd ss_created)) (\<lambda>_. 0) None)"
    "projl (KVSnapshotStore (ss_kv (snd ss_created)) (\<lambda>_. 0) None) = AssertionError" by code_simp+
  then have "KVSnapshotStore (ss_kv (snd ss_created)) (\<lambda>_. 0) None = Inl AssertionError" by (metis sum.collapse(1))
  then show ?thesis using ss_demo_reachable ss_created_eq by blast
qed

end
