(* ===== verification/Spec2Isabelle.thy ===== *)
theory Spec2Isabelle
  imports MultiPaxos_Service Raft_Safety Multikey Minimizers Snapshot_Safety
begin

text \<open>
  Verification of the deterministic distributed-systems laboratory \<^verbatim>\<open>src/src/distlab\<close>.

  \<^bold>\<open>The program.\<close> The laboratory runs consensus protocols inside a discrete-event simulator and checks
  what clients observe. \<^verbatim>\<open>simulator.py\<close> holds the clock, the event queue, the trace, the fault plan,
  the liveness and partition state, and each node's durable and volatile state; protocols register a
  handler per node and send messages through it. Four protocols run on it: single-decree Paxos
  (\<^verbatim>\<open>paxos.py\<close>), a log of independent decrees (\<^verbatim>\<open>paxos_log.py\<close>, \<^verbatim>\<open>paxos_log_recovery.py\<close>), stable-leader
  Multi-Paxos (\<^verbatim>\<open>multipaxos.py\<close>) and Raft (\<^verbatim>\<open>raft.py\<close>, \<^verbatim>\<open>log_index.py\<close>). Above Raft, \<^verbatim>\<open>state_machine.py\<close>
  applies committed entries, \<^verbatim>\<open>kv.py\<close> interprets them as a key/value store with client sessions,
  \<^verbatim>\<open>snapshot.py\<close> compacts it and \<^verbatim>\<open>commit_recovery.py\<close> appends the barrier of a new term. Above
  Multi-Paxos, \<^verbatim>\<open>multipaxos_state_machine.py\<close> and \<^verbatim>\<open>multipaxos_client.py\<close> do the same for its slots.
  \<^verbatim>\<open>linearizability.py\<close>, \<^verbatim>\<open>multikey_linearizability.py\<close> record client histories and decide whether they are
  linearizable; \<^verbatim>\<open>_deletion_minimizer.py\<close> and \<^verbatim>\<open>history_minimizer.py\<close> shrink failing ones. The rest
  generates, runs, records and replays randomized fault campaigns.

  \<^bold>\<open>How the model reads.\<close> A class is a record, a union of message classes a datatype, a method a
  definition from the arguments and the state to \<open>'a result\<close>: \<open>Inl e\<close> is the raised exception \<open>e\<close>, with
  its class from the datatype \<open>error\<close> of \<open>Prelude\<close>, and \<open>Inr\<close> the value with the new state. The
  protocols extend the record \<open>simulator\<close>, so that one state value is the simulator with the cluster on
  it, and handlers are fields of \<open>callbacks\<close>. Integers are \<open>int\<close>, since Python's
  are unbounded, the bit masks of the linearizability search included. Dictionaries
  whose order shows are association lists, others are functions; the durable and volatile dictionaries
  of a node are records with the keys the code writes. Checks of Python types (\<^verbatim>\<open>isinstance\<close>) are the
  types of the model. \<open>for\<close> loops are \<open>for_each\<close> over a list; the delivery loops, which need not end,
  are \<open>partial_function (option)\<close>, where \<open>None\<close> is a run that does not return.

  \<^bold>\<open>Theories and sources.\<close>
  \<^item> \<open>Prelude\<close>: errors, \<open>and_then\<close>, \<open>for_each\<close>, the predicate \<open>outcome E P m\<close> (\<open>m\<close> raises only exceptions of
    \<open>E\<close>, and its value satisfies \<open>P\<close>) and its rules, which carry most proofs.
  \<^item> \<open>Simulator\<close> (\<^verbatim>\<open>simulator.py\<close>): fault rules, \<open>sim_send\<close>, \<open>sim_crash\<close>, \<open>sim_restart\<close>, partitions, links,
    \<open>run_loop\<close>, \<open>run_until_loop\<close>, \<open>run_scenario\<close>; the locale \<open>event_queue\<close>, interpreted on the
    queue, kept in heap order; \<open>sim_step\<close>, every move of the simulated network; the locale \<open>protocol\<close>, which turns
    an invariant kept by the callbacks into one of all steps and runs. \<open>Quiescence\<close>: the locale \<open>silencing\<close>,
    from a rank of messages to termination of \<open>run\<close>.
  \<^item> \<open>Quorums\<close>: the locale \<open>quorum_system\<close>, majorities, and ballot voting, the abstract specification of
    agreement that the Paxos variants refine. \<open>Voting\<close> interprets it on \<open>VotingConfiguration\<close> of
    \<^verbatim>\<open>membership.py\<close>, joint configurations included.
  \<^item> \<open>Paxos\<close>, \<open>Paxos_Safety\<close>, \<open>Paxos_Agreement\<close> (\<^verbatim>\<open>paxos.py\<close>): \<open>PaxosCluster\<close>, the five handlers, the safety
    harness; agreement of values held by a majority of durable histories, validity, termination.
  \<^item> \<open>Paxos_Log\<close>, \<open>Paxos_Log_Safety\<close>, \<open>Paxos_Log_Agreement\<close>, \<open>Paxos_Log_Recovery\<close> (\<^verbatim>\<open>paxos_log.py\<close>,
    \<^verbatim>\<open>paxos_log_recovery.py\<close>): each slot is shown to run single-decree Paxos (\<open>slot_sim\<close>, locale
    \<open>slot_handlers\<close>), which gives agreement per slot, comparable learned prefixes, and recovery of exactly
    the decided slots.
  \<^item> \<open>MultiPaxos\<close>, \<open>MultiPaxos_Safety\<close>, \<open>MultiPaxos_Agreement\<close> (\<^verbatim>\<open>multipaxos.py\<close>): leadership, proposals,
    decisions and bounded catch-up; agreement over leadership changes, rebuilding, termination.
  \<^item> \<open>MultiPaxos_Machine\<close>, \<open>MultiPaxos_Client\<close>, \<open>MultiPaxos_Machine_Safety\<close>, \<open>MultiPaxos_Service\<close>
    (\<^verbatim>\<open>multipaxos_state_machine.py\<close>, \<^verbatim>\<open>multipaxos_client.py\<close>): durable applied prefixes, request
    deduplication, \<open>submit\<close>, \<open>poll\<close> and \<open>execute\<close>; replicas agree, requests take effect once and have one
    result; what \<open>execute\<close> reports rests on the node's durable prefix.
  \<^item> \<open>Log_Index\<close> (\<^verbatim>\<open>log_index.py\<close>), \<open>Raft\<close>, \<open>Raft_Election\<close>, \<open>Raft_Safety\<close> (\<^verbatim>\<open>raft.py\<close>): log views with a
    compaction boundary, elections with pre-votes and timers, AppendEntries; Election Safety for majorities of
    durable votes, the effect and answers of the handlers, termination without timers.
  \<^item> \<open>State_Machine\<close>, \<open>State_Machine_Safety\<close> (\<^verbatim>\<open>state_machine.py\<close>, \<^verbatim>\<open>commit_recovery.py\<close>): the applier over
    whatever the cluster does; one entry per index ever applied, exactly once, in order.
  \<^item> \<open>KV_Commands\<close>, \<open>Replicated_KV\<close>, \<open>Replicated_KV_Safety\<close> (\<^verbatim>\<open>kv.py\<close>): the store with client sessions, its
    refinement of an abstract session store (locale \<open>step_refinement\<close>), rebuilding. \<open>Snapshots\<close>,
    \<open>Snapshot_Safety\<close> (\<^verbatim>\<open>snapshot.py\<close>): create, compact, install, validation.
  \<^item> \<open>History\<close>, \<open>Linearizability\<close>, \<open>Pending_Extensions\<close>, \<open>History_Replay\<close>, \<open>Multikey\<close>, \<open>Minimizers\<close>
    (\<^verbatim>\<open>linearizability.py\<close>, \<^verbatim>\<open>multikey_linearizability.py\<close>, \<^verbatim>\<open>_deletion_minimizer.py\<close>, \<^verbatim>\<open>history_minimizer.py\<close>):
    operation histories, the memoised search with and without pending operations, per-key projection,
    deletion minimizers; the searches decide linearizability, locality, 1-minimality.

  \<^bold>\<open>What the theorems quantify over.\<close> Each protocol has an inductive step relation (\<open>paxos_step\<close>,
  \<open>paxos_log_step\<close>, \<open>multipaxos_step\<close>, \<open>machine_step\<close>, \<open>client_step\<close>, \<open>raft_step\<close>, \<open>sm_step\<close>, \<open>kv_step\<close>): any
  move of the simulated network (delivery in queue order under any fault plan, crash, restart, partition,
  link faults) and any call of the component's public operations that returns. Reachable states start at the
  constructor over a fresh simulator. The invariants are proved for these relations, so properties hold over
  every schedule. Agreement is stated over evidence the protocol leaves in durable state (accept
  histories, votes), held by more than half of the configured nodes, and not only over the record the
  harness keeps of decisions. A step is a call that returns; the state that a raised exception leaves behind is not
  modelled, so a run ends where an exception is raised.

  \<^bold>\<open>Bounds and fuel.\<close> No definition takes fuel of the model's own. \<open>execute\<close> counts the rounds the code counts;
  the catch-up of Multi-Paxos has the code's window, attempts and delay; the pending-aware search has the
  code's budget of states, and a property in \<open>Pending_Extensions\<close> gives the budget that always suffices. The runs of the
  delivery loop are shown to return where they do: always for the Paxos variants, and for Raft without
  election timers (with timers a cluster may elect forever).

  \<^bold>\<open>Not modelled.\<close> The campaign layer (generators over Python's \<^verbatim>\<open>random\<close>, scenario runners, JSON artifacts and
  replay codecs, their minimizers, demonstrations) drives the components above and checks nothing of its own.
  The leader-side Raft services (\<^verbatim>\<open>replication.py\<close>, \<^verbatim>\<open>leader_service.py\<close>, \<^verbatim>\<open>linearizable_read.py\<close>, liveness
  monitors, leadership transfer) and reconfiguration (\<^verbatim>\<open>membership_log.py\<close>, the reconfigurable cluster of
  \<^verbatim>\<open>membership.py\<close>) act on a cluster only through operations that \<open>raft_step\<close> already allows (AppendEntries with
  any payload, log writes, commit advances, elections), so Election Safety covers them, but their own logic is
  not modelled. Client sessions over Raft (\<^verbatim>\<open>client_session.py\<close>) and the JSON checkpoint of a client journal
  (\<^verbatim>\<open>client_journal_checkpoint.py\<close>) are not modelled either. Memory, time and the text of exception messages are
  outside the model.
\<close>

end
